(* ===== verification/Prelude.thy ===== *)
theory Prelude
  imports Main "HOL-Library.Word"
begin

text \<open>
  Shared vocabulary of the development: the machine types of the C++ code, byte strings and
  their literals, \<open>size_t\<close> arithmetic, big-endian integers, and the generic facts on lists and
  words that the component theories use.
\<close>

section \<open>Machine types\<close>

unbundle bit_operations_syntax

text \<open>\<open>char\<close>, \<open>uint8_t\<close> are \<open>byte\<close>; a plain \<open>char\<close> is signed on the platform
  the library supports (Linux on x86), so a comparison of a \<open>char\<close> reads it with \<open>sint\<close>.\<close>

type_synonym byte = "8 word"
type_synonym u16 = "16 word"
type_synonym u32 = "32 word"
type_synonym u64 = "64 word"

text \<open>A \<open>std::string\<close> or a \<open>(pointer, size)\<close> pair is the list of its bytes. A C string
  literal is written with \<open>str\<close>.\<close>

type_synonym bytes = "byte list"

definition str :: "string \<Rightarrow> bytes" where
  "str s = map of_char s"

lemma str_simps [simp]:
  "str [] = []"
  "str (c # cs) = of_char c # str cs"
  by (simp_all add: str_def)

lemma length_str [simp]: "length (str s) = length s"
  by (simp add: str_def)

text \<open>Arithmetic on \<open>size_t\<close>: 64 bits, every operation wraps around.\<close>

definition sz_add :: "nat \<Rightarrow> nat \<Rightarrow> nat" where
  "sz_add a b = (a + b) mod 2 ^ 64"

definition sz_sub :: "nat \<Rightarrow> nat \<Rightarrow> nat" where
  "sz_sub a b = (a + (2 ^ 64 - b mod 2 ^ 64)) mod 2 ^ 64"

definition sz_mul :: "nat \<Rightarrow> nat \<Rightarrow> nat" where
  "sz_mul a b = (a * b) mod 2 ^ 64"

text \<open>A conversion to the 32-bit \<open>int\<close>.\<close>

definition to_int32 :: "int \<Rightarrow> int" where
  "to_int32 i = signed_take_bit 31 i"

lemma to_int32_small: "0 \<le> i \<Longrightarrow> i < 2 ^ 31 \<Longrightarrow> to_int32 i = i"
  by (simp add: to_int32_def signed_take_bit_int_eq_self)

lemma sz_add_small: "a + b < 2 ^ 64 \<Longrightarrow> sz_add a b = a + b"
  by (simp add: sz_add_def)

lemma sz_mul_small: "a * b < 2 ^ 64 \<Longrightarrow> sz_mul a b = a * b"
  by (simp add: sz_mul_def)

lemma sz_sub_small: "b \<le> a \<Longrightarrow> a < 2 ^ 64 \<Longrightarrow> sz_sub a b = a - b"
  by (simp add: sz_sub_def mod_if)

lemma sz_sub_wraps: "a < b \<Longrightarrow> b < 2 ^ 64 \<Longrightarrow> sz_sub a b = 2 ^ 64 - (b - a)"
  by (simp add: sz_sub_def)

section \<open>Collections of facts\<close>

text \<open>\<open>content_simps\<close>: what an operation does to the abstract content of a buffer.
  \<open>inv_intros\<close>: that an operation keeps an invariant.\<close>

named_theorems content_simps
named_theorems inv_intros

section \<open>Big-endian integers\<close>

definition be16 :: "u16 \<Rightarrow> bytes" where
  "be16 v = [ucast (drop_bit 8 v), ucast v]"

definition be32 :: "u32 \<Rightarrow> bytes" where
  "be32 v = [ucast (drop_bit 24 v), ucast (drop_bit 16 v), ucast (drop_bit 8 v), ucast v]"

definition be64 :: "u64 \<Rightarrow> bytes" where
  "be64 v = [ucast (drop_bit 56 v), ucast (drop_bit 48 v), ucast (drop_bit 40 v),
             ucast (drop_bit 32 v), ucast (drop_bit 24 v), ucast (drop_bit 16 v),
             ucast (drop_bit 8 v), ucast v]"

lemma length_be [simp]: "length (be16 v) = 2" "length (be32 w) = 4" "length (be64 x) = 8"
  by (simp_all add: be16_def be32_def be64_def)

text \<open>One byte of a word, moved back to its place, holds exactly the bits it was cut from.\<close>

lemma bit_byte_slice:
  fixes v :: "'a::len word"
  shows "bit (push_bit k (ucast (ucast (drop_bit k v) :: byte)) :: 'a word) n \<longleftrightarrow>
           k \<le> n \<and> n < k + 8 \<and> bit v n"
  by (auto simp: bit_simps dest: bit_imp_le_length)

lemma bit_byte_low:
  fixes v :: "'a::len word"
  shows "bit (ucast (ucast v :: byte) :: 'a word) n \<longleftrightarrow> n < 8 \<and> bit v n"
  by (auto simp: bit_simps dest: bit_imp_le_length)

lemma be16_join:
  "ucast (ucast v :: byte) OR push_bit 8 (ucast (ucast (drop_bit 8 v) :: byte)) = (v :: u16)"
  by (rule bit_word_eqI) (auto simp: bit_or_iff bit_byte_slice bit_byte_low)

lemma be32_join:
  "ucast (ucast v :: byte) OR push_bit 8 (ucast (ucast (drop_bit 8 v) :: byte))
    OR push_bit 16 (ucast (ucast (drop_bit 16 v) :: byte))
    OR push_bit 24 (ucast (ucast (drop_bit 24 v) :: byte)) = (v :: u32)"
  by (rule bit_word_eqI) (simp add: bit_or_iff bit_byte_slice bit_byte_low, arith)

lemma be64_join:
  "ucast (ucast v :: byte) OR push_bit 8 (ucast (ucast (drop_bit 8 v) :: byte))
    OR push_bit 16 (ucast (ucast (drop_bit 16 v) :: byte))
    OR push_bit 24 (ucast (ucast (drop_bit 24 v) :: byte))
    OR push_bit 32 (ucast (ucast (drop_bit 32 v) :: byte))
    OR push_bit 40 (ucast (ucast (drop_bit 40 v) :: byte))
    OR push_bit 48 (ucast (ucast (drop_bit 48 v) :: byte))
    OR push_bit 56 (ucast (ucast (drop_bit 56 v) :: byte)) = (v :: u64)"
  by (rule bit_word_eqI) (simp add: bit_or_iff bit_byte_slice bit_byte_low, arith)

section \<open>Words as numbers\<close>

lemma nat_or_add: "q < 2 ^ k \<Longrightarrow> push_bit k p OR q = p * 2 ^ k + (q :: nat)"
proof -
  assume "q < 2 ^ k"
  then have q: "take_bit k q = q" by (simp add: take_bit_nat_eq_self)
  have "push_bit k p AND take_bit k q = 0"
    by (rule bit_eqI) (auto simp: bit_simps)
  then have "push_bit k p + take_bit k q = push_bit k p OR take_bit k q"
    by (rule disjunctive_add_eq_or)
  then show ?thesis by (simp add: q push_bit_eq_mult)
qed

lemma unat_drop_bit: "unat (drop_bit n (w :: 'a::len word)) = unat w div 2 ^ n"
  by (simp add: unsigned_drop_bit_eq take_bit_nat_eq_self flip: drop_bit_eq_div)

lemma unat_or_push:
  fixes a b :: "'a::len word"
  assumes "unat b < 2 ^ k" and "k \<le> LENGTH('a)"
  shows "unat (push_bit k a OR b) = unat a mod 2 ^ (LENGTH('a) - k) * 2 ^ k + unat b"
proof -
  have "unat (push_bit k a) = push_bit k (take_bit (LENGTH('a) - k) (unat a))"
    using assms by (simp add: unsigned_push_bit_eq take_bit_push_bit)
  then show ?thesis using assms by (simp add: unsigned_or_eq nat_or_add) (simp add: take_bit_eq_mod)
qed

lemma unat_and_mask:
  fixes w :: "'a::len word"
  shows "unat (w AND mask n) = unat w mod 2 ^ n"
proof -
  have "unat (w AND mask n) = take_bit n (unat w)"
    by (simp only: take_bit_eq_mask [symmetric] unsigned_take_bit_eq)
  then show ?thesis by (simp add: take_bit_eq_mod)
qed

lemma byte_masks: "(3 :: byte) = mask 2" "(15 :: byte) = mask 4" "(63 :: byte) = mask 6"
  by (simp_all add: mask_eq_exp_minus_1)

lemma unat_and_low: "unat (w AND 3) = unat (w :: byte) mod 4"
  "unat (w AND 15) = unat w mod 16"
  "unat (w AND 63) = unat w mod 64"
  by (simp_all add: byte_masks unat_and_mask)

lemma unat_byte_less: "unat (w :: byte) < 256"
  by (rule order.strict_trans2 [OF unsigned_less]) simp

lemma drop_high: "drop_bit 4 (w AND 0xf0) = drop_bit 4 (w :: byte)"
  "drop_bit 6 (w AND 0xc0) = drop_bit 6 (w :: byte)"
  using unat_byte_less [of w]
  by (auto simp: drop_bit_and word_unat_eq_iff unat_and_low unat_drop_bit)

end
