(* ===== verification/TimeStamp.thy ===== *)
theory TimeStamp
  imports Prelude "HOL-Library.Signed_Division"
begin

text \<open>
  \<^verbatim>\<open>src/src/brickred/timestamp.{h,cc}\<close>: wall-clock time as seconds and nanoseconds. The two
  members are \<open>int64_t\<close>; the model uses \<open>int\<close>, since a time near \<open>2^63\<close> seconds is not a time.
  C++ division and remainder truncate towards zero: \<open>sdiv\<close> and \<open>smod\<close>. The reading of the
  clock, \<open>localtime_r\<close> and \<open>strftime\<close> are arguments. The order of the code (\<open>operator<\<close>) is made the
  type's linear order.
\<close>

datatype timestamp = Timestamp (ts_second: int) (ts_nanosecond: int)

definition getMilliSecond :: "timestamp \<Rightarrow> int" where
  "getMilliSecond t = ts_nanosecond t sdiv 1000000"

text \<open>\<open>operator+=\<close>, with the carry of one second.\<close>

definition ts_add :: "timestamp \<Rightarrow> int \<Rightarrow> timestamp" where
  "ts_add t millisecond =
     (let sec = ts_second t + millisecond sdiv 1000;
          nsec = ts_nanosecond t + millisecond smod 1000 * 1000000
      in if nsec \<ge> 1000000000 then Timestamp (sec + 1) (nsec - 1000000000)
         else Timestamp sec nsec)"

definition ts_less :: "timestamp \<Rightarrow> timestamp \<Rightarrow> bool" where
  "ts_less t other =
     (if ts_second t \<noteq> ts_second other then ts_second t < ts_second other
      else ts_nanosecond t < ts_nanosecond other)"

text \<open>\<open>operator+\<close> copies and adds.\<close>

definition ts_plus :: "timestamp \<Rightarrow> int \<Rightarrow> timestamp" where
  "ts_plus t millisecond = ts_add t millisecond"

definition millisecondLess :: "timestamp \<Rightarrow> timestamp \<Rightarrow> bool" where
  "millisecondLess t other =
     (if ts_second t \<noteq> ts_second other then ts_second t < ts_second other
      else getMilliSecond t < getMilliSecond other)"

definition millisecondEqual :: "timestamp \<Rightarrow> timestamp \<Rightarrow> bool" where
  "millisecondEqual t other \<longleftrightarrow>
     ts_second t = ts_second other \<and> getMilliSecond t = getMilliSecond other"

definition distanceSecond :: "timestamp \<Rightarrow> timestamp \<Rightarrow> int" where
  "distanceSecond t other =
     (if ts_second t > ts_second other then ts_second t - ts_second other
      else ts_second other - ts_second t)"

definition distanceMillisecond :: "timestamp \<Rightarrow> timestamp \<Rightarrow> int" where
  "distanceMillisecond t other =
     (let (bigger, smaller) = (if ts_less t other then (other, t) else (t, other))
      in (ts_second bigger - ts_second smaller) * 1000 +
         (getMilliSecond bigger - getMilliSecond smaller))"

text \<open>\<open>setNow\<close> and \<open>now\<close> from the reading of the clock (\<open>struct timespec\<close>); \<open>format\<close> from the two
  functions of the C library it calls.\<close>

definition setNow :: "int \<times> int \<Rightarrow> timestamp \<Rightarrow> timestamp" where
  "setNow clock t = Timestamp (fst clock) (snd clock)"

definition ts_now :: "int \<times> int \<Rightarrow> int" where
  "ts_now clock = fst clock"

definition ts_format :: "('f \<Rightarrow> 'tm \<Rightarrow> bytes) \<Rightarrow> (int \<Rightarrow> 'tm) \<Rightarrow> 'f \<Rightarrow> int \<Rightarrow> bytes" where
  "ts_format strftime localtime_r fmt second = strftime fmt (localtime_r second)"

section \<open>The order of time stamps\<close>

instantiation timestamp :: linorder
begin

definition less_timestamp :: "timestamp \<Rightarrow> timestamp \<Rightarrow> bool" where
  "less_timestamp a b = ts_less a b"

definition less_eq_timestamp :: "timestamp \<Rightarrow> timestamp \<Rightarrow> bool" where
  "less_eq_timestamp a b = (\<not> ts_less b a)"

instance
  by standard
     (auto simp: less_timestamp_def less_eq_timestamp_def ts_less_def split: if_splits
       intro: timestamp.expand)

end

section \<open>Well-formed time stamps and their value in milliseconds\<close>

definition ts_wf :: "timestamp \<Rightarrow> bool" where
  "ts_wf t \<longleftrightarrow> 0 \<le> ts_nanosecond t \<and> ts_nanosecond t < 1000000000"

definition ts_ms :: "timestamp \<Rightarrow> int" where
  "ts_ms t = ts_second t * 1000 + ts_nanosecond t div 1000000"

lemma sdiv_smod_nonneg:
  "0 \<le> (a :: int) \<Longrightarrow> 0 < b \<Longrightarrow> a sdiv b = a div b"
  "0 \<le> a \<Longrightarrow> 0 < b \<Longrightarrow> a smod b = a mod b"
  by (simp_all add: signed_divide_int_def signed_modulo_int_def sgn_if minus_div_mult_eq_mod
      mult.commute)

lemma getMilliSecond_wf: "ts_wf t \<Longrightarrow> getMilliSecond t = ts_nanosecond t div 1000000"
  by (simp add: ts_wf_def getMilliSecond_def sdiv_smod_nonneg)

lemma ts_add_wf: "ts_wf t \<Longrightarrow> 0 \<le> ms \<Longrightarrow> ts_wf (ts_add t ms)"
  by (auto simp: ts_wf_def ts_add_def sdiv_smod_nonneg Let_def)

lemma ts_add_ms:
  assumes "ts_wf t" and "0 \<le> ms"
  shows "ts_ms (ts_add t ms) = ts_ms t + ms"
proof -
  define q r n k where "q = ms div 1000" and "r = ms mod 1000" and "n = ts_nanosecond t"
    and "k = r - 1000"
  have ms: "ms = q * 1000 + r" by (simp add: q_def r_def)
  have eq: "ts_add t ms =
      (if n + r * 1000000 \<ge> 1000000000
       then Timestamp (ts_second t + q + 1) (n + k * 1000000)
       else Timestamp (ts_second t + q) (n + r * 1000000))"
    using assms(2)
    by (simp add: ts_add_def sdiv_smod_nonneg Let_def q_def r_def n_def k_def)
  have div: "(n + j * 1000000) div 1000000 = j + n div 1000000" for j
    by (rule div_mult_self1) simp
  have "k + 1000 = r" by (simp add: k_def)
  then show ?thesis
    by (simp add: ts_ms_def eq div n_def [symmetric]) (simp add: ms)
qed

lemma millisecondLess_ms:
  assumes "ts_wf a" and "ts_wf b"
  shows "millisecondLess a b \<longleftrightarrow> ts_ms a < ts_ms b"
proof -
  have "0 \<le> ts_nanosecond a div 1000000" "ts_nanosecond a div 1000000 < 1000"
    "0 \<le> ts_nanosecond b div 1000000" "ts_nanosecond b div 1000000 < 1000"
    using assms by (auto simp: ts_wf_def)
  then show ?thesis
    by (auto simp: millisecondLess_def ts_ms_def getMilliSecond_wf [OF assms(1)]
        getMilliSecond_wf [OF assms(2)])
qed

lemma ts_le_ms:
  assumes "ts_wf a" and "ts_wf b" and "a \<le> b"
  shows "ts_ms a \<le> ts_ms b"
proof -
  have "ts_nanosecond a div 1000000 < 1000" "0 \<le> ts_nanosecond b div 1000000"
    using assms by (auto simp: ts_wf_def)
  then show ?thesis
    using assms(3)
    by (auto simp: less_eq_timestamp_def ts_less_def ts_ms_def zdiv_mono1 split: if_splits)
qed

lemma ts_less_add: "ts_wf t \<Longrightarrow> 0 < ms \<Longrightarrow> t < ts_add t ms"
  using ts_add_ms [of t ms] ts_add_wf [of t ms] ts_le_ms [of "ts_add t ms" t]
  by (cases "ts_add t ms \<le> t") auto

lemma distanceMillisecond_ms:
  assumes "ts_wf a" and "ts_wf b"
  shows "distanceMillisecond a b = \<bar>ts_ms a - ts_ms b\<bar>"
proof (cases "a < b")
  case True
  then have "ts_ms a \<le> ts_ms b" using ts_le_ms assms by simp
  with True show ?thesis
    using assms by (simp add: distanceMillisecond_def less_timestamp_def ts_ms_def getMilliSecond_wf)
next
  case False
  then have "ts_ms b \<le> ts_ms a" using ts_le_ms assms by simp
  with False show ?thesis
    using assms by (simp add: distanceMillisecond_def less_timestamp_def ts_ms_def getMilliSecond_wf)
qed

end
