(* ===== verification/ArrayHeap.thy ===== *)
theory ArrayHeap
  imports Prelude "HOL-Library.Multiset"
begin

text \<open>
  The key view of the timer heap: a list of keys whose slot 0 is a dummy and in which node \<open>i\<close>
  has parent \<open>i div 2\<close> and children \<open>2 * i\<close>, \<open>2 * i + 1\<close>. \<open>up_keys\<close> and \<open>down_keys\<close> are what the
  loops of \<open>minHeapInsert\<close> and \<open>minHeapErase\<close> do to the keys; \<open>TimerHeap\<close> shows that the code's
  loops act on the keys as these functions do. This file holds the heap-order facts.
\<close>

section \<open>Order, swap, sift\<close>

definition heap_ordered :: "'a::linorder list \<Rightarrow> bool" where
  "heap_ordered ks \<longleftrightarrow> (\<forall>i. 2 \<le> i \<and> i < length ks \<longrightarrow> ks ! (i div 2) \<le> ks ! i)"

definition swap_at :: "'a list \<Rightarrow> nat \<Rightarrow> nat \<Rightarrow> 'a list" where
  "swap_at ks i j = ks[i := ks ! j, j := ks ! i]"

lemma length_swap_at [simp]: "length (swap_at ks i j) = length ks"
  by (simp add: swap_at_def)

lemma swap_at_Nil [simp]: "swap_at ks i j = [] \<longleftrightarrow> ks = []"
  by (simp add: swap_at_def)

lemma nth_swap_at:
  "i < length ks \<Longrightarrow> j < length ks \<Longrightarrow> k < length ks \<Longrightarrow>
     swap_at ks i j ! k = (if k = j then ks ! i else if k = i then ks ! j else ks ! k)"
  by (simp add: swap_at_def nth_list_update)

lemma mset_swap_at: "i < length ks \<Longrightarrow> j < length ks \<Longrightarrow> mset (swap_at ks i j) = mset ks"
  by (cases "i = j") (simp_all add: swap_at_def mset_swap)

lemma map_swap_at: "i < length ks \<Longrightarrow> j < length ks \<Longrightarrow> map f (swap_at ks i j) = swap_at (map f ks) i j"
  by (simp add: swap_at_def map_update)

function up_keys :: "'a::linorder list \<Rightarrow> nat \<Rightarrow> 'a list" where
  "up_keys ks cur =
     (let parent = cur div 2
      in if parent = 0 then ks
         else if ks ! parent < ks ! cur then ks
         else up_keys (swap_at ks parent cur) parent)"
  by pat_completeness auto
termination by (relation "measure snd") auto

declare up_keys.simps [simp del]

definition least_child :: "'a::linorder list \<Rightarrow> nat \<Rightarrow> nat" where
  "least_child ks cur =
     (if 2 * cur + 1 < length ks \<and> ks ! (2 * cur + 1) < ks ! (2 * cur)
      then 2 * cur + 1 else 2 * cur)"

lemma least_child_cases: "least_child ks cur = 2 * cur \<or> least_child ks cur = 2 * cur + 1"
  by (simp add: least_child_def)

lemma least_child_div [simp]: "least_child ks cur div 2 = cur"
  by (simp add: least_child_def)

lemma least_child_less: "2 * cur < length ks \<Longrightarrow> least_child ks cur < length ks"
  by (simp add: least_child_def)

lemma least_child_greater: "0 < cur \<Longrightarrow> cur < least_child ks cur"
  by (simp add: least_child_def)

lemma least_child_least:
  "i div 2 = cur \<Longrightarrow> i < length ks \<Longrightarrow> ks ! least_child ks cur \<le> ks ! i"
proof -
  assume i: "i div 2 = cur" "i < length ks"
  then consider "i = 2 * cur" | "i = 2 * cur + 1" by linarith
  then show ?thesis
    using i(2) by cases (auto simp: least_child_def not_less)
qed

function down_keys :: "'a::linorder list \<Rightarrow> nat \<Rightarrow> 'a list" where
  "down_keys ks cur =
     (if cur = 0 \<or> 2 * cur \<ge> length ks then ks
      else let child = least_child ks cur
           in if ks ! cur < ks ! child then ks
              else down_keys (swap_at ks cur child) child)"
  by pat_completeness auto
termination
  by (relation "measure (\<lambda>(ks, cur). length ks - cur)")
     (auto simp: least_child_def)

declare down_keys.simps [simp del]

section \<open>Sifting keeps the elements\<close>

lemma length_up_keys [simp]: "length (up_keys ks cur) = length ks"
  by (induction ks cur rule: up_keys.induct) (subst up_keys.simps, simp add: Let_def)

lemma length_down_keys [simp]: "length (down_keys ks cur) = length ks"
  by (induction ks cur rule: down_keys.induct) (subst down_keys.simps, simp add: Let_def)

lemma mset_up_keys: "cur < length ks \<Longrightarrow> mset (up_keys ks cur) = mset ks"
proof (induction ks cur rule: up_keys.induct)
  case (1 ks cur)
  then show ?case
    by (subst up_keys.simps) (simp add: Let_def mset_swap_at)
qed

lemma mset_down_keys: "cur < length ks \<Longrightarrow> mset (down_keys ks cur) = mset ks"
proof (induction ks cur rule: down_keys.induct)
  case (1 ks cur)
  then show ?case
    by (subst down_keys.simps) (simp add: Let_def mset_swap_at least_child_less)
qed

section \<open>Sifting up restores the order\<close>

text \<open>\<open>up_ready ks cur\<close>: ordered except possibly between \<open>cur\<close> and its parent.\<close>

definition up_ready :: "'a::linorder list \<Rightarrow> nat \<Rightarrow> bool" where
  "up_ready ks cur \<longleftrightarrow>
     (\<forall>i. 2 \<le> i \<and> i < length ks \<and> i \<noteq> cur \<longrightarrow> ks ! (i div 2) \<le> ks ! i) \<and>
     (\<forall>i. 2 \<le> cur \<and> i < length ks \<and> i div 2 = cur \<longrightarrow> ks ! (cur div 2) \<le> ks ! i)"

lemma up_ready_swap:
  assumes ready: "up_ready ks cur" and cur: "2 \<le> cur" "cur < length ks"
    and le: "ks ! cur \<le> ks ! (cur div 2)"
  shows "up_ready (swap_at ks (cur div 2) cur) (cur div 2)"
proof -
  let ?p = "cur div 2" and ?ks = "swap_at ks (cur div 2) cur"
  have p: "0 < ?p" "?p < cur" "?p < length ks" using cur by auto
  have nth: "?ks ! k = (if k = cur then ks ! ?p else if k = ?p then ks ! cur else ks ! k)"
    if "k < length ks" for k
    using that p cur by (simp add: nth_swap_at)
  have ord: "ks ! (i div 2) \<le> ks ! i" if "2 \<le> i" "i < length ks" "i \<noteq> cur" for i
    using ready that by (simp add: up_ready_def)
  have grand: "ks ! ?p \<le> ks ! i" if "i < length ks" "i div 2 = cur" for i
    using ready that cur by (auto simp: up_ready_def)
  have "?ks ! (i div 2) \<le> ?ks ! i" if i: "2 \<le> i" "i < length ks" "i \<noteq> ?p" for i
  proof -
    have "i div 2 < length ks" using i by linarith
    then show ?thesis
      using i ord [of i] grand [of i] le p nth [of i] nth [of "i div 2"]
      by (auto split: if_splits)
  qed
  moreover have "?ks ! (?p div 2) \<le> ?ks ! i" if i: "2 \<le> ?p" "i < length ks" "i div 2 = ?p" for i
  proof -
    have "?p div 2 < length ks" "?p div 2 \<noteq> ?p" "?p div 2 \<noteq> cur" "2 \<le> i" "i \<noteq> ?p"
      using i p by auto
    then show ?thesis
      using ord [of ?p] ord [of i] i p nth [of i] nth [of "?p div 2"] le
      by (auto intro: order_trans)
  qed
  ultimately show ?thesis by (simp add: up_ready_def)
qed

lemma up_keys_ordered:
  "up_ready ks cur \<Longrightarrow> 0 < cur \<Longrightarrow> cur < length ks \<Longrightarrow> heap_ordered (up_keys ks cur)"
proof (induction ks cur rule: up_keys.induct)
  case (1 ks cur)
  consider "cur = 1" | "2 \<le> cur" "ks ! (cur div 2) < ks ! cur"
    | "2 \<le> cur" "ks ! cur \<le> ks ! (cur div 2)"
    using "1.prems" by (cases "cur = 1"; cases "ks ! (cur div 2) < ks ! cur") auto
  then show ?case
  proof cases
    case 1
    then show ?thesis
      using "1.prems" by (subst up_keys.simps) (auto simp: up_ready_def heap_ordered_def)
  next
    case 2
    then show ?thesis
      using "1.prems"
      by (subst up_keys.simps) (auto simp: up_ready_def heap_ordered_def Let_def)
  next
    case 3
    moreover have "0 < cur div 2" "cur div 2 < length ks"
      using 3 "1.prems" by auto
    moreover have "\<not> ks ! (cur div 2) < ks ! cur"
      using 3 by (simp add: not_less)
    ultimately show ?thesis
      using "1.IH" [of "cur div 2"] up_ready_swap [of ks cur] "1.prems"
      by (subst up_keys.simps) (auto simp: Let_def)
  qed
qed

section \<open>Sifting down restores the order\<close>

text \<open>\<open>down_ready ks cur\<close>: ordered except possibly between \<open>cur\<close> and its children.\<close>

definition down_ready :: "'a::linorder list \<Rightarrow> nat \<Rightarrow> bool" where
  "down_ready ks cur \<longleftrightarrow>
     (\<forall>i. 2 \<le> i \<and> i < length ks \<and> i div 2 \<noteq> cur \<longrightarrow> ks ! (i div 2) \<le> ks ! i) \<and>
     (\<forall>i. 2 \<le> cur \<and> i < length ks \<and> i div 2 = cur \<longrightarrow> ks ! (cur div 2) \<le> ks ! i)"

lemma down_ready_swap:
  assumes ready: "down_ready ks cur" and cur: "0 < cur" "2 * cur < length ks"
    and le: "ks ! least_child ks cur \<le> ks ! cur"
  shows "down_ready (swap_at ks cur (least_child ks cur)) (least_child ks cur)"
proof -
  let ?c = "least_child ks cur" and ?ks = "swap_at ks cur (least_child ks cur)"
  have c: "cur < ?c" "?c < length ks" "?c div 2 = cur"
    using cur by (simp_all add: least_child_greater least_child_less)
  have nth: "?ks ! k = (if k = ?c then ks ! cur else if k = cur then ks ! ?c else ks ! k)"
    if "k < length ks" for k
    using that c by (simp add: nth_swap_at)
  have ord: "ks ! (i div 2) \<le> ks ! i" if "2 \<le> i" "i < length ks" "i div 2 \<noteq> cur" for i
    using ready that by (simp add: down_ready_def)
  have grand: "ks ! (cur div 2) \<le> ks ! ?c" if "2 \<le> cur"
    using ready that c by (simp add: down_ready_def)
  have "?ks ! (i div 2) \<le> ?ks ! i" if i: "2 \<le> i" "i < length ks" "i div 2 \<noteq> ?c" for i
  proof -
    have len: "i div 2 < length ks" using i by linarith
    consider "i = ?c" | "i = cur" | "i \<noteq> ?c" "i div 2 = cur" | "i \<noteq> cur" "i div 2 \<noteq> cur" "i \<noteq> ?c"
      using c by blast
    then show ?thesis
    proof cases
      case 1
      then show ?thesis using nth [OF len] nth [of i] i c le by simp
    next
      case 2
      then show ?thesis using nth [OF len] nth [of i] i c grand by auto
    next
      case 3
      then show ?thesis
        using nth [OF len] nth [of i] i c least_child_least [of i cur ks] by auto
    next
      case 4
      then show ?thesis using nth [OF len] nth [of i] i ord [of i] by simp
    qed
  qed
  moreover have "?ks ! (?c div 2) \<le> ?ks ! i" if i: "i < length ks" "i div 2 = ?c" for i
  proof -
    have "2 \<le> i" "i \<noteq> ?c" "i \<noteq> cur" using i c cur by auto
    then show ?thesis
      using ord [of i] i c nth [of i] nth [of cur] cur by simp
  qed
  ultimately show ?thesis by (simp add: down_ready_def)
qed

lemma down_ready_ordered:
  assumes "down_ready ks cur"
    and "\<And>i. i < length ks \<Longrightarrow> 2 \<le> i \<Longrightarrow> i div 2 = cur \<Longrightarrow> ks ! cur \<le> ks ! i"
  shows "heap_ordered ks"
  using assms by (auto simp: down_ready_def heap_ordered_def)

lemma down_keys_ordered:
  "down_ready ks cur \<Longrightarrow> 0 < cur \<Longrightarrow> heap_ordered (down_keys ks cur)"
proof (induction ks cur rule: down_keys.induct)
  case (1 ks cur)
  let ?c = "least_child ks cur"
  consider "length ks \<le> 2 * cur" | "2 * cur < length ks" "ks ! cur < ks ! ?c"
    | "2 * cur < length ks" "ks ! ?c \<le> ks ! cur"
    by (cases "ks ! cur < ks ! ?c"; cases "2 * cur < length ks") auto
  then show ?case
  proof cases
    case 1
    have "heap_ordered ks"
      by (rule down_ready_ordered [OF "1.prems"(1)]) (use 1 in linarith)
    then show ?thesis using 1 by (subst down_keys.simps) simp
  next
    case 2
    have "heap_ordered ks"
      by (rule down_ready_ordered [OF "1.prems"(1)])
         (use 2 least_child_least [of _ cur ks] in fastforce)
    then show ?thesis using 2 by (subst down_keys.simps) (simp add: Let_def)
  next
    case 3
    then have "heap_ordered (down_keys (swap_at ks cur ?c) ?c)"
      using "1.IH" [of ?c] down_ready_swap [of ks cur] least_child_greater [of cur ks] "1.prems"
      by (simp add: not_less)
    then show ?thesis
      using 3 "1.prems" by (subst down_keys.simps) (auto simp: Let_def)
  qed
qed

section \<open>Inserting and erasing a node\<close>

definition insert_keys :: "'a::linorder list \<Rightarrow> 'a \<Rightarrow> 'a list" where
  "insert_keys ks k = up_keys (ks @ [k]) (length ks)"

text \<open>The last node replaces the erased one and is sifted down; it is never sifted up.\<close>

definition erase_keys :: "'a::linorder list \<Rightarrow> nat \<Rightarrow> 'a list" where
  "erase_keys ks cur = down_keys (butlast (ks[cur := last ks])) cur"

lemma insert_keys_ordered:
  assumes "heap_ordered ks" and "0 < length ks"
  shows "heap_ordered (insert_keys ks k)"
proof -
  have "up_ready (ks @ [k]) (length ks)"
    using assms by (auto simp: up_ready_def heap_ordered_def nth_append)
  then show ?thesis
    using assms(2) by (simp add: insert_keys_def up_keys_ordered)
qed

lemma erase_keys_ordered:
  assumes ord: "heap_ordered ks" and cur: "0 < cur" "cur < length ks"
    and up: "2 \<le> cur \<Longrightarrow> ks ! (cur div 2) \<le> last ks"
  shows "heap_ordered (erase_keys ks cur)"
proof -
  let ?ks = "butlast (ks[cur := last ks])"
  have len: "length ?ks = length ks - 1" by simp
  have nth: "?ks ! i = (if i = cur then last ks else ks ! i)" if "i < length ?ks" for i
    using that by (auto simp: nth_butlast nth_list_update)
  have o: "ks ! (i div 2) \<le> ks ! i" if "2 \<le> i" "i < length ks" for i
    using ord that by (simp add: heap_ordered_def)
  have "?ks ! (i div 2) \<le> ?ks ! i" if i: "2 \<le> i" "i < length ?ks" "i div 2 \<noteq> cur" for i
    using i o [of i] up nth [of i] nth [of "i div 2"] by auto
  moreover have "?ks ! (cur div 2) \<le> ?ks ! i"
    if i: "2 \<le> cur" "i < length ?ks" "i div 2 = cur" for i
  proof -
    have "ks ! (cur div 2) \<le> ks ! cur" "ks ! cur \<le> ks ! i" "i \<noteq> cur" "cur div 2 \<noteq> cur"
      using o [of cur] o [of i] i cur by auto
    then show ?thesis
      using nth [of i] nth [of "cur div 2"] i by auto
  qed
  ultimately have "down_ready ?ks cur" by (simp add: down_ready_def)
  then show ?thesis
    using cur(1) by (simp add: erase_keys_def down_keys_ordered)
qed

lemma heap_ordered_root:
  "heap_ordered ks \<Longrightarrow> 1 \<le> i \<Longrightarrow> i < length ks \<Longrightarrow> ks ! 1 \<le> ks ! i"
proof (induction i rule: less_induct)
  case (less i)
  show ?case
  proof (cases "i = 1")
    case False
    then have "1 \<le> i div 2" "i div 2 < i" using less.prems by auto
    then have "ks ! 1 \<le> ks ! (i div 2)" "ks ! (i div 2) \<le> ks ! i"
      using less False by (auto simp: heap_ordered_def)
    then show ?thesis by (rule order_trans)
  qed simp
qed

end
