(* ===== verification/TimerHeap.thy ===== *)
theory TimerHeap
  imports TimeStamp ArrayHeap
begin

text \<open>
  \<^verbatim>\<open>src/src/brickred/timer_heap.{h,cc}\<close>: the timers of an \<open>IOService\<close>. A \<open>Timer\<close> object is
  shared by the id map \<open>timers_\<close> and the vector \<open>timer_min_heap_\<close>, and its \<open>heap_pos_\<close> points
  back into the vector. Every live object is in \<open>timers_\<close> under its own id, so the model keeps
  the objects in that map and a pointer is the id; slot 0 of the vector is the NULL pointer
  \<open>null_timer\<close>. The callback of a timer is an abstract value; what running it does to the heap
  and to the rest of the world is the parameter \<open>run\<close> of \<open>checkTimeout\<close>.
\<close>

section \<open>State\<close>

record 'cb timer =
  t_id :: int
  t_timestamp :: timestamp
  t_timeout :: int
  t_cb :: 'cb
  t_call_times :: int
  t_heap_pos :: int

record 'cb timer_heap =
  th_value :: int
  th_timers :: "int \<rightharpoonup> 'cb timer"
  th_min_heap :: "int list"

definition null_timer :: int where
  "null_timer = -1"

definition TimerHeap :: "'cb timer_heap" where
  "TimerHeap = \<lparr>th_value = 0, th_timers = Map.empty, th_min_heap = [null_timer]\<rparr>"

text \<open>\<open>TimerIdAllocator::getId\<close>: a 64-bit counter that restarts at 0 when it turns negative.\<close>

definition getId :: "int \<Rightarrow> int" where
  "getId value = (let v = signed_take_bit 63 (value + 1) in if v < 0 then 0 else v)"

text \<open>\<open>Timer::Timer\<close> and \<open>Timer::getTimeout\<close>, which narrows the \<open>int64_t\<close> to \<open>int\<close>.\<close>

definition Timer :: "int \<Rightarrow> timestamp \<Rightarrow> int \<Rightarrow> 'cb \<Rightarrow> int \<Rightarrow> 'cb timer" where
  "Timer ident timestamp timeout timer_cb call_times =
     \<lparr>t_id = ident, t_timestamp = timestamp, t_timeout = timeout, t_cb = timer_cb,
      t_call_times = call_times, t_heap_pos = -1\<rparr>"

definition getTimeout :: "'cb timer \<Rightarrow> int" where
  "getTimeout t = signed_take_bit 31 (t_timeout t)"

text \<open>Dereferencing a pointer, and \<open>timer->setHeapPos(pos)\<close> through it.\<close>

definition deref :: "'cb timer_heap \<Rightarrow> int \<Rightarrow> 'cb timer" where
  "deref h p = the (th_timers h p)"

definition update_timer ::
    "'cb timer_heap \<Rightarrow> int \<Rightarrow> ('cb timer \<Rightarrow> 'cb timer) \<Rightarrow> 'cb timer_heap" where
  "update_timer h p f = h\<lparr>th_timers := (th_timers h)(p := map_option f (th_timers h p))\<rparr>"

definition setHeapPos :: "'cb timer_heap \<Rightarrow> int \<Rightarrow> int \<Rightarrow> 'cb timer_heap" where
  "setHeapPos h p pos = update_timer h p (\<lambda>t. t\<lparr>t_heap_pos := pos\<rparr>)"

section \<open>The heap\<close>

text \<open>The key at index \<open>i\<close>: \<open>timer_min_heap_[i]->getTimestamp()\<close>.\<close>

definition heap_key :: "'cb timer_heap \<Rightarrow> nat \<Rightarrow> timestamp" where
  "heap_key h i = t_timestamp (deref h (th_min_heap h ! i))"

text \<open>The exchange both loops do: the two positions, then the two pointers.\<close>

definition swap_nodes :: "'cb timer_heap \<Rightarrow> nat \<Rightarrow> nat \<Rightarrow> 'cb timer_heap" where
  "swap_nodes h i j =
     (let h1 = setHeapPos h (th_min_heap h ! i) (int j);
          h2 = setHeapPos h1 (th_min_heap h ! j) (int i)
      in h2\<lparr>th_min_heap := swap_at (th_min_heap h) i j\<rparr>)"

lemma length_swap_nodes [simp]:
  "length (th_min_heap (swap_nodes h i j)) = length (th_min_heap h)"
  by (simp add: swap_nodes_def Let_def)

text \<open>The loop of \<open>minHeapInsert\<close>.\<close>

function sift_up :: "'cb timer_heap \<Rightarrow> nat \<Rightarrow> 'cb timer_heap" where
  "sift_up h cur_index =
     (let parent_index = cur_index div 2
      in if parent_index = 0 then h
         else if ts_less (heap_key h parent_index) (heap_key h cur_index) then h
         else sift_up (swap_nodes h parent_index cur_index) parent_index)"
  by pat_completeness auto
termination by (relation "measure snd") auto

declare sift_up.simps [simp del]

definition minHeapInsert :: "'cb timer_heap \<Rightarrow> int \<Rightarrow> 'cb timer_heap" where
  "minHeapInsert h timer =
     (let cur_index = length (th_min_heap h);
          h1 = h\<lparr>th_min_heap := th_min_heap h @ [timer]\<rparr>;
          h2 = setHeapPos h1 timer (int cur_index)
      in sift_up h2 cur_index)"

text \<open>The loop of \<open>minHeapErase\<close>: the child to compare with, then the loop. Slot 0 is never the
  current node: its pointer is NULL, and the first guard of \<open>sift_down\<close> stands for the crash of
  dereferencing it.\<close>

definition smaller_child :: "'cb timer_heap \<Rightarrow> nat \<Rightarrow> nat" where
  "smaller_child h cur_index =
     (let child_index = cur_index * 2
      in if child_index + 1 < length (th_min_heap h) \<and>
            ts_less (heap_key h (child_index + 1)) (heap_key h child_index)
         then child_index + 1 else child_index)"

function sift_down :: "'cb timer_heap \<Rightarrow> nat \<Rightarrow> 'cb timer_heap" where
  "sift_down h cur_index =
     (if cur_index = 0 \<or> cur_index * 2 \<ge> length (th_min_heap h) then h
      else let child_index = smaller_child h cur_index
           in if ts_less (heap_key h cur_index) (heap_key h child_index) then h
              else sift_down (swap_nodes h cur_index child_index) child_index)"
  by pat_completeness auto
termination
  by (relation "measure (\<lambda>(h, cur_index). length (th_min_heap h) - cur_index)")
     (auto simp: smaller_child_def Let_def)

declare sift_down.simps [simp del]

definition minHeapErase :: "'cb timer_heap \<Rightarrow> int \<Rightarrow> 'cb timer_heap" where
  "minHeapErase h timer =
     (let pos = t_heap_pos (deref h timer)
      in if pos < 0 then h
         else let cur_index = nat pos;
                  h1 = setHeapPos h timer (-1);
                  h2 = h1\<lparr>th_min_heap :=
                         (th_min_heap h1)[cur_index := last (th_min_heap h1)]\<rparr>;
                  h3 = setHeapPos h2 (th_min_heap h2 ! cur_index) (int cur_index);
                  h4 = h3\<lparr>th_min_heap := butlast (th_min_heap h3)\<rparr>
              in sift_down h4 cur_index)"

definition minHeapTop :: "'cb timer_heap \<Rightarrow> int option" where
  "minHeapTop h = (if length (th_min_heap h) \<le> 1 then None else Some (th_min_heap h ! 1))"

section \<open>The operations of the class\<close>

definition getNextTimeoutMillisecond :: "'cb timer_heap \<Rightarrow> timestamp \<Rightarrow> int" where
  "getNextTimeoutMillisecond h now =
     (case minHeapTop h of
        None \<Rightarrow> -1
      | Some timer \<Rightarrow>
          if ts_less (t_timestamp (deref h timer)) now then 0
          else distanceMillisecond now (t_timestamp (deref h timer)))"

text \<open>\<open>minHeapReserve\<close> only grows the capacity of the vector.\<close>

definition addTimer ::
    "'cb timer_heap \<Rightarrow> timestamp \<Rightarrow> int \<Rightarrow> 'cb \<Rightarrow> int \<Rightarrow> int \<times> 'cb timer_heap" where
  "addTimer h now timeout_ms timer_cb call_times =
     (let timer_id = getId (th_value h);
          h1 = h\<lparr>th_value := timer_id\<rparr>;
          timeout_ms = max 0 timeout_ms;
          timer = Timer timer_id (ts_plus now timeout_ms) timeout_ms timer_cb call_times
      in if th_timers h1 timer_id \<noteq> None then (-1, h1)
         else let h2 = h1\<lparr>th_timers := (th_timers h1)(timer_id \<mapsto> timer)\<rparr>
              in (timer_id, minHeapInsert h2 timer_id))"

definition removeTimer :: "'cb timer_heap \<Rightarrow> int \<Rightarrow> 'cb timer_heap" where
  "removeTimer h timer_id =
     (if th_timers h timer_id = None then h
      else let h1 = minHeapErase h timer_id
           in h1\<lparr>th_timers := (th_timers h1)(timer_id := None)\<rparr>)"

text \<open>One pass of the loop of \<open>checkTimeout\<close> up to the call of the callback: \<open>None\<close> when the loop
  returns, otherwise the id and callback to run and the state in which it runs.\<close>

definition check_due ::
    "timestamp \<Rightarrow> 'cb timer_heap \<Rightarrow> (int \<times> 'cb \<times> 'cb timer_heap) option" where
  "check_due now h =
     (case minHeapTop h of
        None \<Rightarrow> None
      | Some timer \<Rightarrow>
          if millisecondLess now (t_timestamp (deref h timer)) then None
          else let timer_id = t_id (deref h timer);
                   timer_cb = t_cb (deref h timer);
                   h1 = minHeapErase h timer
               in if t_call_times (deref h1 timer) = 1
                  then Some (timer_id, timer_cb,
                             h1\<lparr>th_timers := (th_timers h1)(timer_id := None)\<rparr>)
                  else let h2 = (if t_call_times (deref h1 timer) > 0
                                 then update_timer h1 timer
                                        (\<lambda>t. t\<lparr>t_call_times := t_call_times t - 1\<rparr>)
                                 else h1);
                           h3 = update_timer h2 timer
                                  (\<lambda>t. t\<lparr>t_timestamp := ts_add (t_timestamp t) (getTimeout t)\<rparr>)
                       in Some (timer_id, timer_cb, minHeapInsert h3 timer))"

text \<open>The loop need not end (see \<open>zero_timeout_diverges\<close>): \<open>None\<close> is "does not return". \<open>run\<close>
  is the callback's effect on the heap and on the world outside it.\<close>

partial_function (option) checkTimeout ::
    "('cb \<Rightarrow> int \<Rightarrow> 'cb timer_heap \<times> 'w \<Rightarrow> 'cb timer_heap \<times> 'w) \<Rightarrow> timestamp \<Rightarrow>
     'cb timer_heap \<times> 'w \<Rightarrow> ('cb timer_heap \<times> 'w) option" where
  "checkTimeout run now s =
     (case check_due now (fst s) of
        None \<Rightarrow> Some s
      | Some (timer_id, timer_cb, h) \<Rightarrow>
          checkTimeout run now (run timer_cb timer_id (h, snd s)))"

text \<open>An invariant of the passes holds when the loop returns, and then nothing is due.\<close>

lemma checkTimeout_rule:
  assumes ret: "checkTimeout run now s = Some r" and start: "I s"
    and pass: "\<And>p cb h s. I s \<Longrightarrow> check_due now (fst s) = Some (p, cb, h) \<Longrightarrow> I (run cb p (h, snd s))"
  shows "I r \<and> check_due now (fst r) = None"
proof (rule checkTimeout.raw_induct [where P = "\<lambda>run' now' s r. run' = run \<longrightarrow> now' = now \<longrightarrow>
      I s \<longrightarrow> I r \<and> check_due now (fst r) = None", OF _ ret,
      THEN mp, THEN mp, THEN mp, OF _ refl refl start], intro impI)
  fix rec :: "('a \<Rightarrow> int \<Rightarrow> 'a timer_heap \<times> 'b \<Rightarrow> 'a timer_heap \<times> 'b) \<Rightarrow> timestamp \<Rightarrow>
    'a timer_heap \<times> 'b \<Rightarrow> ('a timer_heap \<times> 'b) option" and run' now' s r
  assume IH: "\<And>run' now' s r. rec run' now' s = Some r \<Longrightarrow> run' = run \<longrightarrow> now' = now \<longrightarrow>
      I s \<longrightarrow> I r \<and> check_due now (fst r) = None"
    and eq: "(case check_due now' (fst s) of None \<Rightarrow> Some s
      | Some (timer_id, timer_cb, h) \<Rightarrow> rec run' now' (run' timer_cb timer_id (h, snd s))) = Some r"
    and same: "run' = run" "now' = now" and g: "I s"
  show "I r \<and> check_due now (fst r) = None"
  proof (cases "check_due now (fst s)")
    case (Some step)
    then show ?thesis using IH [of run now] eq same pass [OF g] by (cases step) auto
  qed (use eq g same in simp)
qed

section \<open>What the operations do to the keys\<close>

abbreviation tkey :: "'cb timer_heap \<Rightarrow> int \<Rightarrow> timestamp" where
  "tkey h p \<equiv> t_timestamp (deref h p)"

definition heap_keys :: "'cb timer_heap \<Rightarrow> timestamp list" where
  "heap_keys h = map (tkey h) (th_min_heap h)"

lemma length_heap_keys [simp]: "length (heap_keys h) = length (th_min_heap h)"
  by (simp add: heap_keys_def)

lemma heap_key_nth: "i < length (th_min_heap h) \<Longrightarrow> heap_key h i = heap_keys h ! i"
  by (simp add: heap_key_def heap_keys_def)

lemma update_timer_sel [simp]:
  "th_min_heap (update_timer h p f) = th_min_heap h"
  "th_value (update_timer h p f) = th_value h"
  "dom (th_timers (update_timer h p f)) = dom (th_timers h)"
  by (auto simp: update_timer_def split: if_splits)

lemma update_timer_lookup:
  "th_timers (update_timer h p f) q = (if q = p then map_option f (th_timers h p) else th_timers h q)"
  by (simp add: update_timer_def)

lemma setHeapPos_sel [simp]:
  "th_min_heap (setHeapPos h p i) = th_min_heap h"
  "th_value (setHeapPos h p i) = th_value h"
  "dom (th_timers (setHeapPos h p i)) = dom (th_timers h)"
  by (simp_all add: setHeapPos_def)

lemma setHeapPos_lookup:
  "th_timers (setHeapPos h p i) q =
     (if q = p then map_option (\<lambda>t. t\<lparr>t_heap_pos := i\<rparr>) (th_timers h p) else th_timers h q)"
  by (simp add: setHeapPos_def update_timer_lookup)

lemma tkey_setHeapPos [simp]: "tkey (setHeapPos h p i) q = tkey h q"
  by (cases "th_timers h q") (auto simp: deref_def setHeapPos_lookup)

lemma tkey_min_heap [simp]: "tkey (h\<lparr>th_min_heap := xs\<rparr>) q = tkey h q"
  by (simp add: deref_def)

text \<open>Everything but the positions of the objects is untouched by heap operations:
  \<open>same_timers h h'\<close>.\<close>

definition same_timers :: "'cb timer_heap \<Rightarrow> 'cb timer_heap \<Rightarrow> bool" where
  "same_timers h h' \<longleftrightarrow> th_value h' = th_value h \<and>
     (\<forall>p. map_option (\<lambda>t. t\<lparr>t_heap_pos := 0\<rparr>) (th_timers h' p) =
          map_option (\<lambda>t. t\<lparr>t_heap_pos := 0\<rparr>) (th_timers h p))"

lemma same_timers_refl [simp]: "same_timers h h"
  by (simp add: same_timers_def)

lemma same_timers_trans: "same_timers a b \<Longrightarrow> same_timers b c \<Longrightarrow> same_timers a c"
  by (simp add: same_timers_def)

lemma same_timers_setHeapPos [simp]: "same_timers h (setHeapPos h p i)"
  by (auto simp: same_timers_def setHeapPos_lookup option.map_comp o_def)

lemma same_timers_min_heap [simp]: "same_timers h (h'\<lparr>th_min_heap := xs\<rparr>) = same_timers h h'"
  by (simp add: same_timers_def)

lemma same_timers_sym: "same_timers h h' \<Longrightarrow> same_timers h' h"
  by (simp add: same_timers_def)

lemma same_timers_None: "same_timers h h' \<Longrightarrow> th_timers h' p = None \<longleftrightarrow> th_timers h p = None"
  by (metis same_timers_def option.map_disc_iff)

lemma same_timers_dom: "same_timers h h' \<Longrightarrow> dom (th_timers h') = dom (th_timers h)"
  by (simp add: dom_def same_timers_None)

lemma same_timers_SomeD:
  assumes same: "same_timers h h'" and t: "th_timers h p = Some t"
  shows "\<exists>i. th_timers h' p = Some (t\<lparr>t_heap_pos := i\<rparr>)"
proof -
  obtain t' where t': "th_timers h' p = Some t'"
    using same_timers_None [OF same, of p] t by auto
  moreover have "map_option (\<lambda>t. t\<lparr>t_heap_pos := 0\<rparr>) (th_timers h' p) =
      map_option (\<lambda>t. t\<lparr>t_heap_pos := 0\<rparr>) (th_timers h p)"
    using same by (simp add: same_timers_def)
  ultimately have "t' = t\<lparr>t_heap_pos := t_heap_pos t'\<rparr>"
    using t by (cases t; cases t') simp
  then have "th_timers h' p = Some (t\<lparr>t_heap_pos := t_heap_pos t'\<rparr>)"
    by (intro trans [OF t'] arg_cong [of _ _ Some])
  then show ?thesis ..
qed

lemma same_timers_tkey:
  assumes "same_timers h h'"
  shows "tkey h' p = tkey h p"
proof (cases "th_timers h p")
  case None
  then have "th_timers h' p = None" by (simp add: same_timers_None [OF assms])
  with None show ?thesis by (simp add: deref_def)
next
  case (Some t)
  then show ?thesis using same_timers_SomeD [OF assms Some] by (auto simp: deref_def)
qed

lemma same_timers_swap [simp]: "same_timers h (swap_nodes h i j)"
  unfolding swap_nodes_def Let_def
  by (simp, rule same_timers_trans [OF same_timers_setHeapPos same_timers_setHeapPos])

lemma same_timers_sift_up: "same_timers h (sift_up h cur)"
proof (induction h cur rule: sift_up.induct)
  case (1 h cur)
  then show ?case
    by (subst sift_up.simps) (auto simp: Let_def intro: same_timers_trans [OF same_timers_swap])
qed

lemma same_timers_sift_down: "same_timers h (sift_down h cur)"
proof (induction h cur rule: sift_down.induct)
  case (1 h cur)
  then show ?case
    by (subst sift_down.simps) (auto simp: Let_def intro: same_timers_trans [OF same_timers_swap])
qed

lemma heap_keys_swap:
  "i < length (th_min_heap h) \<Longrightarrow> j < length (th_min_heap h) \<Longrightarrow>
     heap_keys (swap_nodes h i j) = swap_at (heap_keys h) i j"
  by (simp add: heap_keys_def swap_nodes_def Let_def map_swap_at)

lemma heap_keys_sift_up:
  "cur < length (th_min_heap h) \<Longrightarrow> heap_keys (sift_up h cur) = up_keys (heap_keys h) cur"
proof (induction h cur rule: sift_up.induct)
  case (1 h cur)
  have p: "cur div 2 < length (th_min_heap h)" using "1.prems" by simp
  show ?case
    using "1.IH" [OF refl] "1.prems" p
    by (subst sift_up.simps, subst up_keys.simps)
       (simp add: Let_def heap_key_nth heap_keys_swap flip: less_timestamp_def)
qed

lemma smaller_child_least:
  "2 * cur < length (th_min_heap h) \<Longrightarrow> smaller_child h cur = least_child (heap_keys h) cur"
  by (auto simp: smaller_child_def least_child_def Let_def heap_key_nth mult.commute
      simp flip: less_timestamp_def)

lemma heap_keys_sift_down: "heap_keys (sift_down h cur) = down_keys (heap_keys h) cur"
proof (induction h cur rule: sift_down.induct)
  case (1 h cur)
  show ?case
  proof (cases "cur = 0 \<or> length (th_min_heap h) \<le> 2 * cur")
    case True
    then show ?thesis by (subst sift_down.simps, subst down_keys.simps) auto
  next
    case False
    let ?c = "least_child (heap_keys h) cur"
    have child: "smaller_child h cur = ?c" "?c < length (th_min_heap h)" "cur < length (th_min_heap h)"
      using False smaller_child_least [of cur h] least_child_less [of cur "heap_keys h"] by auto
    have cmp: "ts_less (heap_key h cur) (heap_key h ?c) \<longleftrightarrow> heap_keys h ! cur < heap_keys h ! ?c"
      using child by (simp add: heap_key_nth flip: less_timestamp_def)
    have "heap_keys (sift_down (swap_nodes h cur ?c) ?c) =
        down_keys (swap_at (heap_keys h) cur ?c) ?c" if "\<not> heap_keys h ! cur < heap_keys h ! ?c"
      using "1.IH" False that child cmp by (simp add: mult.commute heap_keys_swap)
    then show ?thesis
      using False child cmp
      by (subst sift_down.simps, subst down_keys.simps) (simp add: Let_def mult.commute)
  qed
qed

lemma same_timers_simps [simp]:
  "same_timers h (setHeapPos h' p i) = same_timers h h'"
  "same_timers h (sift_up h' cur) = same_timers h h'"
  "same_timers h (sift_down h' cur) = same_timers h h'"
  by (blast intro: same_timers_trans same_timers_sym same_timers_setHeapPos same_timers_sift_up
      same_timers_sift_down)+

lemma same_timers_Insert [simp]: "same_timers h (minHeapInsert h p)"
  by (simp add: minHeapInsert_def Let_def)

lemma same_timers_Erase [simp]: "same_timers h (minHeapErase h p)"
  by (simp add: minHeapErase_def Let_def)

lemma heap_keys_set [simp]:
  "heap_keys (setHeapPos h p i) = heap_keys h"
  "heap_keys (h\<lparr>th_min_heap := xs\<rparr>) = map (tkey h) xs"
  by (simp_all add: heap_keys_def)

lemma heap_keys_Insert:
  "heap_keys (minHeapInsert h p) = insert_keys (heap_keys h) (tkey h p)"
  by (simp add: minHeapInsert_def Let_def heap_keys_sift_up insert_keys_def)
     (simp add: heap_keys_def)

lemma heap_keys_Erase:
  assumes "0 \<le> t_heap_pos (deref h p)" and "th_min_heap h \<noteq> []"
  shows "heap_keys (minHeapErase h p) = erase_keys (heap_keys h) (nat (t_heap_pos (deref h p)))"
  using assms
  by (simp add: minHeapErase_def Let_def heap_keys_sift_down erase_keys_def)
     (simp add: heap_keys_def map_butlast map_update last_map)

section \<open>The invariant of the shared objects\<close>

text \<open>
  \<open>th_inv D h\<close>: slot 0 is NULL; every other slot points at a live object whose \<open>heap_pos_\<close> is
  that slot; every live object has its own id and is in the vector, except those in \<open>D\<close>, which
  are detached from it (inside \<open>removeTimer\<close> and \<open>checkTimeout\<close>).
\<close>

definition th_inv :: "int set \<Rightarrow> 'cb timer_heap \<Rightarrow> bool" where
  "th_inv D h \<longleftrightarrow>
     th_min_heap h \<noteq> [] \<and> th_min_heap h ! 0 = null_timer \<and>
     (\<forall>i. 1 \<le> i \<and> i < length (th_min_heap h) \<longrightarrow>
        (\<exists>t. th_timers h (th_min_heap h ! i) = Some t \<and> t_heap_pos t = int i) \<and>
        th_min_heap h ! i \<notin> D) \<and>
     (\<forall>p t. th_timers h p = Some t \<longrightarrow> t_id t = p \<and> 0 \<le> p \<and>
        (p \<in> D \<or> (\<exists>i. 1 \<le> i \<and> i < length (th_min_heap h) \<and> th_min_heap h ! i = p)))"

lemma th_inv_slot:
  "th_inv D h \<Longrightarrow> 1 \<le> i \<Longrightarrow> i < length (th_min_heap h) \<Longrightarrow>
     (\<exists>t. th_timers h (th_min_heap h ! i) = Some t \<and> t_heap_pos t = int i) \<and>
     th_min_heap h ! i \<notin> D"
  by (simp add: th_inv_def)

lemma th_inv_obj:
  "th_inv D h \<Longrightarrow> th_timers h p = Some t \<Longrightarrow> t_id t = p \<and> 0 \<le> p \<and>
     (p \<in> D \<or> (\<exists>i. 1 \<le> i \<and> i < length (th_min_heap h) \<and> th_min_heap h ! i = p))"
  unfolding th_inv_def by blast

lemma th_inv_heap: "th_inv D h \<Longrightarrow> th_min_heap h \<noteq> [] \<and> th_min_heap h ! 0 = null_timer"
  by (simp add: th_inv_def)

lemma th_inv_distinct:
  assumes "th_inv D h" and "1 \<le> i" "i < length (th_min_heap h)" "1 \<le> j" "j < length (th_min_heap h)"
    and "th_min_heap h ! i = th_min_heap h ! j"
  shows "i = j"
proof -
  have "\<exists>t. th_timers h (th_min_heap h ! i) = Some t \<and> t_heap_pos t = int i"
    "\<exists>t. th_timers h (th_min_heap h ! j) = Some t \<and> t_heap_pos t = int j"
    using assms by (auto simp: th_inv_def)
  then show ?thesis using assms(6) by auto
qed

lemma th_inv_swap:
  assumes inv: "th_inv D h" and i: "1 \<le> i" "i < length (th_min_heap h)"
    and j: "1 \<le> j" "j < length (th_min_heap h)" and "i \<noteq> j"
  shows "th_inv D (swap_nodes h i j)"
proof -
  let ?h = "swap_nodes h i j"
  have heap: "th_min_heap ?h = swap_at (th_min_heap h) i j"
    by (simp add: swap_nodes_def Let_def)
  have "th_min_heap h ! i \<noteq> th_min_heap h ! j"
    using th_inv_distinct [OF inv i j] assms(6) by blast
  then have lookup: "th_timers ?h p =
      (if p = th_min_heap h ! i then map_option (\<lambda>t. t\<lparr>t_heap_pos := int j\<rparr>) (th_timers h p)
       else if p = th_min_heap h ! j then map_option (\<lambda>t. t\<lparr>t_heap_pos := int i\<rparr>) (th_timers h p)
       else th_timers h p)" for p
    by (auto simp: swap_nodes_def Let_def setHeapPos_lookup)
  have nth: "th_min_heap ?h ! k = (if k = j then th_min_heap h ! i
      else if k = i then th_min_heap h ! j else th_min_heap h ! k)"
    if "k < length (th_min_heap h)" for k
    using that i j by (simp add: heap nth_swap_at)
  have slot: "(\<exists>t. th_timers h (th_min_heap h ! k) = Some t \<and> t_heap_pos t = int k) \<and>
      th_min_heap h ! k \<notin> D" if "1 \<le> k" "k < length (th_min_heap h)" for k
    using inv that by (simp add: th_inv_def)
  have slots: "(\<exists>t. th_timers ?h (th_min_heap ?h ! k) = Some t \<and> t_heap_pos t = int k) \<and>
      th_min_heap ?h ! k \<notin> D" if k: "1 \<le> k" "k < length (th_min_heap h)" for k
  proof -
    consider "k = j" | "k = i" "k \<noteq> j" | "k \<noteq> i" "k \<noteq> j" by blast
    then show ?thesis
    proof cases
      case 1
      then show ?thesis using slot [OF i] nth [OF k(2)] by (auto simp: lookup)
    next
      case 2
      then show ?thesis using slot [OF j] nth [OF k(2)] \<open>th_min_heap h ! i \<noteq> th_min_heap h ! j\<close>
        by (auto simp: lookup)
    next
      case 3
      then have "th_min_heap h ! k \<noteq> th_min_heap h ! i" "th_min_heap h ! k \<noteq> th_min_heap h ! j"
        using th_inv_distinct [OF inv k i] th_inv_distinct [OF inv k j] by blast+
      then show ?thesis using 3 slot [OF k] nth [OF k(2)] by (simp add: lookup)
    qed
  qed
  have objs: "t_id t = p \<and> 0 \<le> p \<and>
      (p \<in> D \<or> (\<exists>k. 1 \<le> k \<and> k < length (th_min_heap h) \<and> th_min_heap ?h ! k = p))"
    if t: "th_timers ?h p = Some t" for p t
  proof -
    obtain t' where "th_timers h p = Some t'" "t_id t' = t_id t"
      using t by (auto simp: lookup split: if_splits)
    then have "t_id t = p" "0 \<le> p"
      "p \<in> D \<or> (\<exists>k. 1 \<le> k \<and> k < length (th_min_heap h) \<and> th_min_heap h ! k = p)"
      using inv by (auto simp: th_inv_def)
    then show ?thesis using nth i j by metis
  qed
  show ?thesis
    unfolding th_inv_def
    using inv slots objs nth [of 0] i j by (auto simp: th_inv_def heap)
qed

lemma th_inv_sift_up:
  "th_inv D h \<Longrightarrow> cur < length (th_min_heap h) \<Longrightarrow> th_inv D (sift_up h cur)"
proof (induction h cur rule: sift_up.induct)
  case (1 h cur)
  have step: "th_inv D (swap_nodes h (cur div 2) cur)" if "cur div 2 \<noteq> 0"
    using that "1.prems" by (intro th_inv_swap) auto
  show ?case
    using "1.IH" [OF refl] "1.prems" step by (subst sift_up.simps) (auto simp: Let_def)
qed

lemma smaller_child_bounds:
  assumes "0 < cur" and "cur * 2 < length (th_min_heap h)"
  shows "cur < smaller_child h cur" and "smaller_child h cur < length (th_min_heap h)"
  using assms by (auto simp: smaller_child_def Let_def)

lemma th_inv_sift_down: "th_inv D h \<Longrightarrow> th_inv D (sift_down h cur)"
proof (induction h cur rule: sift_down.induct)
  case (1 h cur)
  have step: "th_inv D (swap_nodes h cur (smaller_child h cur))"
    if "\<not> (cur = 0 \<or> length (th_min_heap h) \<le> cur * 2)"
    using that "1.prems" smaller_child_bounds [of cur h] by (intro th_inv_swap) auto
  show ?case
    using "1.IH" [OF _ refl] "1.prems" step by (subst sift_down.simps) (auto simp: Let_def)
qed

lemma th_inv_pos:
  assumes "th_inv D h" and "th_timers h p = Some t" and "p \<notin> D"
  shows "1 \<le> t_heap_pos t" and "nat (t_heap_pos t) < length (th_min_heap h)"
    and "th_min_heap h ! nat (t_heap_pos t) = p"
proof -
  obtain i where i: "1 \<le> i" "i < length (th_min_heap h)" "th_min_heap h ! i = p"
    using th_inv_obj [OF assms(1,2)] assms(3) by blast
  then have "t_heap_pos t = int i"
    using th_inv_slot [OF assms(1) i(1,2)] assms(2) by auto
  with i show "1 \<le> t_heap_pos t" "nat (t_heap_pos t) < length (th_min_heap h)"
    "th_min_heap h ! nat (t_heap_pos t) = p"
    by simp_all
qed

text \<open>Linking a detached object into the heap.\<close>

lemma th_inv_Insert:
  assumes inv: "th_inv D h" and p: "p \<in> D" "th_timers h p \<noteq> None"
  shows "th_inv (D - {p}) (minHeapInsert h p)"
proof -
  let ?n = "length (th_min_heap h)"
  let ?h = "setHeapPos (h\<lparr>th_min_heap := th_min_heap h @ [p]\<rparr>) p (int ?n)"
  have n: "1 \<le> ?n" using inv by (cases "th_min_heap h") (auto simp: th_inv_def)
  have lookup: "th_timers ?h q =
      (if q = p then map_option (\<lambda>t. t\<lparr>t_heap_pos := int ?n\<rparr>) (th_timers h p) else th_timers h q)"
    for q
    by (simp add: setHeapPos_lookup)
  have old: "th_min_heap h ! i \<noteq> p" if "1 \<le> i" "i < ?n" for i
    using inv p that by (auto simp: th_inv_def)
  have "(\<exists>t. th_timers ?h (th_min_heap ?h ! i) = Some t \<and> t_heap_pos t = int i) \<and>
      th_min_heap ?h ! i \<notin> D - {p}" if "1 \<le> i" "i < length (th_min_heap ?h)" for i
  proof (cases "i = ?n")
    case True
    then show ?thesis using p by (auto simp: lookup)
  next
    case False
    then show ?thesis using that inv old [of i] by (auto simp: lookup nth_append th_inv_def)
  qed
  moreover have "t_id t = q \<and> 0 \<le> q \<and>
      (q \<in> D - {p} \<or> (\<exists>i. 1 \<le> i \<and> i < length (th_min_heap ?h) \<and> th_min_heap ?h ! i = q))"
    if t: "th_timers ?h q = Some t" for q t
  proof -
    obtain t' where t': "th_timers h q = Some t'" "t_id t' = t_id t"
      using t by (auto simp: lookup split: if_splits)
    then have q: "t_id t = q" "0 \<le> q"
      and mem: "q \<in> D \<or> (\<exists>i. 1 \<le> i \<and> i < ?n \<and> th_min_heap h ! i = q)"
      using th_inv_obj [OF inv t'(1)] by simp_all
    show ?thesis
    proof (cases "q = p")
      case True
      then show ?thesis using q n by (intro conjI disjI2 exI [of _ ?n]) simp_all
    next
      case False
      have "\<exists>i. 1 \<le> i \<and> i < length (th_min_heap ?h) \<and> th_min_heap ?h ! i = q"
        if "1 \<le> i" "i < ?n" "th_min_heap h ! i = q" for i
        using that by (intro exI [of _ i]) (simp add: nth_append)
      then show ?thesis using q mem False by blast
    qed
  qed
  ultimately have "th_inv (D - {p}) ?h"
    using inv n by (auto simp: th_inv_def nth_append)
  then show ?thesis
    by (simp add: minHeapInsert_def Let_def th_inv_sift_up)
qed

text \<open>Unlinking an object.\<close>

lemma th_inv_Erase:
  assumes inv: "th_inv {} h" and p: "th_timers h p = Some t"
  shows "th_inv {p} (minHeapErase h p)"
proof -
  let ?n = "length (th_min_heap h)"
  note pos = th_inv_pos [OF inv p, simplified]
  define k where "k = nat (t_heap_pos t)"
  have k: "t_heap_pos t = int k" using pos(1) by (simp add: k_def)
  define h1 where "h1 = setHeapPos h p (-1)"
  define q where "q = last (th_min_heap h)"
  define h3 where "h3 = setHeapPos (h1\<lparr>th_min_heap := (th_min_heap h)[k := q]\<rparr>) q (int k)"
  define h4 where "h4 = h3\<lparr>th_min_heap := butlast (th_min_heap h3)\<rparr>"
  have c: "1 \<le> k" "k < ?n" "th_min_heap h ! k = p" using pos by (simp_all add: k)
  have unfold: "minHeapErase h p = sift_down h4 k"
    using p c(2) by (simp add: minHeapErase_def deref_def Let_def h4_def h3_def h1_def q_def k)
  have heap4: "th_min_heap h4 = butlast ((th_min_heap h)[k := q])"
    by (simp add: h4_def h3_def)
  have nth: "th_min_heap h4 ! i = (if i = k then q else th_min_heap h ! i)" if "i < ?n - 1" for i
    using that c by (auto simp: heap4 nth_butlast nth_list_update)
  have len: "length (th_min_heap h4) = ?n - 1" by (simp add: heap4)
  have lookup: "th_timers h4 r =
      (if r = q then map_option (\<lambda>t. t\<lparr>t_heap_pos := int k\<rparr>) (th_timers h r)
       else if r = p then map_option (\<lambda>t. t\<lparr>t_heap_pos := -1\<rparr>) (th_timers h r)
       else th_timers h r)" for r
    by (auto simp: h4_def h3_def h1_def setHeapPos_lookup option.map_comp o_def)
  have q: "q = th_min_heap h ! (?n - 1)"
    using th_inv_heap [OF inv] by (simp add: q_def last_conv_nth)
  have slot: "\<exists>t. th_timers h (th_min_heap h ! i) = Some t \<and> t_heap_pos t = int i"
    if "1 \<le> i" "i < ?n" for i
    using th_inv_slot [OF inv that] by simp
  have neq: "th_min_heap h ! i \<noteq> th_min_heap h ! j" if "1 \<le> i" "i < j" "j < ?n" for i j
    using th_inv_distinct [OF inv, of i j] that by auto
  have slots: "(\<exists>t. th_timers h4 (th_min_heap h4 ! i) = Some t \<and> t_heap_pos t = int i) \<and>
      th_min_heap h4 ! i \<notin> {p}" if i: "1 \<le> i" "i < ?n - 1" for i
  proof (cases "i = k")
    case True
    have last: "?n - 1 < ?n" using c by linarith
    then have "th_min_heap h ! k \<noteq> th_min_heap h ! (?n - 1)"
      using neq [of k "?n - 1"] i True by blast
    then have "q \<noteq> p" using c(3) q by simp
    moreover obtain z where "th_timers h q = Some z"
      using slot [of "?n - 1"] i last q by auto
    ultimately show ?thesis using True nth [OF i(2)] by (auto simp: lookup)
  next
    case False
    have il: "i < ?n" "?n - 1 < ?n" using i by linarith+
    have "th_min_heap h ! i \<noteq> p"
      using neq [of i k] neq [of k i] i(1) il False c by (cases "i < k") auto
    moreover have "th_min_heap h ! i \<noteq> q" using neq [of i "?n - 1"] i il q by auto
    ultimately show ?thesis using False nth [OF i(2)] slot [OF i(1) il(1)] by (auto simp: lookup)
  qed
  have objs: "t_id s = r \<and> 0 \<le> r \<and>
      (r \<in> {p} \<or> (\<exists>i. 1 \<le> i \<and> i < ?n - 1 \<and> th_min_heap h4 ! i = r))"
    if s: "th_timers h4 r = Some s" for r s
  proof -
    obtain s' where s': "th_timers h r = Some s'" "t_id s' = t_id s"
      using s by (auto simp: lookup split: if_splits)
    then obtain i where i: "t_id s = r" "0 \<le> r" "1 \<le> i" "i < ?n" "th_min_heap h ! i = r"
      using th_inv_obj [OF inv s'(1)] by auto
    have "\<exists>m. 1 \<le> m \<and> m < ?n - 1 \<and> th_min_heap h4 ! m = r" if "r \<noteq> p"
    proof (cases "i = ?n - 1")
      case True
      then have "k < ?n - 1" using that i c by (cases "k = ?n - 1") auto
      then show ?thesis using True nth [of k] i c q by auto
    next
      case False
      then show ?thesis using that nth [of i] i c by (intro exI [of _ i]) auto
    qed
    then show ?thesis using i by blast
  qed
  have "0 < ?n - 1" using c by linarith
  then have "th_min_heap h4 \<noteq> []" "th_min_heap h4 ! 0 = null_timer"
    using len nth [of 0] c th_inv_heap [OF inv] by (force, simp)
  then have "th_inv {p} h4"
    unfolding th_inv_def len using slots objs by blast
  then show ?thesis by (simp add: unfold th_inv_sift_down)
qed

end
