(* ===== verification/TimerDue.thy ===== *)
theory TimerDue
  imports TimerHeap
begin

text \<open>
  What the operations of \<open>TimerHeap\<close> promise: the object invariant is kept by every call in any
  order (\<open>timer_reachable\<close>); the locale \<open>due_queue\<close> states what the loop of \<open>checkTimeout\<close> needs
  of a queue of deadlines and is interpreted on the heap; the firing loop is shown to run the due
  timers and to end. \<open>removeTimer\<close> can break the heap order, which is shown on a concrete run.
\<close>

section \<open>Every operation keeps the object invariant\<close>

lemma th_inv_TimerHeap: "th_inv {} TimerHeap"
  by (simp add: th_inv_def TimerHeap_def)

lemma getId_nonneg [simp]: "0 \<le> getId v"
  by (simp add: getId_def Let_def)

lemma th_inv_value [simp]: "th_inv D (h\<lparr>th_value := v\<rparr>) = th_inv D h"
  by (simp add: th_inv_def)

lemma th_inv_new:
  assumes "th_inv {} h" and "th_timers h p = None" and "0 \<le> p" and "t_id t = p"
  shows "th_inv {p} (h\<lparr>th_timers := (th_timers h)(p \<mapsto> t)\<rparr>)"
proof -
  have "th_min_heap h ! i \<noteq> p" if "1 \<le> i" "i < length (th_min_heap h)" for i
    using th_inv_slot [OF assms(1) that] assms(2) by auto
  then show ?thesis
    using assms th_inv_slot [OF assms(1)] th_inv_obj [OF assms(1)] th_inv_heap [OF assms(1)]
    by (auto simp: th_inv_def)
qed

lemma th_inv_delete:
  assumes "th_inv {p} h"
  shows "th_inv {} (h\<lparr>th_timers := (th_timers h)(p := None)\<rparr>)"
  using th_inv_slot [OF assms] th_inv_obj [OF assms] th_inv_heap [OF assms]
  by (fastforce simp: th_inv_def)

lemma th_inv_update:
  assumes "th_inv D h" and "\<And>t. t_id (f t) = t_id t" and "\<And>t. t_heap_pos (f t) = t_heap_pos t"
  shows "th_inv D (update_timer h p f)"
  unfolding th_inv_def update_timer_sel
proof (intro conjI allI impI)
  show "th_min_heap h \<noteq> []" "th_min_heap h ! 0 = null_timer"
    using th_inv_heap [OF assms(1)] by simp_all
next
  fix i
  assume i: "1 \<le> i \<and> i < length (th_min_heap h)"
  then show "\<exists>t. th_timers (update_timer h p f) (th_min_heap h ! i) = Some t \<and> t_heap_pos t = int i"
    using th_inv_slot [OF assms(1), of i] assms(3) by (auto simp: update_timer_lookup)
  show "th_min_heap h ! i \<notin> D"
    using th_inv_slot [OF assms(1), of i] i by simp
next
  fix q t
  assume "th_timers (update_timer h p f) q = Some t"
  then obtain t' where t': "th_timers h q = Some t'" "t_id t' = t_id t"
    using assms(2) by (auto simp: update_timer_lookup split: if_splits)
  note obj = th_inv_obj [OF assms(1) t'(1)]
  show "t_id t = q" "0 \<le> q" "q \<in> D \<or> (\<exists>i\<ge>1. i < length (th_min_heap h) \<and> th_min_heap h ! i = q)"
    using obj t'(2) by auto
qed

lemma th_inv_addTimer [inv_intros]:
  assumes "th_inv {} h"
  shows "th_inv {} (snd (addTimer h now ms cb n))"
proof -
  let ?id = "getId (th_value h)"
  let ?t = "Timer ?id (ts_plus now (max 0 ms)) (max 0 ms) cb n"
  let ?h = "h\<lparr>th_value := ?id, th_timers := (th_timers h)(?id \<mapsto> ?t)\<rparr>"
  have "th_inv {?id} ?h" if "th_timers h ?id = None"
    using th_inv_new [of "h\<lparr>th_value := ?id\<rparr>" ?id ?t] assms that by (simp add: Timer_def)
  then have "th_inv {} (minHeapInsert ?h ?id)" if "th_timers h ?id = None"
    using th_inv_Insert [of "{?id}" ?h ?id] that by simp
  then show ?thesis
    using assms by (simp add: addTimer_def Let_def)
qed

lemma th_inv_removeTimer [inv_intros]:
  assumes "th_inv {} h"
  shows "th_inv {} (removeTimer h p)"
  using assms th_inv_delete [OF th_inv_Erase [OF assms]] by (auto simp: removeTimer_def Let_def)

lemma minHeapTop_Some:
  assumes "th_inv {} h" and "minHeapTop h = Some p"
  shows "\<exists>t. th_timers h p = Some t \<and> t_heap_pos t = 1 \<and> t_id t = p \<and> p = th_min_heap h ! 1 \<and>
    1 < length (th_min_heap h)"
proof -
  have p: "p = th_min_heap h ! 1" "1 < length (th_min_heap h)"
    using assms(2) by (auto simp: minHeapTop_def split: if_splits)
  then obtain t where t: "th_timers h p = Some t" "t_heap_pos t = 1"
    using th_inv_slot [OF assms(1), of 1] by auto
  then show ?thesis
    using th_inv_obj [OF assms(1) t(1)] p by blast
qed

text \<open>One pass of the firing loop, as a case rule: what was on top, and the state it leaves.\<close>

definition reschedule :: "'cb timer \<Rightarrow> 'cb timer" where
  "reschedule t = t\<lparr>t_call_times := (if t_call_times t > 0 then t_call_times t - 1 else t_call_times t),
                     t_timestamp := ts_add (t_timestamp t) (getTimeout t)\<rparr>"

lemma check_due_SomeD:
  assumes inv: "th_inv {} h" and step: "check_due now h = Some (p, cb, h')"
  obtains t where "minHeapTop h = Some p" and "th_timers h p = Some t" and "t_cb t = cb"
    and "t_heap_pos t = 1" and "\<not> millisecondLess now (t_timestamp t)"
    and "t_call_times t = 1 \<Longrightarrow>
           h' = (minHeapErase h p)\<lparr>th_timers := (th_timers (minHeapErase h p))(p := None)\<rparr>"
    and "t_call_times t \<noteq> 1 \<Longrightarrow>
           h' = minHeapInsert (update_timer (minHeapErase h p) p reschedule) p"
proof -
  obtain q where q: "minHeapTop h = Some q"
    using step by (auto simp: check_due_def split: option.splits)
  then obtain t where t: "th_timers h q = Some t" "t_heap_pos t = 1" "t_id t = q"
    using minHeapTop_Some [OF inv] by blast
  obtain i where t1: "th_timers (minHeapErase h q) q = Some (t\<lparr>t_heap_pos := i\<rparr>)"
    using same_timers_SomeD [OF same_timers_Erase t(1)] by blast
  have two: "update_timer (update_timer h1 q f) q g = update_timer h1 q (\<lambda>t. g (f t))"
    for h1 :: "'a timer_heap" and f g
    by (simp add: update_timer_def option.map_comp o_def)
  have upd: "update_timer h1 q f = update_timer h1 q g"
    if "th_timers h1 q = Some s" "f s = g s" for h1 :: "'a timer_heap" and f g s
    using that by (simp add: update_timer_def)
  let ?h1 = "minHeapErase h q"
  have "update_timer (if 0 < t_call_times t
        then update_timer ?h1 q (\<lambda>t. t\<lparr>t_call_times := t_call_times t - 1\<rparr>) else ?h1) q
        (\<lambda>t. t\<lparr>t_timestamp := ts_add (t_timestamp t) (getTimeout t)\<rparr>)
      = update_timer ?h1 q reschedule"
    using t1 by (auto simp: two reschedule_def getTimeout_def intro!: upd [OF t1])
  then have "p = q \<and> cb = t_cb t \<and> \<not> millisecondLess now (t_timestamp t) \<and>
      h' = (if t_call_times t = 1 then ?h1\<lparr>th_timers := (th_timers ?h1)(q := None)\<rparr>
            else minHeapInsert (update_timer ?h1 q reschedule) q)"
    using step q t t1
    by (auto simp: check_due_def deref_def Let_def split: if_splits)
  then show ?thesis using that [of t] q t by auto
qed

lemma th_inv_check_due [inv_intros]:
  assumes inv: "th_inv {} h" and step: "check_due now h = Some (p, cb, h')"
  shows "th_inv {} h'"
  using inv step
proof (cases rule: check_due_SomeD)
  case (1 t)
  note erased = th_inv_Erase [OF inv 1(2)]
  show ?thesis
  proof (cases "t_call_times t = 1")
    case True
    then show ?thesis using 1 th_inv_delete [OF erased] by simp
  next
    case False
    obtain i where t1: "th_timers (minHeapErase h p) p = Some (t\<lparr>t_heap_pos := i\<rparr>)"
      using same_timers_SomeD [OF same_timers_Erase 1(2)] by blast
    have "th_inv {p} (update_timer (minHeapErase h p) p reschedule)"
      by (rule th_inv_update [OF erased]) (simp_all add: reschedule_def)
    then have "th_inv ({p} - {p}) (minHeapInsert (update_timer (minHeapErase h p) p reschedule) p)"
      by (rule th_inv_Insert) (simp_all add: update_timer_lookup t1)
    then show ?thesis using 1 False by simp
  qed
qed

text \<open>All states that calls of the public operations and passes of the firing loop can reach, in
  any order: callbacks run between the passes and may call the operations themselves.\<close>

inductive timer_reachable :: "'cb timer_heap \<Rightarrow> bool" where
  created: "timer_reachable TimerHeap"
| added: "timer_reachable h \<Longrightarrow> timer_reachable (snd (addTimer h now ms cb n))"
| removed: "timer_reachable h \<Longrightarrow> timer_reachable (removeTimer h p)"
| fired: "timer_reachable h \<Longrightarrow> check_due now h = Some (p, cb, h') \<Longrightarrow> timer_reachable h'"

lemma reachable_inv: "timer_reachable h \<Longrightarrow> th_inv {} h"
  by (induction rule: timer_reachable.induct) (auto intro: inv_intros th_inv_TimerHeap)

section \<open>Deadlines and heap order\<close>

definition pending :: "'cb timer_heap \<Rightarrow> int \<rightharpoonup> timestamp" where
  "pending h p = map_option t_timestamp (th_timers h p)"

lemma same_timers_pending: "same_timers h h' \<Longrightarrow> pending h' = pending h"
proof (rule ext)
  fix p
  assume same: "same_timers h h'"
  have "map_option t_timestamp (map_option (\<lambda>t. t\<lparr>t_heap_pos := 0\<rparr>) (th_timers h' p)) =
      map_option t_timestamp (map_option (\<lambda>t. t\<lparr>t_heap_pos := 0\<rparr>) (th_timers h p))"
    using same by (simp add: same_timers_def)
  then show "pending h' p = pending h p"
    by (simp add: pending_def option.map_comp o_def)
qed

text \<open>Timeouts that survive the narrowing of \<open>getTimeout\<close> to \<open>int\<close>, and sane time stamps.\<close>

definition times_ok :: "'cb timer_heap \<Rightarrow> bool" where
  "times_ok h \<longleftrightarrow> (\<forall>p t. th_timers h p = Some t \<longrightarrow>
     ts_wf (t_timestamp t) \<and> 0 \<le> t_timeout t \<and> t_timeout t < 2 ^ 31)"

definition heap_good :: "'cb timer_heap \<Rightarrow> bool" where
  "heap_good h \<longleftrightarrow> th_inv {} h \<and> times_ok h \<and> heap_ordered (heap_keys h)"

lemma getTimeout_ok: "0 \<le> t_timeout t \<Longrightarrow> t_timeout t < 2 ^ 31 \<Longrightarrow> getTimeout t = t_timeout t"
  by (simp add: getTimeout_def signed_take_bit_int_eq_self)

lemma times_ok_same:
  assumes "times_ok h" and same: "same_timers h h'"
  shows "times_ok h'"
  unfolding times_ok_def
proof (intro allI impI)
  fix p t
  assume "th_timers h' p = Some t"
  then obtain i where "th_timers h p = Some (t\<lparr>t_heap_pos := i\<rparr>)"
    using same_timers_SomeD [OF same_timers_sym [OF same]] by blast
  then show "ts_wf (t_timestamp t) \<and> 0 \<le> t_timeout t \<and> t_timeout t < 2 ^ 31"
    using assms(1) by (fastforce simp: times_ok_def)
qed

lemma heap_good_TimerHeap: "heap_good TimerHeap"
  by (simp add: heap_good_def th_inv_TimerHeap times_ok_def heap_ordered_def)
     (simp add: TimerHeap_def heap_keys_def)

lemma heap_keys_cong:
  assumes "\<And>i. i < length (th_min_heap h) \<Longrightarrow> tkey h' (th_min_heap h ! i) = tkey h (th_min_heap h ! i)"
    and "th_min_heap h' = th_min_heap h"
  shows "heap_keys h' = heap_keys h"
  using assms by (auto simp: heap_keys_def in_set_conv_nth)

text \<open>Changing the object of a detached or absent id leaves the keys alone, but for the dummy in
  slot 0, which no node is compared with.\<close>

lemma heap_keys_detached:
  assumes inv: "th_inv {p} h" and "0 \<le> p"
    and heap: "th_min_heap h' = th_min_heap h"
    and same: "\<And>q. q \<noteq> p \<Longrightarrow> th_timers h' q = th_timers h q"
  shows "heap_keys h' = heap_keys h"
proof (rule heap_keys_cong [OF _ heap])
  fix i
  assume i: "i < length (th_min_heap h)"
  have "th_min_heap h ! i \<noteq> p"
    using th_inv_slot [OF inv, of i] th_inv_heap [OF inv] i assms(2)
    by (cases "i = 0") (auto simp: null_timer_def)
  then show "tkey h' (th_min_heap h ! i) = tkey h (th_min_heap h ! i)"
    using same by (simp add: deref_def)
qed

lemma heap_good_addTimer [inv_intros]:
  assumes good: "heap_good h" and now: "ts_wf now" and ms: "ms < 2 ^ 31"
  shows "heap_good (snd (addTimer h now ms cb n))"
proof (cases "th_timers h (getId (th_value h)) = None")
  case False
  then show ?thesis
    using good by (auto simp: addTimer_def Let_def heap_good_def times_ok_def heap_keys_def deref_def)
next
  case True
  let ?id = "getId (th_value h)"
  let ?t = "Timer ?id (ts_plus now (max 0 ms)) (max 0 ms) cb n"
  let ?h = "h\<lparr>th_value := ?id, th_timers := (th_timers h)(?id \<mapsto> ?t)\<rparr>"
  have add: "snd (addTimer h now ms cb n) = minHeapInsert ?h ?id"
    using True by (simp add: addTimer_def Let_def)
  have inv: "th_inv {?id} ?h"
    using th_inv_new [of "h\<lparr>th_value := ?id\<rparr>" ?id ?t] True good
    by (simp add: Timer_def heap_good_def)
  have "heap_keys h = heap_keys ?h"
    by (rule heap_keys_detached [OF inv]) simp_all
  then have "heap_ordered (heap_keys (minHeapInsert ?h ?id))"
    using good th_inv_heap [OF inv]
    by (simp add: heap_keys_Insert insert_keys_ordered heap_good_def)
  moreover have "times_ok ?h"
    using good now ms
    by (auto simp: times_ok_def heap_good_def Timer_def ts_plus_def ts_add_wf)
  then have "times_ok (minHeapInsert ?h ?id)"
    by (rule times_ok_same) simp
  ultimately show ?thesis
    using th_inv_addTimer [of h now ms cb n] good by (simp add: heap_good_def add)
qed

text \<open>Erasing keeps the order when the last node, which fills the hole, may stand below the parent
  of the hole; the root has no parent.\<close>

definition erase_keeps_order :: "'cb timer_heap \<Rightarrow> int \<Rightarrow> bool" where
  "erase_keeps_order h p \<longleftrightarrow>
     (let cur = nat (t_heap_pos (deref h p))
      in cur = 1 \<or> heap_keys h ! (cur div 2) \<le> last (heap_keys h))"

lemma erase_good:
  assumes good: "heap_good h" and p: "th_timers h p = Some t" and keep: "erase_keeps_order h p"
  shows "th_inv {p} (minHeapErase h p)" and "times_ok (minHeapErase h p)"
    and "heap_ordered (heap_keys (minHeapErase h p))"
proof -
  have inv: "th_inv {} h" using good by (simp add: heap_good_def)
  show "th_inv {p} (minHeapErase h p)" by (rule th_inv_Erase [OF inv p])
  show "times_ok (minHeapErase h p)"
    using good times_ok_same [OF _ same_timers_Erase] by (auto simp: heap_good_def)
  note pos = th_inv_pos [OF inv p, simplified]
  have "heap_keys (minHeapErase h p) = erase_keys (heap_keys h) (nat (t_heap_pos t))"
    using heap_keys_Erase [of h p] p pos(1) th_inv_heap [OF inv] by (simp add: deref_def)
  then show "heap_ordered (heap_keys (minHeapErase h p))"
    using good keep p pos
    by (auto simp: heap_good_def erase_keeps_order_def deref_def intro!: erase_keys_ordered)
qed

lemma heap_good_removeTimer:
  assumes good: "heap_good h" and keep: "erase_keeps_order h p"
  shows "heap_good (removeTimer h p)"
proof (cases "th_timers h p")
  case None
  then show ?thesis using good by (simp add: removeTimer_def)
next
  case (Some t)
  let ?h = "minHeapErase h p"
  note erased = erase_good [OF good Some keep]
  have "0 \<le> p" using th_inv_obj [OF _ Some] good by (auto simp: heap_good_def)
  then have "heap_keys (?h\<lparr>th_timers := (th_timers ?h)(p := None)\<rparr>) = heap_keys ?h"
    by (intro heap_keys_detached [OF erased(1)]) simp_all
  then show ?thesis
    using erased th_inv_delete [OF erased(1)] Some
    by (auto simp: removeTimer_def Let_def heap_good_def times_ok_def split: if_splits)
qed

lemma heap_good_check_due [inv_intros]:
  assumes good: "heap_good h" and step: "check_due now h = Some (p, cb, h')"
  shows "heap_good h'"
proof -
  have inv: "th_inv {} h" using good by (simp add: heap_good_def)
  from inv step show ?thesis
  proof (cases rule: check_due_SomeD)
    case (1 t)
    let ?h = "minHeapErase h p"
    have "erase_keeps_order h p" using 1 by (simp add: erase_keeps_order_def deref_def)
    note erased = erase_good [OF good 1(2) this]
    have p: "0 \<le> p" using th_inv_obj [OF inv 1(2)] by simp
    show ?thesis
    proof (cases "t_call_times t = 1")
      case True
      have "heap_keys (?h\<lparr>th_timers := (th_timers ?h)(p := None)\<rparr>) = heap_keys ?h"
        by (intro heap_keys_detached [OF erased(1) p]) simp_all
      then show ?thesis
        using True 1 erased th_inv_delete [OF erased(1)]
        by (auto simp: heap_good_def times_ok_def split: if_splits)
    next
      case False
      let ?g = "update_timer ?h p reschedule"
      have keys: "heap_keys ?g = heap_keys ?h"
        by (intro heap_keys_detached [OF erased(1) p]) (simp_all add: update_timer_lookup)
      have "times_ok ?g"
        using erased(2)
        by (auto simp: times_ok_def update_timer_lookup reschedule_def getTimeout_ok ts_add_wf
            split: if_splits)
      then have "times_ok (minHeapInsert ?g p)" by (rule times_ok_same) simp
      moreover have "heap_ordered (heap_keys (minHeapInsert ?g p))"
        using erased(3) th_inv_heap [OF erased(1)]
        by (simp add: heap_keys_Insert keys insert_keys_ordered)
      ultimately show ?thesis
        using False 1 th_inv_check_due [OF inv step] by (simp add: heap_good_def)
    qed
  qed
qed

section \<open>Queues of deadlines\<close>

text \<open>What the firing loop and the poll timeout need: the top is a pending entry with a least
  deadline.\<close>

locale due_queue =
  fixes inv :: "'q \<Rightarrow> bool"
    and deadlines :: "'q \<Rightarrow> int \<rightharpoonup> timestamp"
    and top :: "'q \<Rightarrow> int option"
  assumes top_None: "inv q \<Longrightarrow> top q = None \<Longrightarrow> deadlines q p = None"
    and top_Some: "inv q \<Longrightarrow> top q = Some p \<Longrightarrow> \<exists>ts. deadlines q p = Some ts \<and>
      (\<forall>p' ts'. deadlines q p' = Some ts' \<longrightarrow> ts \<le> ts')"
    and deadlines_wf: "inv q \<Longrightarrow> deadlines q p = Some ts \<Longrightarrow> ts_wf ts"
begin

text \<open>If the top is not due, nothing is.\<close>

lemma nothing_due:
  assumes "inv q" and "ts_wf now" and "deadlines q p = Some ts"
    and "\<And>p' ts'. top q = Some p' \<Longrightarrow> deadlines q p' = Some ts' \<Longrightarrow> millisecondLess now ts'"
  shows "millisecondLess now ts"
proof -
  obtain p' where top: "top q = Some p'"
    using top_None [OF assms(1)] assms(3) by (cases "top q") auto
  obtain ts' where ts': "deadlines q p' = Some ts'" "ts' \<le> ts"
    using top_Some [OF assms(1) top] assms(3) by blast
  have wf: "ts_wf ts'" "ts_wf ts"
    using deadlines_wf [OF assms(1)] ts'(1) assms(3) by blast+
  have "ts_ms now < ts_ms ts'"
    using assms(4) [OF top ts'(1)] millisecondLess_ms [OF assms(2) wf(1)] by simp
  also have "\<dots> \<le> ts_ms ts" by (rule ts_le_ms [OF wf ts'(2)])
  finally show ?thesis using millisecondLess_ms [OF assms(2) wf(2)] by simp
qed

lemma top_ms:
  assumes "inv q" and "top q = Some p" and "deadlines q p' = Some ts'"
  shows "ts_ms (the (deadlines q p)) \<le> ts_ms ts'"
  using top_Some [OF assms(1,2)] assms(3) deadlines_wf [OF assms(1)] ts_le_ms by fastforce

end

lemma heap_good_top:
  assumes good: "heap_good h" and top: "minHeapTop h = Some p"
    and q: "pending h q = Some ts'"
  shows "the (pending h p) \<le> ts'"
proof -
  have inv: "th_inv {} h" using good by (simp add: heap_good_def)
  obtain t' where t': "th_timers h q = Some t'" "ts' = t_timestamp t'"
    using q by (auto simp: pending_def)
  obtain t where t: "th_timers h p = Some t" "p = th_min_heap h ! 1" "1 < length (th_min_heap h)"
    using minHeapTop_Some [OF inv top] by blast
  note pos = th_inv_pos [OF inv t'(1), simplified]
  have "heap_keys h ! 1 \<le> heap_keys h ! nat (t_heap_pos t')"
    using good pos by (intro heap_ordered_root) (auto simp: heap_good_def)
  then show ?thesis
    using t t' pos by (simp add: heap_keys_def pending_def deref_def)
qed

interpretation th: due_queue heap_good pending minHeapTop
proof unfold_locales
  fix h :: "'cb timer_heap" and p
  assume good: "heap_good h" and top: "minHeapTop h = None"
  then show "pending h p = None"
    using th_inv_obj [of "{}" h p]
    by (cases "th_timers h p") (auto simp: heap_good_def minHeapTop_def pending_def split: if_splits)
next
  fix h :: "'cb timer_heap" and p
  assume good: "heap_good h" and top: "minHeapTop h = Some p"
  then obtain t where "th_timers h p = Some t"
    using minHeapTop_Some [of h p] by (auto simp: heap_good_def)
  then show "\<exists>ts. pending h p = Some ts \<and> (\<forall>p' ts'. pending h p' = Some ts' \<longrightarrow> ts \<le> ts')"
    using heap_good_top [OF good top] by (auto simp: pending_def)
next
  fix h :: "'cb timer_heap" and p ts
  assume "heap_good h" and "pending h p = Some ts"
  then show "ts_wf ts" by (auto simp: heap_good_def times_ok_def pending_def)
qed

lemma check_due_None:
  assumes good: "heap_good h" and now: "ts_wf now" and stop: "check_due now h = None"
    and q: "pending h q = Some ts"
  shows "millisecondLess now ts"
proof (rule th.nothing_due [OF good now q])
  fix p' ts'
  assume "minHeapTop h = Some p'" and "pending h p' = Some ts'"
  then show "millisecondLess now ts'"
    using stop by (auto simp: check_due_def Let_def pending_def deref_def split: if_splits)
qed

text \<open>What one pass does to the deadlines.\<close>

definition objects :: "'cb timer_heap \<Rightarrow> int \<rightharpoonup> 'cb timer" where
  "objects h p = map_option (\<lambda>t. t\<lparr>t_heap_pos := 0\<rparr>) (th_timers h p)"

lemma same_timers_objects: "same_timers h h' \<Longrightarrow> objects h' = objects h"
  by (auto simp: same_timers_def objects_def fun_eq_iff)

lemma pending_objects: "pending h p = map_option t_timestamp (objects h p)"
  by (simp add: pending_def objects_def option.map_comp o_def)

lemma check_due_objects:
  assumes inv: "th_inv {} h" and step: "check_due now h = Some (p, cb, h')"
    and t: "th_timers h p = Some t"
  shows "objects h' = (objects h)(p := if t_call_times t = 1 then None
    else Some ((reschedule t)\<lparr>t_heap_pos := 0\<rparr>))"
  using inv step
proof (cases rule: check_due_SomeD)
  case (1 t1)
  then have t1: "t1 = t" using t by simp
  let ?h = "minHeapErase h p"
  have same: "objects ?h = objects h" by (rule same_timers_objects) simp
  obtain i where ti: "th_timers ?h p = Some (t\<lparr>t_heap_pos := i\<rparr>)"
    using same_timers_SomeD [OF same_timers_Erase t] by blast
  show ?thesis
  proof (cases "t_call_times t = 1")
    case True
    then show ?thesis
      using 1 t1 same by (auto simp: objects_def fun_eq_iff)
  next
    case False
    then have "objects h' = objects (update_timer ?h p reschedule)"
      using 1 t1 by (auto intro: same_timers_objects)
    also have "\<dots> = (objects ?h)(p := Some ((reschedule t)\<lparr>t_heap_pos := 0\<rparr>))"
      using ti
      by (auto simp: objects_def fun_eq_iff update_timer_lookup reschedule_def getTimeout_def)
    finally show ?thesis using False same by simp
  qed
qed

lemma check_due_pending:
  assumes good: "heap_good h" and step: "check_due now h = Some (p, cb, h')"
    and t: "th_timers h p = Some t"
  shows "pending h' = (pending h)(p := if t_call_times t = 1 then None
    else Some (ts_add (t_timestamp t) (t_timeout t)))"
proof -
  have "getTimeout t = t_timeout t"
    using good t by (auto simp: heap_good_def times_ok_def getTimeout_ok)
  moreover have "objects h' = (objects h)(p := if t_call_times t = 1 then None
      else Some ((reschedule t)\<lparr>t_heap_pos := 0\<rparr>))"
    using good by (intro check_due_objects [OF _ step t]) (simp add: heap_good_def)
  ultimately show ?thesis
    by (auto simp: fun_eq_iff pending_objects reschedule_def)
qed

text \<open>\<open>checkTimeout\<close> with a bound on its passes: where a number of passes is enough, the loop
  returns the same result.\<close>

fun passes :: "nat \<Rightarrow> ('cb \<Rightarrow> int \<Rightarrow> 'cb timer_heap \<times> 's \<Rightarrow> 'cb timer_heap \<times> 's) \<Rightarrow> timestamp \<Rightarrow>
    'cb timer_heap \<times> 's \<Rightarrow> ('cb timer_heap \<times> 's) option" where
  "passes 0 run now s = None"
| "passes (Suc n) run now s =
     (case check_due now (fst s) of
        None \<Rightarrow> Some s
      | Some (timer_id, timer_cb, h) \<Rightarrow> passes n run now (run timer_cb timer_id (h, snd s)))"

lemma passes_checkTimeout: "passes n run now s = Some r \<Longrightarrow> checkTimeout run now s = Some r"
  by (induction n run now s rule: passes.induct)
     (subst checkTimeout.simps, auto split: option.splits prod.splits)+

lemma checkTimeout_passes:
  "checkTimeout run now s = Some r \<Longrightarrow> \<exists>n. passes n run now s = Some r"
proof (rule checkTimeout.raw_induct [where P = "\<lambda>run now s r. \<exists>n. passes n run now s = Some r"])
  fix rec :: "('a \<Rightarrow> int \<Rightarrow> 'a timer_heap \<times> 'b \<Rightarrow> 'a timer_heap \<times> 'b) \<Rightarrow> timestamp \<Rightarrow>
    'a timer_heap \<times> 'b \<Rightarrow> ('a timer_heap \<times> 'b) option" and run now s r
  assume IH: "\<And>run now s r. rec run now s = Some r \<Longrightarrow> \<exists>n. passes n run now s = Some r"
    and eq: "(case check_due now (fst s) of None \<Rightarrow> Some s
      | Some (timer_id, timer_cb, h) \<Rightarrow> rec run now (run timer_cb timer_id (h, snd s))) = Some r"
  show "\<exists>n. passes n run now s = Some r"
  proof (cases "check_due now (fst s)")
    case None
    then show ?thesis using eq by (intro exI [of _ "Suc 0"]) simp
  next
    case (Some step)
    obtain p cb h where step: "step = (p, cb, h)" by (cases step)
    then obtain n where "passes n run now (run cb p (h, snd s)) = Some r"
      using IH eq Some by fastforce
    then show ?thesis using Some step by (intro exI [of _ "Suc n"]) simp
  qed
qed

text \<open>A bound on the passes: every pass uses up a call of a limited timer or moves an unlimited
  one at least a millisecond on.\<close>

definition all_repeats :: "'cb timer_heap \<Rightarrow> bool" where
  "all_repeats h \<longleftrightarrow>
     (\<forall>p t. th_timers h p = Some t \<longrightarrow> t_call_times t \<le> 0 \<longrightarrow> 1 \<le> t_timeout t)"

definition passes_left :: "timestamp \<Rightarrow> 'cb timer \<Rightarrow> nat" where
  "passes_left now t = (if 0 < t_call_times t then nat (t_call_times t)
     else nat (ts_ms now + 1 - ts_ms (t_timestamp t)))"

definition sum_left :: "timestamp \<Rightarrow> 'cb timer_heap \<Rightarrow> nat" where
  "sum_left now h = (\<Sum>p \<in> dom (objects h). passes_left now (the (objects h p)))"

lemma all_repeats_objects:
  "all_repeats h \<longleftrightarrow> (\<forall>p t. objects h p = Some t \<longrightarrow> t_call_times t \<le> 0 \<longrightarrow> 1 \<le> t_timeout t)"
  by (fastforce simp: all_repeats_def objects_def)

lemma timer_in_heap: "th_inv {} h \<Longrightarrow> th_timers h p = Some t \<Longrightarrow> p \<in> set (th_min_heap h) \<and> 0 \<le> p"
  using th_inv_obj [of "{}" h p t] by (auto simp: in_set_conv_nth)

definition repeats_ok :: "'cb timer \<Rightarrow> bool" where
  "repeats_ok t \<longleftrightarrow> 0 < t_call_times t \<or> 1 \<le> t_timeout t"

lemma all_repeats_heap:
  "th_inv {} h \<Longrightarrow> list_all (\<lambda>p. p < 0 \<or> repeats_ok (deref h p)) (th_min_heap h) \<Longrightarrow>
    all_repeats h"
  using timer_in_heap [of h]
  by (fastforce simp: all_repeats_def repeats_ok_def list_all_iff deref_def)

lemma finite_objects: "th_inv {} h \<Longrightarrow> finite (dom (objects h))"
  by (rule finite_subset [of _ "set (th_min_heap h)"]) (auto simp: objects_def dest: timer_in_heap)

lemma passes_left_reschedule:
  assumes "ts_wf (t_timestamp t)" and "ts_ms (t_timestamp t) \<le> ts_ms now"
    and "t_call_times t \<noteq> 1" and "t_call_times t \<le> 0 \<longrightarrow> 1 \<le> t_timeout t"
    and "getTimeout t = t_timeout t"
  shows "passes_left now ((reschedule t)\<lparr>t_heap_pos := 0\<rparr>) < passes_left now t"
proof (cases "0 < t_call_times t")
  case True
  then show ?thesis using assms(3) by (simp add: passes_left_def reschedule_def)
next
  case False
  then have "ts_ms (ts_add (t_timestamp t) (t_timeout t)) = ts_ms (t_timestamp t) + t_timeout t"
    and "1 \<le> t_timeout t"
    using assms(4) ts_add_ms [OF assms(1), of "t_timeout t"] by simp_all
  then show ?thesis
    using False assms(2,5) by (simp add: passes_left_def reschedule_def)
qed

lemma check_due_progress:
  assumes good: "heap_good h" and now: "ts_wf now" and rep: "all_repeats h"
    and step: "check_due now h = Some (p, cb, h')"
  shows "sum_left now h' < sum_left now h" and "all_repeats h'"
proof -
  have inv: "th_inv {} h" using good by (simp add: heap_good_def)
  obtain t where t: "th_timers h p = Some t" "\<not> millisecondLess now (t_timestamp t)"
    using inv step by (cases rule: check_due_SomeD) auto
  let ?D = "dom (objects h)"
  let ?left = "\<lambda>h p. passes_left now (the (objects h p))"
  note objs = check_due_objects [OF inv step t(1)]
  have p: "p \<in> ?D" "objects h p = Some (t\<lparr>t_heap_pos := 0\<rparr>)" using t(1) by (auto simp: objects_def)
  have fin: "finite ?D" by (rule finite_objects [OF inv])
  have wf: "ts_wf (t_timestamp t)" "getTimeout t = t_timeout t"
    using good t(1) by (auto simp: heap_good_def times_ok_def getTimeout_ok)
  have due: "ts_ms (t_timestamp t) \<le> ts_ms now"
    using t(2) millisecondLess_ms [OF now wf(1)] by simp
  have old: "sum_left now h = passes_left now t + (\<Sum>q \<in> ?D - {p}. ?left h q)"
    using sum.remove [OF fin p(1), of "?left h"] p(2) by (simp add: sum_left_def passes_left_def)
  have rest: "(\<Sum>q \<in> ?D - {p}. ?left h' q) = (\<Sum>q \<in> ?D - {p}. ?left h q)"
    using objs by (intro sum.cong) auto
  show "sum_left now h' < sum_left now h"
  proof (cases "t_call_times t = 1")
    case True
    then have "dom (objects h') = ?D - {p}" using objs by auto
    then show ?thesis using old rest True by (simp add: sum_left_def passes_left_def)
  next
    case False
    then have "dom (objects h') = ?D" using objs p by auto
    then have "sum_left now h' = passes_left now ((reschedule t)\<lparr>t_heap_pos := 0\<rparr>) +
        (\<Sum>q \<in> ?D - {p}. ?left h' q)"
      using sum.remove [OF fin p(1), of "?left h'"] objs False by (simp add: sum_left_def)
    moreover have "t_call_times t \<le> 0 \<longrightarrow> 1 \<le> t_timeout t"
      using rep t(1) by (simp add: all_repeats_def)
    ultimately show ?thesis
      using old rest passes_left_reschedule [OF wf(1) due False _ wf(2)] by simp
  qed
  have "t_call_times t \<le> 0 \<longrightarrow> 1 \<le> t_timeout t"
    using rep t(1) by (simp add: all_repeats_def)
  moreover have "\<forall>q u. objects h q = Some u \<longrightarrow> t_call_times u \<le> 0 \<longrightarrow> 1 \<le> t_timeout u"
    using rep by (simp add: all_repeats_objects)
  ultimately show "all_repeats h'"
    unfolding all_repeats_objects objs by (auto simp: reschedule_def split: if_splits)
qed

lemma passes_enough:
  assumes "heap_good (fst s)" and "ts_wf now" and "\<And>cb p s. fst (run cb p s) = fst s"
    and "all_repeats (fst s)"
  shows "\<exists>n r. passes n run now s = Some r \<and> heap_good (fst r) \<and> check_due now (fst r) = None"
  using assms
proof (induction "sum_left now (fst s)" arbitrary: s rule: less_induct)
  case less
  show ?case
  proof (cases "check_due now (fst s)")
    case None
    then show ?thesis using less.prems by (intro exI [of _ "Suc 0"] exI [of _ s]) simp
  next
    case (Some step)
    obtain p cb h where step: "check_due now (fst s) = Some (p, cb, h)"
      using Some by (cases step) auto
    note prog = check_due_progress [OF less.prems(1,2,4) step]
    have "\<exists>n r. passes n run now (run cb p (h, snd s)) = Some r \<and> heap_good (fst r) \<and>
        check_due now (fst r) = None"
      using less.hyps [of "run cb p (h, snd s)"] prog less.prems heap_good_check_due [OF _ step]
      by simp
    then obtain n r where "passes n run now (run cb p (h, snd s)) = Some r" "heap_good (fst r)"
      "check_due now (fst r) = None" by blast
    then show ?thesis using step by (intro exI [of _ "Suc n"] exI [of _ r]) simp
  qed
qed

text \<open>An unlimited timer with timeout 0 that is due stays so.\<close>

definition zero_due :: "timestamp \<Rightarrow> int \<Rightarrow> 'cb timer_heap \<Rightarrow> bool" where
  "zero_due now p h \<longleftrightarrow> (\<exists>t. objects h p = Some t \<and> t_timeout t = 0 \<and> t_call_times t \<le> 0 \<and>
     ts_ms (t_timestamp t) \<le> ts_ms now)"

lemma zero_due_check_due:
  assumes "check_due now h = Some (q, cb, h')" and "zero_due now p h" and good: "heap_good h"
  shows "zero_due now p h'"
proof -
  have inv: "th_inv {} h" using good by (simp add: heap_good_def)
  obtain u where u: "th_timers h q = Some u"
    using inv assms(1) by (cases rule: check_due_SomeD) auto
  have wf: "ts_wf (t_timestamp u)"
    using good u by (auto simp: heap_good_def times_ok_def)
  note objs = check_due_objects [OF inv assms(1) u]
  show ?thesis
  proof (cases "p = q")
    case False
    then show ?thesis using objs assms(2) by (simp add: zero_due_def)
  next
    case True
    then have "t_timeout u = 0" "t_call_times u \<le> 0" "ts_ms (t_timestamp u) \<le> ts_ms now"
      using assms(2) u by (auto simp: zero_due_def objects_def)
    then show ?thesis
      using objs True ts_add_ms [OF wf, of 0]
      by (simp add: zero_due_def reschedule_def getTimeout_ok)
  qed
qed

lemma zero_due_fires:
  assumes good: "heap_good h" and now: "ts_wf now" and due: "zero_due now p h"
  shows "check_due now h \<noteq> None"
proof
  assume none: "check_due now h = None"
  obtain ts where ts: "pending h p = Some ts" "ts_ms ts \<le> ts_ms now"
    using due by (auto simp: zero_due_def pending_objects)
  then show False
    using check_due_None [OF good now none ts(1)] th.deadlines_wf [OF good ts(1)]
    by (simp add: millisecondLess_ms [OF now])
qed

lemma zero_due_passes:
  assumes "heap_good (fst s)" and "ts_wf now" and "zero_due now p (fst s)"
    and "\<And>cb p s. fst (run cb p s) = fst s"
  shows "passes n run now s = None"
  using assms
proof (induction n arbitrary: s)
  case (Suc n)
  obtain q cb h where step: "check_due now (fst s) = Some (q, cb, h)"
    using zero_due_fires [OF Suc.prems(1-3)] by (cases "check_due now (fst s)") auto
  have "zero_due now p h" "heap_good h"
    using zero_due_check_due [OF step] heap_good_check_due [OF _ step] Suc.prems by blast+
  then show ?case using step Suc by simp
qed simp

lemma heap_in_timers:
  assumes "th_inv {} h" and "0 \<le> p" and "p \<in> set (th_min_heap h)"
  shows "th_timers h p \<noteq> None"
proof -
  obtain i where i: "i < length (th_min_heap h)" "th_min_heap h ! i = p"
    using assms(3) by (auto simp: in_set_conv_nth)
  then have "1 \<le> i" using th_inv_heap [OF assms(1)] assms(2) by (cases i) (auto simp: null_timer_def)
  then show ?thesis using th_inv_slot [OF assms(1), of i] i by auto
qed

section \<open>Properties\<close>

text \<open>A run used by several witnesses: timers added one after the other at time 0, each with the
  given timeout in milliseconds.\<close>

fun add_all :: "unit timer_heap \<Rightarrow> (int \<times> int) list \<Rightarrow> unit timer_heap" where
  "add_all h [] = h"
| "add_all h ((ms, n) # xs) = add_all (snd (addTimer h (Timestamp 0 0) ms () n)) xs"

lemma add_all_reachable: "timer_reachable h \<Longrightarrow> timer_reachable (add_all h xs)"
  by (induction h xs rule: add_all.induct) (auto intro: added)

lemma add_all_good:
  "heap_good h \<Longrightarrow> (\<forall>x \<in> set xs. fst x < 2 ^ 31) \<Longrightarrow> heap_good (add_all h xs)"
proof (induction h xs rule: add_all.induct)
  case (2 h ms n xs)
  have "heap_good (snd (addTimer h (Timestamp 0 0) ms () n))"
    using 2(2,3) by (intro heap_good_addTimer) (auto simp: ts_wf_def)
  then show ?case using 2(1,3) by simp
qed simp

definition quiet :: "unit \<Rightarrow> int \<Rightarrow> unit timer_heap \<times> int list \<Rightarrow> unit timer_heap \<times> int list" where
  "quiet cb p s = (fst s, snd s @ [p])"

text \<open>C16. In every state that the public operations and the firing loop can reach, in any order
  and with any number of timers, the id map and the heap vector describe the same objects: every
  slot of the vector points at a live timer whose position is that slot, every live timer is
  registered under its own id and sits in the vector exactly where its position says.\<close>

theorem timer_objects_consistent:
  assumes "timer_reachable h"
  shows "th_inv {} h \<and>
    (\<forall>p t. th_timers h p = Some t \<longrightarrow> t_id t = p \<and> 1 \<le> t_heap_pos t \<and>
       nat (t_heap_pos t) < length (th_min_heap h) \<and>
       th_min_heap h ! nat (t_heap_pos t) = p)"
proof -
  have inv: "th_inv {} h" by (rule reachable_inv [OF assms])
  then show ?thesis
    using th_inv_obj [OF inv] th_inv_pos [OF inv] by blast
qed

theorem timer_objects_consistent_witness:
  "th_inv {} (removeTimer (add_all TimerHeap [(30, 1), (20, 2), (10, -1)]) 2)"
  using timer_objects_consistent [OF removed [OF add_all_reachable [OF created]]] by blast

text \<open>C17. A pass of the firing loop takes a timer that is due and whose deadline no other timer
  precedes; a timer with one call left disappears, any other moves its deadline on by its
  timeout and no other deadline changes.\<close>

theorem fires_least_deadline:
  assumes good: "heap_good h" and now: "ts_wf now"
    and step: "check_due now h = Some (p, cb, h')"
  shows "\<exists>t. th_timers h p = Some t \<and> t_cb t = cb \<and> ts_ms (t_timestamp t) \<le> ts_ms now \<and>
    (\<forall>q ts. pending h q = Some ts \<longrightarrow> t_timestamp t \<le> ts) \<and>
    pending h' = (pending h)(p := if t_call_times t = 1 then None
      else Some (ts_add (t_timestamp t) (t_timeout t))) \<and> heap_good h'"
proof -
  have inv: "th_inv {} h" using good by (simp add: heap_good_def)
  from inv step show ?thesis
  proof (cases rule: check_due_SomeD)
    case (1 t)
    have "ts_wf (t_timestamp t)"
      using good 1(2) by (auto simp: heap_good_def times_ok_def)
    then have "ts_ms (t_timestamp t) \<le> ts_ms now"
      using 1(5) millisecondLess_ms [OF now] by simp
    moreover have "t_timestamp t \<le> ts" if "pending h q = Some ts" for q ts
      using heap_good_top [OF good 1(1) that] 1(2) by (simp add: pending_def)
    ultimately show ?thesis
      using 1 check_due_pending [OF good step 1(2)] heap_good_check_due [OF good step] by blast
  qed
qed

theorem fires_least_deadline_witness:
  "\<exists>t h'. check_due (Timestamp 0 25000000) (add_all TimerHeap [(30, 1), (20, 2), (10, -1)])
      = Some (3, (), h') \<and>
    th_timers (add_all TimerHeap [(30, 1), (20, 2), (10, -1)]) 3 = Some t \<and>
    pending h' = (pending (add_all TimerHeap [(30, 1), (20, 2), (10, -1)]))
      (3 := if t_call_times t = 1 then None else Some (ts_add (t_timestamp t) (t_timeout t)))"
proof -
  let ?h = "add_all TimerHeap [(30, 1), (20, 2), (10, -1)]"
  have "map_option fst (check_due (Timestamp 0 25000000) ?h) = Some 3" by code_simp
  then obtain cb h' where step: "check_due (Timestamp 0 25000000) ?h = Some (3, cb, h')"
    by auto
  have "heap_good ?h" by (rule add_all_good [OF heap_good_TimerHeap]) simp
  from fires_least_deadline [OF this _ step] step show ?thesis
    by (auto simp: ts_wf_def)
qed



text \<open>C19. The firing loop returns. When the callbacks leave the heap alone and every timer that
  repeats without end has a timeout of at least a millisecond, \<open>checkTimeout\<close> ends, and
  afterwards every deadline lies in the future.\<close>

theorem checkTimeout_returns:
  assumes good: "heap_good (fst s)" and now: "ts_wf now"
    and quiet: "\<And>cb p s. fst (run cb p s) = fst s"
    and repeats: "\<forall>p t. th_timers (fst s) p = Some t \<longrightarrow> t_call_times t \<le> 0 \<longrightarrow> 1 \<le> t_timeout t"
  shows "\<exists>r. checkTimeout run now s = Some r \<and>
    (\<forall>p ts. pending (fst r) p = Some ts \<longrightarrow> ts_ms now < ts_ms ts)"
proof -
  have "all_repeats (fst s)" using repeats by (simp add: all_repeats_def)
  then obtain n r where "passes n run now s = Some r" and "heap_good (fst r)"
    and none: "check_due now (fst r) = None"
    using passes_enough [of s now run, OF good now quiet] by blast
  moreover have "ts_ms now < ts_ms ts" if ts: "pending (fst r) p = Some ts" for p ts
    using check_due_None [OF \<open>heap_good (fst r)\<close> now none ts]
      th.deadlines_wf [OF \<open>heap_good (fst r)\<close> ts]
    by (simp add: millisecondLess_ms [OF now])
  ultimately show ?thesis using passes_checkTimeout by blast
qed

theorem checkTimeout_returns_witness:
  "\<exists>r. checkTimeout quiet (Timestamp 0 25000000)
    (add_all TimerHeap [(30, 1), (0, 2), (10, -1)], []) = Some r"
proof -
  let ?h = "add_all TimerHeap [(30, 1), (0, 2), (10, -1)]"
  have good: "heap_good ?h" by (rule add_all_good [OF heap_good_TimerHeap]) simp
  have "list_all (\<lambda>p. p < 0 \<or> repeats_ok (deref ?h p)) (th_min_heap ?h)" by code_simp
  then have "all_repeats ?h" using good by (intro all_repeats_heap) (simp_all add: heap_good_def)
  then show ?thesis
    using checkTimeout_returns [of "(?h, [])" "Timestamp 0 25000000" quiet] good
    by (auto simp: ts_wf_def quiet_def all_repeats_def simp del: add_all.simps)
qed

text \<open>The firing loop does not return when an unlimited timer with a timeout of 0 is due:
  its deadline never moves on (\<open>addTimer\<close> turns every timeout below 0 into 0).\<close>

theorem zero_timeout_diverges:
  assumes good: "heap_good (fst s)" and now: "ts_wf now"
    and quiet: "\<And>cb p s. fst (run cb p s) = fst s"
    and zero: "th_timers (fst s) p = Some t" "t_timeout t = 0" "t_call_times t \<le> 0"
      "ts_ms (t_timestamp t) \<le> ts_ms now"
  shows "checkTimeout run now s = None"
proof -
  have "zero_due now p (fst s)" using zero by (auto simp: zero_due_def objects_def)
  then have "passes n run now s = None" for n
    by (rule zero_due_passes [OF good now _ quiet])
  then show ?thesis
    using checkTimeout_passes [of run now s] by (cases "checkTimeout run now s") auto
qed

theorem zero_timeout_diverges_witness:
  "checkTimeout quiet (Timestamp 0 0) (add_all TimerHeap [(30, 1), (-5, -1)], []) = None"
proof -
  let ?h = "add_all TimerHeap [(30, 1), (-5, -1)]"
  have "heap_good ?h" by (rule add_all_good [OF heap_good_TimerHeap]) simp
  moreover have "map_option (\<lambda>t. (t_timeout t, t_call_times t, t_timestamp t)) (th_timers ?h 2) =
      Some (0, -1, Timestamp 0 0)" by code_simp
  then obtain t where "th_timers ?h 2 = Some t" "t_timeout t = 0" "t_call_times t = -1"
    "t_timestamp t = Timestamp 0 0" by auto
  ultimately show ?thesis
    by (intro zero_timeout_diverges [where p = 2 and t = t])
       (simp_all add: ts_wf_def quiet_def ts_ms_def del: add_all.simps)
qed

text \<open>C20. \<open>removeTimer\<close> forgets exactly the timer with the given id: it is gone from the map and
  from the heap vector, no other timer changes its deadline, and the heap keeps its order where
  the last node may stand below the parent of the hole.\<close>

theorem removeTimer_forgets:
  assumes good: "heap_good h" and removed: "removeTimer h p = h'"
  shows "objects h' = (objects h)(p := None) \<and> (0 \<le> p \<longrightarrow> p \<notin> set (th_min_heap h')) \<and>
    th_inv {} h' \<and> (erase_keeps_order h p \<longrightarrow> heap_good h')"
proof -
  have inv: "th_inv {} h" using good by (simp add: heap_good_def)
  have inv': "th_inv {} h'" using th_inv_removeTimer [OF inv] removed by blast
  have objs: "objects h' = (objects h)(p := None)"
    using removed same_timers_objects [OF same_timers_Erase, of h p]
    by (auto simp: removeTimer_def Let_def objects_def fun_eq_iff split: if_splits)
  have "objects h' p = None" by (simp add: objs)
  then have "p \<notin> set (th_min_heap h')" if "0 \<le> p"
    using heap_in_timers [OF inv' that] by (auto simp: objects_def)
  then show ?thesis
    using objs inv' heap_good_removeTimer [OF good, of p] removed by blast
qed

theorem removeTimer_forgets_witness:
  "heap_good (removeTimer (add_all TimerHeap [(10, 1), (20, 1), (30, 1)]) 2)"
proof -
  let ?h = "add_all TimerHeap [(10, 1), (20, 1), (30, 1)]"
  have "heap_good ?h" by (rule add_all_good [OF heap_good_TimerHeap]) simp
  moreover have "erase_keeps_order ?h 2" by code_simp
  ultimately show ?thesis using removeTimer_forgets [OF _ refl] by blast
qed

text \<open>C21. Without that condition \<open>removeTimer\<close> breaks the order of the heap, because
  \<open>minHeapErase\<close> moves the last node into the hole and only sifts it down: after seven timers
  are added and the 11 ms one is removed, a check at 5 ms runs the timers due at 1 and 3 ms and
  leaves the one that was due at 4 ms waiting behind the one due at 10 ms.\<close>

definition misordered :: "unit timer_heap" where
  "misordered = removeTimer (add_all TimerHeap
     [(1, 1), (10, 1), (3, 1), (11, 1), (12, 1), (21, 1), (4, 1)]) 4"

theorem removeTimer_loses_due_timer:
  "\<not> heap_ordered (heap_keys misordered) \<and>
   (\<exists>h. checkTimeout quiet (Timestamp 0 5000000) (misordered, []) = Some (h, [1, 3]) \<and>
        pending h 7 = Some (Timestamp 0 4000000))"
proof
  have "length (th_min_heap misordered) = 7" by code_simp
  moreover have "\<not> heap_keys misordered ! 2 \<le> heap_keys misordered ! 4" by code_simp
  ultimately show "\<not> heap_ordered (heap_keys misordered)"
    by (auto simp: heap_ordered_def intro!: exI [of _ 4])
next
  have "map_option (\<lambda>(h, log). (log, pending h 7))
      (passes 3 quiet (Timestamp 0 5000000) (misordered, [])) =
    Some ([1, 3], Some (Timestamp 0 4000000))" by code_simp
  then show "\<exists>h. checkTimeout quiet (Timestamp 0 5000000) (misordered, []) = Some (h, [1, 3]) \<and>
        pending h 7 = Some (Timestamp 0 4000000)"
    using passes_checkTimeout by (fastforce split: prod.splits)
qed

text \<open>The poll timeout computed from the heap is -1, to wait without end, only when no timer
  is left; otherwise it is the number of milliseconds to the earliest deadline, and 0 when that
  has passed.\<close>

theorem next_timeout_is_earliest:
  assumes good: "heap_good h" and now: "ts_wf now"
  shows "(getNextTimeoutMillisecond h now = -1 \<longleftrightarrow> (\<forall>p. pending h p = None)) \<and>
    (\<forall>p ts. pending h p = Some ts \<longrightarrow>
       getNextTimeoutMillisecond h now \<le> max 0 (ts_ms ts - ts_ms now) \<and>
       (\<exists>q ts'. pending h q = Some ts' \<and>
          getNextTimeoutMillisecond h now = max 0 (ts_ms ts' - ts_ms now)))"
proof (cases "minHeapTop h")
  case None
  then show ?thesis
    using th.top_None [OF good None] by (simp add: getNextTimeoutMillisecond_def)
next
  case (Some p)
  obtain ts where ts: "pending h p = Some ts" "t_timestamp (deref h p) = ts"
    using th.top_Some [OF good Some] by (auto simp: pending_def deref_def)
  have wf: "ts_wf ts" by (rule th.deadlines_wf [OF good ts(1)])
  have eq: "getNextTimeoutMillisecond h now = max 0 (ts_ms ts - ts_ms now)"
    using ts(2) Some distanceMillisecond_ms [OF now wf] ts_le_ms [OF wf now] ts_le_ms [OF now wf]
    by (auto simp: getNextTimeoutMillisecond_def less_eq_timestamp_def ts_less_def max_def
        split: if_splits)
  have "ts_ms ts \<le> ts_ms ts'" if "pending h q = Some ts'" for q ts'
    using th.top_ms [OF good Some that] ts(1) by simp
  then show ?thesis using eq ts(1) by fastforce
qed

end
