(* ===== verification/Codec.thy ===== *)
theory Codec
  imports Prelude
begin

text \<open>
  What the encoders and decoders of \<open>src/src/brickred/codec\<close> share: a loop that writes into a
  caller's buffer and gives up with -1 when the room runs out, and a \<open>std::string\<close> wrapper that
  allocates the room. The locale states what a wrapper relies on; \<open>Base64\<close> and \<open>Url\<close> provide it.
\<close>

text \<open>A loop gives the bytes written, or None where the code returns -1. The return value of
  the buffer functions is a pointer difference narrowed to \<open>int\<close>.\<close>

definition returned_count :: "bytes option \<Rightarrow> int" where
  "returned_count r = (case r of None \<Rightarrow> -1 | Some out \<Rightarrow> to_int32 (int (length out)))"

text \<open>The end of the wrappers: an empty string unless the count is positive, else the first
  count bytes of the buffer.\<close>

definition returned_string :: "bytes option \<Rightarrow> bytes" where
  "returned_string r =
     (if returned_count r \<le> 0 then [] else take (nat (returned_count r)) (the r))"

lemma returned_string_Some:
  "length out < 2 ^ 31 \<Longrightarrow> returned_string (Some out) = out"
  by (cases out) (simp_all add: returned_string_def returned_count_def to_int32_small)

lemma returned_string_None: "returned_string None = []"
  by (simp add: returned_string_def returned_count_def)

locale buffered_codec =
  fixes loop :: "bytes \<Rightarrow> nat \<Rightarrow> bytes option"
    and meaning :: "bytes \<Rightarrow> bytes option"
  assumes loop_room: "loop xs n =
    (case meaning xs of None \<Rightarrow> None | Some out \<Rightarrow> if length out \<le> n then Some out else None)"
begin

lemma within_room: "loop xs n = Some out \<Longrightarrow> length out \<le> n \<and> meaning xs = Some out"
  by (auto simp: loop_room split: option.splits if_splits)

lemma wrapper_returns:
  "meaning xs = Some out \<Longrightarrow> length out \<le> n \<Longrightarrow> length out < 2 ^ 31 \<Longrightarrow>
    returned_string (loop xs n) = out"
  by (simp add: loop_room returned_string_Some)

lemma wrapper_fails: "meaning xs = None \<Longrightarrow> returned_string (loop xs n) = []"
  by (simp add: loop_room returned_string_None)

lemma enough_room: "meaning xs = Some out \<Longrightarrow> loop xs n \<noteq> None \<longleftrightarrow> length out \<le> n"
  by (simp add: loop_room)

end

end
