(* ===== verification/Url.thy ===== *)
theory Url
  imports Codec
begin

text \<open>
  \<open>src/src/brickred/codec/url.cc\<close>: percent encoding. The encoder leaves the unreserved characters
  of RFC 3986 alone and the decoder accepts exactly the texts made of unreserved characters and
  complete \<open>%XX\<close> triples.
\<close>

definition s_hex_to_letter :: bytes where
  "s_hex_to_letter = str ''0123456789ABCDEF''"

definition isUnreservedChar :: "byte \<Rightarrow> bool" where
  "isUnreservedChar c \<longleftrightarrow> c \<in> set (str
     ''0123456789abcdefghijklmnopqrstuvwxyzABCDEFGHIJKLMNOPQRSTUVWXYZ-._~'')"

definition letterToHex :: "byte \<Rightarrow> int" where
  "letterToHex c =
     (if of_char (CHR ''0'') \<le> c \<and> c \<le> of_char (CHR ''9'') then uint c - of_char (CHR ''0'')
      else if of_char (CHR ''a'') \<le> c \<and> c \<le> of_char (CHR ''f'') then uint c - of_char (CHR ''a'') + 10
      else if of_char (CHR ''A'') \<le> c \<and> c \<le> of_char (CHR ''F'') then uint c - of_char (CHR ''A'') + 10
      else -1)"

definition percent :: byte where
  "percent = of_char (CHR ''%'')"

fun urlEncode_loop :: "bytes \<Rightarrow> nat \<Rightarrow> bytes option" where
  "urlEncode_loop [] room = Some []"
| "urlEncode_loop (c # xs) room =
     (if isUnreservedChar c then
        (if room < 1 then None else map_option ((#) c) (urlEncode_loop xs (room - 1)))
      else
        (if room < 3 then None
         else map_option ((@) [percent, s_hex_to_letter ! unat (drop_bit 4 c),
                               s_hex_to_letter ! unat (c AND 0x0f)])
                (urlEncode_loop xs (room - 3))))"

definition urlEncode :: "bytes \<Rightarrow> bytes" where
  "urlEncode s = returned_string (urlEncode_loop s (max 1 (sz_mul (length s) 3)))"

text \<open>The decoder: \<open>in\<close> and \<open>room\<close> are what is left of the two buffers.\<close>

fun urlDecode_loop :: "bytes \<Rightarrow> nat \<Rightarrow> bytes option" where
  "urlDecode_loop [] room = Some []"
| "urlDecode_loop (c # xs) room =
     (if c = percent then
        (case xs of
           h # l # rest \<Rightarrow>
             if room < 1 then None
             else let high = letterToHex h; low = letterToHex l
                  in if high < 0 \<or> low < 0 then None
                     else map_option ((#) (word_of_int (high * 0x10 + low)))
                            (urlDecode_loop rest (room - 1))
         | _ \<Rightarrow> None)
      else if isUnreservedChar c then
        (if room < 1 then None else map_option ((#) c) (urlDecode_loop xs (room - 1)))
      else None)"

definition urlDecode :: "bytes \<Rightarrow> bytes" where
  "urlDecode s = returned_string (urlDecode_loop s (length s))"

section \<open>The texts written and read\<close>

definition percent_encoded :: "byte \<Rightarrow> bytes" where
  "percent_encoded c = (if isUnreservedChar c then [c]
     else [percent, s_hex_to_letter ! unat (drop_bit 4 c), s_hex_to_letter ! unat (c AND 0x0f)])"

abbreviation url_encoded :: "bytes \<Rightarrow> bytes" where
  "url_encoded xs \<equiv> concat (map percent_encoded xs)"

text \<open>A well-formed text, with the bytes it stands for.\<close>

inductive url_text :: "bytes \<Rightarrow> bytes \<Rightarrow> bool" where
  empty: "url_text [] []"
| plain: "isUnreservedChar c \<Longrightarrow> url_text xs ys \<Longrightarrow> url_text (c # xs) (c # ys)"
| escaped: "letterToHex h = int hi \<Longrightarrow> letterToHex l = int lo \<Longrightarrow> url_text xs ys \<Longrightarrow>
    url_text (percent # h # l # xs) (word_of_nat (hi * 16 + lo) # ys)"

lemma length_percent_encoded: "1 \<le> length (percent_encoded c)" "length (percent_encoded c) \<le> 3"
  by (simp_all add: percent_encoded_def)

lemma length_url_encoded: "length (url_encoded xs) \<le> 3 * length xs"
proof (induction xs)
  case (Cons c xs)
  then show ?case using length_percent_encoded(2) [of c] by simp
qed simp

interpretation encode: buffered_codec urlEncode_loop "\<lambda>xs. Some (url_encoded xs)"
proof
  fix xs room
  show "urlEncode_loop xs room =
      (case Some (url_encoded xs) of None \<Rightarrow> None
       | Some out \<Rightarrow> if length out \<le> room then Some out else None)"
    by (induction xs room rule: urlEncode_loop.induct) (auto simp: percent_encoded_def)
qed

lemma percent_reserved: "\<not> isUnreservedChar percent"
  by code_simp

lemma hex_digit:
  assumes "d < 16"
  shows "letterToHex (s_hex_to_letter ! d) = int d"
proof -
  have "list_all (\<lambda>d. letterToHex (s_hex_to_letter ! d) = int d) [0..<16]" by code_simp
  then show ?thesis using assms by (simp add: list_all_iff)
qed

lemma nibbles: "word_of_nat (unat (drop_bit 4 c) * 16 + unat (c AND 0x0f)) = (c :: byte)"
  by (simp add: word_unat_eq_iff unat_drop_bit unat_and_low unat_of_nat unat_byte_less
      del: of_nat_add of_nat_mult)

lemma url_text_encoded: "url_text (url_encoded xs) xs"
proof (induction xs)
  case (Cons c xs)
  have "unat (drop_bit 4 c) < 16" "unat (c AND 0x0f) < 16"
    using unat_byte_less [of c] by (simp_all add: unat_drop_bit unat_and_low less_mult_imp_div_less)
  then have "url_text (percent # s_hex_to_letter ! unat (drop_bit 4 c) #
      s_hex_to_letter ! unat (c AND 0x0f) # url_encoded xs) (c # xs)"
    using url_text.escaped [OF hex_digit hex_digit Cons.IH] nibbles by fastforce
  then have "url_text (percent_encoded c @ url_encoded xs) (c # xs)"
    using plain [of c, OF _ Cons.IH] percent_encoded_def [of c] by (auto split: if_splits)
  then show ?case by simp
qed (simp add: url_text.empty)

lemma letterToHex_nat: "\<not> letterToHex h < 0 \<Longrightarrow> letterToHex h = int (nat (letterToHex h))"
  by simp

lemma decode_text:
  "urlDecode_loop xs room = Some ys \<longleftrightarrow> url_text xs ys \<and> length ys \<le> room"
proof
  assume "urlDecode_loop xs room = Some ys"
  then show "url_text xs ys \<and> length ys \<le> room"
  proof (induction xs room arbitrary: ys rule: urlDecode_loop.induct)
    case (2 c xs room)
    show ?case
    proof (cases "c = percent")
      case True
      then obtain h l rest zs where e: "xs = h # l # rest" "1 \<le> room" "0 \<le> letterToHex h"
        "0 \<le> letterToHex l" "urlDecode_loop rest (room - 1) = Some zs"
        "ys = word_of_int (letterToHex h * 16 + letterToHex l) # zs"
        using 2(3) by (auto split: list.splits if_splits simp: Let_def)
      then have "url_text rest zs \<and> length zs \<le> room - 1"
        using 2(1) True by auto
      then show ?thesis
        using e True url_text.escaped [of h "nat (letterToHex h)" l "nat (letterToHex l)" rest zs]
        by auto
    next
      case False
      then show ?thesis using 2(2,3) by (fastforce split: if_splits intro: plain)
    qed
  qed (auto intro: url_text.empty)
next
  assume "url_text xs ys \<and> length ys \<le> room"
  then have "url_text xs ys" "length ys \<le> room" by auto
  then show "urlDecode_loop xs room = Some ys"
    by (induction arbitrary: room rule: url_text.induct)
       (auto simp: percent_reserved)
qed

lemma url_text_length: "url_text xs ys \<Longrightarrow> length ys \<le> length xs"
  by (induction rule: url_text.induct) auto

interpretation decode: buffered_codec urlDecode_loop "\<lambda>xs. urlDecode_loop xs (length xs)"
proof
  fix xs n
  show "urlDecode_loop xs n = (case urlDecode_loop xs (length xs) of None \<Rightarrow> None
      | Some out \<Rightarrow> if length out \<le> n then Some out else None)"
  proof (cases "urlDecode_loop xs (length xs)")
    case None
    have "urlDecode_loop xs n \<noteq> Some ys" for ys
      using None decode_text [of xs "length xs" ys] decode_text [of xs n ys] url_text_length [of xs ys]
      by auto
    then have "urlDecode_loop xs n = None" by (meson not_None_eq)
    then show ?thesis using None by simp
  next
    case (Some ys)
    then have ys: "url_text xs ys" by (simp add: decode_text)
    have "zs = ys" if "urlDecode_loop xs n = Some zs" for zs
    proof -
      have "url_text xs zs" using that by (simp add: decode_text)
      then have "urlDecode_loop xs (length xs) = Some zs"
        by (simp add: decode_text url_text_length)
      then show ?thesis using Some by simp
    qed
    then show ?thesis
      using Some ys decode_text [of xs n ys] decode_text [of xs n]
      by (cases "urlDecode_loop xs n") auto
  qed
qed

section \<open>Properties\<close>

text \<open>C25. \<open>urlDecode\<close> inverts \<open>urlEncode\<close>, the wrapper of the encoder always allocates enough
  room, and everything the encoder writes is made of unreserved characters and percent signs.\<close>

theorem url_roundtrip:
  assumes small: "length xs < 2 ^ 29"
  shows "urlDecode (urlEncode xs) = xs \<and> urlEncode xs = url_encoded xs"
proof -
  have "urlEncode xs = url_encoded xs"
    unfolding urlEncode_def using small length_url_encoded [of xs]
    by (intro encode.wrapper_returns) (simp_all add: sz_mul_small)
  moreover have "urlDecode_loop (url_encoded xs) (length (url_encoded xs)) = Some xs"
    using url_text_encoded [of xs] url_text_length [of "url_encoded xs" xs]
    by (simp add: decode_text)
  then have "urlDecode (url_encoded xs) = xs"
    using small by (simp add: urlDecode_def returned_string_Some)
  ultimately show ?thesis by simp
qed

theorem url_roundtrip_witness:
  "urlEncode_loop (str ''a b/~'') 9 = Some (str ''a%20b%2F~'') \<and>
   urlDecode (urlEncode (str ''a b/~'')) = str ''a b/~''"
proof
  show "urlEncode_loop (str ''a b/~'') 9 = Some (str ''a%20b%2F~'')" by code_simp
  have "length (str ''a b/~'') < 2 ^ 29" by simp
  then show "urlDecode (urlEncode (str ''a b/~'')) = str ''a b/~''"
    using url_roundtrip by blast
qed

text \<open>The decoder accepts exactly the well-formed texts whose bytes fit in the buffer: a
  character that must be escaped, an incomplete escape or a letter that is no hexadecimal digit
  makes it fail.\<close>

lemma urlDecode_accepts_wellformed:
  "urlDecode_loop xs room = Some ys \<longleftrightarrow> url_text xs ys \<and> length ys \<le> room"
  by (rule decode_text)

end
