(* ===== verification/Base64.thy ===== *)
theory Base64
  imports Codec
begin

text \<open>
  \<open>src/src/brickred/codec/base64.cc\<close>: the two tables, the encoding and the decoding loop and the
  \<open>std::string\<close> wrappers. The encoder is shown to compute the groups of RFC 4648 and the decoder
  to invert it.
\<close>

section \<open>Tables\<close>

definition s_encode_table :: bytes where
  "s_encode_table = str ''ABCDEFGHIJKLMNOPQRSTUVWXYZabcdefghijklmnopqrstuvwxyz0123456789+/''"

definition s_decode_table :: bytes where
  "s_decode_table = [
    62, -1, -1, -1, 63, 52, 53, 54, 55, 56,
    57, 58, 59, 60, 61, -1, -1, -1, -2, -1,
    -1, -1,  0,  1,  2,  3,  4,  5,  6,  7,
     8,  9, 10, 11, 12, 13, 14, 15, 16, 17,
    18, 19, 20, 21, 22, 23, 24, 25, -1, -1,
    -1, -1, -1, -1, 26, 27, 28, 29, 30, 31,
    32, 33, 34, 35, 36, 37, 38, 39, 40, 41,
    42, 43, 44, 45, 46, 47, 48, 49, 50, 51]"

section \<open>The loops\<close>

text \<open>One round of the encoder writes four characters for the bytes \<open>b[0..2]\<close>, of which
  \<open>b_len\<close> are taken from the input.\<close>

definition encode_round :: "byte \<Rightarrow> byte \<Rightarrow> byte \<Rightarrow> nat \<Rightarrow> bytes" where
  "encode_round b0 b1 b2 b_len =
     [s_encode_table ! unat (drop_bit 2 b0),
      s_encode_table ! unat (push_bit 4 (b0 AND 0x03) OR drop_bit 4 (b1 AND 0xf0)),
      (if b_len > 1 then s_encode_table ! unat (push_bit 2 (b1 AND 0x0f) OR drop_bit 6 (b2 AND 0xc0))
       else of_char (CHR ''='')),
      (if b_len > 2 then s_encode_table ! unat (b2 AND 0x3f) else of_char (CHR ''=''))]"

fun base64Encode_loop :: "bytes \<Rightarrow> nat \<Rightarrow> bytes option" where
  "base64Encode_loop [] room = Some []"
| "base64Encode_loop (x # y # z # xs) room =
     (if room < 4 then None
      else map_option ((@) (encode_round x y z 3)) (base64Encode_loop xs (room - 4)))"
| "base64Encode_loop [x, y] room = (if room < 4 then None else Some (encode_round x y 0 2))"
| "base64Encode_loop [x] room = (if room < 4 then None else Some (encode_round x 0 0 1))"

definition base64Encode :: "bytes \<Rightarrow> bytes" where
  "base64Encode s = returned_string (base64Encode_loop s (max 5 (sz_mul (length s) 2)))"

text \<open>One character of the decoder: the value stored in \<open>b[i]\<close>, and whether it counts in
  \<open>b_len\<close>. A \<open>char\<close> is compared as a signed number and the table entry is read back as an
  \<open>unsigned char\<close>.\<close>

definition decode_char :: "byte \<Rightarrow> byte \<times> nat" where
  "decode_char c =
     (if sint c < 43 \<or> sint c > 122 \<or> c = of_char (CHR ''='') then (0, 0)
      else (s_decode_table ! nat (sint c - 43), 1))"

fun base64Decode_loop :: "bytes \<Rightarrow> nat \<Rightarrow> bytes option" where
  "base64Decode_loop [] room = Some []"
| "base64Decode_loop (c0 # c1 # c2 # c3 # xs) room =
     (let b0 = fst (decode_char c0); b1 = fst (decode_char c1);
          b2 = fst (decode_char c2); b3 = fst (decode_char c3);
          b_len = snd (decode_char c0) + snd (decode_char c1) +
                  snd (decode_char c2) + snd (decode_char c3)
      in if b_len < 2 then None
         else if room < b_len - 1 then None
         else let out = [push_bit 2 b0 OR drop_bit 4 b1] @
                        (if b_len > 2 then [push_bit 4 b1 OR drop_bit 2 b2] else []) @
                        (if b_len > 3 then [push_bit 6 b2 OR b3] else [])
              in map_option ((@) out) (base64Decode_loop xs (room - length out)))"
| "base64Decode_loop xs room = None"

definition base64Decode :: "bytes \<Rightarrow> bytes" where
  "base64Decode s = returned_string (base64Decode_loop s (length s))"

section \<open>The encoding of RFC 4648\<close>

text \<open>The groups as numbers: 24, 16 or 8 bits of input are read as one big-endian number, padded
  with zero bits on the right to whole digits, and written in base 64.\<close>

definition digit :: "nat \<Rightarrow> nat \<Rightarrow> byte" where
  "digit n k = s_encode_table ! (n div 64 ^ k mod 64)"

definition pad :: byte where
  "pad = of_char (CHR ''='')"

fun rfc4648 :: "bytes \<Rightarrow> bytes" where
  "rfc4648 [] = []"
| "rfc4648 (x # y # z # xs) =
     (let n = unat x * 65536 + unat y * 256 + unat z
      in [digit n 3, digit n 2, digit n 1, digit n 0] @ rfc4648 xs)"
| "rfc4648 [x, y] =
     (let n = (unat x * 256 + unat y) * 4 in [digit n 2, digit n 1, digit n 0, pad])"
| "rfc4648 [x] = (let n = unat x * 16 in [digit n 1, digit n 0, pad, pad])"

lemma digits: fixes d0 d1 d2 d3 :: nat 
 assumes "d1 < 64" "d2 < 64" "d3 < 64" "d0 < 64"
 shows "(d0 * 262144 + d1 * 4096 + d2 * 64 + d3) div 262144 mod 64 = d0"
   "(d0 * 262144 + d1 * 4096 + d2 * 64 + d3) div 4096 mod 64 = d1"
   "(d0 * 262144 + d1 * 4096 + d2 * 64 + d3) div 64 mod 64 = d2"
   "(d0 * 262144 + d1 * 4096 + d2 * 64 + d3) mod 64 = d3"
proof -
  let ?n = "((d0 * 64 + d1) * 64 + d2) * 64 + d3"
  have n: "d0 * 262144 + d1 * 4096 + d2 * 64 + d3 = ?n" by simp
  have split: "(a * 64 + b) div 64 = a" "(a * 64 + b) mod 64 = b" if "b < 64" for a b :: nat
    using that by simp_all
  have a: "?n div 64 = (d0 * 64 + d1) * 64 + d2" "?n mod 64 = d3"
    using split [OF assms(3)] by blast+
  have b: "?n div (64 * 64) = d0 * 64 + d1" using a split [OF assms(2)] by (simp only: div_mult2_eq)
  have c: "?n div (64 * 64 * 64) = d0" using b split [OF assms(1)] by (simp only: div_mult2_eq)
  have b': "?n div 4096 = d0 * 64 + d1" using b by simp
  have c': "?n div 262144 = d0" using c by simp
  show "(d0 * 262144 + d1 * 4096 + d2 * 64 + d3) div 262144 mod 64 = d0"
    "(d0 * 262144 + d1 * 4096 + d2 * 64 + d3) div 4096 mod 64 = d1"
    "(d0 * 262144 + d1 * 4096 + d2 * 64 + d3) div 64 mod 64 = d2"
    "(d0 * 262144 + d1 * 4096 + d2 * 64 + d3) mod 64 = d3"
    unfolding n a b' c' split [OF assms(1)] split [OF assms(2)] using assms by simp_all
qed

text \<open>The four digits of a group, as the shifts and masks compute them.\<close>

definition digits_of :: "nat \<Rightarrow> nat \<Rightarrow> nat \<Rightarrow> nat list" where
  "digits_of x y z = [x div 4, x mod 4 * 16 + y div 16, y mod 16 * 4 + z div 64, z mod 64]"

lemma encode_indices:
  "unat (drop_bit 2 (x :: byte)) = unat x div 4"
  "unat (push_bit 4 (x AND 3) OR drop_bit 4 (y AND 0xf0)) = unat x mod 4 * 16 + unat (y :: byte) div 16"
  "unat (push_bit 2 (y AND 15) OR drop_bit 6 (z AND 0xc0)) = unat y mod 16 * 4 + unat (z :: byte) div 64"
  "unat (z AND 63) = unat z mod 64"
proof -
  note less = unat_byte_less [of y] unat_byte_less [of z]
  show "unat (drop_bit 2 x) = unat x div 4" "unat (z AND 63) = unat z mod 64"
    by (simp_all add: unat_drop_bit unat_and_low)
  show "unat (push_bit 4 (x AND 3) OR drop_bit 4 (y AND 0xf0)) = unat x mod 4 * 16 + unat y div 16"
    unfolding drop_high using less
    by (subst unat_or_push) (simp_all add: unat_drop_bit unat_and_low less_mult_imp_div_less)
  show "unat (push_bit 2 (y AND 15) OR drop_bit 6 (z AND 0xc0)) = unat y mod 16 * 4 + unat z div 64"
    unfolding drop_high using less
    by (subst unat_or_push) (simp_all add: unat_drop_bit unat_and_low less_mult_imp_div_less)
qed

lemma group_digits:
  shows "x * 65536 + y * 256 + z = x div 4 * 262144 + (x mod 4 * 16 + y div 16) * 4096
    + (y mod 16 * 4 + z div 64) * 64 + z mod (64 :: nat)"
proof -
  define a b c d e f where "a = x div 4" and "b = x mod 4" and "c = y div 16" and "d = y mod 16"
    and "e = z div 64" and "f = z mod 64"
  have "x = a * 4 + b" "y = c * 16 + d" "z = e * 64 + f"
    by (simp_all add: a_def b_def c_def d_def e_def f_def)
  then have "x * 65536 + y * 256 + z = a * 262144 + (b * 16 + c) * 4096 + (d * 4 + e) * 64 + f"
    by simp
  then show ?thesis by (simp only: a_def b_def c_def d_def e_def f_def)
qed

lemma group_values:
  fixes x y z :: byte
  defines "n \<equiv> unat x * 65536 + unat y * 256 + unat z"
  shows "n div 64 ^ 3 mod 64 = unat x div 4"
    and "n div 64 ^ 2 mod 64 = unat x mod 4 * 16 + unat y div 16"
    and "n div 64 ^ 1 mod 64 = unat y mod 16 * 4 + unat z div 64"
    and "n div 64 ^ 0 mod 64 = unat z mod 64"
proof -
  note less = unat_byte_less [of x] unat_byte_less [of y] unat_byte_less [of z]
  note g = group_digits [of "unat x" "unat y" "unat z"]
  have q: "unat x div 4 < 64" "unat y div 16 < 16" "unat z div 64 < 4"
    using less by (simp_all add: less_mult_imp_div_less)
  have "unat x mod 4 < 4" "unat y mod 16 < 16" "unat z mod 64 < 64" by simp_all
  then have "unat x mod 4 * 16 + unat y div 16 < 64" "unat y mod 16 * 4 + unat z div 64 < 64"
    "unat z mod 64 < 64"
    using q by linarith+
  note d = digits [OF this q(1), folded g n_def]
  have p: "(64 :: nat) ^ 3 = 262144" "(64 :: nat) ^ 2 = 4096" "(64 :: nat) ^ 1 = 64" "(64 :: nat) ^ 0 = 1"
    by simp_all
  show "n div 64 ^ 3 mod 64 = unat x div 4"
    "n div 64 ^ 2 mod 64 = unat x mod 4 * 16 + unat y div 16"
    "n div 64 ^ 1 mod 64 = unat y mod 16 * 4 + unat z div 64"
    "n div 64 ^ 0 mod 64 = unat z mod 64"
    unfolding p d div_by_1 by (rule refl)+
qed

lemma encode_round_digits:
  defines "n \<equiv> \<lambda>x y z. unat (x :: byte) * 65536 + unat (y :: byte) * 256 + unat (z :: byte)"
  shows "encode_round x y z b_len =
    [digit (n x y z) 3, digit (n x y z) 2, if b_len > 1 then digit (n x y z) 1 else pad,
     if b_len > 2 then digit (n x y z) 0 else pad]"
  unfolding encode_round_def encode_indices digit_def n_def group_values pad_def ..

lemma digit_pad:
  "digit (x * 65536 + y * 256) 3 = digit ((x * 256 + y) * 4) 2"
  "digit (x * 65536 + y * 256) 2 = digit ((x * 256 + y) * 4) (Suc 0)"
  "digit (x * 65536 + y * 256) (Suc 0) = digit ((x * 256 + y) * 4) 0"
  "digit (x * 65536) 3 = digit (x * 16) (Suc 0)"
  "digit (x * 65536) 2 = digit (x * 16) 0"
proof -
  have shift: "digit (n * 64) (Suc k) = digit n k" for n k by (simp add: digit_def)
  have n: "3 = Suc (Suc (Suc 0))" "2 = Suc (Suc 0)" by simp_all
  have s: "x * 65536 + y * 256 = (x * 256 + y) * 4 * 64" "x * 65536 = x * 16 * 64 * 64" by simp_all
  show "digit (x * 65536 + y * 256) 3 = digit ((x * 256 + y) * 4) 2"
    "digit (x * 65536 + y * 256) 2 = digit ((x * 256 + y) * 4) (Suc 0)"
    "digit (x * 65536 + y * 256) (Suc 0) = digit ((x * 256 + y) * 4) 0"
    unfolding n s(1) shift by (rule refl)+
  show "digit (x * 65536) 3 = digit (x * 16) (Suc 0)" "digit (x * 65536) 2 = digit (x * 16) 0"
    unfolding n s(2) shift by (rule refl)+
qed

lemma encode_loop_room:
  "base64Encode_loop xs room =
    (if length (rfc4648 xs) \<le> room then Some (rfc4648 xs) else None)"
proof (induction xs room rule: base64Encode_loop.induct)
  case (2 x y z xs room)
  then show ?case by (auto simp: encode_round_digits Let_def)
next
  case (3 x y room)
  show ?case
    by (simp add: encode_round_digits Let_def digit_pad)
next
  case (4 x room)
  show ?case
    by (simp add: encode_round_digits Let_def digit_pad)
qed simp

interpretation encode: buffered_codec base64Encode_loop "\<lambda>xs. Some (rfc4648 xs)"
  by unfold_locales (simp add: encode_loop_room)

lemma length_rfc4648: "length (rfc4648 xs) = 4 * ((length xs + 2) div 3)"
proof (induction xs rule: rfc4648.induct)
  case (2 x y z xs)
  have "(length xs + 2 + 1 * 3) div 3 = (length xs + 2) div 3 + 1" by simp
  with 2 show ?case by (simp add: Let_def)
qed (simp_all add: Let_def)

section \<open>Decoding\<close>

text \<open>What the decoder gives when there is room.\<close>

fun base64_decoded :: "bytes \<Rightarrow> bytes option" where
  "base64_decoded [] = Some []"
| "base64_decoded (c0 # c1 # c2 # c3 # xs) =
     (let b0 = fst (decode_char c0); b1 = fst (decode_char c1);
          b2 = fst (decode_char c2); b3 = fst (decode_char c3);
          b_len = snd (decode_char c0) + snd (decode_char c1) +
                  snd (decode_char c2) + snd (decode_char c3)
      in if b_len < 2 then None
         else map_option ((@) (take (b_len - 1) [push_bit 2 b0 OR drop_bit 4 b1,
                push_bit 4 b1 OR drop_bit 2 b2, push_bit 6 b2 OR b3])) (base64_decoded xs))"
| "base64_decoded xs = None"

lemma snd_decode_char: "snd (decode_char c) \<le> 1"
  by (simp add: decode_char_def)

lemma decode_loop_room:
  "base64Decode_loop xs room =
    (case base64_decoded xs of None \<Rightarrow> None
     | Some out \<Rightarrow> if length out \<le> room then Some out else None)"
proof (induction xs room rule: base64Decode_loop.induct)
  case (2 c0 c1 c2 c3 xs room)
  define n where "n = snd (decode_char c0) + snd (decode_char c1) + snd (decode_char c2) +
    snd (decode_char c3)"
  have "n \<le> 4"
    using snd_decode_char [of c0] snd_decode_char [of c1] snd_decode_char [of c2]
      snd_decode_char [of c3] by (simp add: n_def)
  then consider "n < 2" | "n = 2" | "n = 3" | "n = 4" by linarith
  then show ?case
    using 2 by cases (auto simp: n_def [symmetric] Let_def split: option.splits)
qed simp_all

interpretation decode: buffered_codec base64Decode_loop base64_decoded
  by unfold_locales (simp add: decode_loop_room)

text \<open>The decoding table inverts the encoding table.\<close>

lemma decode_table:
  assumes "d < 64"
  shows "decode_char (s_encode_table ! d) = (word_of_nat d, 1)"
proof -
  have "list_all (\<lambda>d. decode_char (s_encode_table ! d) = (word_of_nat d, 1)) [0..<64]" by code_simp
  then show ?thesis using assms by (simp add: list_all_iff)
qed

lemma decode_digit: "decode_char (digit n k) = (word_of_nat (n div 64 ^ k mod 64), 1)"
  by (simp add: digit_def decode_table)

lemma decode_pad: "decode_char pad = (0, 0)"
  by (simp add: decode_char_def pad_def)

text \<open>Four digits back to three bytes.\<close>

lemma unat_small: "n < 256 \<Longrightarrow> unat (word_of_nat n :: byte) = n"
  by (simp add: unat_of_nat)

lemma join_digits:
  assumes "d0 < 64" and "d1 < 64" and "d2 < 64" and "d3 < 64"
  shows "unat (push_bit 2 (word_of_nat d0) OR drop_bit 4 (word_of_nat d1) :: byte) = d0 * 4 + d1 div 16"
    and "unat (push_bit 4 (word_of_nat d1) OR drop_bit 2 (word_of_nat d2) :: byte) =
      d1 mod 16 * 16 + d2 div 4"
    and "unat (push_bit 6 (word_of_nat d2) OR word_of_nat d3 :: byte) = d2 mod 4 * 64 + d3"
  using assms
  by (subst unat_or_push; simp add: unat_drop_bit unat_small less_mult_imp_div_less)+

lemma join_digits_of:
  fixes x y z :: byte
  defines "n \<equiv> unat x * 65536 + unat y * 256 + unat z"
  shows "push_bit 2 (word_of_nat (n div 64 ^ 3 mod 64)) OR
      drop_bit 4 (word_of_nat (n div 64 ^ 2 mod 64)) = x"
    and "push_bit 4 (word_of_nat (n div 64 ^ 2 mod 64)) OR
      drop_bit 2 (word_of_nat (n div 64 ^ 1 mod 64)) = y"
    and "push_bit 6 (word_of_nat (n div 64 ^ 1 mod 64)) OR word_of_nat (n div 64 ^ 0 mod 64) = z"
proof -
  define d where "d k = n div 64 ^ k mod 64" for k
  have d: "d k < 64" for k by (simp add: d_def)
  note v = group_values [of x y z, folded n_def, folded d_def]
  have q: "unat y div 16 < 16" "unat z div 64 < 4"
    using unat_byte_less [of y] unat_byte_less [of z] by (simp_all add: less_mult_imp_div_less)
  have s: "(a * 16 + b) div 16 = a" "(a * 16 + b) mod 16 = b" if "b < 16" for a b :: nat
    using that by simp_all
  have s': "(a * 4 + b) div 4 = a" "(a * 4 + b) mod 4 = b" if "b < 4" for a b :: nat
    using that by simp_all
  show "push_bit 2 (word_of_nat (n div 64 ^ 3 mod 64)) OR
      drop_bit 4 (word_of_nat (n div 64 ^ 2 mod 64)) = x"
    unfolding word_unat_eq_iff d_def [symmetric] join_digits(1) [OF d d d d]
    unfolding v s(1) [OF q(1)]
    by simp
  show "push_bit 4 (word_of_nat (n div 64 ^ 2 mod 64)) OR
      drop_bit 2 (word_of_nat (n div 64 ^ 1 mod 64)) = y"
    unfolding word_unat_eq_iff d_def [symmetric] join_digits(2) [OF d d d d]
    unfolding v s(2) [OF q(1)]
      s'(1) [OF q(2)] by simp
  show "push_bit 6 (word_of_nat (n div 64 ^ 1 mod 64)) OR word_of_nat (n div 64 ^ 0 mod 64) = z"
    unfolding word_unat_eq_iff d_def [symmetric] join_digits(3) [OF d d d d]
    unfolding v s'(2) [OF q(2)]
    by simp
qed

lemma decode_round:
  assumes "0 < b_len" and "b_len \<le> 3"
  shows "base64_decoded (encode_round x y z b_len @ xs) =
    map_option ((@) (take b_len [x, y, z])) (base64_decoded xs)"
proof -
  have "b_len = 1 \<or> b_len = 2 \<or> b_len = 3" using assms by auto
  then show ?thesis
    unfolding encode_round_digits
    by (elim disjE) (simp_all add: decode_digit decode_pad join_digits_of [simplified])
qed

lemma rfc4648_rounds:
  "rfc4648 (x # y # z # xs) = encode_round x y z 3 @ rfc4648 xs"
  "rfc4648 [x, y] = encode_round x y 0 2"
  "rfc4648 [x] = encode_round x 0 0 1"
  by (simp_all add: encode_round_digits Let_def digit_pad)

lemma decoded_encoded: "base64_decoded (rfc4648 xs) = Some xs"
proof (induction xs rule: rfc4648.induct)
  case (3 x y)
  show ?case using decode_round [of 2 x y 0 "[]"] by (simp add: rfc4648_rounds del: rfc4648.simps)
next
  case (4 x)
  show ?case using decode_round [of 1 x 0 0 "[]"] by (simp add: rfc4648_rounds del: rfc4648.simps)
qed (simp_all add: rfc4648_rounds decode_round del: rfc4648.simps(2-4))

text \<open>The room the wrappers allocate is enough.\<close>

lemma encoded_fits: "4 * ((n + 2) div 3) \<le> max 5 (n * 2 :: nat)"
proof (cases "n < 4")
  case True
  then have "n = 0 \<or> n = 1 \<or> n = 2 \<or> n = 3" by auto
  then show ?thesis by auto
next
  case False
  have "3 * ((n + 2) div 3) \<le> n + 2" by simp
  with False show ?thesis by linarith
qed

lemma decoded_whole_groups: "length zs mod 4 \<noteq> 0 \<Longrightarrow> base64_decoded zs = None"
  by (induction zs rule: base64_decoded.induct) (auto simp: Let_def)

lemma base64Encode_small: "length xs < 2 ^ 30 \<Longrightarrow> base64Encode xs = rfc4648 xs"
  unfolding base64Encode_def using encoded_fits [of "length xs"]
  by (intro encode.wrapper_returns) (simp_all add: length_rfc4648 sz_mul_small)

text \<open>The characters of an encoding.\<close>

lemma digit_in_table: "digit n k \<in> set s_encode_table"
  unfolding digit_def by (rule nth_mem) (simp add: s_encode_table_def)

lemma rfc4648_chars: "c \<in> set (rfc4648 xs) \<Longrightarrow> c \<in> set s_encode_table \<or> c = pad"
  by (induction xs rule: rfc4648.induct) (auto simp: Let_def digit_in_table)

section \<open>Properties\<close>

text \<open>C23. \<open>base64Encode\<close> is the encoding of RFC 4648, and the buffer function gives -1 exactly
  when the caller's buffer is shorter than the four characters per started group of three bytes.\<close>

theorem base64Encode_is_rfc4648:
  "base64Encode_loop xs room = (if 4 * ((length xs + 2) div 3) \<le> room then Some (rfc4648 xs) else None)
   \<and> (length xs < 2 ^ 30 \<longrightarrow> base64Encode xs = rfc4648 xs)"
proof (intro conjI impI)
  show "base64Encode_loop xs room =
      (if 4 * ((length xs + 2) div 3) \<le> room then Some (rfc4648 xs) else None)"
    by (simp only: encode_loop_room length_rfc4648)
  assume "length xs < 2 ^ 30"
  then show "base64Encode xs = rfc4648 xs" by (rule base64Encode_small)
qed

theorem base64Encode_is_rfc4648_witness:
  "base64Encode (str ''ab'') = rfc4648 (str ''ab'') \<and>
   base64Encode_loop (str ''ab'') 4 = Some (str ''YWI='')"
proof
  have "length (str ''ab'') < 2 ^ 30" by simp
  then show "base64Encode (str ''ab'') = rfc4648 (str ''ab'')"
    using base64Encode_is_rfc4648 [of "str ''ab''" 0] by blast
  show "base64Encode_loop (str ''ab'') 4 = Some (str ''YWI='')" by code_simp
qed

text \<open>C24. Decoding inverts encoding, also when only the buffer functions with just enough room
  are used, and a text whose length is not a multiple of four is refused.\<close>

theorem base64_roundtrip:
  "(length xs < 2 ^ 30 \<longrightarrow> base64Decode (base64Encode xs) = xs) \<and>
   (base64Encode_loop xs room = Some ys \<longrightarrow> base64Decode_loop ys (length xs) = Some xs) \<and>
   (length zs mod 4 \<noteq> 0 \<longrightarrow> base64Decode_loop zs room = None)"
proof (intro conjI impI)
  assume small: "length xs < 2 ^ 30"
  have enc: "base64Encode xs = rfc4648 xs" by (rule base64Encode_small [OF small])
  show "base64Decode (base64Encode xs) = xs"
    unfolding base64Decode_def enc using small
    by (intro decode.wrapper_returns) (auto simp: decoded_encoded length_rfc4648)
next
  assume "base64Encode_loop xs room = Some ys"
  then have "ys = rfc4648 xs" by (simp add: encode_loop_room split: if_splits)
  then show "base64Decode_loop ys (length xs) = Some xs"
    by (simp add: decode_loop_room decoded_encoded)
next
  assume "length zs mod 4 \<noteq> 0"
  then have "base64_decoded zs = None" by (rule decoded_whole_groups)
  then show "base64Decode_loop zs room = None" by (simp add: decode_loop_room)
qed

theorem base64_roundtrip_witness:
  "base64Decode (base64Encode (str ''brick'')) = str ''brick'' \<and>
   base64Encode_loop (str ''brick'') 8 = Some (str ''YnJpY2s='') \<and>
   base64Decode_loop (str ''YnJpY2s='') (length (str ''brick'')) = Some (str ''brick'') \<and>
   base64Decode_loop (str ''YnJpY2s'') 8 = None"
proof -
  have enc: "base64Encode_loop (str ''brick'') 8 = Some (str ''YnJpY2s='')" by code_simp
  have "length (str ''brick'') < 2 ^ 30" "length (str ''YnJpY2s'') mod 4 \<noteq> 0" by simp_all
  then show ?thesis
    using base64_roundtrip [of "str ''brick''" 8 "str ''YnJpY2s=''" "str ''YnJpY2s''"] enc by blast
qed

text \<open>Characters outside the alphabet between \<open>+\<close> and \<open>z\<close> are not refused: their table entry -1
  is used as the digit 255.\<close>

lemma base64Decode_accepts_outside:
  "base64Decode_loop (str ''AA?A'') 3 = Some [0, 0x0f OR 0x30, 0xc0]"
  by code_simp

end
