(* ===== verification/HashBlock.thy ===== *)
theory HashBlock
  imports Prelude
begin

text \<open>
  The block buffering that \<open>codec/sha1.cc\<close> and \<open>codec/sha256.cc\<close> share, written out in both files
  with their own block function: \<open>update\<close> and \<open>digest\<close> over a hash, a 64-byte work block and the
  message size. The locale \<open>block_hasher\<close> proves once that the context computes the hash of the
  padded message, however the message is cut into updates.
\<close>

section \<open>Contexts\<close>

record hash_ctx =
  hc_hash :: "u32 list"
  hc_work_block :: bytes
  hc_message_size :: u64

text \<open>\<open>ntohl\<close> of the \<open>i\<close>-th 32-bit word of a block.\<close>

definition load_be32 :: "bytes \<Rightarrow> nat \<Rightarrow> u32" where
  "load_be32 block i =
     push_bit 24 (ucast (block ! (4 * i))) OR push_bit 16 (ucast (block ! (4 * i + 1))) OR
     push_bit 8 (ucast (block ! (4 * i + 2))) OR ucast (block ! (4 * i + 3))"

text \<open>The loop over the complete blocks of the input: the new hash and the bytes left.\<close>

function process_blocks :: "(u32 list \<Rightarrow> bytes \<Rightarrow> u32 list) \<Rightarrow> u32 list \<Rightarrow> bytes \<Rightarrow> u32 list \<times> bytes" where
  "process_blocks process hash buffer =
     (if length buffer \<ge> 64
      then process_blocks process (process hash (take 64 buffer)) (drop 64 buffer)
      else (hash, buffer))"
  by pat_completeness auto
termination by (relation "measure (\<lambda>(p, h, b). length b)") auto

declare process_blocks.simps [simp del]

text \<open>\<open>memcpy\<close> to the given offset of the work block.\<close>

definition copy_at :: "bytes \<Rightarrow> nat \<Rightarrow> bytes \<Rightarrow> bytes" where
  "copy_at block off xs = take off block @ xs @ drop (off + length xs) block"

definition block_tail :: "(u32 list \<Rightarrow> bytes \<Rightarrow> u32 list) \<Rightarrow> hash_ctx \<Rightarrow> bytes \<Rightarrow> hash_ctx" where
  "block_tail process ctx buffer =
     (let (hash, rest) = process_blocks process (hc_hash ctx) buffer
      in if length rest > 0
         then ctx\<lparr>hc_hash := hash, hc_work_block := copy_at (hc_work_block ctx) 0 rest\<rparr>
         else ctx\<lparr>hc_hash := hash\<rparr>)"

definition block_update :: "(u32 list \<Rightarrow> bytes \<Rightarrow> u32 list) \<Rightarrow> hash_ctx \<Rightarrow> bytes \<Rightarrow> hash_ctx" where
  "block_update process ctx0 buffer =
     (let wb_size = unat (hc_message_size ctx0 AND 63);
          ctx = ctx0\<lparr>hc_message_size := hc_message_size ctx0 + of_nat (length buffer)\<rparr>
      in if wb_size > 0 then
           let left = 64 - wb_size;
               ctx1 = ctx\<lparr>hc_work_block := copy_at (hc_work_block ctx) wb_size
                            (take (min (length buffer) left) buffer)\<rparr>
           in if length buffer < left then ctx1
              else block_tail process
                     (ctx1\<lparr>hc_hash := process (hc_hash ctx1) (hc_work_block ctx1)\<rparr>)
                     (drop left buffer)
         else block_tail process ctx buffer)"

text \<open>\<open>digest\<close>: the padding goes through \<open>update\<close>; the two halves of the bit length are computed
  before. The result is the context, which the code changes too, and the hash in big-endian.\<close>

definition pad_block :: bytes where
  "pad_block = 0x80 # replicate 63 0"

definition block_digest :: "(u32 list \<Rightarrow> bytes \<Rightarrow> u32 list) \<Rightarrow> hash_ctx \<Rightarrow> hash_ctx \<times> bytes" where
  "block_digest process ctx =
     (let pad_len = be32 (ucast (drop_bit 29 (hc_message_size ctx))) @
                    be32 (ucast (push_bit 3 (hc_message_size ctx)));
          wb_size = unat (hc_message_size ctx AND 63);
          ctx1 = (if wb_size > 55
                  then block_update process ctx (take (64 - wb_size + 56) pad_block)
                  else block_update process ctx (take (56 - wb_size) pad_block));
          ctx2 = block_update process ctx1 pad_len
      in (ctx2, concat (map be32 (hc_hash ctx2))))"

text \<open>\<open>"%02hhx"\<close> for every byte.\<close>

definition hex_digit :: "nat \<Rightarrow> byte" where
  "hex_digit n = str ''0123456789abcdef'' ! n"

definition hex_string :: "bytes \<Rightarrow> bytes" where
  "hex_string xs = concat (map (\<lambda>b. [hex_digit (unat (drop_bit 4 b)), hex_digit (unat (b AND 15))]) xs)"

section \<open>Cutting a message into blocks\<close>

lemma process_blocks_short: "length xs < 64 \<Longrightarrow> process_blocks p h xs = (h, xs)"
  by (subst process_blocks.simps) simp

lemma process_blocks_block:
  "length b = 64 \<Longrightarrow> process_blocks p h (b @ xs) = process_blocks p (p h b) xs"
  by (subst process_blocks.simps) simp

lemma process_blocks_append:
  "process_blocks p h (xs @ ys) =
     (let (h', rest) = process_blocks p h xs in process_blocks p h' (rest @ ys))"
proof (induction p h xs rule: process_blocks.induct)
  case (1 p h xs)
  show ?case
  proof (cases "64 \<le> length xs")
    case True
    have "process_blocks p h (xs @ ys) = process_blocks p (p h (take 64 xs)) (drop 64 xs @ ys)"
      using process_blocks_block [of "take 64 xs" p h "drop 64 xs @ ys"] True
      by (simp flip: append_assoc)
    moreover have "process_blocks p h xs = process_blocks p (p h (take 64 xs)) (drop 64 xs)"
      using True by (subst process_blocks.simps) simp
    ultimately show ?thesis using 1 True by simp
  qed (simp add: process_blocks_short)
qed

lemma process_blocks_rest: "length (snd (process_blocks p h xs)) = length xs mod 64"
proof (induction p h xs rule: process_blocks.induct)
  case (1 p h xs)
  then show ?case by (subst process_blocks.simps) (simp add: le_mod_geq)
qed

lemma process_blocks_whole: "length xs mod 64 = 0 \<Longrightarrow> snd (process_blocks p h xs) = []"
  using process_blocks_rest [of p h xs] by simp

text \<open>The specification of the loop: the block function folded over the 64-byte blocks.\<close>

definition blocks :: "bytes \<Rightarrow> bytes list" where
  "blocks xs = map (\<lambda>i. take 64 (drop (64 * i) xs)) [0..<length xs div 64]"

lemma blocks_step: "64 \<le> length xs \<Longrightarrow> blocks xs = take 64 xs # blocks (drop 64 xs)"
proof -
  assume "64 \<le> length xs"
  then have "length xs div 64 = Suc ((length xs - 64) div 64)" by (simp add: le_div_geq)
  then have "[0..<length xs div 64] = 0 # map Suc [0..<(length xs - 64) div 64]"
    by (simp only: map_Suc_upt) (simp add: upt_conv_Cons)
  then show ?thesis by (simp add: blocks_def o_def add.commute)
qed

lemma process_blocks_fold: "fst (process_blocks p h xs) = foldl p h (blocks xs)"
proof (induction p h xs rule: process_blocks.induct)
  case (1 p h xs)
  show ?case
  proof (cases "64 \<le> length xs")
    case True
    then have "process_blocks p h xs = process_blocks p (p h (take 64 xs)) (drop 64 xs)"
      by (subst process_blocks.simps) simp
    then show ?thesis using 1 True by (simp add: blocks_step [OF True])
  qed (simp add: process_blocks_short blocks_def)
qed

text \<open>The position in the work block, as the code computes it from the message size.\<close>

lemma wb_size: "unat ((of_nat n :: u64) AND 63) = n mod 64"
proof -
  have "unat ((of_nat n :: u64) AND 63) = unat (of_nat n :: u64) mod 64"
    using unat_and_mask [of "of_nat n :: u64" 6] by (simp add: mask_eq_exp_minus_1)
  then show ?thesis by (simp add: unat_of_nat mod_mod_cancel)
qed

text \<open>The padding of FIPS 180: a one bit, as few zero bits as fill the blocks up, and the length
  in bits as a 64-bit number.\<close>

definition fips_pad :: "bytes \<Rightarrow> bytes" where
  "fips_pad xs = xs @ 0x80 # replicate ((119 - length xs mod 64) mod 64) 0 @ be64 (of_nat (8 * length xs))"

lemma fips_pad_whole: "length (fips_pad xs) mod 64 = 0"
proof -
  define m q where "m = length xs mod 64" and "q = length xs div 64"
  have n: "length xs = q * 64 + m" "m < 64" by (simp_all add: m_def q_def)
  have "length (fips_pad xs) = q * 64 + (m + 9 + (119 - m) mod 64)"
    using n(2) by (simp add: fips_pad_def n(1))
  moreover have "m + 9 + (119 - m) mod 64 = 64 \<or> m + 9 + (119 - m) mod 64 = 128"
    using n(2) by (cases "m \<le> 55") (auto simp: mod_if)
  ultimately show ?thesis by (elim disjE) simp_all
qed

text \<open>The two halves of the length that \<open>digest\<close> writes are the 64-bit number of bits.\<close>

lemma pad_length_bytes:
  "be32 (ucast (drop_bit 29 n)) @ be32 (ucast (push_bit 3 n)) = be64 (push_bit 3 (n :: u64))"
  unfolding be32_def be64_def append.simps list.inject
  by (intro conjI TrueI refl; rule bit_word_eqI; simp add: bit_simps; arith?)

section \<open>The context computes the hash of the whole message\<close>

locale block_hasher =
  fixes process :: "u32 list \<Rightarrow> bytes \<Rightarrow> u32 list" and init :: "u32 list"
  assumes length_process: "length (process h b) = length h"
begin

text \<open>What a context means: the message fed so far.\<close>

definition represents :: "hash_ctx \<Rightarrow> bytes \<Rightarrow> bool" where
  "represents ctx msg \<longleftrightarrow> hc_message_size ctx = of_nat (length msg) \<and> length (hc_work_block ctx) = 64 \<and>
     hc_hash ctx = fst (process_blocks process init msg) \<and>
     take (length msg mod 64) (hc_work_block ctx) = snd (process_blocks process init msg)"

lemma represents_empty:
  "length block = 64 \<Longrightarrow>
    represents \<lparr>hc_hash = init, hc_work_block = block, hc_message_size = 0\<rparr> []"
  by (simp add: represents_def process_blocks_short)

lemma length_copy_at: "off + length xs \<le> length block \<Longrightarrow> length (copy_at block off xs) = length block"
  by (simp add: copy_at_def)

text \<open>The part of \<open>update\<close> that runs with an empty work block.\<close>

lemma tail_represents:
  assumes "hc_message_size ctx = of_nat (length msg + length buffer)"
    and "length (hc_work_block ctx) = 64"
    and "process_blocks process init (msg @ buffer) = process_blocks process (hc_hash ctx) left"
  shows "represents (block_tail process ctx left) (msg @ buffer)"
proof -
  obtain h rest where r: "process_blocks process (hc_hash ctx) left = (h, rest)" by fastforce
  have len: "length rest = (length msg + length buffer) mod 64"
    using process_blocks_rest [of process init "msg @ buffer"] assms(3) r by simp
  then have "length rest < 64" by simp
  show ?thesis
  proof (cases "rest = []")
    case True
    then have "(length msg + length buffer) mod 64 = 0" using len by simp
    then show ?thesis
      unfolding represents_def using assms r True by (simp add: block_tail_def)
  next
    case False
    then have "block_tail process ctx left =
        ctx\<lparr>hc_hash := h, hc_work_block := copy_at (hc_work_block ctx) 0 rest\<rparr>"
      by (simp add: block_tail_def r)
    moreover have "take (length rest) (copy_at (hc_work_block ctx) 0 rest) = rest"
      by (simp add: copy_at_def)
    ultimately show ?thesis
      unfolding represents_def using assms r len \<open>length rest < 64\<close>
      by (simp add: length_copy_at)
  qed
qed

lemma update_represents:
  assumes "represents ctx msg"
  shows "represents (block_update process ctx buffer) (msg @ buffer)"
proof -
  define wb where "wb = length msg mod 64"
  obtain h rest where r: "process_blocks process init msg = (h, rest)" by fastforce
  have ctx: "hc_message_size ctx = of_nat (length msg)" "hc_hash ctx = h"
    "take wb (hc_work_block ctx) = rest" "length (hc_work_block ctx) = 64"
    using assms r by (simp_all add: represents_def wb_def)
  have size: "unat (hc_message_size ctx AND 63) = wb"
    by (simp add: ctx(1) wb_size wb_def)
  have len: "length rest = wb" "wb < 64"
    using process_blocks_rest [of process init msg] r by (simp_all add: wb_def)
  have all: "process_blocks process init (msg @ buffer) = process_blocks process h (rest @ buffer)"
    using process_blocks_append [of process init msg buffer] r by simp
  let ?ctx = "ctx\<lparr>hc_message_size := hc_message_size ctx + of_nat (length buffer)\<rparr>"
  consider "wb = 0" | "0 < wb" "length buffer < 64 - wb" | "0 < wb" "64 - wb \<le> length buffer"
    by linarith
  then show ?thesis
  proof cases
    case 1
    then have "block_update process ctx buffer = block_tail process ?ctx buffer"
      by (simp add: block_update_def size Let_def)
    moreover have "rest = []" using 1 len by simp
    ultimately show ?thesis using all ctx by (simp add: tail_represents)
  next
    case 2
    have short: "process_blocks process init (msg @ buffer) = (h, rest @ buffer)"
      using all 2 len by (simp add: process_blocks_short)
    have mod: "(length msg + length buffer) mod 64 = wb + length buffer"
      using process_blocks_rest [of process init "msg @ buffer"] short len by simp
    have "block_update process ctx buffer =
        ?ctx\<lparr>hc_work_block := copy_at (hc_work_block ctx) wb buffer\<rparr>"
      using 2 by (simp add: block_update_def size Let_def)
    moreover have "take (wb + length buffer) (copy_at (hc_work_block ctx) wb buffer) = rest @ buffer"
      using ctx(3) len by (simp add: copy_at_def)
    ultimately show ?thesis
      unfolding represents_def using 2 short mod ctx by (simp add: length_copy_at)
  next
    case 3
    let ?block = "rest @ take (64 - wb) buffer"
    have block: "copy_at (hc_work_block ctx) wb (take (64 - wb) buffer) = ?block"
      using ctx 3 len by (simp add: copy_at_def)
    have "block_update process ctx buffer = block_tail process
        (?ctx\<lparr>hc_work_block := ?block, hc_hash := process h ?block\<rparr>) (drop (64 - wb) buffer)"
      using 3 by (simp add: block_update_def size ctx(2) block min_absorb2 Let_def)
    moreover have "rest @ buffer = ?block @ drop (64 - wb) buffer" by simp
    then have "process_blocks process init (msg @ buffer) =
        process_blocks process (process h ?block) (drop (64 - wb) buffer)"
      using all process_blocks_block [of ?block process h "drop (64 - wb) buffer"] 3 len
      by simp
    ultimately show ?thesis using 3 len ctx by (simp add: tail_represents)
  qed
qed

lemma digest_padded:
  assumes rep: "represents ctx msg"
  shows "represents (fst (block_digest process ctx)) (fips_pad msg)"
    and "snd (block_digest process ctx) =
      concat (map be32 (fst (process_blocks process init (fips_pad msg))))"
proof -
  define wb where "wb = length msg mod 64"
  define k where "k = (if wb > 55 then 64 - wb + 56 else 56 - wb)"
  have "wb < 64" by (simp add: wb_def)
  then have k: "1 \<le> k" "k \<le> 64" "k - 1 = (119 - wb) mod 64"
    by (auto simp: k_def mod_if)
  have pad: "take k pad_block = 0x80 # replicate ((119 - wb) mod 64) 0"
  proof -
    have "take k pad_block = 0x80 # replicate (k - 1) 0"
      using k(1,2) by (cases k) (simp_all add: pad_block_def min_def)
    then show ?thesis by (simp only: k(3))
  qed
  have size: "hc_message_size ctx = of_nat (length msg)"
    using rep by (simp add: represents_def)
  let ?len = "be32 (ucast (drop_bit 29 (hc_message_size ctx))) @
    be32 (ucast (push_bit 3 (hc_message_size ctx)))"
  have "msg @ take k pad_block @ ?len = fips_pad msg"
    unfolding pad pad_length_bytes size fips_pad_def wb_def
    by (simp add: push_bit_eq_mult mult.commute)
  moreover have "represents (block_update process (block_update process ctx (take k pad_block)) ?len)
      ((msg @ take k pad_block) @ ?len)"
    by (intro update_represents rep)
  moreover have "fst (block_digest process ctx) =
      block_update process (block_update process ctx (take k pad_block)) ?len"
    using wb_size [of "length msg"] by (simp add: block_digest_def Let_def size k_def wb_def)
  ultimately show rep': "represents (fst (block_digest process ctx)) (fips_pad msg)" by simp
  have "snd (block_digest process ctx) = concat (map be32 (hc_hash (fst (block_digest process ctx))))"
    by (simp add: block_digest_def Let_def)
  then show "snd (block_digest process ctx) =
      concat (map be32 (fst (process_blocks process init (fips_pad msg))))"
    using rep' by (simp add: represents_def)
qed

lemma updates_represent:
  "represents ctx msg \<Longrightarrow> represents (fold (\<lambda>b c. block_update process c b) parts ctx) (msg @ concat parts)"
proof (induction parts arbitrary: ctx msg)
  case (Cons b parts)
  then show ?case using Cons.IH [OF update_represents [OF Cons.prems, of b]] by simp
qed simp

lemma length_hash: "length (fst (process_blocks process h xs)) = length h"
proof (induction "length xs" arbitrary: h xs rule: less_induct)
  case less
  then show ?case by (subst process_blocks.simps) (auto simp: length_process)
qed

end

end
