(* ===== verification/Sha.thy ===== *)
theory Sha
  imports HashBlock
begin

text \<open>
  The block functions of \<open>codec/sha1.cc\<close> and \<open>codec/sha256.cc\<close>, the contexts \<open>Sha1\<close> and \<open>Sha256\<close>
  and the functions that hash one buffer. Both interpret \<open>block_hasher\<close>.
\<close>

section \<open>SHA-1\<close>

definition sha1_init :: "u32 list" where
  "sha1_init = [0x67452301, 0xefcdab89, 0x98badcfe, 0x10325476, 0xc3d2e1f0]"

text \<open>\<open>reset\<close> leaves the bytes of the work block as they are.\<close>

definition sha1_reset :: "hash_ctx \<Rightarrow> hash_ctx" where
  "sha1_reset ctx = ctx\<lparr>hc_hash := sha1_init, hc_message_size := 0\<rparr>"

definition ROTL32 :: "u32 \<Rightarrow> nat \<Rightarrow> u32" where
  "ROTL32 x n = push_bit n x XOR drop_bit (32 - n) x"

definition sha1_schedule :: "bytes \<Rightarrow> u32 list" where
  "sha1_schedule block =
     fold (\<lambda>i w. w @ [ROTL32 (w ! (i - 3) XOR w ! (i - 8) XOR w ! (i - 14) XOR w ! (i - 16)) 1])
       [16..<80] (map (load_be32 block) [0..<16])"

type_synonym sha1_vars = "u32 \<times> u32 \<times> u32 \<times> u32 \<times> u32"

definition sha1_step :: "(u32 \<Rightarrow> u32 \<Rightarrow> u32 \<Rightarrow> u32) \<Rightarrow> u32 \<Rightarrow> u32 \<Rightarrow> sha1_vars \<Rightarrow> sha1_vars" where
  "sha1_step f k wi = (\<lambda>(a, b, c, d, e).
     let temp = ROTL32 a 5 + f b c d + e + wi + k
     in (temp, a, ROTL32 b 30, c, d))"

definition sha1ProcessBlock :: "u32 list \<Rightarrow> bytes \<Rightarrow> u32 list" where
  "sha1ProcessBlock hash work_block =
     (let w = sha1_schedule work_block;
          v0 = (hash ! 0, hash ! 1, hash ! 2, hash ! 3, hash ! 4);
          v1 = fold (sha1_step (\<lambda>b c d. (b AND c) OR (NOT b AND d)) 0x5a827999) (take 20 w) v0;
          v2 = fold (sha1_step (\<lambda>b c d. b XOR c XOR d) 0x6ed9eba1) (take 20 (drop 20 w)) v1;
          v3 = fold (sha1_step (\<lambda>b c d. (b AND c) OR (b AND d) OR (c AND d)) 0x8f1bbcdc)
                 (take 20 (drop 40 w)) v2;
          (a, b, c, d, e) =
            fold (sha1_step (\<lambda>b c d. b XOR c XOR d) 0xca62c1d6) (take 20 (drop 60 w)) v3
      in hash[0 := hash ! 0 + a, 1 := hash ! 1 + b, 2 := hash ! 2 + c, 3 := hash ! 3 + d,
              4 := hash ! 4 + e])"

definition sha1_update :: "hash_ctx \<Rightarrow> bytes \<Rightarrow> hash_ctx" where
  "sha1_update = block_update sha1ProcessBlock"

definition sha1_digest :: "hash_ctx \<Rightarrow> hash_ctx \<times> bytes" where
  "sha1_digest = block_digest sha1ProcessBlock"

text \<open>A fresh context holds an arbitrary work block.\<close>

definition sha1Binary :: "bytes \<Rightarrow> bytes \<Rightarrow> bytes" where
  "sha1Binary block buffer =
     snd (sha1_digest (sha1_update
       (sha1_reset \<lparr>hc_hash = replicate 5 0, hc_work_block = block, hc_message_size = 0\<rparr>) buffer))"

definition sha1 :: "bytes \<Rightarrow> bytes \<Rightarrow> bytes" where
  "sha1 block buffer = hex_string (sha1Binary block buffer)"

section \<open>SHA-256\<close>

definition sha256_init :: "u32 list" where
  "sha256_init = [0x6a09e667, 0xbb67ae85, 0x3c6ef372, 0xa54ff53a,
                  0x510e527f, 0x9b05688c, 0x1f83d9ab, 0x5be0cd19]"

definition sha256_reset :: "hash_ctx \<Rightarrow> hash_ctx" where
  "sha256_reset ctx = ctx\<lparr>hc_hash := sha256_init, hc_message_size := 0\<rparr>"

text \<open>The 64 round constants, eight in a row.\<close>

definition sha256_k :: "u32 list" where
  "sha256_k = concat [
     [0x428a2f98, 0x71374491, 0xb5c0fbcf, 0xe9b5dba5,
      0x3956c25b, 0x59f111f1, 0x923f82a4, 0xab1c5ed5],
     [0xd807aa98, 0x12835b01, 0x243185be, 0x550c7dc3,
      0x72be5d74, 0x80deb1fe, 0x9bdc06a7, 0xc19bf174],
     [0xe49b69c1, 0xefbe4786, 0x0fc19dc6, 0x240ca1cc,
      0x2de92c6f, 0x4a7484aa, 0x5cb0a9dc, 0x76f988da],
     [0x983e5152, 0xa831c66d, 0xb00327c8, 0xbf597fc7,
      0xc6e00bf3, 0xd5a79147, 0x06ca6351, 0x14292967],
     [0x27b70a85, 0x2e1b2138, 0x4d2c6dfc, 0x53380d13,
      0x650a7354, 0x766a0abb, 0x81c2c92e, 0x92722c85],
     [0xa2bfe8a1, 0xa81a664b, 0xc24b8b70, 0xc76c51a3,
      0xd192e819, 0xd6990624, 0xf40e3585, 0x106aa070],
     [0x19a4c116, 0x1e376c08, 0x2748774c, 0x34b0bcb5,
      0x391c0cb3, 0x4ed8aa4a, 0x5b9cca4f, 0x682e6ff3],
     [0x748f82ee, 0x78a5636f, 0x84c87814, 0x8cc70208,
      0x90befffa, 0xa4506ceb, 0xbef9a3f7, 0xc67178f2]]"

definition ROTRIGHT :: "u32 \<Rightarrow> nat \<Rightarrow> u32" where
  "ROTRIGHT a b = drop_bit b a OR push_bit (32 - b) a"

definition CH :: "u32 \<Rightarrow> u32 \<Rightarrow> u32 \<Rightarrow> u32" where
  "CH x y z = (x AND y) XOR (NOT x AND z)"

definition MAJ :: "u32 \<Rightarrow> u32 \<Rightarrow> u32 \<Rightarrow> u32" where
  "MAJ x y z = (x AND y) XOR (x AND z) XOR (y AND z)"

definition EP0 :: "u32 \<Rightarrow> u32" where
  "EP0 x = ROTRIGHT x 2 XOR ROTRIGHT x 13 XOR ROTRIGHT x 22"

definition EP1 :: "u32 \<Rightarrow> u32" where
  "EP1 x = ROTRIGHT x 6 XOR ROTRIGHT x 11 XOR ROTRIGHT x 25"

definition SIG0 :: "u32 \<Rightarrow> u32" where
  "SIG0 x = ROTRIGHT x 7 XOR ROTRIGHT x 18 XOR drop_bit 3 x"

definition SIG1 :: "u32 \<Rightarrow> u32" where
  "SIG1 x = ROTRIGHT x 17 XOR ROTRIGHT x 19 XOR drop_bit 10 x"

definition sha256_schedule :: "bytes \<Rightarrow> u32 list" where
  "sha256_schedule block =
     fold (\<lambda>i w. w @ [SIG1 (w ! (i - 2)) + w ! (i - 7) + SIG0 (w ! (i - 15)) + w ! (i - 16)])
       [16..<64] (map (load_be32 block) [0..<16])"

type_synonym sha256_vars = "u32 \<times> u32 \<times> u32 \<times> u32 \<times> u32 \<times> u32 \<times> u32 \<times> u32"

definition sha256_step :: "u32 \<times> u32 \<Rightarrow> sha256_vars \<Rightarrow> sha256_vars" where
  "sha256_step = (\<lambda>(ki, wi) (a, b, c, d, e, f, g, h).
     let t1 = h + EP1 e + CH e f g + ki + wi;
         t2 = EP0 a + MAJ a b c
     in (t1 + t2, a, b, c, d + t1, e, f, g))"

definition sha256ProcessBlock :: "u32 list \<Rightarrow> bytes \<Rightarrow> u32 list" where
  "sha256ProcessBlock hash work_block =
     (let w = sha256_schedule work_block;
          (a, b, c, d, e, f, g, h) = fold sha256_step (zip sha256_k w)
            (hash ! 0, hash ! 1, hash ! 2, hash ! 3, hash ! 4, hash ! 5, hash ! 6, hash ! 7)
      in hash[0 := hash ! 0 + a, 1 := hash ! 1 + b, 2 := hash ! 2 + c, 3 := hash ! 3 + d,
              4 := hash ! 4 + e, 5 := hash ! 5 + f, 6 := hash ! 6 + g, 7 := hash ! 7 + h])"

definition sha256_update :: "hash_ctx \<Rightarrow> bytes \<Rightarrow> hash_ctx" where
  "sha256_update = block_update sha256ProcessBlock"

definition sha256_digest :: "hash_ctx \<Rightarrow> hash_ctx \<times> bytes" where
  "sha256_digest = block_digest sha256ProcessBlock"

definition sha256Binary :: "bytes \<Rightarrow> bytes \<Rightarrow> bytes" where
  "sha256Binary block buffer =
     snd (sha256_digest (sha256_update
       (sha256_reset \<lparr>hc_hash = replicate 8 0, hc_work_block = block, hc_message_size = 0\<rparr>) buffer))"

definition sha256 :: "bytes \<Rightarrow> bytes \<Rightarrow> bytes" where
  "sha256 block buffer = hex_string (sha256Binary block buffer)"

section \<open>Contracts\<close>

interpretation sha1: block_hasher sha1ProcessBlock sha1_init
  by unfold_locales (simp add: sha1ProcessBlock_def Let_def split: prod.split)

interpretation sha256: block_hasher sha256ProcessBlock sha256_init
  by unfold_locales (simp add: sha256ProcessBlock_def Let_def split: prod.split)

lemma length_concat_be32: "length (concat (map be32 ws)) = 4 * length ws"
  by (induction ws) simp_all

section \<open>Properties\<close>

text \<open>The hash of one buffer does not depend on the work block it starts with.\<close>

lemma sha1Binary_spec:
  assumes "length block = 64"
  shows "sha1Binary block msg = concat (map be32 (foldl sha1ProcessBlock sha1_init (blocks (fips_pad msg))))"
    and "length (sha1Binary block msg) = 20"
proof -
  let ?ctx = "sha1_reset \<lparr>hc_hash = replicate 5 0, hc_work_block = block, hc_message_size = 0\<rparr>"
  have "sha1.represents ?ctx []"
    using assms by (simp add: sha1.represents_def sha1_reset_def process_blocks_short)
  from sha1.digest_padded(2) [OF sha1.update_represents [OF this, of msg]]
  show spec: "sha1Binary block msg = concat (map be32 (foldl sha1ProcessBlock sha1_init (blocks (fips_pad msg))))"
    by (simp add: sha1Binary_def sha1_digest_def sha1_update_def process_blocks_fold)
  show "length (sha1Binary block msg) = 20"
    using sha1.length_hash [of sha1_init "fips_pad msg"]
    by (simp add: spec process_blocks_fold sha1_init_def length_concat_be32)
qed

text \<open>However a message is cut into the buffers passed to \<open>Sha1::update\<close>, \<open>digest\<close> gives the
  SHA-1 block function folded over the 64-byte blocks of the message padded as FIPS 180 says, in
  big-endian; the function that hashes one buffer gives the same 20 bytes.\<close>

theorem sha1_streaming:
  assumes "length (hc_work_block ctx) = 64"
  defines "spec \<equiv> \<lambda>msg. concat (map be32 (foldl sha1ProcessBlock sha1_init (blocks (fips_pad msg))))"
  shows "snd (sha1_digest (fold (\<lambda>b c. sha1_update c b) parts (sha1_reset ctx))) = spec (concat parts) \<and>
    sha1Binary (hc_work_block ctx) msg = spec msg \<and> length (spec msg) = 20"
proof -
  have start: "sha1.represents (sha1_reset c) []" if "length (hc_work_block c) = 64" for c
    using that by (simp add: sha1.represents_def sha1_reset_def process_blocks_short)
  note parts = sha1.updates_represent [OF start [OF assms(1)], of parts]
  have "snd (sha1_digest (fold (\<lambda>b c. sha1_update c b) parts (sha1_reset ctx))) = spec (concat parts)"
    using sha1.digest_padded(2) [OF parts]
    by (simp add: sha1_digest_def sha1_update_def process_blocks_fold spec_def)
  moreover have "sha1Binary (hc_work_block ctx) msg = spec msg"
    using sha1Binary_spec(1) [OF assms(1)] by (simp add: spec_def)
  ultimately show ?thesis using sha1Binary_spec(2) [OF assms(1), of msg] by simp
qed

theorem sha1_streaming_witness:
  "snd (sha1_digest (fold (\<lambda>b c. sha1_update c b) [str ''a'', str ''bc'']
      (sha1_reset \<lparr>hc_hash = [], hc_work_block = replicate 64 7, hc_message_size = 9\<rparr>))) =
    sha1Binary (replicate 64 0) (str ''abc'')"
  using sha1_streaming [of "\<lparr>hc_hash = [], hc_work_block = replicate 64 7, hc_message_size = 9\<rparr>"
      "[str ''a'', str ''bc'']" "[]"]
    sha1_streaming [of "\<lparr>hc_hash = [], hc_work_block = replicate 64 0, hc_message_size = 9\<rparr>"
      "[]" "str ''abc''"]
  by simp

text \<open>C26. However a message is cut into the buffers passed to \<open>Sha256::update\<close>, \<open>digest\<close> gives
  the SHA-256 block function folded over the 64-byte blocks of the message padded as FIPS 180 says, in
  big-endian, whatever the work block held before; the function that hashes one buffer gives the same
  32 bytes.\<close>

theorem sha256_streaming:
  assumes "length (hc_work_block ctx) = 64"
  defines "spec \<equiv> \<lambda>msg. concat (map be32 (foldl sha256ProcessBlock sha256_init (blocks (fips_pad msg))))"
  shows "snd (sha256_digest (fold (\<lambda>b c. sha256_update c b) parts (sha256_reset ctx))) = spec (concat parts) \<and>
    sha256Binary (hc_work_block ctx) msg = spec msg \<and> length (spec msg) = 32"
proof -
  have start: "sha256.represents (sha256_reset c) []" if "length (hc_work_block c) = 64" for c
    using that by (simp add: sha256.represents_def sha256_reset_def process_blocks_short)
  note parts = sha256.updates_represent [OF start [OF assms(1)], of parts]
  have "sha256.represents (sha256_update (sha256_reset
      \<lparr>hc_hash = replicate 8 0, hc_work_block = hc_work_block ctx, hc_message_size = 0\<rparr>) msg) msg"
    using sha256.update_represents [OF start] assms(1) by (simp add: sha256_update_def)
  moreover have "length (foldl sha256ProcessBlock sha256_init (blocks xs)) = 8" for xs
    using sha256.length_hash [of sha256_init xs]
    by (simp add: process_blocks_fold sha256_init_def)
  ultimately show ?thesis
    using sha256.digest_padded(2) [OF parts] sha256.digest_padded(2)
    by (simp add: sha256Binary_def sha256_digest_def sha256_update_def process_blocks_fold spec_def
        length_concat_be32)
qed

theorem sha256_streaming_witness:
  "snd (sha256_digest (fold (\<lambda>b c. sha256_update c b) [str ''a'', str ''bc'']
      (sha256_reset \<lparr>hc_hash = [], hc_work_block = replicate 64 7, hc_message_size = 9\<rparr>))) =
    sha256Binary (replicate 64 0) (str ''abc'')"
  using sha256_streaming [of "\<lparr>hc_hash = [], hc_work_block = replicate 64 7, hc_message_size = 9\<rparr>"
      "[str ''a'', str ''bc'']" "[]"]
    sha256_streaming [of "\<lparr>hc_hash = [], hc_work_block = replicate 64 0, hc_message_size = 9\<rparr>"
      "[]" "str ''abc''"]
  by simp

end
