(* ===== verification/StringUtil.thy ===== *)
theory StringUtil
  imports Prelude
begin

text \<open>
  \<open>src/src/brickred/string_util.cc\<close>: splitting, trimming, replacing, printing of integers, the
  case-insensitive comparisons and the hash. The comparison object of the header maps is shown to
  be a strict weak order, which \<open>std::map\<close> relies on (locale \<open>strict_weak_order\<close>).
\<close>

section \<open>Searching\<close>

text \<open>\<open>std::search\<close> and \<open>std::string::find\<close>: the first position of a pattern.\<close>

fun search :: "bytes \<Rightarrow> bytes \<Rightarrow> nat option" where
  "search [] pat = (if pat = [] then Some 0 else None)"
| "search (x # xs) pat =
     (if take (length pat) (x # xs) = pat then Some 0 else map_option Suc (search xs pat))"

definition find :: "bytes \<Rightarrow> bytes \<Rightarrow> nat option" where
  "find s keyword = (if keyword = [] then None else search s keyword)"

definition find_from :: "bytes \<Rightarrow> bytes \<Rightarrow> nat \<Rightarrow> nat option" where
  "find_from s pat pos =
     (if pos > length s then None else map_option ((+) pos) (search (drop pos s) pat))"

lemma search_Some:
  "search s pat = Some n \<Longrightarrow> n + length pat \<le> length s \<and> take (length pat) (drop n s) = pat \<and>
    (\<forall>i<n. take (length pat) (drop i s) \<noteq> pat)"
proof (induction s arbitrary: n)
  case (Cons x xs)
  show ?case
  proof (cases "take (length pat) (x # xs) = pat")
    case True
    then show ?thesis using Cons.prems by (auto dest: arg_cong [where f = length])
  next
    case False
    then obtain m where m: "n = Suc m" "search xs pat = Some m"
      using Cons.prems by auto
    have "take (length pat) (drop i (x # xs)) \<noteq> pat" if "i < n" for i
      using Cons.IH [OF m(2)] False that m(1) by (cases i) auto
    then show ?thesis using Cons.IH [OF m(2)] m(1) by auto
  qed
qed (auto split: if_splits)

lemma search_None: "search s pat = None \<Longrightarrow> take (length pat) (drop i s) \<noteq> pat"
proof (induction s arbitrary: i)
  case Nil
  then show ?case by (auto split: if_splits)
next
  case (Cons x xs)
  then show ?case by (cases i) (auto split: if_splits)
qed

lemma search_split:
  "search s pat = Some n \<Longrightarrow> s = take n s @ pat @ drop (n + length pat) s"
  using search_Some [of s pat n] by (metis append_take_drop_id drop_drop add.commute)

text \<open>A match is found again when more text follows.\<close>

lemma search_append: "search s pat = Some n \<Longrightarrow> search (s @ t) pat = Some n"
proof (induction s arbitrary: n)
  case Nil
  then show ?case by (cases t) (auto split: if_splits)
next
  case (Cons x s)
  show ?case
  proof (cases "take (length pat) (x # s) = pat")
    case True
    then have "length pat \<le> length (x # s)"
      by (metis length_take min.cobounded1)
    then have "take (length pat) ((x # s) @ t) = take (length pat) (x # s)"
      by (simp only: take_append) simp
    then show ?thesis using Cons.prems True by simp
  next
    case False
    then obtain m where m: "search s pat = Some m" "n = Suc m" using Cons.prems by auto
    have "m + length pat \<le> length s" using search_Some [OF m(1)] by simp
    then have "take (length pat) (x # (s @ t)) = take (length pat) (x # s)" by (cases pat) simp_all
    then show ?thesis using False Cons.IH [OF m(1)] m(2) by simp
  qed
qed

lemma find_append: "find s pat = Some n \<Longrightarrow> find (s @ t) pat = Some n"
  by (auto simp: find_def search_append split: if_splits)

section \<open>Splitting\<close>

text \<open>A C string ends at its first NUL.\<close>

definition c_string :: "bytes \<Rightarrow> bytes" where
  "c_string s = takeWhile (\<lambda>b. b \<noteq> 0) s"

text \<open>The loop over the text from the pointer \<open>last\<close> on, here \<open>rest\<close>. The guard on the separator is the early return of
  \<open>split\<close>.\<close>

function split_loop :: "bytes \<Rightarrow> int \<Rightarrow> int \<Rightarrow> bytes \<Rightarrow> bytes list" where
  "split_loop sep max_split count rest =
     (if sep = [] then []
      else if max_split > 0 \<and> count + 1 \<ge> max_split then [rest]
      else case search rest sep of
             None \<Rightarrow> [rest]
           | Some next \<Rightarrow> take next rest #
               split_loop sep max_split (count + 1) (drop (next + length sep) rest))"
  by pat_completeness auto
termination
proof (relation "measure (\<lambda>(sep, m, c, rest). length rest)", goal_cases)
  case (2 sep m c rest n)
  then have "n + length sep \<le> length rest" "0 < length sep"
    using search_Some [of rest sep n] by auto
  then have "0 < length rest" by linarith
  with \<open>0 < length sep\<close> show ?case by simp
qed simp

declare split_loop.simps [simp del]

definition split :: "bytes \<Rightarrow> bytes \<Rightarrow> bytes list \<Rightarrow> int \<Rightarrow> bytes list" where
  "split s sep result max_split = result @ split_loop sep max_split 0 s"

definition split_c :: "bytes \<Rightarrow> bytes \<Rightarrow> bytes list \<Rightarrow> int \<Rightarrow> bytes list" where
  "split_c s sep result max_split = split (c_string s) (c_string sep) result max_split"

section \<open>Trimming and case\<close>

definition find_first_not_of :: "bytes \<Rightarrow> bytes \<Rightarrow> nat option" where
  "find_first_not_of s ws =
     (let n = length (takeWhile (\<lambda>c. c \<in> set ws) s) in if n < length s then Some n else None)"

definition find_last_not_of :: "bytes \<Rightarrow> bytes \<Rightarrow> nat option" where
  "find_last_not_of s ws =
     (let n = length (takeWhile (\<lambda>c. c \<in> set ws) (rev s))
      in if n < length s then Some (length s - 1 - n) else None)"

definition ltrim :: "bytes \<Rightarrow> bytes \<Rightarrow> bytes" where
  "ltrim s ws = (case find_first_not_of s ws of None \<Rightarrow> [] | Some start \<Rightarrow> drop start s)"

definition rtrim :: "bytes \<Rightarrow> bytes \<Rightarrow> bytes" where
  "rtrim s ws = (case find_last_not_of s ws of None \<Rightarrow> [] | Some end_pos \<Rightarrow> take (end_pos + 1) s)"

definition trim :: "bytes \<Rightarrow> bytes \<Rightarrow> bytes" where
  "trim s ws = rtrim (ltrim s ws) ws"

text \<open>\<open>toupper\<close> and \<open>tolower\<close> in the C locale.\<close>

definition c_toupper :: "byte \<Rightarrow> byte" where
  "c_toupper c = (if 97 \<le> c \<and> c \<le> 122 then c - 32 else c)"

definition c_tolower :: "byte \<Rightarrow> byte" where
  "c_tolower c = (if 65 \<le> c \<and> c \<le> 90 then c + 32 else c)"

definition toUpper :: "bytes \<Rightarrow> bytes" where
  "toUpper s = map c_toupper s"

definition toLower :: "bytes \<Rightarrow> bytes" where
  "toLower s = map c_toupper s"

section \<open>Replacing\<close>

text \<open>The loop may not end, so not returning is a value.\<close>

partial_function (option) replace_loop ::
    "bytes \<Rightarrow> bytes \<Rightarrow> int \<Rightarrow> bytes \<Rightarrow> nat \<Rightarrow> int \<Rightarrow> bytes option" where
  "replace_loop pat rep max_replace ret pos count =
     (case find_from ret pat pos of
        None \<Rightarrow> Some ret
      | Some pos \<Rightarrow>
          (let ret = take pos ret @ rep @ drop (pos + length pat) ret;
               pos = pos + length rep
           in if max_replace > 0 \<and> count + 1 \<ge> max_replace then Some ret
              else replace_loop pat rep max_replace ret pos
                     (if max_replace > 0 then count + 1 else count)))"

definition replace :: "bytes \<Rightarrow> bytes \<Rightarrow> bytes \<Rightarrow> int \<Rightarrow> bytes option" where
  "replace s pat rep max_replace =
     (if max_replace = 0 then Some s else replace_loop pat rep max_replace s 0 0)"

section \<open>Integers as text\<close>

function decimal :: "nat \<Rightarrow> bytes" where
  "decimal n = (if n < 10 then [of_nat (48 + n)] else decimal (n div 10) @ [of_nat (48 + n mod 10)])"
  by pat_completeness auto
termination by (relation "measure id") auto

declare decimal.simps [simp del]

text \<open>All overloads print the value in decimal; their buffers hold every 64-bit value.\<close>

definition toString :: "int \<Rightarrow> bytes" where
  "toString i = (if i < 0 then of_char (CHR ''-'') # decimal (nat (- i)) else decimal (nat i))"

section \<open>Comparing and hashing\<close>

definition stricmp :: "bytes \<Rightarrow> bytes \<Rightarrow> bool" where
  "stricmp lhs rhs =
     (if length lhs \<noteq> length rhs then False
      else list_all2 (\<lambda>a b. c_tolower a = c_tolower b) lhs rhs)"

text \<open>\<open>h << 5 + h + str[i]\<close> with \<open>char\<close> sign-extended to \<open>size_t\<close>.\<close>

definition hash_string :: "bytes \<Rightarrow> u64" where
  "hash_string s = foldl (\<lambda>h c. push_bit 5 h + h + scast c) 5381 s"

fun CaseInsensitiveLess :: "bytes \<Rightarrow> bytes \<Rightarrow> bool" where
  "CaseInsensitiveLess (a # xs) (b # ys) =
     (let c1 = sint (c_tolower a); c2 = sint (c_tolower b)
      in if c1 \<noteq> c2 then c1 < c2 else CaseInsensitiveLess xs ys)"
| "CaseInsensitiveLess [] (b # ys) = True"
| "CaseInsensitiveLess xs [] = False"

section \<open>Searching for a byte that is not in the text before\<close>

lemma search_char: "c \<notin> set n \<Longrightarrow> search (n @ c # v) [c] = Some (length n)"
  "c \<notin> set n \<Longrightarrow> search n [c] = None"
  by (induction n) auto

lemma c_string_id: "0 \<notin> set s \<Longrightarrow> c_string s = s"
  by (induction s) (auto simp: c_string_def)

text \<open>A pattern cannot begin inside a text without its first byte.\<close>

lemma search_skip:
  "c \<notin> set l \<Longrightarrow> search (l @ t) (c # p) = map_option ((+) (length l)) (search t (c # p))"
  by (induction l) (auto simp: option.map_comp o_def intro!: option.map_cong option.map_ident_strong [symmetric])

lemma search_here: "search (pat @ t) pat = Some 0"
proof (cases "pat @ t")
  case (Cons a list)
  moreover have "take (length pat) (pat @ t) = pat" by simp
  ultimately have "take (length pat) (a # list) = pat" by metis
  then show ?thesis unfolding Cons by simp
qed simp

lemma search_skip_here: "c \<notin> set l \<Longrightarrow> search (l @ c # p @ t) (c # p) = Some (length l)"
  using search_here [of "c # p" t] by (simp add: search_skip)

section \<open>Strict weak orders\<close>

text \<open>What \<open>std::map\<close> asks of its comparison object: an order whose incomparable keys are
  interchangeable.\<close>

locale strict_weak_order =
  fixes less :: "'k \<Rightarrow> 'k \<Rightarrow> bool"
  assumes less_irrefl: "\<not> less x x"
    and less_trans: "less x y \<Longrightarrow> less y z \<Longrightarrow> less x z"
    and equiv_trans: "\<not> less x y \<Longrightarrow> \<not> less y x \<Longrightarrow> \<not> less y z \<Longrightarrow> \<not> less z y \<Longrightarrow>
      \<not> less x z \<and> \<not> less z x"
begin

definition same_key :: "'k \<Rightarrow> 'k \<Rightarrow> bool" where
  "same_key x y \<longleftrightarrow> \<not> less x y \<and> \<not> less y x"

lemma less_asym: "less x y \<Longrightarrow> \<not> less y x"
  using less_irrefl less_trans by blast

lemma same_key_refl [simp]: "same_key x x"
  by (simp add: same_key_def less_irrefl)

lemma same_key_sym: "same_key x y \<longleftrightarrow> same_key y x"
  by (auto simp: same_key_def)

lemma same_key_trans: "same_key x y \<Longrightarrow> same_key y z \<Longrightarrow> same_key x z"
  using equiv_trans unfolding same_key_def by blast

lemma less_same_key: "same_key x y \<Longrightarrow> less x z \<longleftrightarrow> less y z" "same_key x y \<Longrightarrow> less z x \<longleftrightarrow> less z y"
  using less_trans equiv_trans unfolding same_key_def by blast+

end

text \<open>The order of the lower-cased keys.\<close>

definition ci_key :: "bytes \<Rightarrow> int list" where
  "ci_key s = map (\<lambda>c. sint (c_tolower c)) s"

lemma CaseInsensitiveLess_lexordp: "CaseInsensitiveLess xs ys \<longleftrightarrow> ord_class.lexordp (ci_key xs) (ci_key ys)"
  by (induction xs ys rule: CaseInsensitiveLess.induct) (auto simp: ci_key_def Let_def)

lemma stricmp_ci_key: "stricmp xs ys \<longleftrightarrow> ci_key xs = ci_key ys"
  by (auto simp: stricmp_def ci_key_def list_all2_conv_all_nth list_eq_iff_nth_eq
      dest: word_eq_iff_signed [THEN iffD2])

lemma ci_incomparable:
  "\<not> CaseInsensitiveLess xs ys \<and> \<not> CaseInsensitiveLess ys xs \<longleftrightarrow> ci_key xs = ci_key ys"
  using lexordp_linear [of "ci_key xs" "ci_key ys"] lexordp_irreflexive' [of "ci_key xs"]
  by (auto simp: CaseInsensitiveLess_lexordp)

interpretation ci: strict_weak_order CaseInsensitiveLess
proof
  show "\<not> CaseInsensitiveLess x x" for x
    using ci_incomparable [of x x] by simp
  show "CaseInsensitiveLess x z" if "CaseInsensitiveLess x y" "CaseInsensitiveLess y z" for x y z
    using that lexordp_trans by (auto simp: CaseInsensitiveLess_lexordp)
  show "\<not> CaseInsensitiveLess x z \<and> \<not> CaseInsensitiveLess z x"
    if "\<not> CaseInsensitiveLess x y" "\<not> CaseInsensitiveLess y x"
      "\<not> CaseInsensitiveLess y z" "\<not> CaseInsensitiveLess z y" for x y z
    using that ci_incomparable by metis
qed

lemma ci_same_key: "ci.same_key xs ys \<longleftrightarrow> stricmp xs ys"
  by (simp add: ci.same_key_def ci_incomparable stricmp_ci_key)

section \<open>Joining\<close>

fun join :: "bytes \<Rightarrow> bytes list \<Rightarrow> bytes" where
  "join sep [] = []"
| "join sep [x] = x"
| "join sep (x # y # xs) = x @ sep @ join sep (y # xs)"

lemma split_loop_nonempty: "sep \<noteq> [] \<Longrightarrow> split_loop sep m c s \<noteq> []"
  by (subst split_loop.simps) (auto split: option.splits)

lemma join_Cons: "xs \<noteq> [] \<Longrightarrow> join sep (x # xs) = x @ sep @ join sep xs"
  by (cases xs) simp_all

lemma join_split_loop: "sep \<noteq> [] \<Longrightarrow> join sep (split_loop sep m c s) = s"
proof (induction sep m c s rule: split_loop.induct)
  case (1 sep m c s)
  show ?case
  proof (cases "m > 0 \<and> c + 1 \<ge> m")
    case True
    then show ?thesis using 1(2) by (subst split_loop.simps) simp
  next
    case False
    show ?thesis
    proof (cases "search s sep")
      case None
      then show ?thesis using False 1(2) by (subst split_loop.simps) simp
    next
      case (Some n)
      have "join sep (split_loop sep m (c + 1) (drop (n + length sep) s)) = drop (n + length sep) s"
        using 1 False Some by blast
      then show ?thesis
        using False Some 1(2) search_split [OF Some]
        by (subst split_loop.simps) (simp add: join_Cons split_loop_nonempty)
    qed
  qed
qed

lemma search_take: "search s pat = Some n \<Longrightarrow> pat \<noteq> [] \<Longrightarrow> search (take n s) pat = None"
proof (rule ccontr)
  assume n: "search s pat = Some n" "pat \<noteq> []" and "search (take n s) pat \<noteq> None"
  then obtain i where i: "search (take n s) pat = Some i" by blast
  note f = search_Some [OF i]
  have le: "i + length pat \<le> n" using f by simp
  have "0 < length pat" using n(2) by simp
  then have "i < n" using le by linarith
  have "take (length pat) (drop i (take n s)) = take (length pat) (drop i s)"
    using le by (simp add: drop_take min_absorb1)
  then have "take (length pat) (drop i s) = pat" using f by simp
  with \<open>i < n\<close> show False using search_Some [OF n(1)] by blast
qed

lemma split_loop_pieces:
  "sep \<noteq> [] \<Longrightarrow> m \<le> 0 \<Longrightarrow> p \<in> set (split_loop sep m c s) \<Longrightarrow> search p sep = None"
proof (induction sep m c s rule: split_loop.induct)
  case (1 sep m c s)
  show ?case
  proof (cases "search s sep")
    case None
    then show ?thesis using 1(2-4) by (subst (asm) split_loop.simps) simp
  next
    case (Some n)
    then have "p = take n s \<or> p \<in> set (split_loop sep m (c + 1) (drop (n + length sep) s))"
      using 1(2-4) by (subst (asm) split_loop.simps) simp
    then show ?thesis using 1 Some search_take [OF Some] by auto
  qed
qed

lemma length_split_loop:
  "0 < m \<Longrightarrow> c < m \<Longrightarrow> int (length (split_loop sep m c s)) \<le> m - c"
proof (induction sep m c s rule: split_loop.induct)
  case (1 sep m c s)
  show ?case
  proof (cases "sep = [] \<or> c + 1 \<ge> m")
    case True
    then show ?thesis using 1(2,3) by (subst split_loop.simps) auto
  next
    case False
    then show ?thesis
      using 1 by (subst split_loop.simps) (auto split: option.splits)
  qed
qed

section \<open>The replace loop\<close>

text \<open>From \<open>pos\<close> on the loop replaces the separators of the rest; what is before \<open>pos\<close> stays.\<close>

lemma replace_loop_joins:
  assumes "pat \<noteq> []" and "m < 0 \<or> c < m" and "m < 0 \<and> n = 0 \<or> 0 < m \<and> n = m + 1"
  shows "replace_loop pat rep m (pre @ rest) (length pre) (if m < 0 then 0 else c) =
    Some (pre @ join rep (split_loop pat n (if m < 0 then c' else c) rest))"
  using assms(2,3)
proof (induction "length rest" arbitrary: pre rest c c' rule: less_induct)
  case less
  show ?case
  proof (cases "search rest pat")
    case None
    then show ?thesis
      using assms(1) less.prems
      by (subst replace_loop.simps, subst split_loop.simps) (auto simp: find_from_def)
  next
    case (Some k)
    let ?rest = "drop (k + length pat) rest"
    let ?pre = "pre @ take k rest @ rep"
    note found = search_Some [OF Some]
    have find: "find_from (pre @ rest) pat (length pre) = Some (length pre + k)"
      using Some by (simp add: find_from_def)
    have ret: "take (length pre + k) (pre @ rest) @ rep @
        drop (length pre + k + length pat) (pre @ rest) = ?pre @ ?rest"
      by (simp add: add.assoc)
    have len: "length pre + k + length rep = length ?pre"
      using found by simp
    have shorter: "length ?rest < length rest"
    proof -
      have "0 < length pat" using assms(1) by simp
      moreover have "k + length pat \<le> length rest" using found by blast
      ultimately have "0 < length rest" "0 < k + length pat" by linarith+
      then show ?thesis by simp
    qed
    show ?thesis
    proof (cases "0 < m \<and> c + 1 \<ge> m")
      case True
      have "split_loop pat n (c + 1) ?rest = [?rest]"
        using True less.prems assms(1) by (subst split_loop.simps) auto
      moreover have "split_loop pat n c rest = take k rest # split_loop pat n (c + 1) ?rest"
        using True less.prems assms(1) Some by (subst split_loop.simps) auto
      ultimately show ?thesis
        using True by (subst replace_loop.simps) (simp add: find ret Let_def)
    next
      case False
      have step: "replace_loop pat rep m (pre @ rest) (length pre) (if m < 0 then 0 else c) =
          replace_loop pat rep m (?pre @ ?rest) (length ?pre) (if m < 0 then 0 else c + 1)"
        using False less.prems
        using found by (subst replace_loop.simps) (auto simp: find Let_def min_absorb2 add.assoc)
      have "split_loop pat n (if m < 0 then c' else c) rest =
          take k rest # split_loop pat n (if m < 0 then c' + 1 else c + 1) ?rest"
        using False less.prems assms(1) Some by (subst split_loop.simps) auto
      moreover have "replace_loop pat rep m (?pre @ ?rest) (length ?pre) (if m < 0 then 0 else c + 1) =
          Some (?pre @ join rep (split_loop pat n (if m < 0 then c' + 1 else c + 1) ?rest))"
        using less.hyps [OF shorter, of "c + 1" ?pre "c' + 1"] False less.prems by auto
      ultimately show ?thesis
        unfolding step using assms(1) by (simp add: join_Cons split_loop_nonempty)
    qed
  qed
qed

lemma search_empty [simp]: "search s [] = Some 0"
  by (cases s) simp_all

text \<open>With an empty search string and no limit, the loop never returns.\<close>

lemma replace_loop_empty:
  assumes "m < 0" and "pos \<le> length ret"
  shows "replace_loop [] rep m ret pos 0 \<noteq> Some r"
proof
  assume ret: "replace_loop [] rep m ret pos 0 = Some r"
  have "[] = ([] :: bytes) \<longrightarrow> m < 0 \<longrightarrow> pos \<le> length ret \<longrightarrow> False"
  proof (rule replace_loop.raw_induct [where P = "\<lambda>pat rep m ret pos count r.
      pat = [] \<longrightarrow> m < 0 \<longrightarrow> pos \<le> length ret \<longrightarrow> False", OF _ ret], intro impI)
    fix rec :: "bytes \<Rightarrow> bytes \<Rightarrow> int \<Rightarrow> bytes \<Rightarrow> nat \<Rightarrow> int \<Rightarrow> bytes option"
      and pat rep m ret pos count r
    assume IH: "\<And>pat rep m ret pos count r. rec pat rep m ret pos count = Some r \<Longrightarrow>
        pat = [] \<longrightarrow> m < 0 \<longrightarrow> pos \<le> length ret \<longrightarrow> False"
      and eq: "(case find_from ret pat pos of None \<Rightarrow> Some ret
        | Some pos \<Rightarrow>
            let ret = take pos ret @ rep @ drop (pos + length pat) ret; pos = pos + length rep
            in if 0 < m \<and> m \<le> count + 1 then Some ret
               else rec pat rep m ret pos (if 0 < m then count + 1 else count)) = Some r"
      and prems: "pat = []" "m < 0" "pos \<le> length ret"
    have "find_from ret pat pos = Some pos" using prems by (simp add: find_from_def)
    then have "rec pat rep m (take pos ret @ rep @ drop pos ret) (pos + length rep) count = Some r"
      using eq prems by (simp add: Let_def)
    then show False using IH prems by fastforce
  qed
  then show False using assms by simp
qed

text \<open>An empty search string is found at once at every position: with a limit the replacement goes in front that
  many times.\<close>

lemma replace_loop_empty_limit:
  "c < m \<Longrightarrow> 0 \<le> c \<Longrightarrow> replace_loop [] rep m (pre @ rest) (length pre) c =
    Some (pre @ concat (replicate (nat (m - c)) rep) @ rest)"
proof (induction "nat (m - c)" arbitrary: pre c)
  case 0
  then show ?case by simp
next
  case (Suc n)
  have find: "find_from (pre @ rest) [] (length pre) = Some (length pre)" by (simp add: find_from_def)
  show ?case
  proof (cases "c + 1 < m")
    case False
    then have "m - c = 1" using Suc.prems by simp
    then show ?thesis using Suc.prems by (subst replace_loop.simps) (simp add: find)
  next
    case True
    have n: "nat (m - c) = Suc (nat (m - (c + 1)))" using Suc.prems by simp
    have "replace_loop [] rep m ((pre @ rep) @ rest) (length (pre @ rep)) (c + 1) =
        Some ((pre @ rep) @ concat (replicate (nat (m - (c + 1))) rep) @ rest)"
      using Suc n True by (intro Suc.hyps(1)) simp_all
    then show ?thesis using True Suc.prems by (subst replace_loop.simps) (simp add: find n)
  qed
qed

lemma ltrim_dropWhile: "ltrim s ws = dropWhile (\<lambda>c. c \<in> set ws) s"
proof -
  have "length (takeWhile (\<lambda>c. c \<in> set ws) s) \<le> length s" by (rule length_takeWhile_le)
  then show ?thesis
    by (auto simp: ltrim_def find_first_not_of_def Let_def dropWhile_eq_drop)
qed

lemma rtrim_dropWhile: "rtrim s ws = rev (dropWhile (\<lambda>c. c \<in> set ws) (rev s))"
proof -
  have "length (takeWhile (\<lambda>c. c \<in> set ws) (rev s)) \<le> length s"
    by (metis length_takeWhile_le length_rev)
  then show ?thesis
    by (auto simp: rtrim_def find_last_not_of_def Let_def dropWhile_eq_drop rev_drop Suc_diff_Suc)
qed

lemma trim_ws: "c \<in> set ws \<Longrightarrow> trim (c # s) ws = trim s ws"
  by (simp add: trim_def ltrim_dropWhile)

text \<open>Splitting at a separator whose first byte is not in the pieces gives them back.\<close>

lemma split_loop_join:
  "xs \<noteq> [] \<Longrightarrow> \<forall>x \<in> set xs. c \<notin> set x \<Longrightarrow> m \<le> 0 \<Longrightarrow> split_loop (c # p) m n (join (c # p) xs) = xs"
proof (induction xs arbitrary: n rule: induct_list012)
  case (2 x)
  then have "c \<notin> set x" by simp
  then have "search (x @ []) (c # p) = None" by (subst search_skip) simp_all
  then show ?case using 2 by (subst split_loop.simps) simp
next
  case (3 x y xs)
  have "search (x @ c # p @ join (c # p) (y # xs)) (c # p) = Some (length x)"
    using 3 by (intro search_skip_here) simp
  then show ?case using 3 by (subst split_loop.simps) simp
qed simp

section \<open>Lengths of printed numbers\<close>

lemma length_decimal: "n < 10 ^ k \<Longrightarrow> 0 < k \<Longrightarrow> length (decimal n) \<le> k"
proof (induction n arbitrary: k rule: decimal.induct)
  case (1 n)
  show ?case
  proof (cases "n < 10")
    case True
    then show ?thesis using 1(3) by (subst decimal.simps) simp
  next
    case False
    obtain k' where k: "k = Suc k'" using 1(3) by (cases k) auto
    have "0 < k'" using False 1(2) k by (cases k') auto
    moreover have "n div 10 < 10 ^ k'" using 1(2) k by (simp add: less_mult_imp_div_less mult.commute)
    ultimately have "length (decimal (n div 10)) \<le> k'" using 1(1) False by blast
    then show ?thesis using False k by (subst decimal.simps) simp
  qed
qed

lemma decimal_digits: "c \<in> set (decimal n) \<Longrightarrow> \<exists>d<10. c = of_nat (48 + d)"
proof (induction n rule: decimal.induct)
  case (1 n)
  show ?case
  proof (cases "n < 10")
    case True
    then have "c = of_nat (48 + n)" using 1(2) by (subst (asm) decimal.simps) simp
    then show ?thesis using True by blast
  next
    case False
    then have "c = of_nat (48 + n mod 10) \<or> c \<in> set (decimal (n div 10))"
      using 1(2) by (subst (asm) decimal.simps) auto
    then show ?thesis using 1(1) False by (auto intro: exI [of _ "n mod 10"])
  qed
qed

section \<open>Properties\<close>

text \<open>C27. Splitting loses nothing: joined with the separator the pieces give the text back; without
  a limit no piece contains the separator, and with a limit there are at most that many pieces.\<close>

theorem split_joins_back:
  assumes sep: "sep \<noteq> []" and split: "split s sep old max_split = old @ pieces"
  shows "join sep pieces = s \<and> pieces \<noteq> [] \<and>
    (max_split \<le> 0 \<longrightarrow> (\<forall>p \<in> set pieces. find p sep = None)) \<and>
    (0 < max_split \<longrightarrow> int (length pieces) \<le> max_split)"
proof -
  have "pieces = split_loop sep max_split 0 s" using split by (simp add: split_def)
  then show ?thesis
    using sep join_split_loop split_loop_nonempty split_loop_pieces length_split_loop [of max_split 0 sep s]
    by (auto simp: find_def)
qed

theorem split_joins_back_witness:
  "split (str ''a, b, c'') (str '', '') [] 2 = [str ''a'', str ''b, c''] \<and>
   join (str '', '') [str ''a'', str ''b, c''] = str ''a, b, c''"
proof -
  have "split (str ''a, b, c'') (str '', '') [] 2 = [] @ [str ''a'', str ''b, c'']" by code_simp
  moreover have "str '', '' \<noteq> []" by simp
  ultimately show ?thesis
    using split_joins_back [of "str '', ''" "str ''a, b, c''" "[]" 2] by (metis append_Nil)
qed

text \<open>C28. \<open>replace\<close> returns for every search string that is not empty, and the result is the text
  split at the first \<open>max_replace\<close> occurrences, or at all of them without a limit, joined with the
  replacement. With an empty search string it puts the replacement in front \<open>max_replace\<close> times, and never
  returns without a limit.\<close>

theorem replace_is_split_join:
  "(pat \<noteq> [] \<and> max_replace \<noteq> 0 \<longrightarrow> replace s pat rep max_replace =
      Some (join rep (split s pat [] (if max_replace < 0 then 0 else max_replace + 1)))) \<and>
   (0 < max_replace \<longrightarrow> replace s [] rep max_replace = Some (concat (replicate (nat max_replace) rep) @ s)) \<and>
   (max_replace < 0 \<longrightarrow> replace s [] rep max_replace = None)"
proof (intro conjI impI)
  assume "pat \<noteq> [] \<and> max_replace \<noteq> 0"
  then show "replace s pat rep max_replace =
      Some (join rep (split s pat [] (if max_replace < 0 then 0 else max_replace + 1)))"
    using replace_loop_joins [of pat max_replace 0 "if max_replace < 0 then 0 else max_replace + 1"
      rep "[]" s 0] by (auto simp: replace_def split_def)
next
  assume "0 < max_replace"
  then show "replace s [] rep max_replace = Some (concat (replicate (nat max_replace) rep) @ s)"
    using replace_loop_empty_limit [of 0 max_replace rep "[]" s] by (simp add: replace_def)
next
  assume "max_replace < 0"
  then show "replace s [] rep max_replace = None"
    using replace_loop_empty [of max_replace 0 s rep]
    by (cases "replace_loop [] rep max_replace s 0 0") (auto simp: replace_def)
qed

theorem replace_is_split_join_witness:
  "replace (str ''a.b.c'') (str ''.'') (str ''::'') 1 = Some (str ''a::b.c'') \<and>
   replace (str ''abc'') [] (str ''x'') (-1) = None"
proof -
  have "split (str ''a.b.c'') (str ''.'') [] 2 = [str ''a'', str ''b.c'']" by code_simp
  then show ?thesis
    using replace_is_split_join [of "str ''.''" 1 "str ''a.b.c''" "str ''::''"]
      replace_is_split_join [of "[]" "-1" "str ''abc''" "str ''x''"] by simp
qed

text \<open>The order of the header maps is a strict weak order, two keys are the same to the map
  exactly when \<open>stricmp\<close> says so, and it ignores the case of letters.\<close>

theorem CaseInsensitiveLess_is_order:
  "\<not> CaseInsensitiveLess x x \<and>
   (CaseInsensitiveLess x y \<and> CaseInsensitiveLess y z \<longrightarrow> CaseInsensitiveLess x z) \<and>
   (\<not> CaseInsensitiveLess x y \<and> \<not> CaseInsensitiveLess y x \<longleftrightarrow> stricmp x y) \<and>
   (CaseInsensitiveLess (map c_tolower x) y \<longleftrightarrow> CaseInsensitiveLess x y)"
proof (intro conjI)
  show "\<not> CaseInsensitiveLess x x" by (rule ci.less_irrefl)
  show "CaseInsensitiveLess x y \<and> CaseInsensitiveLess y z \<longrightarrow> CaseInsensitiveLess x z"
    using ci.less_trans by blast
  show "\<not> CaseInsensitiveLess x y \<and> \<not> CaseInsensitiveLess y x \<longleftrightarrow> stricmp x y"
    by (simp add: ci_incomparable stricmp_ci_key)
  have twice: "c_tolower (c_tolower c) = c_tolower c" for c
    by (auto simp: c_tolower_def word_le_nat_alt unat_word_ariths)
  then show "CaseInsensitiveLess (map c_tolower x) y \<longleftrightarrow> CaseInsensitiveLess x y"
    by (simp add: CaseInsensitiveLess_lexordp ci_key_def o_def)
qed

theorem CaseInsensitiveLess_is_order_witness:
  "CaseInsensitiveLess (str ''Accept'') (str ''host'') \<and> stricmp (str ''HOST'') (str ''Host'') \<and>
   CaseInsensitiveLess (str ''accept'') (str ''host'')"
proof -
  have "CaseInsensitiveLess (str ''Accept'') (str ''host'')"
    "stricmp (str ''HOST'') (str ''Host'')"
    "map c_tolower (str ''Accept'') = str ''accept''" by code_simp+
  then show ?thesis
    using CaseInsensitiveLess_is_order [of "str ''Accept''" "str ''host''" "[]"] by metis
qed

text \<open>Trimming cuts white space off both ends and nothing else.\<close>

lemma trim_cuts_ends:
  "\<exists>pre post. s = pre @ trim s ws @ post \<and> set pre \<subseteq> set ws \<and> set post \<subseteq> set ws \<and>
     (trim s ws = [] \<or> hd (trim s ws) \<notin> set ws \<and> last (trim s ws) \<notin> set ws)"
proof -
  let ?ws = "\<lambda>c. c \<in> set ws"
  let ?l = "dropWhile ?ws s"
  let ?post = "rev (takeWhile ?ws (rev ?l))"
  have l: "s = takeWhile ?ws s @ ?l" by simp
  have "rev (dropWhile ?ws (rev ?l)) @ ?post = rev (takeWhile ?ws (rev ?l) @ dropWhile ?ws (rev ?l))"
    by (simp only: rev_append)
  also have "\<dots> = ?l" by (simp only: takeWhile_dropWhile_id rev_rev_ident)
  finally have r: "?l = trim s ws @ ?post"
    unfolding trim_def ltrim_dropWhile rtrim_dropWhile by (rule sym)
  have ends: "hd (trim s ws) \<notin> set ws \<and> last (trim s ws) \<notin> set ws" if "trim s ws \<noteq> []"
  proof -
    have "rev (trim s ws) = dropWhile ?ws (rev ?l)" "rev (trim s ws) \<noteq> []"
      using that by (simp_all add: trim_def ltrim_dropWhile rtrim_dropWhile)
    then have "last (trim s ws) \<notin> set ws"
      using hd_dropWhile [of ?ws "rev ?l"] by (simp add: last_rev flip: hd_rev)
    moreover have "?l \<noteq> []" "hd ?l = hd (trim s ws)" using r that by (metis append_is_Nil_conv, metis hd_append2)
    ultimately show ?thesis using hd_dropWhile [of ?ws s] by simp
  qed
  have "s = takeWhile ?ws s @ trim s ws @ ?post" using l r by metis
  moreover have "set (takeWhile ?ws s) \<subseteq> set ws" "set ?post \<subseteq> set ws"
    by (auto dest: set_takeWhileD)
  ultimately show ?thesis using ends by blast
qed

text \<open>\<open>toLower\<close> converts to upper case.\<close>

lemma toLower_upper: "toLower (str ''Ab'') = str ''AB''"
  by code_simp

end
