(* ===== verification/CommandLineOption.thy ===== *)
theory CommandLineOption
  imports StringUtil
begin

text \<open>
  \<open>src/src/brickred/command_line_option.cc\<close>: registered options, the parser of \<open>argv\<close> and the
  queries. A description of a command line (\<open>item\<close>) is written out as arguments and shown to be
  parsed back; options that were not registered never get a parameter.
\<close>

section \<open>The class\<close>

datatype param_type = NONE | REQUIRED

record command_line_option =
  option_types :: "bytes \<rightharpoonup> param_type"
  option_params :: "bytes \<rightharpoonup> bytes list"
  left_args :: "bytes list"

definition CommandLineOption :: command_line_option where
  "CommandLineOption = \<lparr>option_types = Map.empty, option_params = Map.empty, left_args = []\<rparr>"

text \<open>\<open>std::map::insert\<close> keeps an entry that is there.\<close>

definition map_insert :: "('k \<rightharpoonup> 'v) \<Rightarrow> 'k \<Rightarrow> 'v \<Rightarrow> ('k \<rightharpoonup> 'v)" where
  "map_insert m k v = (case m k of None \<Rightarrow> m(k \<mapsto> v) | Some _ \<Rightarrow> m)"

definition addOption :: "command_line_option \<Rightarrow> bytes \<Rightarrow> param_type \<Rightarrow> command_line_option" where
  "addOption clo opt param_type =
     clo\<lparr>option_types := map_insert (option_types clo) opt param_type,
         option_params := map_insert (option_params clo) opt []\<rparr>"

text \<open>\<open>option_params[opt].push_back(param)\<close>: \<open>operator[]\<close> makes an empty entry.\<close>

definition push_param :: "command_line_option \<Rightarrow> bytes \<Rightarrow> bytes \<Rightarrow> command_line_option" where
  "push_param clo opt param = clo\<lparr>option_params := (option_params clo)
     (opt \<mapsto> (case option_params clo opt of None \<Rightarrow> [] | Some ps \<Rightarrow> ps) @ [param])\<rparr>"

abbreviation dash :: byte where
  "dash \<equiv> of_char (CHR ''-'')"

definition isOption :: "bytes \<Rightarrow> bool" where
  "isOption arg \<longleftrightarrow> length arg > 1 \<and> arg ! 0 = dash"

definition isLongOption :: "bytes \<Rightarrow> bool" where
  "isLongOption arg \<longleftrightarrow> length arg > 2 \<and> arg ! 0 = dash \<and> arg ! 1 = dash"

text \<open>Both give the new state and the number of arguments used up, or -1. The state is changed
  through a reference, also where the function fails.\<close>

definition processLongOption ::
    "command_line_option \<Rightarrow> bytes \<Rightarrow> bytes \<Rightarrow> command_line_option \<times> int" where
  "processLongOption clo arg next_param =
     (let long_opt_parts = split_c (drop 2 arg) (str ''='') [] 2;
          opt = long_opt_parts ! 0
      in case option_types clo opt of
           None \<Rightarrow> (clo, -1)
         | Some NONE \<Rightarrow>
             if length long_opt_parts > 1 then (clo, -1) else (push_param clo opt [], 1)
         | Some REQUIRED \<Rightarrow>
             if length long_opt_parts > 1 then (push_param clo opt (long_opt_parts ! 1), 1)
             else if next_param = [] then (clo, -1)
             else (push_param clo opt next_param, 2))"

text \<open>The loop over the characters from index \<open>i\<close> on, here the list of the ones left.\<close>

fun processShortOption ::
    "command_line_option \<Rightarrow> bytes \<Rightarrow> bytes \<Rightarrow> command_line_option \<times> int" where
  "processShortOption clo [] next_param = (clo, 1)"
| "processShortOption clo (c # cs) next_param =
     (let opt = [c]
      in case option_types clo opt of
           None \<Rightarrow> (clo, -1)
         | Some NONE \<Rightarrow> processShortOption (push_param clo opt []) cs next_param
         | Some REQUIRED \<Rightarrow>
             if cs \<noteq> [] then (push_param clo opt cs, 1)
             else if next_param = [] then (clo, -1)
             else (push_param clo opt next_param, 2))"

text \<open>\<open>parse\<close> from the argument \<open>i\<close> on.\<close>

definition next_param_of :: "bytes list \<Rightarrow> bytes" where
  "next_param_of rest = (case rest of [] \<Rightarrow> [] | a # _ \<Rightarrow> if isOption a then [] else a)"

function parse_from :: "command_line_option \<Rightarrow> bytes list \<Rightarrow> command_line_option \<times> bool" where
  "parse_from clo [] = (clo, True)"
| "parse_from clo (arg # rest) =
     (let next_param = next_param_of rest
      in if arg = str ''--'' then (clo\<lparr>left_args := left_args clo @ rest\<rparr>, True)
         else if \<not> isOption arg then parse_from (clo\<lparr>left_args := left_args clo @ [arg]\<rparr>) rest
         else let (clo', ret) = (if isLongOption arg then processLongOption clo arg next_param
                                 else processShortOption clo (drop 1 arg) next_param)
              in if ret = -1 then (clo', False)
                 else parse_from clo' (drop (nat ret - 1) rest))"
  by pat_completeness auto
termination by (relation "measure (\<lambda>(clo, args). length args)") (auto split: if_splits)

definition parse :: "command_line_option \<Rightarrow> bytes list \<Rightarrow> command_line_option \<times> bool" where
  "parse clo argv = parse_from clo (drop 1 argv)"

definition hasOption :: "command_line_option \<Rightarrow> bytes \<Rightarrow> bool" where
  "hasOption clo opt =
     (case option_params clo opt of None \<Rightarrow> False | Some params \<Rightarrow> params \<noteq> [])"

definition getParameter :: "command_line_option \<Rightarrow> bytes \<Rightarrow> bytes" where
  "getParameter clo opt =
     (case option_params clo opt of
        None \<Rightarrow> [] | Some params \<Rightarrow> if params = [] then [] else last params)"

definition getParameters :: "command_line_option \<Rightarrow> bytes \<Rightarrow> bytes list" where
  "getParameters clo opt =
     (case option_params clo opt of None \<Rightarrow> [] | Some params \<Rightarrow> params)"

section \<open>Command lines\<close>

text \<open>What a user can write, and the arguments it is written as. Short options may be clustered;
  the parameter of the last one is attached or the next argument.\<close>

datatype item =
    Plain bytes
  | LongFlag bytes
  | LongAttached bytes bytes
  | LongNext bytes bytes
  | ShortFlags "byte list"
  | ShortAttached "byte list" byte bytes
  | ShortNext "byte list" byte bytes

fun args_of :: "item \<Rightarrow> bytes list" where
  "args_of (Plain a) = [a]"
| "args_of (LongFlag n) = [str ''--'' @ n]"
| "args_of (LongAttached n v) = [str ''--'' @ n @ str ''='' @ v]"
| "args_of (LongNext n v) = [str ''--'' @ n, v]"
| "args_of (ShortFlags fs) = [dash # fs]"
| "args_of (ShortAttached fs c v) = [dash # fs @ c # v]"
| "args_of (ShortNext fs c v) = [dash # fs @ [c], v]"

text \<open>The parameters it gives, in the order they are recorded.\<close>

fun params_of :: "item \<Rightarrow> (bytes \<times> bytes) list" where
  "params_of (Plain a) = []"
| "params_of (LongFlag n) = [(n, [])]"
| "params_of (LongAttached n v) = [(n, v)]"
| "params_of (LongNext n v) = [(n, v)]"
| "params_of (ShortFlags fs) = map (\<lambda>f. ([f], [])) fs"
| "params_of (ShortAttached fs c v) = map (\<lambda>f. ([f], [])) fs @ [([c], v)]"
| "params_of (ShortNext fs c v) = map (\<lambda>f. ([f], [])) fs @ [([c], v)]"

fun left_of :: "item \<Rightarrow> bytes list" where
  "left_of (Plain a) = [a]"
| "left_of _ = []"

text \<open>A description fits the registered options. Names hold neither \<open>=\<close> nor NUL, a short option
  after the dash must not look like a long one, and a separate parameter must not look like an
  option.\<close>

definition is_name :: "bytes \<Rightarrow> bool" where
  "is_name n \<longleftrightarrow> n \<noteq> [] \<and> of_char (CHR ''='') \<notin> set n \<and> 0 \<notin> set n"

abbreviation flags_ok :: "(bytes \<rightharpoonup> param_type) \<Rightarrow> byte list \<Rightarrow> bool" where
  "flags_ok types fs \<equiv> list_all (\<lambda>f. types [f] = Some NONE) fs"

fun fits :: "(bytes \<rightharpoonup> param_type) \<Rightarrow> item \<Rightarrow> bool" where
  "fits types (Plain a) \<longleftrightarrow> \<not> isOption a"
| "fits types (LongFlag n) \<longleftrightarrow> is_name n \<and> types n = Some NONE"
| "fits types (LongAttached n v) \<longleftrightarrow> is_name n \<and> 0 \<notin> set v \<and> types n = Some REQUIRED"
| "fits types (LongNext n v) \<longleftrightarrow>
     is_name n \<and> types n = Some REQUIRED \<and> v \<noteq> [] \<and> \<not> isOption v"
| "fits types (ShortFlags fs) \<longleftrightarrow> fs \<noteq> [] \<and> hd fs \<noteq> dash \<and> flags_ok types fs"
| "fits types (ShortAttached fs c v) \<longleftrightarrow> hd (fs @ [c]) \<noteq> dash \<and> flags_ok types fs \<and>
     types [c] = Some REQUIRED \<and> v \<noteq> []"
| "fits types (ShortNext fs c v) \<longleftrightarrow> hd (fs @ [c]) \<noteq> dash \<and> flags_ok types fs \<and>
     types [c] = Some REQUIRED \<and> v \<noteq> [] \<and> \<not> isOption v"

abbreviation record_params :: "(bytes \<times> bytes) list \<Rightarrow> command_line_option \<Rightarrow> command_line_option" where
  "record_params ps clo \<equiv> fold (\<lambda>(opt, p) clo. push_param clo opt p) ps clo"

definition apply_item :: "item \<Rightarrow> command_line_option \<Rightarrow> command_line_option" where
  "apply_item it clo = record_params (params_of it) (clo\<lparr>left_args := left_args clo @ left_of it\<rparr>)"

section \<open>Splitting a long option\<close>

abbreviation eq_char :: byte where
  "eq_char \<equiv> of_char (CHR ''='')"

lemma split_name:
  assumes "is_name n"
  shows "split_c n (str ''='') [] 2 = [n]"
  using assms search_char(2) [of eq_char n]
  by (simp add: split_c_def split_def is_name_def c_string_id split_loop.simps)

lemma split_name_value:
  assumes "is_name n" and "0 \<notin> set v"
  shows "split_c (n @ eq_char # v) (str ''='') [] 2 = [n, v]"
proof -
  have "c_string (n @ eq_char # v) = n @ eq_char # v"
    using assms by (intro c_string_id) (auto simp: is_name_def)
  moreover have "split_loop [eq_char] 2 1 v = [v]" by (subst split_loop.simps) simp
  moreover have "split_loop [eq_char] 2 0 (n @ eq_char # v) = n # split_loop [eq_char] 2 1 v"
    using assms(1) search_char(1) [of eq_char n v]
    by (subst split_loop.simps) (simp add: is_name_def)
  moreover have "c_string (str ''='') = [eq_char]" by (simp add: c_string_def)
  ultimately show ?thesis by (simp add: split_c_def split_def)
qed

section \<open>One item at a time\<close>

lemma push_param_sel [simp]:
  "option_types (push_param clo opt p) = option_types clo"
  "left_args (push_param clo opt p) = left_args clo"
  by (simp_all add: push_param_def)

lemma record_params_sel [simp]:
  "option_types (record_params ps clo) = option_types clo"
  "left_args (record_params ps clo) = left_args clo"
  by (induction ps arbitrary: clo) (auto split: prod.split)

lemma short_flags:
  "flags_ok (option_types clo) fs \<Longrightarrow> processShortOption clo (fs @ cs) np =
    processShortOption (record_params (map (\<lambda>f. ([f], [])) fs) clo) cs np"
  by (induction fs arbitrary: clo) (auto simp: Let_def)

lemma short_args:
  assumes "cs \<noteq> []" and "hd cs \<noteq> dash"
  shows "isOption (dash # cs)" and "\<not> isLongOption (dash # cs)" and "dash # cs \<noteq> str ''--''"
  using assms by (cases cs; auto simp: isOption_def isLongOption_def)+

lemma long_args:
  assumes "n \<noteq> []"
  shows "isOption (str ''--'' @ n)" and "isLongOption (str ''--'' @ n)"
    and "str ''--'' @ n \<noteq> str ''--''"
  using assms by (cases n; simp add: isOption_def isLongOption_def)+

lemma next_param_of_Cons: "\<not> isOption v \<Longrightarrow> next_param_of (v # rest) = v"
  by (simp add: next_param_of_def)

lemma parse_long:
  assumes "n \<noteq> []" and "processLongOption clo (str ''--'' @ n) (next_param_of rest) = (clo', ret)"
    and "ret \<noteq> -1"
  shows "parse_from clo ((str ''--'' @ n) # rest) = parse_from clo' (drop (nat ret - 1) rest)"
  using assms long_args [OF assms(1)] by (simp del: str_simps append_Cons)

lemma parse_short:
  assumes "cs \<noteq> []" and "hd cs \<noteq> dash"
    and "processShortOption clo cs (next_param_of rest) = (clo', ret)" and "ret \<noteq> -1"
  shows "parse_from clo ((dash # cs) # rest) = parse_from clo' (drop (nat ret - 1) rest)"
  using assms(3,4) short_args [OF assms(1,2)] by (simp del: str_simps)

lemma parse_item:
  assumes "fits (option_types clo) it"
  shows "parse_from clo (args_of it @ rest) = parse_from (apply_item it clo) rest"
proof (cases it)
  case (Plain a)
  then have "\<not> isOption a" using assms by simp
  moreover from this have "a \<noteq> str ''--''" by (auto simp: isOption_def)
  ultimately show ?thesis using Plain by (simp add: apply_item_def)
next
  case (LongFlag n)
  then have n: "is_name n" "n \<noteq> []" "option_types clo n = Some NONE"
    using assms by (auto simp: is_name_def)
  then have "processLongOption clo (str ''--'' @ n) np = (push_param clo n [], 1)" for np
    using split_name by (simp add: processLongOption_def Let_def del: str_simps(2))
  from parse_long [OF n(2) this] show ?thesis
    using LongFlag by (simp add: apply_item_def del: str_simps)
next
  case (LongAttached n v)
  then have n: "is_name n" "n @ eq_char # v \<noteq> []" "option_types clo n = Some REQUIRED" "0 \<notin> set v"
    using assms by auto
  then have "processLongOption clo (str ''--'' @ n @ eq_char # v) np = (push_param clo n v, 1)" for np
    using split_name_value by (simp add: processLongOption_def Let_def del: str_simps(2))
  from parse_long [OF n(2) this] show ?thesis
    using LongAttached by (simp add: apply_item_def)
next
  case (LongNext n v)
  then have n: "is_name n" "n \<noteq> []" "option_types clo n = Some REQUIRED" "v \<noteq> []" "\<not> isOption v"
    using assms by (auto simp: is_name_def)
  then have "processLongOption clo (str ''--'' @ n) (next_param_of (v # rest)) = (push_param clo n v, 2)"
    using split_name by (simp add: processLongOption_def Let_def next_param_of_Cons del: str_simps(2))
  from parse_long [OF n(2) this] show ?thesis
    using LongNext by (simp add: apply_item_def del: str_simps)
next
  case (ShortFlags fs)
  then have fs: "fs \<noteq> []" "hd fs \<noteq> dash" "flags_ok (option_types clo) fs" using assms by auto
  from parse_short [OF fs(1,2)] short_flags [OF fs(3), of "[]"] show ?thesis
    using ShortFlags by (simp add: apply_item_def)
next
  case (ShortAttached fs c v)
  then have fs: "hd (fs @ c # v) \<noteq> dash" "flags_ok (option_types clo) fs"
    "option_types clo [c] = Some REQUIRED" "v \<noteq> []"
    using assms by (cases fs; auto)+
  have "processShortOption clo (fs @ c # v) np =
      (push_param (record_params (map (\<lambda>f. ([f], [])) fs) clo) [c] v, 1)" for np
    using fs by (simp add: short_flags)
  from parse_short [OF _ fs(1) this] show ?thesis
    using ShortAttached by (simp add: apply_item_def)
next
  case (ShortNext fs c v)
  then have fs: "hd (fs @ [c]) \<noteq> dash" "flags_ok (option_types clo) fs"
    "option_types clo [c] = Some REQUIRED" "v \<noteq> []" "\<not> isOption v"
    using assms by auto
  have "processShortOption clo (fs @ [c]) (next_param_of (v # rest)) =
      (push_param (record_params (map (\<lambda>f. ([f], [])) fs) clo) [c] v, 2)"
    using fs by (simp add: short_flags next_param_of_Cons)
  from parse_short [OF _ fs(1) this] show ?thesis
    using ShortNext by (simp add: apply_item_def)
qed

lemma apply_item_types [simp]: "option_types (apply_item it clo) = option_types clo"
  by (simp add: apply_item_def)

lemma parse_items:
  "list_all (fits (option_types clo)) items \<Longrightarrow>
    parse_from clo (concat (map args_of items) @ rest) = parse_from (fold apply_item items clo) rest"
  by (induction items arbitrary: clo) (simp_all add: parse_item)

section \<open>What is recorded\<close>

lemma push_param_get:
  "getParameters (push_param clo opt p) o' = (if o' = opt then getParameters clo opt @ [p] else getParameters clo o')"
  by (simp add: getParameters_def push_param_def split: option.splits)

lemma record_params_get:
  "getParameters (record_params ps clo) opt =
    getParameters clo opt @ map snd (filter (\<lambda>(k, v). k = opt) ps)"
  by (induction ps arbitrary: clo) (auto simp: push_param_get)

lemma apply_items_get:
  "getParameters (fold apply_item items clo) opt =
    getParameters clo opt @ map snd (filter (\<lambda>(k, v). k = opt) (concat (map params_of items)))"
proof (induction items arbitrary: clo)
  case (Cons it items)
  have "getParameters (apply_item it clo) opt =
      getParameters clo opt @ map snd (filter (\<lambda>(k, v). k = opt) (params_of it))"
    by (simp add: apply_item_def record_params_get) (simp add: getParameters_def)
  then show ?case using Cons by simp
qed simp

lemma apply_items_left:
  "left_args (fold apply_item items clo) = left_args clo @ concat (map left_of items)"
  by (induction items arbitrary: clo) (simp_all add: apply_item_def)

section \<open>Only registered options get parameters\<close>

definition params_registered :: "command_line_option \<Rightarrow> bool" where
  "params_registered clo \<longleftrightarrow> dom (option_params clo) = dom (option_types clo) \<and>
     (\<forall>opt ps. option_types clo opt = Some NONE \<longrightarrow> option_params clo opt = Some ps \<longrightarrow>
        (\<forall>p \<in> set ps. p = []))"

lemma params_registered_addOption [inv_intros]:
  assumes "params_registered clo"
  shows "params_registered (addOption clo opt ty)"
proof (cases "option_types clo opt")
  case None
  then have "option_params clo opt = None"
    using assms unfolding params_registered_def by (metis domIff)
  then show ?thesis
    using None assms by (simp add: params_registered_def addOption_def map_insert_def)
next
  case (Some t)
  then obtain ps where "option_params clo opt = Some ps"
    using assms unfolding params_registered_def by (metis domIff not_None_eq)
  then show ?thesis
    using Some assms by (simp add: params_registered_def addOption_def map_insert_def)
qed

lemma params_registered_push:
  assumes "params_registered clo" and "option_types clo opt = Some ty" and "ty = NONE \<Longrightarrow> p = []"
  shows "params_registered (push_param clo opt p)"
proof -
  obtain ps where ps: "option_params clo opt = Some ps"
    using assms(1,2) unfolding params_registered_def by (metis domIff not_None_eq)
  then have "option_params (push_param clo opt p) = (option_params clo)(opt \<mapsto> ps @ [p])"
    by (simp add: push_param_def)
  then show ?thesis
    using assms ps by (auto simp: params_registered_def)
qed

lemma params_registered_long [inv_intros]:
  "params_registered clo \<Longrightarrow> params_registered (fst (processLongOption clo arg np))"
  by (auto simp: processLongOption_def Let_def split: option.splits param_type.splits
      intro!: params_registered_push)

lemma params_registered_short [inv_intros]:
  "params_registered clo \<Longrightarrow> params_registered (fst (processShortOption clo cs np))"
  by (induction clo cs np rule: processShortOption.induct)
     (auto simp: Let_def split: option.splits param_type.splits intro!: params_registered_push)

lemma params_registered_left [simp]:
  "params_registered (clo\<lparr>left_args := xs\<rparr>) = params_registered clo"
  by (simp add: params_registered_def)

lemma params_registered_parse_from:
  "params_registered clo \<Longrightarrow> params_registered (fst (parse_from clo args))"
proof (induction clo args rule: parse_from.induct)
  case (2 clo arg rest)
  obtain clo' ret where p: "(if isLongOption arg then processLongOption clo arg (next_param_of rest)
      else processShortOption clo (drop 1 arg) (next_param_of rest)) = (clo', ret)"
    by fastforce
  have "params_registered clo'"
    using params_registered_long [OF 2(3), of arg "next_param_of rest"]
      params_registered_short [OF 2(3), of "drop 1 arg" "next_param_of rest"] p
    by (auto split: if_splits)
  then show ?case
    using 2 p by (simp add: Let_def del: str_simps)
qed simp

section \<open>Properties\<close>

text \<open>C29. Every command line that fits the registered options is parsed: the parameters of each
  option are recorded in the order they were given, what is neither an option nor a parameter and
  everything after \<open>--\<close> is left over.\<close>

theorem parse_reads_command_line:
  assumes "list_all (fits (option_types clo)) items"
  shows "\<exists>clo'. parse clo ([prog] @ concat (map args_of items) @ str ''--'' # rest) = (clo', True) \<and>
    left_args clo' = left_args clo @ concat (map left_of items) @ rest \<and>
    (\<forall>opt. getParameters clo' opt =
       getParameters clo opt @ map snd (filter (\<lambda>(k, v). k = opt) (concat (map params_of items))))"
proof -
  let ?clo = "fold apply_item items clo"
  have "parse clo ([prog] @ concat (map args_of items) @ str ''--'' # rest) =
      (?clo\<lparr>left_args := left_args ?clo @ rest\<rparr>, True)"
    using parse_items [OF assms] by (simp add: parse_def del: str_simps)
  moreover have "getParameters (?clo\<lparr>left_args := xs\<rparr>) opt = getParameters ?clo opt" for xs opt
    by (simp add: getParameters_def)
  ultimately show ?thesis by (simp add: apply_items_left apply_items_get)
qed

definition example_options :: command_line_option where
  "example_options = addOption (addOption (addOption CommandLineOption (str ''v'') NONE)
     (str ''port'') REQUIRED) (str ''o'') REQUIRED"

theorem parse_reads_command_line_witness:
  "\<exists>clo'. parse example_options
      ([[]] @ concat (map args_of [Plain (str ''in''), LongAttached (str ''port'') (str ''80''),
         ShortNext (str ''v'') (of_char (CHR ''o'')) (str ''out'')]) @ str ''--'' # [str ''-x'']) =
      (clo', True) \<and>
    left_args clo' = [str ''in'', str ''-x'']"
proof -
  let ?items = "[Plain (str ''in''), LongAttached (str ''port'') (str ''80''),
    ShortNext (str ''v'') (of_char (CHR ''o'')) (str ''out'')]"
  have "list_all (fits (option_types example_options)) ?items" by code_simp
  moreover have "left_args example_options @ concat (map left_of ?items) @ [str ''-x''] =
      [str ''in'', str ''-x'']" by code_simp
  ultimately show ?thesis
    using parse_reads_command_line [of example_options ?items "[]" "[str ''-x'']"] by metis
qed

text \<open>Whatever options are registered and whatever arguments are parsed, successfully or not,
  one command line after the other: exactly the registered options have an entry, an option
  without parameter only ever records empty ones, and the three queries agree.\<close>

theorem only_registered_options:
  "let clo = fold (\<lambda>argv clo. fst (parse clo argv)) argvs
               (fold (\<lambda>(opt, ty) clo. addOption clo opt ty) opts CommandLineOption)
   in params_registered clo \<and>
      (\<forall>opt. hasOption clo opt \<longleftrightarrow> getParameters clo opt \<noteq> []) \<and>
      (\<forall>opt. getParameter clo opt = (if hasOption clo opt then last (getParameters clo opt) else []))"
proof -
  have start: "params_registered CommandLineOption"
    by (simp add: params_registered_def CommandLineOption_def)
  have "params_registered (fold (\<lambda>(opt, ty) clo. addOption clo opt ty) opts clo)"
    if "params_registered clo" for clo
    using that by (induction opts arbitrary: clo) (auto intro: inv_intros)
  moreover have "params_registered (fold (\<lambda>argv clo. fst (parse clo argv)) argvs clo)"
    if "params_registered clo" for clo
    using that by (induction argvs arbitrary: clo) (auto simp: parse_def params_registered_parse_from)
  ultimately show ?thesis
    using start
    by (auto simp: Let_def hasOption_def getParameters_def getParameter_def split: option.splits)
qed

end
