(* ===== verification/OrderedMap.thy ===== *)
theory OrderedMap
  imports StringUtil
begin

text \<open>
  \<open>std::map\<close> with a comparison object, as the list of its entries in the order of iteration. Under
  the laws of \<open>strict_weak_order\<close> the three operations the library uses behave as a finite map on
  classes of equivalent keys, and keep the entries sorted.
\<close>

fun omap_find :: "('k \<Rightarrow> 'k \<Rightarrow> bool) \<Rightarrow> 'k \<Rightarrow> ('k \<times> 'v) list \<Rightarrow> 'v option" where
  "omap_find lt k [] = None"
| "omap_find lt k ((k', v') # m) =
     (if lt k' k then omap_find lt k m else if lt k k' then None else Some v')"

text \<open>\<open>m[k] = v\<close>: an entry with an equivalent key keeps its key.\<close>

fun omap_set :: "('k \<Rightarrow> 'k \<Rightarrow> bool) \<Rightarrow> 'k \<Rightarrow> 'v \<Rightarrow> ('k \<times> 'v) list \<Rightarrow> ('k \<times> 'v) list" where
  "omap_set lt k v [] = [(k, v)]"
| "omap_set lt k v ((k', v') # m) =
     (if lt k' k then (k', v') # omap_set lt k v m
      else if lt k k' then (k, v) # (k', v') # m else (k', v) # m)"

fun omap_erase :: "('k \<Rightarrow> 'k \<Rightarrow> bool) \<Rightarrow> 'k \<Rightarrow> ('k \<times> 'v) list \<Rightarrow> ('k \<times> 'v) list" where
  "omap_erase lt k [] = []"
| "omap_erase lt k ((k', v') # m) =
     (if lt k' k then (k', v') # omap_erase lt k m
      else if lt k k' then (k', v') # m else m)"

context strict_weak_order
begin

abbreviation ordered :: "('k \<times> 'v) list \<Rightarrow> bool" where
  "ordered m \<equiv> sorted_wrt less (map fst m)"

lemma compare_cases [case_names below above same]:
  assumes "less x y \<Longrightarrow> P" and "less y x \<Longrightarrow> P" and "same_key x y \<Longrightarrow> P"
  shows P
  using assms by (auto simp: same_key_def)

lemma same_key_not_less: "same_key x y \<Longrightarrow> \<not> less x y" "same_key x y \<Longrightarrow> \<not> less y x"
  by (simp_all add: same_key_def)

lemma find_Cons:
  "less k' k \<Longrightarrow> omap_find less k ((k', v') # m) = omap_find less k m"
  "less k k' \<Longrightarrow> omap_find less k ((k', v') # m) = None"
  "same_key k k' \<Longrightarrow> omap_find less k ((k', v') # m) = Some v'"
  by (auto simp: less_asym same_key_def)

lemma set_Cons:
  "less k' k \<Longrightarrow> omap_set less k v ((k', v') # m) = (k', v') # omap_set less k v m"
  "less k k' \<Longrightarrow> omap_set less k v ((k', v') # m) = (k, v) # (k', v') # m"
  "same_key k k' \<Longrightarrow> omap_set less k v ((k', v') # m) = (k', v) # m"
  by (auto simp: less_asym same_key_def)

lemma erase_Cons:
  "less k' k \<Longrightarrow> omap_erase less k ((k', v') # m) = (k', v') # omap_erase less k m"
  "less k k' \<Longrightarrow> omap_erase less k ((k', v') # m) = (k', v') # m"
  "same_key k k' \<Longrightarrow> omap_erase less k ((k', v') # m) = m"
  by (auto simp: less_asym same_key_def)

declare omap_find.simps(2) [simp del] omap_set.simps(2) [simp del] omap_erase.simps(2) [simp del]

lemma find_above: "\<forall>k' \<in> set (map fst m). less k k' \<Longrightarrow> omap_find less k m = None"
  by (cases m) (auto simp: find_Cons)

lemma set_keys: "x \<in> fst ` set (omap_set less k v m) \<Longrightarrow> x = k \<or> x \<in> fst ` set m"
proof (induction m)
  case (Cons e m)
  obtain k' v' where e: "e = (k', v')" by fastforce
  show ?case by (cases k k' rule: compare_cases) (use Cons e in \<open>auto simp: set_Cons\<close>)
qed auto

lemma set_ordered: "ordered m \<Longrightarrow> ordered (omap_set less k v m)"
proof (induction m)
  case (Cons e m)
  obtain k' v' where e: "e = (k', v')" by fastforce
  show ?case
  proof (cases k k' rule: compare_cases)
    case above
    have "less k' x" if "x \<in> fst ` set (omap_set less k v m)" for x
      using set_keys [OF that] above Cons.prems e by auto
    then show ?thesis using Cons above e by (auto simp: set_Cons)
  next
    case below
    then show ?thesis using Cons.prems e by (auto simp: set_Cons intro: less_trans)
  next
    case same
    then show ?thesis using Cons.prems e by (auto simp: set_Cons)
  qed
qed simp

lemma erase_keys: "x \<in> set (omap_erase less k m) \<Longrightarrow> x \<in> set m"
proof (induction m)
  case (Cons e m)
  obtain k' v' where e: "e = (k', v')" by fastforce
  show ?case by (cases k k' rule: compare_cases) (use Cons e in \<open>auto simp: erase_Cons\<close>)
qed simp

lemma erase_ordered: "ordered m \<Longrightarrow> ordered (omap_erase less k m)"
proof (induction m)
  case (Cons e m)
  obtain k' v' where e: "e = (k', v')" by fastforce
  have "\<forall>y \<in> set (omap_erase less k m). less k' (fst y)"
    using erase_keys [of _ k m] Cons.prems e by (auto simp: fst_def split: prod.splits)
  then show ?case
    by (cases k k' rule: compare_cases) (use Cons e in \<open>auto simp: erase_Cons\<close>)
qed simp

lemma find_set:
  "ordered m \<Longrightarrow> omap_find less x (omap_set less k v m) =
    (if same_key x k then Some v else omap_find less x m)"
proof (induction m)
  case Nil
  show ?case by (cases x k rule: compare_cases) (auto simp: find_Cons same_key_def less_irrefl)
next
  case (Cons e m)
  obtain k' v' where e: "e = (k', v')" by fastforce
  have IH: "omap_find less x (omap_set less k v m) = (if same_key x k then Some v else omap_find less x m)"
    using Cons by simp
  show ?case
  proof (cases k k' rule: compare_cases)
    case above
    then have "\<not> same_key x k" if "\<not> less k' x"
      using that less_same_key(2) [of x k k'] by blast
    then show ?thesis
      using above IH e by (cases x k' rule: compare_cases) (auto simp: set_Cons find_Cons less_asym same_key_not_less)
  next
    case below
    then have "less x k'" if "less x k" using that less_trans by blast
    then show ?thesis
      using below e by (cases x k rule: compare_cases) (auto simp: set_Cons find_Cons same_key_not_less)
  next
    case same
    then have "same_key x k \<longleftrightarrow> same_key x k'"
      using same_key_trans same_key_sym by blast
    then show ?thesis
      using same e by (cases x k' rule: compare_cases) (auto simp: set_Cons find_Cons same_key_not_less)
  qed
qed

lemma find_erase:
  "ordered m \<Longrightarrow> omap_find less x (omap_erase less k m) =
    (if same_key x k then None else omap_find less x m)"
proof (induction m)
  case (Cons e m)
  obtain k' v' where e: "e = (k', v')" by fastforce
  have above_k': "\<forall>y \<in> set (map fst m). less k' y" using Cons.prems e by auto
  have IH: "omap_find less x (omap_erase less k m) = (if same_key x k then None else omap_find less x m)"
    using Cons by simp
  show ?case
  proof (cases k k' rule: compare_cases)
    case above
    then have "\<not> same_key x k" if "\<not> less k' x"
      using that less_same_key(2) [of x k k'] by blast
    then show ?thesis
      using above IH e by (cases x k' rule: compare_cases) (auto simp: erase_Cons find_Cons less_asym same_key_not_less)
  next
    case below
    then have "less x k'" if "same_key x k" using that less_same_key(1) by blast
    then show ?thesis
      using below e by (auto simp: erase_Cons find_Cons)
  next
    case same
    then have eq: "same_key x k \<longleftrightarrow> same_key x k'"
      using same_key_trans same_key_sym by blast
    have "omap_find less x m = None" if "less x k' \<or> same_key x k'"
      using find_above [of m x] above_k' that less_trans less_same_key(1) by blast
    then show ?thesis
      using same e eq by (cases x k' rule: compare_cases) (auto simp: erase_Cons find_Cons same_key_not_less)
  qed
qed simp

text \<open>Entries set in their order are appended.\<close>

lemma set_append: "ordered (m @ [(k, v)]) \<Longrightarrow> omap_set less k v m = m @ [(k, v)]"
  by (induction m) (auto simp: set_Cons)

lemma set_all: "ordered (m @ m') \<Longrightarrow> fold (\<lambda>(k, v). omap_set less k v) m' m = m @ m'"
proof (induction m' arbitrary: m)
  case (Cons e m')
  obtain k v where e: "e = (k, v)" by fastforce
  have "ordered (m @ [(k, v)])" using Cons.prems e by (auto simp: sorted_wrt_append)
  then have "omap_set less k v m = m @ [(k, v)]" by (rule set_append)
  then show ?case using Cons.IH [of "m @ [(k, v)]"] Cons.prems e by simp
qed simp

end

end
