(* ===== verification/HttpMessage.thy ===== *)
theory HttpMessage
  imports OrderedMap
begin

text \<open>
  \<open>protocol/http_message.cc\<close>, \<open>http_request.cc\<close> and \<open>http_response.cc\<close>. The headers are a
  \<open>std::map\<close> compared without regard to case.
\<close>

datatype http_version = VERSION_UNKNOWN | HTTP_1_0 | HTTP_1_1
datatype message_type = TYPE_UNKNOWN | REQUEST | RESPONSE
datatype http_method = METHOD_UNKNOWN | GET | POST

type_synonym header_map = "(bytes \<times> bytes) list"

record http_message =
  hm_type :: message_type
  hm_version :: http_version
  hm_headers :: header_map
  hm_body :: bytes

record http_request = http_message +
  hr_method :: http_method
  hr_request_uri :: bytes

record http_response = http_message +
  hp_status_code :: int
  hp_reason_phrase :: bytes

definition HttpRequest :: http_request where
  "HttpRequest = \<lparr>hm_type = REQUEST, hm_version = VERSION_UNKNOWN, hm_headers = [], hm_body = [],
     hr_method = METHOD_UNKNOWN, hr_request_uri = []\<rparr>"

definition HttpResponse :: http_response where
  "HttpResponse = \<lparr>hm_type = RESPONSE, hm_version = VERSION_UNKNOWN, hm_headers = [], hm_body = [],
     hp_status_code = 0, hp_reason_phrase = []\<rparr>"

definition getHeader :: "'a http_message_scheme \<Rightarrow> bytes \<Rightarrow> bytes" where
  "getHeader msg key =
     (case omap_find CaseInsensitiveLess key (hm_headers msg) of None \<Rightarrow> [] | Some v \<Rightarrow> v)"

definition hasHeader :: "'a http_message_scheme \<Rightarrow> bytes \<Rightarrow> bool" where
  "hasHeader msg key \<longleftrightarrow> omap_find CaseInsensitiveLess key (hm_headers msg) \<noteq> None"

definition headerEqual :: "'a http_message_scheme \<Rightarrow> bytes \<Rightarrow> bytes \<Rightarrow> bool" where
  "headerEqual msg key val = stricmp (getHeader msg key) val"

definition headerContain :: "'a http_message_scheme \<Rightarrow> bytes \<Rightarrow> bytes \<Rightarrow> bool" where
  "headerContain msg key val \<longleftrightarrow> find_from (toLower (getHeader msg key)) (toLower val) 0 \<noteq> None"

definition setHeader :: "bytes \<Rightarrow> bytes \<Rightarrow> 'a http_message_scheme \<Rightarrow> 'a http_message_scheme" where
  "setHeader key val msg =
     msg\<lparr>hm_headers := omap_set CaseInsensitiveLess key val (hm_headers msg)\<rparr>"

definition removeHeader :: "bytes \<Rightarrow> 'a http_message_scheme \<Rightarrow> 'a http_message_scheme" where
  "removeHeader key msg = msg\<lparr>hm_headers := omap_erase CaseInsensitiveLess key (hm_headers msg)\<rparr>"

definition setBody :: "bytes \<Rightarrow> 'a http_message_scheme \<Rightarrow> 'a http_message_scheme" where
  "setBody body msg = msg\<lparr>hm_body := body\<rparr>"

definition isConnectionKeepAlive :: "'a http_message_scheme \<Rightarrow> bool" where
  "isConnectionKeepAlive msg = headerEqual msg (str ''Connection'') (str ''Keep-Alive'')"

definition setConnectionKeepAlive :: "'a http_message_scheme \<Rightarrow> 'a http_message_scheme" where
  "setConnectionKeepAlive = setHeader (str ''Connection'') (str ''Keep-Alive'')"

definition setConnectionClose :: "'a http_message_scheme \<Rightarrow> 'a http_message_scheme" where
  "setConnectionClose = setHeader (str ''Connection'') (str ''Close'')"

text \<open>The setters of the members.\<close>

definition setVersion :: "http_version \<Rightarrow> 'a http_message_scheme \<Rightarrow> 'a http_message_scheme" where
  "setVersion v msg = msg\<lparr>hm_version := v\<rparr>"

definition setMethod :: "http_method \<Rightarrow> http_request \<Rightarrow> http_request" where
  "setMethod k r = r\<lparr>hr_method := k\<rparr>"

definition setRequestUri :: "bytes \<Rightarrow> http_request \<Rightarrow> http_request" where
  "setRequestUri uri r = r\<lparr>hr_request_uri := uri\<rparr>"

definition setStatusCode :: "int \<Rightarrow> http_response \<Rightarrow> http_response" where
  "setStatusCode code r = r\<lparr>hp_status_code := code\<rparr>"

definition setReasonPhrase :: "bytes \<Rightarrow> http_response \<Rightarrow> http_response" where
  "setReasonPhrase phrase r = r\<lparr>hp_reason_phrase := phrase\<rparr>"

text \<open>\<open>swap\<close> of two messages of the same class.\<close>

definition hm_swap :: "'a \<Rightarrow> 'a \<Rightarrow> 'a \<times> 'a" where
  "hm_swap msg other = (other, msg)"

text \<open>\<open>setDate\<close>: the clock and \<open>Timestamp::format\<close> (local time and \<open>strftime\<close>) are the environment's.\<close>

definition setDate :: "(bytes \<Rightarrow> int \<Rightarrow> bytes) \<Rightarrow> int \<Rightarrow> int \<Rightarrow> 'a http_message_scheme \<Rightarrow> 'a http_message_scheme" where
  "setDate time_format clock now msg =
     setHeader (str ''Date'')
       (time_format (str ''%a, %d %b %Y %H:%M:%S %Z'') (if now = 0 then clock else now)) msg"

definition VersionStrToEnum :: "bytes \<Rightarrow> http_version" where
  "VersionStrToEnum s = (if s = str ''HTTP/1.1'' then HTTP_1_1
     else if s = str ''HTTP/1.0'' then HTTP_1_0 else VERSION_UNKNOWN)"

definition VersionEnumToStr :: "http_version \<Rightarrow> bytes" where
  "VersionEnumToStr v = (case v of HTTP_1_1 \<Rightarrow> str ''HTTP/1.1'' | HTTP_1_0 \<Rightarrow> str ''HTTP/1.0''
     | VERSION_UNKNOWN \<Rightarrow> str ''UNKNOWN'')"

definition MethodStrToEnum :: "bytes \<Rightarrow> http_method" where
  "MethodStrToEnum s = (if s = str ''GET'' then GET
     else if s = str ''POST'' then POST else METHOD_UNKNOWN)"

definition MethodEnumToStr :: "http_method \<Rightarrow> bytes" where
  "MethodEnumToStr m = (case m of GET \<Rightarrow> str ''GET'' | POST \<Rightarrow> str ''POST''
     | METHOD_UNKNOWN \<Rightarrow> str ''UNKNOWN'')"

section \<open>Headers as a map\<close>

abbreviation headers_ordered :: "'a http_message_scheme \<Rightarrow> bool" where
  "headers_ordered msg \<equiv> ci.ordered (hm_headers msg)"

lemma setHeader_ordered [inv_intros]: "headers_ordered msg \<Longrightarrow> headers_ordered (setHeader k v msg)"
  by (simp add: setHeader_def ci.set_ordered)

lemma removeHeader_ordered [inv_intros]: "headers_ordered msg \<Longrightarrow> headers_ordered (removeHeader k msg)"
  by (simp add: removeHeader_def ci.erase_ordered)

lemma getHeader_set:
  "headers_ordered msg \<Longrightarrow> getHeader (setHeader k v msg) x = (if stricmp x k then v else getHeader msg x)"
  by (simp add: getHeader_def setHeader_def ci.find_set ci_same_key)

lemma getHeader_remove:
  "headers_ordered msg \<Longrightarrow> getHeader (removeHeader k msg) x = (if stricmp x k then [] else getHeader msg x)"
  by (simp add: getHeader_def removeHeader_def ci.find_erase ci_same_key)

lemma hasHeader_set:
  "headers_ordered msg \<Longrightarrow> hasHeader (setHeader k v msg) x \<longleftrightarrow> stricmp x k \<or> hasHeader msg x"
  by (simp add: hasHeader_def setHeader_def ci.find_set ci_same_key)

lemma hasHeader_remove:
  "headers_ordered msg \<Longrightarrow> hasHeader (removeHeader k msg) x \<longleftrightarrow> \<not> stricmp x k \<and> hasHeader msg x"
  by (simp add: hasHeader_def removeHeader_def ci.find_erase ci_same_key)

lemma version_roundtrip: "v \<noteq> VERSION_UNKNOWN \<Longrightarrow> VersionStrToEnum (VersionEnumToStr v) = v"
  by (cases v) (simp_all add: VersionStrToEnum_def VersionEnumToStr_def)

lemma method_roundtrip: "m \<noteq> METHOD_UNKNOWN \<Longrightarrow> MethodStrToEnum (MethodEnumToStr m) = m"
  by (cases m) (simp_all add: MethodStrToEnum_def MethodEnumToStr_def)

section \<open>Properties\<close>

text \<open>C30. Headers behave as a map whose keys do not depend on case, through any sequence of
  settings and removals from a message with ordered headers.\<close>

theorem headers_are_a_map:
  assumes "headers_ordered msg"
  defines "run \<equiv> fold (\<lambda>(k, v) msg. case v of Some v \<Rightarrow> setHeader k v msg | None \<Rightarrow> removeHeader k msg)"
  shows "headers_ordered (run ops msg) \<and>
    getHeader (run ops msg) x =
      (case filter (\<lambda>(k, v). stricmp x k) (rev ops) of
         [] \<Rightarrow> getHeader msg x
       | (k, Some v) # _ \<Rightarrow> v
       | (k, None) # _ \<Rightarrow> []) \<and>
    (hasHeader (run ops msg) x \<longleftrightarrow>
      (case filter (\<lambda>(k, v). stricmp x k) (rev ops) of
         [] \<Rightarrow> hasHeader msg x
       | (k, v) # _ \<Rightarrow> v \<noteq> None))"
proof (induction ops rule: rev_induct)
  case Nil
  then show ?case using assms by simp
next
  case (snoc op ops)
  obtain k v where op: "op = (k, v)" by fastforce
  have ord: "headers_ordered (run ops msg)" using snoc by blast
  show ?case
    using snoc ord
    by (cases v) (auto simp: run_def op getHeader_set getHeader_remove hasHeader_set hasHeader_remove
        intro: inv_intros)
qed

theorem headers_are_a_map_witness:
  "getHeader (setHeader (str ''HOST'') (str ''b'') (setHeader (str ''Host'') (str ''a'') HttpRequest))
     (str ''host'') = str ''b''"
proof -
  have "stricmp (str ''host'') (str ''HOST'')" by code_simp
  then show ?thesis
    using headers_are_a_map [of HttpRequest "[(str ''Host'', Some (str ''a'')), (str ''HOST'', Some (str ''b''))]"
        "str ''host''"]
    by (simp add: HttpRequest_def del: str_simps)
qed

end
