(* ===== verification/StatusMachine.thy ===== *)
theory StatusMachine
  imports Prelude
begin

text \<open>
  The receiving loop that \<open>HttpProtocol\<close> and \<open>WebSocketProtocol\<close> share: a table of handlers, one
  per status, each of which returns 1 (go on), 0 (wait for more data) or -1 (error). The locale
  states what makes such a loop independent of how the input was cut into pieces.
\<close>

datatype ret_code = ERROR | WAITING_MORE_DATA | MESSAGE_READY

text \<open>A handler takes the state and the readable bytes and gives the new state, the bytes that are
  left and its return value. \<open>safe\<close> describes the states and inputs for which more data does not
  change what the handlers have done.\<close>

locale status_machine =
  fixes handle :: "'s \<Rightarrow> bytes \<Rightarrow> 's \<times> bytes \<times> int"
    and recv :: "'s \<Rightarrow> bytes \<Rightarrow> 's \<times> bytes \<times> ret_code"
    and dead :: "'s \<Rightarrow> bool"
    and finished :: "'s \<Rightarrow> bool"
    and fail :: "'s \<Rightarrow> 's"
    and safe :: "'s \<Rightarrow> bytes \<Rightarrow> bool"
  assumes recv_unfold: "recv st xs =
      (if dead st then (st, xs, ERROR)
       else case handle st xs of (st', rest, ret) \<Rightarrow>
         if ret = 0 then (st', rest, WAITING_MORE_DATA)
         else if ret = -1 then (fail st', rest, ERROR)
         else if finished st' then (st', rest, MESSAGE_READY)
         else recv st' rest)"
    and handle_done: "safe st xs \<Longrightarrow> \<not> dead st \<Longrightarrow> handle st xs = (st', rest, ret) \<Longrightarrow> ret \<noteq> 0 \<Longrightarrow>
      handle st (xs @ ys) = (st', rest @ ys, ret)"
    and handle_wait: "safe st xs \<Longrightarrow> \<not> dead st \<Longrightarrow> handle st xs = (st', rest, 0) \<Longrightarrow>
      handle st (xs @ ys) = handle st' (rest @ ys) \<and> \<not> dead st'"
    and handle_safe: "safe st xs \<Longrightarrow> \<not> dead st \<Longrightarrow> handle st xs = (st', rest, ret) \<Longrightarrow>
      ret \<noteq> 0 \<Longrightarrow> ret \<noteq> -1 \<Longrightarrow> \<not> finished st' \<Longrightarrow> safe st' rest"
    and progress: "\<not> dead st \<Longrightarrow> handle st xs = (st', rest, ret) \<Longrightarrow> ret \<noteq> 0 \<Longrightarrow> ret \<noteq> -1 \<Longrightarrow>
      \<not> finished st' \<Longrightarrow> length rest < length xs"
begin

text \<open>A complete message or an error does not depend on what comes after it.\<close>

lemma recv_complete:
  "safe st xs \<Longrightarrow> recv st xs = (st', rest, r) \<Longrightarrow> r \<noteq> WAITING_MORE_DATA \<Longrightarrow>
    recv st (xs @ ys) = (st', rest @ ys, r)"
proof (induction "length xs" arbitrary: st xs rule: less_induct)
  case less
  show ?case
  proof (cases "dead st")
    case True
    then show ?thesis using less.prems by (simp add: recv_unfold)
  next
    case False
    obtain st1 rest1 ret where h: "handle st xs = (st1, rest1, ret)" by (cases "handle st xs") auto
    have "ret \<noteq> 0" using less.prems False h recv_unfold [of st xs] by auto
    then have h': "handle st (xs @ ys) = (st1, rest1 @ ys, ret)"
      using handle_done less.prems(1) False h by blast
    show ?thesis
    proof (cases "ret = -1 \<or> finished st1")
      case True
      then show ?thesis
        using less.prems(2) False h h' \<open>ret \<noteq> 0\<close> recv_unfold [of st xs] recv_unfold [of st "xs @ ys"]
        by auto
    next
      case going: False
      have "recv st1 rest1 = (st', rest, r)"
        using less.prems(2) False h going \<open>ret \<noteq> 0\<close> recv_unfold [of st xs] by simp
      moreover have "length rest1 < length xs" using progress False h going \<open>ret \<noteq> 0\<close> by blast
      moreover have "safe st1 rest1" using handle_safe less.prems(1) False h going \<open>ret \<noteq> 0\<close> by blast
      ultimately have "recv st1 (rest1 @ ys) = (st', rest @ ys, r)"
        using less.hyps less.prems(3) by blast
      then show ?thesis
        using False h' going \<open>ret \<noteq> 0\<close> recv_unfold [of st "xs @ ys"] by simp
    qed
  qed
qed

text \<open>Waiting loses nothing: going on with the kept state and the bytes left gives what the whole
  input would have given.\<close>

lemma recv_resume:
  "safe st xs \<Longrightarrow> recv st xs = (st', rest, WAITING_MORE_DATA) \<Longrightarrow> recv st (xs @ ys) = recv st' (rest @ ys)"
proof (induction "length xs" arbitrary: st xs rule: less_induct)
  case less
  have alive: "\<not> dead st" using less.prems(2) recv_unfold [of st xs] by auto
  obtain st1 rest1 ret where h: "handle st xs = (st1, rest1, ret)" by (cases "handle st xs") auto
  show ?case
  proof (cases "ret = 0")
    case True
    then have same: "st1 = st'" "rest1 = rest"
      using less.prems(2) alive h recv_unfold [of st xs] by auto
    then have "handle st (xs @ ys) = handle st' (rest @ ys)" "\<not> dead st'"
      using handle_wait less.prems(1) alive h True by blast+
    then show ?thesis
      using alive recv_unfold [of st "xs @ ys"] recv_unfold [of st' "rest @ ys"] by simp
  next
    case False
    then have going: "ret \<noteq> -1" "\<not> finished st1" "recv st1 rest1 = (st', rest, WAITING_MORE_DATA)"
      using less.prems(2) alive h recv_unfold [of st xs] by (auto split: if_splits)
    have "recv st1 (rest1 @ ys) = recv st' (rest @ ys)"
      using less.hyps progress handle_safe less.prems(1) alive h False going by blast
    then show ?thesis
      using handle_done [OF less.prems(1) alive h False, of ys] alive False going
        recv_unfold [of st "xs @ ys"] by simp
  qed
qed

end

end
