(* ===== verification/DynamicBuffer.thy ===== *)
theory DynamicBuffer
  imports Prelude
begin

text \<open>
  \<^verbatim>\<open>src/src/brickred/dynamic_buffer.{h,cc}\<close>: the growable byte buffer behind every protocol
  parser and every connection. The record has the class's four fields; each member function is
  one definition, in the order of the source. \<open>db_content\<close> is the abstract value (the readable
  bytes) and \<open>db_inv\<close> the class invariant. The locale \<open>byte_fifo\<close> is the contract the clients
  (protocols, connections) rely on; it is interpreted on the buffer at the end.

  Sizes are \<open>nat\<close>: \<open>std::vector\<close> cannot be larger than the address space and throws when
  asked to, so sums of real sizes do not wrap. The offset of the \<open>peek\<close> functions is the
  caller's, so there the addition wraps (\<open>sz_add\<close>).
\<close>

section \<open>State\<close>

record dynamic_buffer =
  db_buffer :: bytes
  db_expand_size :: nat
  db_read_index :: nat
  db_write_index :: nat

text \<open>The constructor; \<open>std::vector<char>(n)\<close> is zero-filled.\<close>

definition DynamicBuffer :: "nat \<Rightarrow> nat \<Rightarrow> dynamic_buffer" where
  "DynamicBuffer init_size expand_size =
     \<lparr>db_buffer = replicate init_size 0, db_expand_size = expand_size,
      db_read_index = 0, db_write_index = 0\<rparr>"

text \<open>\<open>swap\<close> exchanges every field of the two buffers.\<close>

definition db_swap :: "dynamic_buffer \<Rightarrow> dynamic_buffer \<Rightarrow> dynamic_buffer \<times> dynamic_buffer" where
  "db_swap this other =
     (\<lparr>db_buffer = db_buffer other, db_expand_size = db_expand_size other,
       db_read_index = db_read_index other, db_write_index = db_write_index other\<rparr>,
      \<lparr>db_buffer = db_buffer this, db_expand_size = db_expand_size this,
       db_read_index = db_read_index this, db_write_index = db_write_index this\<rparr>)"

definition capacity :: "dynamic_buffer \<Rightarrow> nat" where
  "capacity b = length (db_buffer b)"

definition discardableBytes :: "dynamic_buffer \<Rightarrow> nat" where
  "discardableBytes b = db_read_index b"

definition readableBytes :: "dynamic_buffer \<Rightarrow> nat" where
  "readableBytes b = db_write_index b - db_read_index b"

definition writableBytes :: "dynamic_buffer \<Rightarrow> nat" where
  "writableBytes b = length (db_buffer b) - db_write_index b"

text \<open>The pointers \<open>readBegin()\<close> and \<open>writeBegin()\<close> are the indices they point at.\<close>

definition readBegin :: "dynamic_buffer \<Rightarrow> nat" where
  "readBegin b = db_read_index b"

definition writeBegin :: "dynamic_buffer \<Rightarrow> nat" where
  "writeBegin b = db_write_index b"

definition db_clear :: "dynamic_buffer \<Rightarrow> dynamic_buffer" where
  "db_clear b = b\<lparr>db_read_index := 0, db_write_index := 0\<rparr>"

definition db_read :: "dynamic_buffer \<Rightarrow> nat \<Rightarrow> dynamic_buffer" where
  "db_read b sz =
     (let b1 = b\<lparr>db_read_index := db_read_index b + min sz (readableBytes b)\<rparr>
      in if db_read_index b1 = db_write_index b1 then db_clear b1 else b1)"

definition db_write :: "dynamic_buffer \<Rightarrow> nat \<Rightarrow> dynamic_buffer" where
  "db_write b sz = b\<lparr>db_write_index := db_write_index b + min sz (writableBytes b)\<rparr>"

text \<open>
  Growing divides by \<open>expand_size_\<close>. With an expand size of 0 every call that has to grow the
  vector divides by zero, which traps: \<open>reserve_traps\<close> says when. The constructor's default
  and the invariant exclude it; \<open>reserveWritableBytes\<close> is meaningful where it does not trap.
\<close>

definition reserve_traps :: "dynamic_buffer \<Rightarrow> nat \<Rightarrow> bool" where
  "reserve_traps b sz \<longleftrightarrow>
     writableBytes b < sz \<and>
     \<not> (discardableBytes b + writableBytes b \<ge> sz \<and>
        discardableBytes b + writableBytes b - sz < db_expand_size b) \<and>
     db_expand_size b = 0"

text \<open>
  The size of the new vector. When at least \<open>expand_size_\<close> bytes more than needed are free but
  not contiguous, \<open>sz - free_bytes\<close> is negative and wraps; the multiplication and the
  addition wrap back, and the new vector is smaller than the old one
  (\<open>reserve_new_size_cases\<close>).
\<close>

definition reserve_new_size :: "dynamic_buffer \<Rightarrow> nat \<Rightarrow> nat" where
  "reserve_new_size b sz =
     (let free_bytes = sz_add (discardableBytes b) (writableBytes b);
          new_size = length (db_buffer b)
      in if free_bytes \<ge> sz \<and> free_bytes - sz < db_expand_size b
         then sz_add new_size (db_expand_size b)
         else sz_add new_size
                (sz_mul (db_expand_size b)
                   (sz_add (sz_sub sz free_bytes div db_expand_size b) 1)))"

definition reserveWritableBytes :: "dynamic_buffer \<Rightarrow> nat \<Rightarrow> dynamic_buffer" where
  "reserveWritableBytes b sz =
     (if writableBytes b \<ge> sz then b
      else let readable_bytes = readableBytes b;
               new_buffer = take readable_bytes (drop (readBegin b) (db_buffer b)) @
                            replicate (reserve_new_size b sz - readable_bytes) 0
           in b\<lparr>db_buffer := new_buffer, db_read_index := 0, db_write_index := readable_bytes\<rparr>)"

section \<open>Integers in the buffer\<close>

text \<open>\<open>db_at b i\<close> is the byte at vector index \<open>i\<close>. The functions below return \<open>None\<close> for
  \<open>false\<close> and otherwise the value stored in the out-parameter.\<close>

definition db_at :: "dynamic_buffer \<Rightarrow> nat \<Rightarrow> byte" where
  "db_at b i = db_buffer b ! i"

definition peekInt8 :: "dynamic_buffer \<Rightarrow> nat \<Rightarrow> byte option" where
  "peekInt8 b offset =
     (if readableBytes b < sz_add offset 1 then None
      else let p = readBegin b + offset in Some (db_at b p))"

text \<open>The overloads for wider out-parameters all read the narrow integer and zero-extend it.\<close>

definition peekInt8_wide :: "dynamic_buffer \<Rightarrow> nat \<Rightarrow> 'a::len word option" where
  "peekInt8_wide b offset =
     (case peekInt8 b offset of None \<Rightarrow> None | Some v8 \<Rightarrow> Some (ucast v8))"

definition peekInt16 :: "dynamic_buffer \<Rightarrow> nat \<Rightarrow> u16 option" where
  "peekInt16 b offset =
     (if readableBytes b < sz_add offset 2 then None
      else let p = readBegin b + offset
           in Some (ucast (db_at b (p + 1)) OR push_bit 8 (ucast (db_at b p))))"

definition peekInt16_wide :: "dynamic_buffer \<Rightarrow> nat \<Rightarrow> 'a::len word option" where
  "peekInt16_wide b offset =
     (case peekInt16 b offset of None \<Rightarrow> None | Some v16 \<Rightarrow> Some (ucast v16))"

definition peekInt32 :: "dynamic_buffer \<Rightarrow> nat \<Rightarrow> u32 option" where
  "peekInt32 b offset =
     (if readableBytes b < sz_add offset 4 then None
      else let p = readBegin b + offset
           in Some (ucast (db_at b (p + 3)) OR
                    push_bit 8 (ucast (db_at b (p + 2))) OR
                    push_bit 16 (ucast (db_at b (p + 1))) OR
                    push_bit 24 (ucast (db_at b p))))"

definition peekInt32_wide :: "dynamic_buffer \<Rightarrow> nat \<Rightarrow> 'a::len word option" where
  "peekInt32_wide b offset =
     (case peekInt32 b offset of None \<Rightarrow> None | Some v32 \<Rightarrow> Some (ucast v32))"

definition peekInt64 :: "dynamic_buffer \<Rightarrow> nat \<Rightarrow> u64 option" where
  "peekInt64 b offset =
     (if readableBytes b < sz_add offset 8 then None
      else let p = readBegin b + offset
           in Some (ucast (db_at b (p + 7)) OR
                    push_bit 8 (ucast (db_at b (p + 6))) OR
                    push_bit 16 (ucast (db_at b (p + 5))) OR
                    push_bit 24 (ucast (db_at b (p + 4))) OR
                    push_bit 32 (ucast (db_at b (p + 3))) OR
                    push_bit 40 (ucast (db_at b (p + 2))) OR
                    push_bit 48 (ucast (db_at b (p + 1))) OR
                    push_bit 56 (ucast (db_at b p))))"

text \<open>Each \<open>read\<close> function is its \<open>peek\<close> at offset 0 followed by \<open>read(n)\<close>; the type of the
  result selects the overload.\<close>

definition readInt8 :: "dynamic_buffer \<Rightarrow> ('a::len word \<times> dynamic_buffer) option" where
  "readInt8 b =
     (case peekInt8_wide b 0 of None \<Rightarrow> None | Some v \<Rightarrow> Some (v, db_read b 1))"

definition readInt16 :: "dynamic_buffer \<Rightarrow> ('a::len word \<times> dynamic_buffer) option" where
  "readInt16 b =
     (case peekInt16_wide b 0 of None \<Rightarrow> None | Some v \<Rightarrow> Some (v, db_read b 2))"

definition readInt32 :: "dynamic_buffer \<Rightarrow> ('a::len word \<times> dynamic_buffer) option" where
  "readInt32 b =
     (case peekInt32_wide b 0 of None \<Rightarrow> None | Some v \<Rightarrow> Some (v, db_read b 4))"

definition readInt64 :: "dynamic_buffer \<Rightarrow> (u64 \<times> dynamic_buffer) option" where
  "readInt64 b =
     (case peekInt64 b 0 of None \<Rightarrow> None | Some v \<Rightarrow> Some (v, db_read b 8))"

text \<open>Bytes stored through the pointer \<open>writeBegin()\<close>, by assignments or \<open>memcpy\<close>. Storing
  past the end of the vector is excluded by a \<open>reserveWritableBytes\<close> before it.\<close>

definition db_store :: "dynamic_buffer \<Rightarrow> bytes \<Rightarrow> dynamic_buffer" where
  "db_store b xs =
     b\<lparr>db_buffer := take (writeBegin b) (db_buffer b) @ xs @
                    drop (writeBegin b + length xs) (db_buffer b)\<rparr>"

definition writeInt8 :: "dynamic_buffer \<Rightarrow> byte \<Rightarrow> dynamic_buffer" where
  "writeInt8 b v = db_write (db_store (reserveWritableBytes b 1) [v]) 1"

definition writeInt16 :: "dynamic_buffer \<Rightarrow> u16 \<Rightarrow> dynamic_buffer" where
  "writeInt16 b v =
     db_write (db_store (reserveWritableBytes b 2) [ucast (drop_bit 8 v), ucast v]) 2"

definition writeInt32 :: "dynamic_buffer \<Rightarrow> u32 \<Rightarrow> dynamic_buffer" where
  "writeInt32 b v =
     db_write (db_store (reserveWritableBytes b 4)
       [ucast (drop_bit 24 v), ucast (drop_bit 16 v), ucast (drop_bit 8 v), ucast v]) 4"

definition writeInt64 :: "dynamic_buffer \<Rightarrow> u64 \<Rightarrow> dynamic_buffer" where
  "writeInt64 b v =
     db_write (db_store (reserveWritableBytes b 8)
       [ucast (drop_bit 56 v), ucast (drop_bit 48 v), ucast (drop_bit 40 v),
        ucast (drop_bit 32 v), ucast (drop_bit 24 v), ucast (drop_bit 16 v),
        ucast (drop_bit 8 v), ucast v]) 8"

text \<open>The idiom of every client: reserve, copy in, \<open>write\<close>.\<close>

definition db_append :: "dynamic_buffer \<Rightarrow> bytes \<Rightarrow> dynamic_buffer" where
  "db_append b xs = db_write (db_store (reserveWritableBytes b (length xs)) xs) (length xs)"

section \<open>The class invariant and the abstract content\<close>

text \<open>
  The indices are ordered and inside the vector, the vector is within \<open>max_size()\<close>, and the
  expand size is neither 0 nor absurdly large. Under it, a buffer whose content stays below
  \<open>db_limit\<close> never wraps a size.
\<close>

definition db_limit :: nat where
  "db_limit = 2 ^ 62"

definition db_inv :: "dynamic_buffer \<Rightarrow> bool" where
  "db_inv b \<longleftrightarrow>
     db_read_index b \<le> db_write_index b \<and> db_write_index b \<le> length (db_buffer b) \<and>
     length (db_buffer b) < 2 ^ 63 \<and>
     0 < db_expand_size b \<and> db_expand_size b \<le> 2 ^ 60"

definition db_content :: "dynamic_buffer \<Rightarrow> bytes" where
  "db_content b = take (readableBytes b) (drop (readBegin b) (db_buffer b))"

lemma length_db_content [simp]: "db_inv b \<Longrightarrow> length (db_content b) = readableBytes b"
  by (auto simp: db_inv_def db_content_def readableBytes_def readBegin_def)

lemma reserve_never_traps [simp]: "db_inv b \<Longrightarrow> \<not> reserve_traps b sz"
  by (simp add: db_inv_def reserve_traps_def)

lemma next_multiple:
  fixes n e :: nat
  assumes "0 < e"
  shows "n < e * (n div e + 1)" and "e * (n div e + 1) \<le> n + e"
  using assms dividend_less_times_div [of e n] by (auto simp: algebra_simps)

text \<open>What the three cases of the size computation amount to.\<close>

lemma reserve_new_size_cases:
  assumes "db_inv b" and "sz < 2 ^ 62"
  defines "free \<equiv> db_read_index b + writableBytes b"
  shows "sz \<le> free \<Longrightarrow> free - sz < db_expand_size b \<Longrightarrow>
           reserve_new_size b sz = length (db_buffer b) + db_expand_size b"
    and "free < sz \<Longrightarrow>
           reserve_new_size b sz =
             length (db_buffer b) + db_expand_size b * ((sz - free) div db_expand_size b + 1)"
    and "sz \<le> free \<Longrightarrow> db_expand_size b \<le> free - sz \<Longrightarrow>
           readableBytes b + sz < reserve_new_size b sz \<and>
           reserve_new_size b sz \<le> readableBytes b + sz + db_expand_size b"
proof -
  let ?E = "db_expand_size b" and ?L = "length (db_buffer b)"
  have inv: "db_read_index b \<le> db_write_index b" "db_write_index b \<le> ?L"
    "?L < 2 ^ 63" "0 < ?E" "?E \<le> 2 ^ 60"
    using assms(1) by (simp_all add: db_inv_def)
  have free_le: "free \<le> ?L"
    using inv by (auto simp: free_def writableBytes_def)
  have F: "sz_add (discardableBytes b) (writableBytes b) = free"
    using inv free_le by (simp add: sz_add_small discardableBytes_def free_def)
  show "reserve_new_size b sz = ?L + ?E"
    if "sz \<le> free" "free - sz < ?E"
    using that inv F by (simp add: reserve_new_size_def Let_def sz_add_small)
  show "reserve_new_size b sz = ?L + ?E * ((sz - free) div ?E + 1)" if lt: "free < sz"
  proof -
    define m where "m = ?E * ((sz - free) div ?E + 1)"
    have "m \<le> sz - free + ?E"
      using inv next_multiple(2) unfolding m_def by blast
    then have m: "m < 2 ^ 63"
      using assms(2) inv by simp
    have "(sz - free) div ?E < 2 ^ 62"
      by (rule le_less_trans [OF div_le_dividend less_imp_diff_less [OF assms(2)]])
    then have "sz_add (sz_sub sz free div ?E) 1 = (sz - free) div ?E + 1"
      using lt assms(2) by (simp add: sz_sub_small sz_add_small)
    moreover have "sz_mul ?E ((sz - free) div ?E + 1) = m"
      using m by (simp add: sz_mul_def m_def)
    moreover have "sz_add ?L m = ?L + m"
      using m inv by (simp add: sz_add_small)
    moreover note m_def
    ultimately show ?thesis
      using lt F by (simp add: reserve_new_size_def Let_def)
  qed
  show "readableBytes b + sz < reserve_new_size b sz \<and>
        reserve_new_size b sz \<le> readableBytes b + sz + ?E"
    if ge: "sz \<le> free" and far: "?E \<le> free - sz"
  proof -
    define k where "k = free - sz"
    define m where "m = ?E * ((2 ^ 64 - k) div ?E + 1)"
    have k: "0 < k" "k < 2 ^ 63" "?E \<le> k"
      using ge far inv free_le by (auto simp: k_def)
    have m: "2 ^ 64 - k < m" "m \<le> 2 ^ 64 - k + ?E"
      using inv next_multiple [of ?E "2 ^ 64 - k"] by (auto simp: m_def)
    have "sz_sub sz free = 2 ^ 64 - k"
      using ge k inv free_le by (simp add: k_def sz_sub_wraps)
    then have "reserve_new_size b sz =
        sz_add ?L (sz_mul ?E (sz_add ((2 ^ 64 - k) div ?E) 1))"
      using far F by (simp add: reserve_new_size_def Let_def)
    also have "\<dots> = (?L + m mod 2 ^ 64) mod 2 ^ 64"
      unfolding sz_add_def sz_mul_def m_def by (simp only: mod_simps)
    also have "\<dots> = (?L + m) mod 2 ^ 64" by (simp add: mod_simps)
    also have "\<dots> = ?L + m - 2 ^ 64"
    proof -
      have "2 ^ 64 \<le> ?L + m" "?L + m - 2 ^ 64 < 2 ^ 64"
        using m k inv free_le by (auto simp: k_def)
      then show ?thesis by (simp add: le_mod_geq)
    qed
    finally have "reserve_new_size b sz = ?L + m - 2 ^ 64" .
    moreover have "?L = readableBytes b + free"
      using inv by (auto simp: free_def readableBytes_def writableBytes_def)
    ultimately show ?thesis
      using m k ge by (auto simp: k_def)
  qed
qed

text \<open>Growing keeps the content and the invariant and makes the room asked for.\<close>

lemma reserve_new_size_bounds:
  assumes "db_inv b" and "sz < 2 ^ 62" and "writableBytes b < sz"
  shows "readableBytes b + sz \<le> reserve_new_size b sz"
    and "reserve_new_size b sz \<le> readableBytes b + sz + 2 * db_expand_size b"
proof -
  let ?free = "db_read_index b + writableBytes b" and ?E = "db_expand_size b"
  have L: "length (db_buffer b) = readableBytes b + ?free" and E: "0 < ?E"
    using assms(1) by (auto simp: db_inv_def readableBytes_def writableBytes_def)
  note cases = reserve_new_size_cases [OF assms(1,2)]
  consider "sz \<le> ?free" "?free - sz < ?E" | "?free < sz" | "sz \<le> ?free" "?E \<le> ?free - sz"
    by linarith
  then have "readableBytes b + sz \<le> reserve_new_size b sz \<and>
      reserve_new_size b sz \<le> readableBytes b + sz + 2 * ?E"
  proof cases
    case 1
    then show ?thesis using cases(1) L by simp
  next
    case 2
    then show ?thesis
      using cases(2) L next_multiple [OF E, of "sz - ?free"] by linarith
  next
    case 3
    then show ?thesis using cases(3) by simp
  qed
  then show "readableBytes b + sz \<le> reserve_new_size b sz"
    and "reserve_new_size b sz \<le> readableBytes b + sz + 2 * ?E" by simp_all
qed

lemma reserve_content [content_simps]:
  assumes "db_inv b" and "sz < 2 ^ 62"
  shows "db_content (reserveWritableBytes b sz) = db_content b"
  using reserve_new_size_bounds [OF assms] assms(1)
  by (auto simp: reserveWritableBytes_def Let_def db_content_def readableBytes_def readBegin_def
        db_inv_def min_def)

lemma reserve_writable:
  assumes "db_inv b" and "sz < 2 ^ 62"
  shows "sz \<le> writableBytes (reserveWritableBytes b sz)"
proof (cases "sz \<le> writableBytes b")
  case True
  then show ?thesis by (simp add: reserveWritableBytes_def)
next
  case False
  then have "readableBytes b + sz \<le> reserve_new_size b sz"
    using reserve_new_size_bounds(1) [OF assms] by simp
  with False show ?thesis
    using length_db_content [OF assms(1)]
    by (simp add: reserveWritableBytes_def Let_def writableBytes_def db_content_def)
qed

lemma reserve_inv [inv_intros]:
  assumes "db_inv b" and "readableBytes b + sz < db_limit"
  shows "db_inv (reserveWritableBytes b sz)"
proof (cases "sz \<le> writableBytes b")
  case True
  then show ?thesis using assms(1) by (simp add: reserveWritableBytes_def)
next
  case False
  have "sz < 2 ^ 62" using assms(2) by (simp add: db_limit_def)
  note bounds = reserve_new_size_bounds [OF assms(1) this]
  have E: "db_expand_size b \<le> 2 ^ 60" "0 < db_expand_size b"
    using assms(1) by (auto simp: db_inv_def)
  have "reserve_new_size b sz < 2 ^ 63"
    using bounds(2) False E assms(2) by (simp add: db_limit_def)
  then show ?thesis
    using bounds(1) False E length_db_content [OF assms(1)]
    by (simp add: reserveWritableBytes_def Let_def db_inv_def db_content_def)
qed

text \<open>Copying into reserved room and committing it appends.\<close>

lemma take_write_index:
  "db_inv b \<Longrightarrow>
     take (db_write_index b) (db_buffer b) = take (db_read_index b) (db_buffer b) @ db_content b"
  by (simp add: db_content_def readableBytes_def readBegin_def db_inv_def flip: take_add)

lemma store_write_content:
  assumes inv: "db_inv b" and fits: "length xs \<le> writableBytes b"
  shows "db_content (db_write (db_store b xs) (length xs)) = db_content b @ xs"
    and "db_inv (db_write (db_store b xs) (length xs))"
proof -
  let ?b = "db_write (db_store b xs) (length xs)"
  have idx: "db_read_index b \<le> length (db_buffer b)" "db_read_index b \<le> db_write_index b"
    "db_write_index b + length xs \<le> length (db_buffer b)"
    using inv fits by (auto simp: db_inv_def writableBytes_def)
  have buf: "db_buffer ?b = take (db_read_index b) (db_buffer b) @ db_content b @ xs @
      drop (db_write_index b + length xs) (db_buffer b)"
    by (simp add: db_write_def db_store_def writeBegin_def take_write_index [OF inv])
  have len: "length (db_buffer ?b) = length (db_buffer b)"
    using idx length_db_content [OF inv] by (simp add: buf readableBytes_def)
  then have w: "db_write_index ?b = db_write_index b + length xs"
    using idx by (simp add: db_write_def db_store_def writableBytes_def)
  have r: "db_read_index ?b = db_read_index b" "db_expand_size ?b = db_expand_size b"
    by (simp_all add: db_write_def db_store_def)
  show "db_inv ?b"
    using inv idx by (simp add: db_inv_def len w r)
  have "readableBytes ?b = length (db_content b @ xs)"
    using length_db_content [OF inv] idx by (simp add: readableBytes_def w r)
  then show "db_content ?b = db_content b @ xs"
    using idx by (simp add: db_content_def [of ?b] buf r readBegin_def)
qed

lemma append_content [content_simps]:
  assumes "db_inv b" and "length (db_content b) + length xs < db_limit"
  shows "db_content (db_append b xs) = db_content b @ xs"
proof -
  have fits: "readableBytes b + length xs < db_limit" "length xs < 2 ^ 62"
    using assms by (simp_all add: db_limit_def)
  show ?thesis
    unfolding db_append_def
    using store_write_content(1) [OF reserve_inv reserve_writable] assms(1) fits
    by (simp add: content_simps)
qed

lemma append_inv [inv_intros]:
  assumes "db_inv b" and "length (db_content b) + length xs < db_limit"
  shows "db_inv (db_append b xs)"
proof -
  have fits: "readableBytes b + length xs < db_limit" "length xs < 2 ^ 62"
    using assms by (simp_all add: db_limit_def)
  show ?thesis
    unfolding db_append_def
    using store_write_content(2) [OF reserve_inv reserve_writable] assms(1) fits by simp
qed

lemma clear_content [content_simps, simp]: "db_content (db_clear b) = []"
  by (simp add: db_content_def db_clear_def readableBytes_def)

lemma clear_inv [inv_intros]: "db_inv b \<Longrightarrow> db_inv (db_clear b)"
  by (simp add: db_inv_def db_clear_def)

lemma read_content [content_simps]:
  "db_inv b \<Longrightarrow> db_content (db_read b n) = drop n (db_content b)"
  by (auto simp: db_read_def db_clear_def db_content_def readableBytes_def readBegin_def Let_def
        min_def db_inv_def drop_take add.commute)

lemma read_inv [inv_intros]: "db_inv b \<Longrightarrow> db_inv (db_read b n)"
  by (auto simp: db_read_def db_clear_def readableBytes_def Let_def min_def db_inv_def)

lemma swap_content [content_simps]:
  "db_content (fst (db_swap a b)) = db_content b" "db_content (snd (db_swap a b)) = db_content a"
  by (simp_all add: db_swap_def db_content_def readableBytes_def readBegin_def)

lemma swap_inv [inv_intros]:
  "db_inv a \<Longrightarrow> db_inv b \<Longrightarrow> db_inv (fst (db_swap a b)) \<and> db_inv (snd (db_swap a b))"
  by (simp add: db_swap_def db_inv_def)

lemma DynamicBuffer_content [content_simps, simp]: "db_content (DynamicBuffer i e) = []"
  by (simp add: DynamicBuffer_def db_content_def readableBytes_def)

lemma DynamicBuffer_inv [inv_intros]:
  "i < 2 ^ 63 \<Longrightarrow> 0 < e \<Longrightarrow> e \<le> 2 ^ 60 \<Longrightarrow> db_inv (DynamicBuffer i e)"
  by (simp add: DynamicBuffer_def db_inv_def)

section \<open>Integers against the content\<close>

lemma db_at_content:
  "db_inv b \<Longrightarrow> i < readableBytes b \<Longrightarrow> db_at b (readBegin b + i) = db_content b ! i"
  by (auto simp: db_at_def db_content_def db_inv_def readBegin_def readableBytes_def)

lemma writeInt_append:
  "writeInt8 b v8 = db_append b [v8]"
  "writeInt16 b v16 = db_append b (be16 v16)"
  "writeInt32 b v32 = db_append b (be32 v32)"
  "writeInt64 b v64 = db_append b (be64 v64)"
  by (simp_all add: writeInt8_def writeInt16_def writeInt32_def writeInt64_def db_append_def
        be16_def be32_def be64_def eval_nat_numeral)

lemma chunk_in_range:
  "take n (drop off xs) = ys \<Longrightarrow> length ys = n \<Longrightarrow> 0 < n \<Longrightarrow> off + n \<le> length xs"
  by (drule arg_cong [of _ _ length]) (simp add: min_def split: if_splits)

lemma db_at_chunk:
  assumes "db_inv b" and "take n (drop off (db_content b)) = ys" and "length ys = n" and "i < n"
  shows "db_at b (readBegin b + (off + i)) = ys ! i"
proof -
  have "off + n \<le> length (db_content b)"
    using chunk_in_range [OF assms(2,3)] assms(4) by simp
  then show ?thesis
    using db_at_content [OF assms(1), of "off + i"] assms by auto
qed

text \<open>A \<open>peek\<close> at an offset that does not wrap returns the big-endian integer that the content
  holds there, and fails exactly when the content is too short.\<close>

lemma peek_too_short:
  assumes "db_inv b" and "off < 2 ^ 63"
  shows "peekInt8 b off = None \<longleftrightarrow> length (db_content b) < off + 1"
    and "peekInt16 b off = None \<longleftrightarrow> length (db_content b) < off + 2"
    and "peekInt32 b off = None \<longleftrightarrow> length (db_content b) < off + 4"
    and "peekInt64 b off = None \<longleftrightarrow> length (db_content b) < off + 8"
  using assms
  by (simp_all add: peekInt8_def peekInt16_def peekInt32_def peekInt64_def sz_add_small Let_def)

lemma peekInt8_content:
  "db_inv b \<Longrightarrow> off < 2 ^ 63 \<Longrightarrow> off < length (db_content b) \<Longrightarrow>
     peekInt8 b off = Some (db_content b ! off)"
  by (simp add: peekInt8_def sz_add_small db_at_content Let_def)

lemma peekInt16_content:
  assumes "db_inv b" and "off < 2 ^ 63" and v: "take 2 (drop off (db_content b)) = be16 v"
  shows "peekInt16 b off = Some v"
proof -
  have at: "db_at b (readBegin b + (off + i)) = be16 v ! i" if "i < 2" for i
    using db_at_chunk [OF assms(1) v] that by simp
  have "\<not> length (db_content b) < off + 2"
    using chunk_in_range [OF v] by simp
  then show ?thesis
    using at [of 0] at [of 1] be16_join [of v] assms
    by (simp add: peekInt16_def be16_def sz_add_small add.assoc)
qed

lemma peekInt32_content:
  assumes "db_inv b" and "off < 2 ^ 63" and v: "take 4 (drop off (db_content b)) = be32 v"
  shows "peekInt32 b off = Some v"
proof -
  have at: "db_at b (readBegin b + (off + i)) = be32 v ! i" if "i < 4" for i
    using db_at_chunk [OF assms(1) v] that by simp
  have "\<not> length (db_content b) < off + 4"
    using chunk_in_range [OF v] by simp
  then show ?thesis
    using at [of 0] at [of 1] at [of 2] at [of 3] be32_join [of v] assms
    by (simp add: peekInt32_def be32_def sz_add_small add.assoc)
qed

lemma peekInt64_content:
  assumes "db_inv b" and "off < 2 ^ 63" and v: "take 8 (drop off (db_content b)) = be64 v"
  shows "peekInt64 b off = Some v"
proof -
  have at: "db_at b (readBegin b + (off + i)) = be64 v ! i" if "i < 8" for i
    using db_at_chunk [OF assms(1) v] that by simp
  have "\<not> length (db_content b) < off + 8"
    using chunk_in_range [OF v] by simp
  then show ?thesis
    using at [of 0] at [of 1] at [of 2] at [of 3] at [of 4] at [of 5] at [of 6] at [of 7]
      be64_join [of v] assms
    by (simp add: peekInt64_def be64_def sz_add_small add.assoc)
qed

section \<open>The buffer as a byte queue\<close>

text \<open>What the clients rely on: appending adds at the end, skipping drops from the front.\<close>

locale byte_fifo =
  fixes inv :: "'b \<Rightarrow> bool"
    and content :: "'b \<Rightarrow> bytes"
    and put :: "'b \<Rightarrow> bytes \<Rightarrow> 'b"
    and skip :: "'b \<Rightarrow> nat \<Rightarrow> 'b"
    and limit :: nat
  assumes content_put:
      "inv b \<Longrightarrow> length (content b) + length xs < limit \<Longrightarrow> content (put b xs) = content b @ xs"
    and inv_put: "inv b \<Longrightarrow> length (content b) + length xs < limit \<Longrightarrow> inv (put b xs)"
    and content_skip: "inv b \<Longrightarrow> content (skip b n) = drop n (content b)"
    and inv_skip: "inv b \<Longrightarrow> inv (skip b n)"

datatype fifo_op = Put bytes | Skip nat

fun fifo_run :: "('b \<Rightarrow> bytes \<Rightarrow> 'b) \<Rightarrow> ('b \<Rightarrow> nat \<Rightarrow> 'b) \<Rightarrow> fifo_op list \<Rightarrow> 'b \<Rightarrow> 'b" where
  "fifo_run put skip [] b = b"
| "fifo_run put skip (Put xs # ops) b = fifo_run put skip ops (put b xs)"
| "fifo_run put skip (Skip n # ops) b = fifo_run put skip ops (skip b n)"

text \<open>The specification: the same operations on the list of unread bytes.\<close>

abbreviation fifo_spec :: "fifo_op list \<Rightarrow> bytes \<Rightarrow> bytes" where
  "fifo_spec \<equiv> fifo_run (@) (\<lambda>xs n. drop n xs)"

fun fifo_bytes :: "fifo_op list \<Rightarrow> nat" where
  "fifo_bytes [] = 0"
| "fifo_bytes (Put xs # ops) = length xs + fifo_bytes ops"
| "fifo_bytes (Skip n # ops) = fifo_bytes ops"

context byte_fifo
begin

lemma run_refines:
  assumes "inv b" and "length (content b) + fifo_bytes ops < limit"
  shows "inv (fifo_run put skip ops b) \<and>
    content (fifo_run put skip ops b) = fifo_spec ops (content b)"
  using assms
proof (induction ops arbitrary: b)
  case Nil
  then show ?case by simp
next
  case (Cons op ops)
  show ?case
  proof (cases op)
    case (Put xs)
    with Cons.prems have "inv (put b xs)" "content (put b xs) = content b @ xs"
      by (simp_all add: content_put inv_put)
    with Cons.IH [of "put b xs"] Cons.prems Put show ?thesis by simp
  next
    case (Skip n)
    from Cons.prems have "inv (skip b n)" "content (skip b n) = drop n (content b)"
      by (simp_all add: content_skip inv_skip)
    with Cons.IH [of "skip b n"] Cons.prems Skip show ?thesis by simp
  qed
qed

text \<open>A message written to an empty queue is what the reader finds, whatever was queued and
  consumed before.\<close>

lemma put_skip_all:
  assumes "inv b" and "length (content b) + length xs < limit"
  shows "content (skip (put b xs) (length (content b))) = xs"
  using assms by (simp add: content_put content_skip inv_put)

end

interpretation db: byte_fifo db_inv db_content db_append db_read db_limit
  by unfold_locales (simp_all add: content_simps inv_intros)

section \<open>Properties\<close>

lemma readInt8_content:
  assumes "db_inv b" and "db_content b = v # rest"
  shows "readInt8 b = Some (v, db_read b 1)" and "db_content (db_read b 1) = rest"
  using assms
  by (simp_all add: readInt8_def peekInt8_wide_def peekInt8_content content_simps)

lemma readInt16_content:
  assumes "db_inv b" and "db_content b = be16 v @ rest"
  shows "readInt16 b = Some (v, db_read b 2)" and "db_content (db_read b 2) = rest"
  using assms peekInt16_content [of b 0 v]
  by (simp_all add: readInt16_def peekInt16_wide_def content_simps)

lemma readInt32_content:
  assumes "db_inv b" and "db_content b = be32 v @ rest"
  shows "readInt32 b = Some (v, db_read b 4)" and "db_content (db_read b 4) = rest"
  using assms peekInt32_content [of b 0 v]
  by (simp_all add: readInt32_def peekInt32_wide_def content_simps)

lemma readInt64_content:
  assumes "db_inv b" and "db_content b = be64 v @ rest"
  shows "readInt64 b = Some (v, db_read b 8)" and "db_content (db_read b 8) = rest"
  using assms peekInt64_content [of b 0 v]
  by (simp_all add: readInt64_def content_simps)

lemma fresh_inv [inv_intros]: "db_inv (DynamicBuffer 1024 1024)"
  by (simp add: inv_intros)

text \<open>C13. Any sequence of appends (reserve, copy, \<open>write\<close>) and \<open>read\<close>s on a buffer, whatever
  reallocations, compactions and index resets they cause, leaves exactly the bytes that the same
  sequence leaves on a plain list, and keeps the class invariant, as long as less than 2^62 bytes
  are ever put in.\<close>

theorem buffer_is_byte_queue:
  assumes "db_inv b" and "length (db_content b) + fifo_bytes ops < db_limit"
  shows "db_inv (fifo_run db_append db_read ops b) \<and>
    db_content (fifo_run db_append db_read ops b) = fifo_spec ops (db_content b)"
  by (rule db.run_refines [OF assms])

theorem buffer_is_byte_queue_witness:
  "db_content (fifo_run db_append db_read [Put [1, 2, 3], Skip 1, Put [4]] (DynamicBuffer 2 1))
     = [2, 3, 4]"
  using buffer_is_byte_queue [of "DynamicBuffer 2 1" "[Put [1, 2, 3], Skip 1, Put [4]]"]
  by (simp add: inv_intros db_limit_def)

text \<open>C14. \<open>reserveWritableBytes\<close> never divides by zero under the class invariant, loses no
  unread byte, leaves at least the requested number of writable bytes, and keeps the vector
  within the unread bytes, the request and two expansion steps when it reallocates, also where
  \<open>size - free_bytes\<close> wraps around.\<close>

theorem reserve_makes_room:
  assumes "db_inv b" and "sz < 2 ^ 62"
  shows "\<not> reserve_traps b sz \<and>
    db_content (reserveWritableBytes b sz) = db_content b \<and>
    sz \<le> writableBytes (reserveWritableBytes b sz) \<and>
    (writableBytes b < sz \<longrightarrow>
      capacity (reserveWritableBytes b sz) \<le> readableBytes b + sz + 2 * db_expand_size b)"
proof -
  have "capacity (reserveWritableBytes b sz) \<le> readableBytes b + sz + 2 * db_expand_size b"
    if "writableBytes b < sz"
    using that reserve_new_size_bounds [OF assms that] length_db_content [OF assms(1)]
    by (simp add: capacity_def reserveWritableBytes_def Let_def db_content_def)
  then show ?thesis
    using assms by (simp add: reserve_content reserve_writable)
qed

text \<open>The witness compacts a buffer of 5 bytes with 4 discardable ones: the size computation wraps
  and the vector shrinks.\<close>

definition holey_buffer :: dynamic_buffer where
  "holey_buffer = \<lparr>db_buffer = [1, 2, 3, 4, 5], db_expand_size = 1, db_read_index = 4,
                   db_write_index = 5\<rparr>"

theorem reserve_makes_room_witness:
  "capacity (reserveWritableBytes holey_buffer 2) = 4 \<and>
   db_content (reserveWritableBytes holey_buffer 2) = [5] \<and>
   2 \<le> writableBytes (reserveWritableBytes holey_buffer 2)"
proof -
  have "db_inv holey_buffer" by (simp add: db_inv_def holey_buffer_def)
  note holds = reserve_makes_room [OF this, of 2]
  have "reserve_new_size holey_buffer 2 = 4"
    by (simp add: holey_buffer_def reserve_new_size_def discardableBytes_def writableBytes_def
        sz_add_def sz_sub_def sz_mul_def)
  then have "capacity (reserveWritableBytes holey_buffer 2) = 4"
    by (simp add: reserveWritableBytes_def capacity_def writableBytes_def readableBytes_def
        readBegin_def holey_buffer_def)
  moreover have "db_content holey_buffer = [5]"
    by (simp add: holey_buffer_def db_content_def readableBytes_def readBegin_def)
  ultimately show ?thesis using holds by simp
qed

text \<open>C15. Integers of all four widths written one after the other to an empty buffer are read
  back, in the same order and with the same values, and nothing is left over.\<close>

theorem int_stream_roundtrip:
  assumes "db_inv b" and "db_content b = []"
  shows "\<exists>b1 b2 b3 b4.
    readInt8 (writeInt64 (writeInt32 (writeInt16 (writeInt8 b v8) v16) v32) v64)
      = Some (v8, b1) \<and>
    readInt16 b1 = Some (v16, b2) \<and> readInt32 b2 = Some (v32, b3) \<and>
    readInt64 b3 = Some (v64, b4) \<and> db_content b4 = [] \<and> db_inv b4"
proof -
  let ?ops = "[Put [v8], Put (be16 v16), Put (be32 v32), Put (be64 v64)]"
  define w where "w = writeInt64 (writeInt32 (writeInt16 (writeInt8 b v8) v16) v32) v64"
  have "w = fifo_run db_append db_read ?ops b"
    by (simp add: w_def writeInt_append)
  then have w: "db_inv w" "db_content w = v8 # be16 v16 @ be32 v32 @ be64 v64"
    using db.run_refines [of b ?ops] assms by (simp_all add: db_limit_def)
  let ?b1 = "db_read w 1" let ?b2 = "db_read ?b1 2" let ?b3 = "db_read ?b2 4"
  note r8 = readInt8_content [OF w]
  note i1 = db.inv_skip [OF w(1), of 1]
  note r16 = readInt16_content [OF i1 r8(2)]
  note i2 = db.inv_skip [OF i1, of 2]
  note r32 = readInt32_content [OF i2 r16(2)]
  note i3 = db.inv_skip [OF i2, of 4]
  note r64 = readInt64_content [OF i3, of v64 "[]"]
  show ?thesis
    unfolding w_def [symmetric]
    using r8 r16 r32 r64 db.inv_skip [OF i3, of 8] by simp
qed

theorem int_stream_roundtrip_witness:
  "\<exists>b1 b2 b3 b4.
    readInt8 (writeInt64 (writeInt32 (writeInt16 (writeInt8 (DynamicBuffer 4 2) 200) 513) 65537)
      18446744073709551615) = Some (200 :: byte, b1) \<and>
    readInt16 b1 = Some (513 :: u16, b2) \<and> readInt32 b2 = Some (65537 :: u32, b3) \<and>
    readInt64 b3 = Some (18446744073709551615, b4) \<and> db_content b4 = [] \<and> db_inv b4"
  by (rule int_stream_roundtrip) (simp_all add: inv_intros)

end
