(* ===== verification/DecimalText.thy ===== *)
theory DecimalText
  imports StringUtil
begin

text \<open>
  Decimal numbers in text: the character classes of the C library and the value of a run of digits,
  which \<open>atoi\<close> and \<open>inet_pton\<close> share, and that the digits \<open>toString\<close> writes have the value written.
\<close>

definition c_isspace :: "byte \<Rightarrow> bool" where
  "c_isspace c \<longleftrightarrow> c = 32 \<or> 9 \<le> c \<and> c \<le> 13"

definition c_isdigit :: "byte \<Rightarrow> bool" where
  "c_isdigit c \<longleftrightarrow> 48 \<le> c \<and> c \<le> 57"

definition dec_value :: "bytes \<Rightarrow> int" where
  "dec_value ds = foldl (\<lambda>n c. 10 * n + (uint c - 48)) 0 ds"

lemma foldl_dec: "foldl (\<lambda>n c. 10 * n + (uint c - 48)) a (xs @ [c]) =
    10 * foldl (\<lambda>n c. 10 * n + (uint c - 48)) a xs + (uint c - (48 :: int))" for c :: byte
  by simp

lemma dec_value_decimal: "dec_value (decimal n) = int n"
proof (induction n rule: decimal.induct)
  case (1 n)
  have digit: "uint (of_nat (48 + d) :: byte) = 48 + int d" if "d < 10" for d
  proof -
    have "list_all (\<lambda>d. uint (of_nat (48 + d) :: byte) = 48 + int d) [0..<10]" by code_simp
    then show ?thesis using that by (simp add: list_all_iff)
  qed
  show ?case
  proof (cases "n < 10")
    case True
    then show ?thesis using digit by (subst decimal.simps) (simp add: dec_value_def)
  next
    case False
    then have "dec_value (decimal n) = 10 * dec_value (decimal (n div 10)) + int (n mod 10)"
      using digit [of "n mod 10"] by (subst decimal.simps) (simp add: dec_value_def)
    then show ?thesis using 1 False by (simp add: zdiv_int zmod_int)
  qed
qed

lemma decimal_isdigit: "c \<in> set (decimal n) \<Longrightarrow> c_isdigit c"
proof -
  assume "c \<in> set (decimal n)"
  then obtain d where d: "d < 10" "c = of_nat (48 + d)" using decimal_digits by blast
  have "list_all (\<lambda>d. c_isdigit (of_nat (48 + d))) [0..<10]" by code_simp
  then show ?thesis using d by (simp add: list_all_iff)
qed

lemma decimal_nonempty: "decimal n \<noteq> []"
  by (subst decimal.simps) simp

text \<open>Without a leading zero the digits are those that are written for the value.\<close>

definition canonical :: "bytes \<Rightarrow> bool" where
  "canonical f \<longleftrightarrow> f \<noteq> [] \<and> list_all c_isdigit f \<and> (hd f = 48 \<longrightarrow> f = [48])"

lemma digit_of_value: "c_isdigit c \<Longrightarrow> of_nat (48 + nat (uint c - 48)) = c"
  "c_isdigit c \<Longrightarrow> 0 \<le> uint c - 48 \<and> uint c - 48 < 10"
  by (simp_all add: c_isdigit_def word_le_def)

lemma dec_value_pos: "list_all c_isdigit f \<Longrightarrow> 0 \<le> dec_value f \<and> (f \<noteq> [] \<longrightarrow> hd f \<noteq> 48 \<longrightarrow> 0 < dec_value f)"
proof (induction f rule: rev_induct)
  case (snoc c f)
  have "0 \<le> uint c - 48" "c \<noteq> 48 \<Longrightarrow> 0 < uint c - 48"
    using snoc.prems by (auto simp: c_isdigit_def word_le_def word_uint_eq_iff)
  then show ?case using snoc by (cases f) (auto simp: dec_value_def foldl_dec)
qed (simp add: dec_value_def)

lemma decimal_dec_value: "canonical f \<Longrightarrow> decimal (nat (dec_value f)) = f"
proof (induction f rule: rev_induct)
  case (snoc c f)
  have c: "of_nat (48 + nat (uint c - 48)) = c" "0 \<le> uint c - 48" "uint c - 48 < 10"
    using digit_of_value [of c] snoc.prems by (auto simp: canonical_def)
  show ?case
  proof (cases "f = []")
    case True
    have "nat (uint c - 48) < 10" using c by linarith
    then show ?thesis using True c(1) by (subst decimal.simps) (simp add: dec_value_def)
  next
    case False
    then have f: "canonical f" "0 < dec_value f"
      using snoc.prems dec_value_pos [of f] by (auto simp: canonical_def)
    define a d where "a = nat (dec_value f)" and "d = nat (uint c - 48)"
    have value_split: "nat (dec_value (f @ [c])) = 10 * a + d" "0 < a" "d < 10"
      using f(2) c(2,3) by (auto simp: dec_value_def foldl_dec a_def d_def nat_add_distrib nat_mult_distrib)
    then have "decimal (nat (dec_value (f @ [c]))) = decimal a @ [of_nat (48 + d)]"
      unfolding value_split(1) by (subst decimal.simps) simp
    then show ?thesis using snoc.IH [OF f(1)] c(1) by (simp add: a_def d_def)
  qed
qed (simp add: canonical_def)

lemma canonical_decimal: "canonical (decimal n)"
proof (induction n rule: decimal.induct)
  case (1 n)
  have "c_isdigit c" if "c \<in> set (decimal n)" for c using decimal_isdigit that by blast
  then have digits: "list_all c_isdigit (decimal n)" by (simp add: list_all_iff)
  have "hd (decimal n) = 48 \<longrightarrow> decimal n = [48]"
  proof (cases "n < 10")
    case True
    then show ?thesis by (simp add: decimal.simps [of n])
  next
    case False
    then have split_off: "decimal n = decimal (n div 10) @ [of_nat (48 + n mod 10)]" by (simp add: decimal.simps [of n])
    have "hd (decimal (n div 10)) \<noteq> 48"
    proof
      assume "hd (decimal (n div 10)) = 48"
      then have "decimal (n div 10) = [48]" using 1 False by (simp add: canonical_def)
      then have "n div 10 = 0" using dec_value_decimal [of "n div 10"] by (simp add: dec_value_def)
      then show False using False by simp
    qed
    then show ?thesis using split_off decimal_nonempty [of "n div 10"] by simp
  qed
  then show ?case using digits decimal_nonempty by (simp add: canonical_def)
qed

end
