(* ===== verification/HttpProtocol.thy ===== *)
theory HttpProtocol
  imports HttpMessage StatusMachine DynamicBuffer DecimalText
begin

text \<open>
  \<open>src/src/brickred/protocol/http_protocol.cc\<close>: the incremental parser of HTTP messages and the
  writer. The parser reads its \<open>DynamicBuffer\<close> only through the readable bytes and \<open>read\<close>, so it is
  modelled on the content of the buffer (a queue of bytes, as shown for \<open>DynamicBuffer\<close>); the bytes
  that lie behind the readable ones in memory, which one comparison can reach, are the parameter
  \<open>slack\<close>. The writer is modelled on the \<open>DynamicBuffer\<close> itself.
\<close>

section \<open>Numbers in text\<close>

text \<open>An optional sign after white space.\<close>

definition split_sign :: "bytes \<Rightarrow> bool \<times> bytes" where
  "split_sign s = (case dropWhile c_isspace s of
     [] \<Rightarrow> (False, [])
   | c # cs \<Rightarrow> if c = of_char (CHR ''-'') then (True, cs)
              else if c = of_char (CHR ''+'') then (False, cs) else (False, c # cs))"

text \<open>\<open>atoi\<close>: \<open>strtol\<close> clamps to \<open>long\<close>, the result is cut to \<open>int\<close>.\<close>

definition c_atoi :: "bytes \<Rightarrow> int" where
  "c_atoi s =
     (let (neg, t) = split_sign s;
          v = dec_value (takeWhile c_isdigit t);
          l = (if neg then max (- (2 ^ 63)) (- v) else min (2 ^ 63 - 1) v)
      in signed_take_bit 31 l)"

definition hex_value_of :: "byte \<Rightarrow> int" where
  "hex_value_of c =
     (if c_isdigit c then uint c - 48
      else if 97 \<le> c_tolower c \<and> c_tolower c \<le> 102 then uint (c_tolower c) - 87 else -1)"

text \<open>\<open>sscanf\<close> with \<open>"%x"\<close>: white space, a sign, a prefix \<open>0x\<close>, hexadecimal digits; converted like
  \<open>strtoul\<close>, which gives \<open>ULONG_MAX\<close> for a number too large whatever its sign, and stored as 32 bits.\<close>

definition scan_hex :: "bytes \<Rightarrow> nat option" where
  "scan_hex s =
     (let (neg, t) = split_sign s;
          prefixed = (map c_tolower (take 2 t) = str ''0x'');
          digits = takeWhile (\<lambda>c. hex_value_of c \<ge> 0) (if prefixed then drop 2 t else t);
          v = foldl (\<lambda>n c. 16 * n + hex_value_of c) 0 digits
      in if digits = [] \<and> \<not> prefixed then None
         else Some (nat ((if v \<ge> 2 ^ 64 then 2 ^ 64 - 1 else if neg then - v else v) mod 2 ^ 32)))"

section \<open>The state\<close>

datatype any_message = Request http_request | Response http_response

datatype http_status = READING_START_LINE | READING_HEADER | READING_BODY | FINISHED | PENDING_ERROR

record http_protocol =
  hp_status :: http_status
  hp_message :: "any_message option"
  hp_chunk_buffer :: "bytes option"

definition HttpProtocol :: http_protocol where
  "HttpProtocol = \<lparr>hp_status = READING_START_LINE, hp_message = None, hp_chunk_buffer = None\<rparr>"

definition http_reset :: "http_protocol \<Rightarrow> http_protocol" where
  "http_reset hp = hp\<lparr>hp_message := None, hp_chunk_buffer := None, hp_status := READING_START_LINE\<rparr>"

text \<open>The virtual calls on \<open>message_\<close>.\<close>

definition msg_getHeader :: "any_message \<Rightarrow> bytes \<Rightarrow> bytes" where
  "msg_getHeader m key = (case m of Request r \<Rightarrow> getHeader r key | Response r \<Rightarrow> getHeader r key)"

definition msg_headerContain :: "any_message \<Rightarrow> bytes \<Rightarrow> bytes \<Rightarrow> bool" where
  "msg_headerContain m key val =
     (case m of Request r \<Rightarrow> headerContain r key val | Response r \<Rightarrow> headerContain r key val)"

definition msg_setHeader :: "bytes \<Rightarrow> bytes \<Rightarrow> any_message \<Rightarrow> any_message" where
  "msg_setHeader key val m =
     (case m of Request r \<Rightarrow> Request (setHeader key val r) | Response r \<Rightarrow> Response (setHeader key val r))"

definition msg_removeHeader :: "bytes \<Rightarrow> any_message \<Rightarrow> any_message" where
  "msg_removeHeader key m =
     (case m of Request r \<Rightarrow> Request (removeHeader key r) | Response r \<Rightarrow> Response (removeHeader key r))"

definition msg_setBody :: "bytes \<Rightarrow> any_message \<Rightarrow> any_message" where
  "msg_setBody body m =
     (case m of Request r \<Rightarrow> Request (setBody body r) | Response r \<Rightarrow> Response (setBody body r))"

definition update_message :: "(any_message \<Rightarrow> any_message) \<Rightarrow> http_protocol \<Rightarrow> http_protocol" where
  "update_message f hp = hp\<lparr>hp_message := map_option f (hp_message hp)\<rparr>"

definition the_message :: "http_protocol \<Rightarrow> any_message" where
  "the_message hp = the (hp_message hp)"

definition crlf :: bytes where
  "crlf = [13, 10]"

section \<open>Start line and headers\<close>

definition readStartLine :: "http_protocol \<Rightarrow> bytes \<Rightarrow> http_protocol \<times> bytes \<times> int" where
  "readStartLine hp buffer =
     (case find buffer crlf of
        None \<Rightarrow> (hp, buffer, 0)
      | Some line_length \<Rightarrow>
          let parts = split (take line_length buffer) (str '' '') [] 3
          in if length parts \<noteq> 3 then (hp, buffer, -1)
             else if take 4 (parts ! 0) = str ''HTTP'' then
               let version = VersionStrToEnum (parts ! 0);
                   status_code = c_atoi (parts ! 1)
               in if version = VERSION_UNKNOWN then (hp, buffer, -1)
                  else if status_code < 0 then (hp, buffer, -1)
                  else (hp\<lparr>hp_message := Some (Response (HttpResponse\<lparr>hm_version := version,
                              hp_status_code := status_code, hp_reason_phrase := parts ! 2\<rparr>)),
                           hp_status := READING_HEADER\<rparr>,
                        drop (line_length + 2) buffer, 1)
             else
               let meth = MethodStrToEnum (parts ! 0);
                   version = VersionStrToEnum (parts ! 2)
               in if meth = METHOD_UNKNOWN then (hp, buffer, -1)
                  else if version = VERSION_UNKNOWN then (hp, buffer, -1)
                  else (hp\<lparr>hp_message := Some (Request (HttpRequest\<lparr>hr_method := meth,
                              hr_request_uri := parts ! 1, hm_version := version\<rparr>)),
                           hp_status := READING_HEADER\<rparr>,
                        drop (line_length + 2) buffer, 1))"

text \<open>The loop over the header lines; the value is read as a C string. None where a line has no
  colon; the headers before it have been set then.\<close>

definition white_space :: bytes where
  "white_space = [32, 9]"

fun set_headers :: "bytes list \<Rightarrow> http_protocol \<Rightarrow> http_protocol \<times> bool" where
  "set_headers [] hp = (hp, True)"
| "set_headers (h # hs) hp =
     (case find h (str '':'') of
        None \<Rightarrow> (hp, False)
      | Some colon \<Rightarrow>
          set_headers hs (update_message (msg_setHeader (trim (take colon h) white_space)
            (trim (c_string (drop (colon + 1) h)) white_space)) hp))"

definition readHeader :: "http_protocol \<Rightarrow> bytes \<Rightarrow> http_protocol \<times> bytes \<times> int" where
  "readHeader hp buffer =
     (if length buffer < 2 then (hp, buffer, 0)
      else if take 2 buffer = crlf then (hp\<lparr>hp_status := FINISHED\<rparr>, drop 2 buffer, 1)
      else case find buffer (crlf @ crlf) of
             None \<Rightarrow> (hp, buffer, 0)
           | Some header_length \<Rightarrow>
               let headers = split (take header_length buffer) crlf [] (-1);
                   (hp', ok) = set_headers headers hp
               in if \<not> ok then (hp', buffer, -1)
                  else (hp'\<lparr>hp_status := READING_BODY\<rparr>, drop (header_length + 4) buffer, 1))"

section \<open>The body\<close>

text \<open>The loop over the chunks: the chunk buffer, the bytes left and what ended the loop (0 wait,
  -1 error, 1 last chunk).\<close>

function read_chunks :: "bytes \<Rightarrow> bytes \<Rightarrow> bytes \<Rightarrow> bytes \<times> bytes \<times> int" where
  "read_chunks slack chunk_buffer buffer =
     (case find buffer crlf of
        None \<Rightarrow> (chunk_buffer, buffer, 0)
      | Some head_size \<Rightarrow>
          (case scan_hex (take head_size buffer) of
             None \<Rightarrow> (chunk_buffer, buffer, -1)
           | Some chunk_size \<Rightarrow>
               let total_chunk_size = (if chunk_size = 0 then head_size + 2
                                       else head_size + 2 + chunk_size + 2)
               in if length buffer < total_chunk_size then (chunk_buffer, buffer, 0)
                  else if take 2 (drop (head_size + 2 + chunk_size) (buffer @ slack)) \<noteq> crlf
                  then (chunk_buffer, buffer, -1)
                  else let chunk_buffer' = chunk_buffer @ take chunk_size (drop (head_size + 2) buffer);
                           rest = drop total_chunk_size buffer
                       in if chunk_size = 0 then (chunk_buffer', rest, 1)
                          else read_chunks slack chunk_buffer' rest))"
  by pat_completeness auto
termination
proof (relation "measure (\<lambda>(slack, chunk, buffer). length buffer)", goal_cases)
  case (2 slack chunk buffer n s total chunk' rest)
  then show ?case by (auto split: if_splits)
qed simp

declare read_chunks.simps [simp del]

definition readBody :: "bytes \<Rightarrow> http_protocol \<Rightarrow> bytes \<Rightarrow> http_protocol \<times> bytes \<times> int" where
  "readBody slack hp buffer =
     (let content_length = c_atoi (msg_getHeader (the_message hp) (str ''Content-Length''))
      in if content_length > 0 then
           (if length buffer < nat content_length then (hp, buffer, 0)
            else ((update_message (msg_setBody (take (nat content_length) buffer)) hp)
                    \<lparr>hp_status := FINISHED\<rparr>,
                  drop (nat content_length) buffer, 1))
         else if msg_headerContain (the_message hp) (str ''Transfer-Encoding'') (str ''chunked'') then
           (let chunk0 = (case hp_chunk_buffer hp of None \<Rightarrow> [] | Some c \<Rightarrow> c);
                (chunk, rest, ret) = read_chunks slack chunk0 buffer;
                hp1 = hp\<lparr>hp_chunk_buffer := Some chunk\<rparr>
            in if ret \<noteq> 1 then (hp1, rest, ret)
               else ((update_message (msg_removeHeader (str ''Transfer-Encoding'') \<circ>
                        msg_setHeader (str ''Content-Length'') (toString (int (length chunk))) \<circ>
                        msg_setBody chunk) hp1)\<lparr>hp_status := READING_HEADER\<rparr>,
                     rest, 1))
         else (hp\<lparr>hp_status := FINISHED\<rparr>, buffer, 1))"

section \<open>Receiving\<close>

text \<open>The handler table: no handler for the last two.\<close>

definition http_dead :: "http_protocol \<Rightarrow> bool" where
  "http_dead hp \<longleftrightarrow> hp_status hp = FINISHED \<or> hp_status hp = PENDING_ERROR"

definition http_handle :: "bytes \<Rightarrow> http_protocol \<Rightarrow> bytes \<Rightarrow> http_protocol \<times> bytes \<times> int" where
  "http_handle slack hp buffer =
     (case hp_status hp of
        READING_START_LINE \<Rightarrow> readStartLine hp buffer
      | READING_HEADER \<Rightarrow> readHeader hp buffer
      | READING_BODY \<Rightarrow> readBody slack hp buffer
      | _ \<Rightarrow> (hp, buffer, -1))"

lemma find_bound: "find s k = Some n \<Longrightarrow> n + length k \<le> length s \<and> k \<noteq> []"
  using search_Some [of s k n] by (auto simp: find_def split: if_splits)

text \<open>The cases of a round of the chunk loop.\<close>

definition chunk_total :: "nat \<Rightarrow> nat \<Rightarrow> nat" where
  "chunk_total head_size chunk_size =
     (if chunk_size = 0 then head_size + 2 else head_size + 2 + chunk_size + 2)"

lemma read_chunks_Some:
  assumes "find b crlf = Some n" and "scan_hex (take n b) = Some s"
  shows "read_chunks slack c b =
    (if length b < chunk_total n s then (c, b, 0)
     else if take 2 (drop (n + 2 + s) (b @ slack)) \<noteq> crlf then (c, b, -1)
     else if s = 0 then (c, drop (n + 2) b, 1)
     else read_chunks slack (c @ take s (drop (n + 2) b)) (drop (chunk_total n s) b))"
proof (cases "s = 0")
  case True
  then show ?thesis
    unfolding read_chunks.simps [of slack c b] assms option.case Let_def chunk_total_def by simp
next
  case False
  then show ?thesis
    unfolding read_chunks.simps [of slack c b] assms option.case Let_def chunk_total_def
    by (simp only: if_False refl)
qed

lemma read_chunks_cases:
  "find b crlf = None \<Longrightarrow> read_chunks slack c b = (c, b, 0)"
  "find b crlf = Some n \<Longrightarrow> scan_hex (take n b) = None \<Longrightarrow> read_chunks slack c b = (c, b, -1)"
  "find b crlf = Some n \<Longrightarrow> scan_hex (take n b) = Some s \<Longrightarrow> length b < chunk_total n s \<Longrightarrow>
    read_chunks slack c b = (c, b, 0)"
  "find b crlf = Some n \<Longrightarrow> scan_hex (take n b) = Some s \<Longrightarrow> chunk_total n s \<le> length b \<Longrightarrow>
    take 2 (drop (n + 2 + s) (b @ slack)) \<noteq> crlf \<Longrightarrow> read_chunks slack c b = (c, b, -1)"
  "find b crlf = Some n \<Longrightarrow> scan_hex (take n b) = Some 0 \<Longrightarrow>
    take 2 (drop (n + 2) (b @ slack)) = crlf \<Longrightarrow> read_chunks slack c b = (c, drop (n + 2) b, 1)"
  "find b crlf = Some n \<Longrightarrow> scan_hex (take n b) = Some s \<Longrightarrow> s \<noteq> 0 \<Longrightarrow> n + s + 4 \<le> length b \<Longrightarrow>
    take 2 (drop (n + 2 + s) (b @ slack)) = crlf \<Longrightarrow>
    read_chunks slack c b = read_chunks slack (c @ take s (drop (n + 2) b)) (drop (n + s + 4) b)"
proof -
  show "find b crlf = None \<Longrightarrow> read_chunks slack c b = (c, b, 0)"
    unfolding read_chunks.simps [of slack c b] by simp
  show "find b crlf = Some n \<Longrightarrow> scan_hex (take n b) = None \<Longrightarrow> read_chunks slack c b = (c, b, -1)"
    unfolding read_chunks.simps [of slack c b] by simp
  assume n: "find b crlf = Some n"
  have bound: "n + 2 \<le> length b" using find_bound [OF n] by (simp add: crlf_def)
  show "scan_hex (take n b) = Some s \<Longrightarrow> length b < chunk_total n s \<Longrightarrow> read_chunks slack c b = (c, b, 0)"
    by (simp only: read_chunks_Some [OF n] if_True)
  show "scan_hex (take n b) = Some s \<Longrightarrow> chunk_total n s \<le> length b \<Longrightarrow>
      take 2 (drop (n + 2 + s) (b @ slack)) \<noteq> crlf \<Longrightarrow> read_chunks slack c b = (c, b, -1)"
    by (simp only: read_chunks_Some [OF n] not_less [symmetric] if_False if_True not_False_eq_True)
  show "scan_hex (take n b) = Some 0 \<Longrightarrow>
      take 2 (drop (n + 2) (b @ slack)) = crlf \<Longrightarrow> read_chunks slack c b = (c, drop (n + 2) b, 1)"
    using bound read_chunks_Some [OF n, of 0] by (simp add: chunk_total_def)
  assume s: "scan_hex (take n b) = Some s" "s \<noteq> 0" "n + s + 4 \<le> length b"
  then have "chunk_total n s = n + s + 4" "\<not> length b < n + s + 4" by (simp_all add: chunk_total_def)
  then show "take 2 (drop (n + 2 + s) (b @ slack)) = crlf \<Longrightarrow>
      read_chunks slack c b = read_chunks slack (c @ take s (drop (n + 2) b)) (drop (n + s + 4) b)"
    using read_chunks_Some [OF n s(1)] s(2) by (simp only: if_False not_True_eq_False simp_thms)
qed

lemma read_chunks_induct [case_names wait bad_size short no_crlf last_chunk chunk]:
  assumes "\<And>c b. find b crlf = None \<Longrightarrow> P c b"
    and "\<And>c b n. find b crlf = Some n \<Longrightarrow> scan_hex (take n b) = None \<Longrightarrow> P c b"
    and "\<And>c b n s. find b crlf = Some n \<Longrightarrow> scan_hex (take n b) = Some s \<Longrightarrow>
      length b < chunk_total n s \<Longrightarrow> P c b"
    and "\<And>c b n s. find b crlf = Some n \<Longrightarrow> scan_hex (take n b) = Some s \<Longrightarrow>
      chunk_total n s \<le> length b \<Longrightarrow> take 2 (drop (n + 2 + s) (b @ slack)) \<noteq> crlf \<Longrightarrow> P c b"
    and "\<And>c b n. find b crlf = Some n \<Longrightarrow> scan_hex (take n b) = Some 0 \<Longrightarrow>
      take 2 (drop (n + 2) (b @ slack)) = crlf \<Longrightarrow> n + 2 \<le> length b \<Longrightarrow> P c b"
    and "\<And>c b n s. find b crlf = Some n \<Longrightarrow> scan_hex (take n b) = Some s \<Longrightarrow> s \<noteq> 0 \<Longrightarrow>
      n + s + 4 \<le> length b \<Longrightarrow> take 2 (drop (n + 2 + s) (b @ slack)) = crlf \<Longrightarrow>
      P (c @ take s (drop (n + 2) b)) (drop (n + s + 4) b) \<Longrightarrow> P c b"
  shows "P c b"
proof (induction "length b" arbitrary: c b rule: less_induct)
  case less
  show ?case
  proof (cases "find b crlf")
    case None
    then show ?thesis by (rule assms(1))
  next
    case (Some n)
    show ?thesis
    proof (cases "scan_hex (take n b)")
      case None
      then show ?thesis using assms(2) Some by blast
    next
      case size: (Some s)
      note bound = find_bound [OF Some]
      consider "length b < chunk_total n s"
        | "chunk_total n s \<le> length b" "take 2 (drop (n + 2 + s) (b @ slack)) \<noteq> crlf"
        | "s = 0" "take 2 (drop (n + 2) (b @ slack)) = crlf"
        | "s \<noteq> 0" "n + s + 4 \<le> length b" "take 2 (drop (n + 2 + s) (b @ slack)) = crlf"
        by (fastforce simp: chunk_total_def split: if_splits)
      then show ?thesis
      proof cases
        case 4
        then have "P (c @ take s (drop (n + 2) b)) (drop (n + s + 4) b)"
          by (intro less.hyps) simp
        then show ?thesis using assms(6) Some size 4 by blast
      qed (use assms(3-5) Some size bound in \<open>auto simp: crlf_def\<close>)
    qed
  qed
qed

text \<open>What a handler leaves: nothing is used up where it returns 0 or -1, except complete chunks.\<close>

definition takes_from :: "bytes \<Rightarrow> bytes \<Rightarrow> int \<Rightarrow> bool" where
  "takes_from b rest ret \<longleftrightarrow> (\<exists>n. rest = drop n b) \<and>
     (ret = 0 \<or> ret = -1 \<or> ret = 1 \<and> length rest < length b)"

lemma takes_nothing: "ret = 0 \<or> ret = -1 \<Longrightarrow> takes_from b b ret"
  unfolding takes_from_def by (metis drop0)

lemma takes_drop: "0 < n \<Longrightarrow> n \<le> length b \<Longrightarrow> takes_from b (drop n b) 1"
  by (auto simp: takes_from_def)

lemma takes_after: "takes_from (drop n b) rest ret \<Longrightarrow> takes_from b rest ret"
  by (auto simp: takes_from_def)

lemma read_chunks_rest:
  "read_chunks slack c b = (c', rest, ret) \<Longrightarrow> takes_from b rest ret"
proof (induction c b rule: read_chunks_induct [where slack = slack])
  case (chunk c b n s)
  then have "read_chunks slack (c @ take s (drop (n + 2) b)) (drop (n + s + 4) b) = (c', rest, ret)"
    by (simp add: read_chunks_cases(6))
  then show ?case using chunk(6) takes_after by blast
qed (auto simp: read_chunks_cases takes_nothing takes_drop)

lemma readStartLine_rest: "readStartLine hp b = (hp', rest, ret) \<Longrightarrow> takes_from b rest ret"
  using find_bound [of b crlf]
  by (auto simp: readStartLine_def Let_def crlf_def takes_nothing takes_drop split: option.splits if_splits)

lemma readHeader_rest: "readHeader hp b = (hp', rest, ret) \<Longrightarrow> takes_from b rest ret"
  using find_bound [of b "crlf @ crlf"]
  by (auto simp: readHeader_def Let_def takes_nothing takes_drop crlf_def
      split: option.splits if_splits prod.splits)

lemma readBody_rest:
  assumes "readBody slack hp b = (hp', rest, ret)"
  shows "takes_from b rest ret \<or> rest = b \<and> ret = 1 \<and> hp_status hp' = FINISHED"
proof -
  obtain c c' rest' ret' where "(case hp_chunk_buffer hp of None \<Rightarrow> [] | Some c \<Rightarrow> c) = c"
    "read_chunks slack c b = (c', rest', ret')"
    by (cases "read_chunks slack (case hp_chunk_buffer hp of None \<Rightarrow> [] | Some c \<Rightarrow> c) b") blast
  then show ?thesis
    using assms read_chunks_rest [of slack c b c' rest' ret']
    by (auto simp: readBody_def Let_def takes_nothing takes_drop split: if_splits)
qed

lemma http_handle_rest:
  assumes "http_handle slack hp b = (hp', rest, ret)"
  shows "takes_from b rest ret \<or> rest = b \<and> ret = 1 \<and> hp_status hp' = FINISHED"
  using assms readStartLine_rest [of hp b hp' rest ret] readHeader_rest [of hp b hp' rest ret]
    readBody_rest [of slack hp b hp' rest ret]
  by (auto simp: http_handle_def takes_nothing split: http_status.splits)

function http_recv :: "bytes \<Rightarrow> http_protocol \<Rightarrow> bytes \<Rightarrow> http_protocol \<times> bytes \<times> ret_code" where
  "http_recv slack hp buffer =
     (if http_dead hp then (hp, buffer, ERROR)
      else case http_handle slack hp buffer of (hp', rest, ret) \<Rightarrow>
        if ret = 0 then (hp', rest, WAITING_MORE_DATA)
        else if ret = -1 then (hp'\<lparr>hp_status := PENDING_ERROR\<rparr>, rest, ERROR)
        else if hp_status hp' = FINISHED then (hp', rest, MESSAGE_READY)
        else http_recv slack hp' rest)"
  by pat_completeness auto
termination
  by (relation "measure (\<lambda>(slack, hp, buffer). length buffer)") (auto dest!: http_handle_rest [OF sym] simp: takes_from_def)

declare http_recv.simps [simp del]

section \<open>Cutting the input into pieces\<close>

text \<open>Behind the line of the last chunk two bytes are compared without a look at how many are readable.
  \<open>chunks_in_bounds\<close>: that does not happen in reading the chunks of the buffer, or the two bytes are
  there; \<open>http_in_bounds\<close>: nor in a whole call of \<open>recvMessage\<close>.\<close>

function chunks_in_bounds :: "bytes \<Rightarrow> bool" where
  "chunks_in_bounds b =
     (case find b crlf of
        None \<Rightarrow> True
      | Some n \<Rightarrow>
          (case scan_hex (take n b) of
             None \<Rightarrow> True
           | Some s \<Rightarrow>
               length b < chunk_total n s \<or>
               n + s + 4 \<le> length b \<and>
               (s = 0 \<or> take 2 (drop (n + 2 + s) b) \<noteq> crlf \<or> chunks_in_bounds (drop (n + s + 4) b))))"
  by pat_completeness auto
termination by (relation "measure length") (auto dest: find_bound simp: crlf_def)

declare chunks_in_bounds.simps [simp del]

definition chunked :: "http_protocol \<Rightarrow> bool" where
  "chunked hp \<longleftrightarrow> c_atoi (msg_getHeader (the_message hp) (str ''Content-Length'')) \<le> 0 \<and>
     msg_headerContain (the_message hp) (str ''Transfer-Encoding'') (str ''chunked'')"

definition body_in_bounds :: "http_protocol \<Rightarrow> bytes \<Rightarrow> bool" where
  "body_in_bounds hp b \<longleftrightarrow> (hp_status hp = READING_BODY \<and> chunked hp \<longrightarrow> chunks_in_bounds b)"

function http_in_bounds :: "http_protocol \<Rightarrow> bytes \<Rightarrow> bool" where
  "http_in_bounds hp b =
     (if http_dead hp then True
      else body_in_bounds hp b \<and>
        (case http_handle [] hp b of (hp', rest, ret) \<Rightarrow>
           if ret = 0 \<or> ret = -1 \<or> hp_status hp' = FINISHED then True else http_in_bounds hp' rest))"
  by pat_completeness auto
termination
  by (relation "measure (\<lambda>(hp, b). length b)") (auto dest!: http_handle_rest [OF sym] simp: takes_from_def)

declare http_in_bounds.simps [simp del]

lemma chunk_bounds:
  assumes "chunks_in_bounds b" and "find b crlf = Some n" and "scan_hex (take n b) = Some s"
    and "chunk_total n s \<le> length b"
  shows "n + s + 4 \<le> length b"
    and "s \<noteq> 0 \<Longrightarrow> take 2 (drop (n + 2 + s) b) = crlf \<Longrightarrow> chunks_in_bounds (drop (n + s + 4) b)"
  using assms chunks_in_bounds.simps [of b] by auto

lemma take_drop_append: "n + k \<le> length b \<Longrightarrow> take k (drop n (b @ ys)) = take k (drop n b)"
  by simp

lemma read_chunks_append:
  "chunks_in_bounds b \<Longrightarrow> read_chunks slack c b = (c', rest, ret) \<Longrightarrow>
    read_chunks slack c (b @ ys) = (if ret = 0 then read_chunks slack c' (rest @ ys) else (c', rest @ ys, ret))"
proof (induction c b rule: read_chunks_induct [where slack = slack])
  case (wait c b)
  then show ?case by (simp add: read_chunks_cases(1))
next
  case (bad_size c b n)
  note bound = find_bound [OF bad_size(1)]
  have "scan_hex (take n (b @ ys)) = None" using bad_size(2) bound by simp
  then show ?case
    using bad_size read_chunks_cases(2) [OF find_append [OF bad_size(1)]] by (simp add: read_chunks_cases(2))
next
  case (short c b n s)
  then show ?case by (simp add: read_chunks_cases(3))
next
  case (no_crlf c b n s)
  have bound: "n + 2 \<le> length b" using find_bound [OF no_crlf(1)] by (simp add: crlf_def)
  have room: "n + 2 + s + 2 \<le> length b"
    using chunk_bounds(1) [OF no_crlf(5,1-3)] by simp
  have "take 2 (drop (n + 2 + s) ((b @ ys) @ slack)) = take 2 (drop (n + 2 + s) b)"
    "take 2 (drop (n + 2 + s) (b @ slack)) = take 2 (drop (n + 2 + s) b)"
    using room by (simp_all only: append_assoc take_drop_append)
  then have "read_chunks slack c (b @ ys) = (c, b @ ys, -1)"
    using no_crlf(2-4) bound by (intro read_chunks_cases(4) [OF find_append [OF no_crlf(1)]]) auto
  then show ?case using no_crlf by (simp add: read_chunks_cases(4))
next
  case (last_chunk c b n)
  have room: "n + 2 + 2 \<le> length b"
    using chunk_bounds(1) [OF last_chunk(5,1,2)] last_chunk(4) by (simp add: chunk_total_def)
  have "take 2 (drop (n + 2) ((b @ ys) @ slack)) = take 2 (drop (n + 2) b)"
    "take 2 (drop (n + 2) (b @ slack)) = take 2 (drop (n + 2) b)"
    using room by (simp_all only: append_assoc take_drop_append)
  then have "read_chunks slack c (b @ ys) = (c, drop (n + 2) (b @ ys), 1)"
    using last_chunk(2,3) room by (intro read_chunks_cases(5) [OF find_append [OF last_chunk(1)]]) auto
  then show ?case using last_chunk room by (auto simp: read_chunks_cases(5))
next
  case (chunk c b n s)
  have "take 2 (drop (n + 2 + s) ((b @ ys) @ slack)) = take 2 (drop (n + 2 + s) b)"
    "take 2 (drop (n + 2 + s) (b @ slack)) = take 2 (drop (n + 2 + s) b)"
    using chunk(4) by (simp_all only: append_assoc take_drop_append)
  then have "read_chunks slack c (b @ ys) =
      read_chunks slack (c @ take s (drop (n + 2) (b @ ys))) (drop (n + s + 4) (b @ ys))"
    using chunk(2-5) by (intro read_chunks_cases(6) [OF find_append [OF chunk(1)]]) auto
  also have "\<dots> = read_chunks slack (c @ take s (drop (n + 2) b)) (drop (n + s + 4) b @ ys)"
    using chunk(4) by simp
  finally have step: "read_chunks slack c (b @ ys) = \<dots>" .
  have "read_chunks slack (c @ take s (drop (n + 2) b)) (drop (n + s + 4) b) = (c', rest, ret)"
    using chunk by (simp add: read_chunks_cases(6))
  moreover have "chunks_in_bounds (drop (n + s + 4) b)"
    using chunk_bounds(2) [OF chunk(7,1,2)] chunk(3-5) by (simp add: chunk_total_def)
  ultimately show ?case using chunk(6) step by simp
qed

lemma readStartLine_append:
  assumes "readStartLine hp b = (hp', rest, ret)" and "ret \<noteq> 0"
  shows "readStartLine hp (b @ ys) = (hp', rest @ ys, ret)"
proof -
  obtain n where n: "find b crlf = Some n"
    using assms by (auto simp: readStartLine_def split: option.splits)
  have "n + 2 \<le> length b" using find_bound [OF n] by (simp add: crlf_def)
  then have "take n (b @ ys) = take n b" "drop (n + 2) (b @ ys) = drop (n + 2) b @ ys" by simp_all
  then show ?thesis
    using assms unfolding readStartLine_def n find_append [OF n] option.case Let_def
    by (auto split: if_splits)
qed

lemma readHeader_append:
  assumes "readHeader hp b = (hp', rest, ret)" and "ret \<noteq> 0"
  shows "readHeader hp (b @ ys) = (hp', rest @ ys, ret)"
proof -
  have two: "2 \<le> length b" using assms by (auto simp: readHeader_def split: if_splits)
  then have t: "take 2 (b @ ys) = take 2 b" "drop 2 (b @ ys) = drop 2 b @ ys" by simp_all
  show ?thesis
  proof (cases "take 2 b = crlf")
    case True
    then show ?thesis using assms two t by (auto simp: readHeader_def)
  next
    case False
    then obtain n where n: "find b (crlf @ crlf) = Some n"
      using assms two by (auto simp: readHeader_def split: option.splits)
    have "n + 4 \<le> length b" using find_bound [OF n] by (simp add: crlf_def)
    then have "take n (b @ ys) = take n b" "drop (n + 4) (b @ ys) = drop (n + 4) b @ ys" by simp_all
    then show ?thesis
      using assms two False unfolding readHeader_def t n find_append [OF n] option.case Let_def
      by (auto split: if_splits prod.splits)
  qed
qed

lemma readBody_append:
  assumes bounds: "chunked hp \<Longrightarrow> chunks_in_bounds b" and h: "readBody slack hp b = (hp', rest, ret)"
  shows "readBody slack hp (b @ ys) =
    (if ret = 0 then readBody slack hp' (rest @ ys) else (hp', rest @ ys, ret))"
proof -
  let ?len = "c_atoi (msg_getHeader (the_message hp) (str ''Content-Length''))"
  let ?chunk = "case hp_chunk_buffer hp of None \<Rightarrow> [] | Some c \<Rightarrow> c"
  obtain c r i where c: "read_chunks slack ?chunk b = (c, r, i)"
    by (cases "read_chunks slack ?chunk b") blast
  have same: "the_message (hp\<lparr>hp_chunk_buffer := x\<rparr>) = the_message hp" for x
    by (simp add: the_message_def)
  show ?thesis
  proof (cases "0 < ?len")
    case True
    then show ?thesis using h by (auto simp: readBody_def Let_def split: if_splits)
  next
    case no_len: False
    show ?thesis
    proof (cases "msg_headerContain (the_message hp) (str ''Transfer-Encoding'') (str ''chunked'')")
      case False
      then show ?thesis using h no_len by (auto simp: readBody_def Let_def)
    next
      case True
      then have "chunked hp" using no_len by (simp add: chunked_def)
      note more = read_chunks_append [OF bounds [OF this] c, of ys]
      show ?thesis
      proof (cases "i = 0")
        case wait: True
        then have "hp' = hp\<lparr>hp_chunk_buffer := Some c\<rparr>" "rest = r" "ret = 0"
          using h no_len True c by (auto simp: readBody_def Let_def)
        then show ?thesis
          using no_len True more wait by (simp add: readBody_def Let_def same split: prod.split)
      next
        case ended: False
        then show ?thesis
          using h no_len True more c read_chunks_rest [OF c]
          by (auto simp: readBody_def Let_def takes_from_def split: if_splits)
      qed
    qed
  qed
qed

text \<open>Within the bounds the bytes behind the buffer do not matter.\<close>

lemma read_chunks_slack: "chunks_in_bounds b \<Longrightarrow> read_chunks slack c b = read_chunks [] c b"
proof (induction c b rule: read_chunks_induct [where slack = slack])
  case (no_crlf c b n s)
  then show ?case using chunk_bounds(1) [OF no_crlf(5,1-3)] by (simp add: read_chunks_cases(4))
next
  case (last_chunk c b n)
  then show ?case
    using chunk_bounds(1) [OF last_chunk(5,1,2)] by (simp add: read_chunks_cases(5) chunk_total_def)
next
  case (chunk c b n s)
  then have "chunks_in_bounds (drop (n + s + 4) b)"
    using chunk_bounds(2) [OF chunk(7,1,2)] by (simp add: chunk_total_def)
  then show ?case using chunk by (simp add: read_chunks_cases(6))
qed (simp_all add: read_chunks_cases)

lemma http_handle_slack: "body_in_bounds hp b \<Longrightarrow> http_handle slack hp b = http_handle [] hp b"
  using read_chunks_slack [of b slack]
  by (simp add: http_handle_def readBody_def Let_def body_in_bounds_def chunked_def not_less split: http_status.split)

lemma http_recv_slack: "http_in_bounds hp b \<Longrightarrow> http_recv slack hp b = http_recv [] hp b"
proof (induction hp b rule: http_in_bounds.induct)
  case (1 hp b)
  note now = http_in_bounds.simps [of hp b]
  show ?case
  proof (cases "http_dead hp")
    case True
    then show ?thesis by (simp add: http_recv.simps)
  next
    case False
    obtain hp' rest ret where h: "http_handle [] hp b = (hp', rest, ret)" by (cases "http_handle [] hp b") blast
    have "http_handle slack hp b = (hp', rest, ret)"
      using 1(2) now False h http_handle_slack [of hp b slack] by simp
    then show ?thesis
      using 1 now False h http_recv.simps [of slack hp b] http_recv.simps [of "[]" hp b] by auto
  qed
qed

lemma http_in_bounds_step:
  assumes "http_in_bounds hp b" and "\<not> http_dead hp" and "http_handle slack hp b = (hp', rest, ret)"
  shows "body_in_bounds hp b" and "ret \<noteq> 0 \<Longrightarrow> ret \<noteq> -1 \<Longrightarrow> hp_status hp' \<noteq> FINISHED \<Longrightarrow> http_in_bounds hp' rest"
  using assms http_in_bounds.simps [of hp b] http_handle_slack [of hp b slack] by auto

interpretation http: status_machine "http_handle slack" "http_recv slack" http_dead
  "\<lambda>hp. hp_status hp = FINISHED" "\<lambda>hp. hp\<lparr>hp_status := PENDING_ERROR\<rparr>" http_in_bounds for slack
proof
  show "http_recv slack st xs =
      (if http_dead st then (st, xs, ERROR)
       else case http_handle slack st xs of (st', rest, ret) \<Rightarrow>
         if ret = 0 then (st', rest, WAITING_MORE_DATA)
         else if ret = -1 then (st'\<lparr>hp_status := PENDING_ERROR\<rparr>, rest, ERROR)
         else if hp_status st' = FINISHED then (st', rest, MESSAGE_READY)
         else http_recv slack st' rest)" for slack st xs
    by (rule http_recv.simps)
  fix slack st xs st' rest ret ys
  assume alive: "\<not> http_dead st" and h: "http_handle slack st xs = (st', rest, ret)"
  show "ret \<noteq> 0 \<Longrightarrow> ret \<noteq> -1 \<Longrightarrow> hp_status st' \<noteq> FINISHED \<Longrightarrow> length rest < length xs"
    using http_handle_rest [OF h] by (auto simp: takes_from_def)
  assume safe: "http_in_bounds st xs"
  note bounds = http_in_bounds_step [OF safe alive h]
  show "ret \<noteq> 0 \<Longrightarrow> ret \<noteq> -1 \<Longrightarrow> hp_status st' \<noteq> FINISHED \<Longrightarrow> http_in_bounds st' rest" by (rule bounds(2))
  show "ret \<noteq> 0 \<Longrightarrow> http_handle slack st (xs @ ys) = (st', rest @ ys, ret)"
    using h alive readStartLine_append [of st xs st' rest ret ys] readHeader_append [of st xs st' rest ret ys]
      readBody_append [of st xs slack st' rest ret ys] bounds(1)
    by (auto simp: http_handle_def http_dead_def body_in_bounds_def split: http_status.splits)
next
  fix slack st xs st' rest ys
  assume safe: "http_in_bounds st xs" and alive: "\<not> http_dead st" and h: "http_handle slack st xs = (st', rest, 0)"
  have same: "st' = st \<and> rest = xs" if "hp_status st \<noteq> READING_BODY"
    using h alive that
    by (auto simp: http_handle_def http_dead_def readStartLine_def readHeader_def Let_def
        split: http_status.splits option.splits if_splits prod.splits)
  have body: "hp_status st' = READING_BODY" if "hp_status st = READING_BODY"
    using h that by (auto simp: http_handle_def readBody_def Let_def split: if_splits prod.splits)
  show "http_handle slack st (xs @ ys) = http_handle slack st' (rest @ ys) \<and> \<not> http_dead st'"
  proof (cases "hp_status st = READING_BODY")
    case True
    then show ?thesis
      using h body readBody_append [of st xs slack st' rest 0 ys] http_in_bounds_step(1) [OF safe alive h]
      by (simp add: http_handle_def http_dead_def body_in_bounds_def)
  next
    case False
    then show ?thesis using same alive by simp
  qed
qed

section \<open>Retrieving\<close>

text \<open>The message is swapped out and the parser reset; None where the code returns false.\<close>

definition retrieveRequest :: "http_protocol \<Rightarrow> (http_request \<times> http_protocol) option" where
  "retrieveRequest hp =
     (if hp_status hp \<noteq> FINISHED then None
      else case hp_message hp of
             None \<Rightarrow> None
           | Some m \<Rightarrow> (case m of Request r \<Rightarrow> Some (r, http_reset hp) | Response _ \<Rightarrow> None))"

definition retrieveResponse :: "http_protocol \<Rightarrow> (http_response \<times> http_protocol) option" where
  "retrieveResponse hp =
     (if hp_status hp \<noteq> FINISHED then None
      else case hp_message hp of
             None \<Rightarrow> None
           | Some m \<Rightarrow> (case m of Response r \<Rightarrow> Some (r, http_reset hp) | Request _ \<Rightarrow> None))"

section \<open>Writing\<close>

text \<open>\<open>snprintf\<close> to the writable part: at most one byte less than the room, then a NUL; the result
  is the length of the whole text, by which the write index is moved on.\<close>

definition db_printf :: "dynamic_buffer \<Rightarrow> bytes \<Rightarrow> dynamic_buffer" where
  "db_printf b line =
     db_write (if writableBytes b = 0 then b else db_store b (take (writableBytes b - 1) line @ [0]))
       (length line)"

definition start_line :: "any_message \<Rightarrow> bytes" where
  "start_line m =
     (case m of
        Request r \<Rightarrow> MethodEnumToStr (hr_method r) @ str '' '' @ c_string (hr_request_uri r) @
          str '' '' @ VersionEnumToStr (hm_version r) @ crlf
      | Response r \<Rightarrow> VersionEnumToStr (hm_version r) @ str '' '' @ toString (hp_status_code r) @
          str '' '' @ c_string (hp_reason_phrase r) @ crlf)"

definition start_line_room :: "any_message \<Rightarrow> nat" where
  "start_line_room m =
     (case m of Request r \<Rightarrow> sz_add 64 (length (hr_request_uri r))
              | Response r \<Rightarrow> sz_add 64 (length (hp_reason_phrase r)))"

definition msg_headers :: "any_message \<Rightarrow> header_map" where
  "msg_headers m = (case m of Request r \<Rightarrow> hm_headers r | Response r \<Rightarrow> hm_headers r)"

definition msg_body :: "any_message \<Rightarrow> bytes" where
  "msg_body m = (case m of Request r \<Rightarrow> hm_body r | Response r \<Rightarrow> hm_body r)"

definition header_line :: "bytes \<times> bytes \<Rightarrow> bytes" where
  "header_line h = c_string (fst h) @ str '': '' @ c_string (snd h) @ crlf"

definition writeMessage :: "any_message \<Rightarrow> dynamic_buffer \<Rightarrow> dynamic_buffer" where
  "writeMessage m b =
     (let b1 = db_printf (reserveWritableBytes b (start_line_room m)) (start_line m);
          b2 = fold (\<lambda>h b. db_printf (reserveWritableBytes b
                              (sz_add (sz_add 32 (length (fst h))) (length (snd h)))) (header_line h))
                 (msg_headers m) b1;
          b3 = db_printf (reserveWritableBytes b2 2) crlf
      in db_printf (reserveWritableBytes b3 (length (msg_body m))) (c_string (msg_body m)))"

text \<open>What is handed to the output callback.\<close>

definition sendMessage :: "any_message \<Rightarrow> bytes" where
  "sendMessage m = db_content (writeMessage m (DynamicBuffer 1024 1024))"

section \<open>What the writer writes\<close>

definition message_text :: "any_message \<Rightarrow> bytes" where
  "message_text m = start_line m @ concat (map header_line (msg_headers m)) @ crlf @ c_string (msg_body m)"

text \<open>What \<open>snprintf\<close> leaves in \<open>room\<close> writable bytes: a text that fits exactly loses its last
  byte to the NUL.\<close>

definition printed :: "nat \<Rightarrow> bytes \<Rightarrow> bytes" where
  "printed room line = (if length line < room \<or> line = [] then line else butlast line @ [0])"

lemma store_prefix:
  assumes inv: "db_inv b" and fits: "length (xs @ zs) \<le> writableBytes b"
  shows "db_content (db_write (db_store b (xs @ zs)) (length xs)) = db_content b @ xs"
    and "db_inv (db_write (db_store b (xs @ zs)) (length xs))"
proof -
  let ?w = "db_write_index b"
  define c where "c = b\<lparr>db_buffer := take (?w + length xs) (db_buffer b) @ zs @
    drop (?w + length xs + length zs) (db_buffer b)\<rparr>"
  have len: "?w + length xs + length zs \<le> length (db_buffer b)"
    using inv fits by (auto simp: db_inv_def writableBytes_def)
  have "db_store c xs = db_store b (xs @ zs)"
    using len by (simp add: db_store_def c_def writeBegin_def min_def add.assoc)
  moreover have "db_inv c" "length xs \<le> writableBytes c"
    using inv len by (auto simp: db_inv_def c_def writableBytes_def)
  moreover have "db_content c = db_content b"
    using inv len by (simp add: db_content_def readableBytes_def readBegin_def c_def db_inv_def drop_take)
  ultimately show "db_content (db_write (db_store b (xs @ zs)) (length xs)) = db_content b @ xs"
    "db_inv (db_write (db_store b (xs @ zs)) (length xs))"
    using store_write_content [of c xs] by simp_all
qed

lemma printf_content:
  assumes "db_inv b" and "length line \<le> writableBytes b"
  shows "db_content (db_printf b line) = db_content b @ printed (writableBytes b) line"
    and "db_inv (db_printf b line)"
proof -
  have "db_content (db_printf b line) = db_content b @ printed (writableBytes b) line \<and>
    db_inv (db_printf b line)"
  proof (cases "length line < writableBytes b")
    case True
    then show ?thesis
      using store_prefix [OF assms(1), of line "[0]"]
      by (simp add: db_printf_def printed_def)
  next
    case exact: False
    show ?thesis
    proof (cases "line = []")
      case True
      then have "writableBytes b = 0" using exact by simp
      then show ?thesis
        using True store_write_content [OF assms(1), of "[]"] assms(1)
        by (simp add: db_printf_def printed_def db_write_def)
    next
      case False
      have w: "writableBytes b = length line" using exact assms(2) by simp
      have len: "length (butlast line @ [0]) = length line" using False by simp
      have "db_printf b line = db_write (db_store b (butlast line @ [0])) (length (butlast line @ [0]))"
        unfolding db_printf_def w len using False by (simp add: butlast_conv_take)
      moreover have "printed (writableBytes b) line = butlast line @ [0]"
        unfolding w printed_def using False by simp
      ultimately show ?thesis
        using store_write_content [OF assms(1), of "butlast line @ [0]"] w len by simp
    qed
  qed
  then show "db_content (db_printf b line) = db_content b @ printed (writableBytes b) line"
    "db_inv (db_printf b line)" by simp_all
qed

text \<open>Reserving room and printing.\<close>

lemma reserve_printf:
  assumes "db_inv b" and "length (db_content b) + n < db_limit" and "length line \<le> n"
  shows "db_content (db_printf (reserveWritableBytes b n) line) =
      db_content b @ printed (writableBytes (reserveWritableBytes b n)) line"
    and "db_inv (db_printf (reserveWritableBytes b n) line)"
proof -
  have n: "n < 2 ^ 62" "readableBytes b + n < db_limit" using assms(1,2) by (simp_all add: db_limit_def)
  note r = reserve_inv [OF assms(1) n(2)] reserve_writable [OF assms(1) n(1)] reserve_content [OF assms(1) n(1)]
  have "length line \<le> writableBytes (reserveWritableBytes b n)" using r(2) assms(3) by simp
  from printf_content [OF r(1) this] r(3)
  show "db_content (db_printf (reserveWritableBytes b n) line) =
      db_content b @ printed (writableBytes (reserveWritableBytes b n)) line"
    "db_inv (db_printf (reserveWritableBytes b n) line)" by simp_all
qed

lemma reserve_printf_less:
  assumes "db_inv b" and "length (db_content b) + n < db_limit" and "length line < n"
  shows "db_content (db_printf (reserveWritableBytes b n) line) = db_content b @ line"
    and "db_inv (db_printf (reserveWritableBytes b n) line)"
proof -
  have "n < 2 ^ 62" using assms(1,2) by (simp add: db_limit_def)
  then have "length line < writableBytes (reserveWritableBytes b n)"
    using reserve_writable [OF assms(1)] assms(3) by (meson less_le_trans)
  then show "db_content (db_printf (reserveWritableBytes b n) line) = db_content b @ line"
    "db_inv (db_printf (reserveWritableBytes b n) line)"
    using reserve_printf [OF assms(1,2), of line] assms(3) by (simp_all add: printed_def)
qed

lemma length_c_string: "length (c_string s) \<le> length s"
  by (simp add: c_string_def length_takeWhile_le)

lemma length_toString: "\<bar>i\<bar> < 10 ^ 10 \<Longrightarrow> length (toString i) \<le> 11"
  using length_decimal [of "nat \<bar>i\<bar>" 10] by (auto simp: toString_def nat_less_iff)

definition msg_size :: "any_message \<Rightarrow> nat" where
  "msg_size m = (case m of Request r \<Rightarrow> length (hr_request_uri r) | Response r \<Rightarrow> length (hp_reason_phrase r)) +
     sum_list (map (\<lambda>h. 32 + length (fst h) + length (snd h)) (msg_headers m)) + length (msg_body m) + 70"

definition status_ok :: "any_message \<Rightarrow> bool" where
  "status_ok m = (case m of Request _ \<Rightarrow> True | Response r \<Rightarrow> \<bar>hp_status_code r\<bar> < 2 ^ 31)"

lemma length_start_line:
  "status_ok m \<Longrightarrow> length (start_line m) + 20 \<le>
    64 + (case m of Request r \<Rightarrow> length (hr_request_uri r) | Response r \<Rightarrow> length (hp_reason_phrase r))"
proof (cases m)
  case (Request r)
  then show ?thesis using length_c_string [of "hr_request_uri r"]
    by (simp add: start_line_def MethodEnumToStr_def VersionEnumToStr_def crlf_def
        split: http_method.split http_version.split)
next
  case (Response r)
  assume "status_ok m"
  then have "length (toString (hp_status_code r)) \<le> 11"
    using Response by (intro length_toString) (simp add: status_ok_def)
  then show ?thesis using Response length_c_string [of "hp_reason_phrase r"]
    by (simp add: start_line_def VersionEnumToStr_def crlf_def split: http_version.split)
qed

lemma length_header_line: "length (header_line h) + 20 < 32 + length (fst h) + length (snd h)"
  using length_c_string [of "fst h"] length_c_string [of "snd h"]
  by (simp add: header_line_def crlf_def)

lemma write_headers:
  assumes "db_inv b"
    and "length (db_content b) + sum_list (map (\<lambda>h. 32 + length (fst h) + length (snd h)) hs) + k < 2 ^ 61"
  shows "\<exists>b'. fold (\<lambda>h b. db_printf (reserveWritableBytes b
        (sz_add (sz_add 32 (length (fst h))) (length (snd h)))) (header_line h)) hs b = b' \<and>
    db_inv b' \<and> db_content b' = db_content b @ concat (map header_line hs) \<and>
    length (db_content b') + k < 2 ^ 61"
  using assms
proof (induction hs arbitrary: b)
  case (Cons h hs)
  let ?n = "32 + length (fst h) + length (snd h)"
  have n: "sz_add (sz_add 32 (length (fst h))) (length (snd h)) = ?n"
    using Cons.prems(2) by (simp add: sz_add_small)
  have "length (db_content b) + ?n < db_limit" "length (header_line h) < ?n"
    using Cons.prems(2) length_header_line [of h] by (simp_all add: db_limit_def)
  note w = reserve_printf_less [OF Cons.prems(1) this]
  have "length (db_content (db_printf (reserveWritableBytes b ?n) (header_line h))) +
      sum_list (map (\<lambda>h. 32 + length (fst h) + length (snd h)) hs) + k < 2 ^ 61"
    using Cons.prems(2) w(1) length_header_line [of h] by simp
  note IH = Cons.IH [OF w(2) this]
  then show ?case
    using w(1) by (auto simp: n)
qed simp

section \<open>Properties\<close>

text \<open>C31. As long as it compares no bytes that have not arrived (\<open>http_in_bounds\<close>), the parser does not depend on
  how the input arrives: a complete message or an error is
  the same when more bytes follow, and waiting keeps what is needed to go on. The input may be cut
  anywhere but within the two bytes behind the line of the last chunk of a message, where the parser
  compares such bytes and takes a complete message for an error (\<open>chunked_input_cut\<close>); otherwise what lies
  behind the buffer does not matter.\<close>

theorem http_input_can_be_cut:
  assumes "http_in_bounds hp xs" and "http_recv slack hp xs = (hp', rest, r)"
  shows "http_recv slack hp (xs @ ys) =
      (if r = WAITING_MORE_DATA then http_recv slack hp' (rest @ ys) else (hp', rest @ ys, r)) \<and>
    http_recv slack' hp xs = (hp', rest, r)"
  using http.recv_resume [OF assms(1)] http.recv_complete [OF assms(1)] assms(2)
    http_recv_slack [OF assms(1), of slack] http_recv_slack [OF assms(1), of slack'] by simp

definition chunked_response :: bytes where
  "chunked_response = str ''HTTP/1.1 200 OK'' @ crlf @ str ''Transfer-Encoding: chunked'' @ crlf @ crlf @
     str ''3'' @ crlf @ str ''abc'' @ crlf @ str ''0'' @ crlf"

theorem http_input_can_be_cut_witness:
  "http_recv [] HttpProtocol (take 30 chunked_response @ drop 30 chunked_response @ crlf) =
     (let (hp', rest, r) = http_recv [] HttpProtocol (take 30 chunked_response)
      in http_recv [] hp' (rest @ drop 30 chunked_response @ crlf))"
proof -
  obtain hp' rest r where first: "http_recv [] HttpProtocol (take 30 chunked_response) = (hp', rest, r)"
    by (cases "http_recv [] HttpProtocol (take 30 chunked_response)") blast
  have "snd (snd (http_recv [] HttpProtocol (take 30 chunked_response))) = WAITING_MORE_DATA"
    by code_simp
  moreover have "http_in_bounds HttpProtocol (take 30 chunked_response)" by code_simp
  ultimately show ?thesis
    using http_input_can_be_cut [OF _ first, of "drop 30 chunked_response @ crlf"] first by simp
qed

text \<open>Where the input is cut right behind the last chunk line, the parser reports an error, although
  the whole input is a complete message: the comparison reads what lies behind.\<close>

lemma chunked_input_cut:
  "snd (snd (http_recv [0, 0] HttpProtocol chunked_response)) = ERROR"
  "snd (snd (http_recv [0, 0] HttpProtocol (chunked_response @ crlf))) = MESSAGE_READY"
  by code_simp+

text \<open>Trailer headers after the last chunk are refused.\<close>

lemma chunked_trailer_refused:
  "snd (snd (http_recv [0, 0] HttpProtocol (chunked_response @ str ''A: b'' @ crlf @ crlf))) = ERROR"
  by code_simp

text \<open>\<open>writeMessage\<close> appends the text of the message, but for two places where only as much room
  is reserved as the text has bytes: where the buffer has no byte more, \<open>snprintf\<close> puts its NUL in
  place of the last byte of the empty line or of the body.\<close>

theorem writeMessage_writes_text:
  assumes "db_inv b" and "length (db_content b) + msg_size m < 2 ^ 61" and "status_ok m"
  shows "\<exists>room1 room2. 2 \<le> room1 \<and> length (msg_body m) \<le> room2 \<and>
    db_content (writeMessage m b) = db_content b @ start_line m @ concat (map header_line (msg_headers m)) @
      printed room1 crlf @ printed room2 (c_string (msg_body m)) \<and> db_inv (writeMessage m b)"
proof -
  define u where "u = (case m of Request r \<Rightarrow> length (hr_request_uri r) | Response r \<Rightarrow> length (hp_reason_phrase r))"
  define hs where "hs = sum_list (map (\<lambda>h. 32 + length (fst h) + length (snd h)) (msg_headers m))"
  have sizes: "length (db_content b) + u + hs + length (msg_body m) + 70 < 2 ^ 61"
    using assms(2) by (simp add: msg_size_def u_def hs_def)
  have room: "start_line_room m = 64 + u"
    using sizes by (cases m) (simp_all add: start_line_room_def u_def sz_add_small)
  have len: "length (start_line m) + 20 \<le> 64 + u"
    using length_start_line [OF assms(3)] by (simp add: u_def)
  define b1 where "b1 = db_printf (reserveWritableBytes b (64 + u)) (start_line m)"
  have "length (db_content b) + (64 + u) < db_limit" "length (start_line m) < 64 + u"
    using sizes len by (simp_all add: db_limit_def)
  note w1 = reserve_printf_less [OF assms(1) this, folded b1_def]
  have "length (db_content b1) + hs + (length (msg_body m) + 10) < 2 ^ 61"
    using w1(1) len sizes by simp
  from write_headers [OF w1(2) this [unfolded hs_def]]
  obtain b2 where b2: "fold (\<lambda>h b. db_printf (reserveWritableBytes b
        (sz_add (sz_add 32 (length (fst h))) (length (snd h)))) (header_line h)) (msg_headers m) b1 = b2"
    "db_inv b2" "db_content b2 = db_content b1 @ concat (map header_line (msg_headers m))"
    "length (db_content b2) + (length (msg_body m) + 10) < 2 ^ 61" by blast
  define b3 where "b3 = db_printf (reserveWritableBytes b2 2) crlf"
  have "length (db_content b2) + 2 < db_limit" "length crlf \<le> 2"
    using b2(4) by (simp_all add: db_limit_def crlf_def)
  note w3 = reserve_printf [OF b2(2) this, folded b3_def]
  have r3: "2 \<le> writableBytes (reserveWritableBytes b2 2)"
    by (rule reserve_writable [OF b2(2)]) simp
  have "length (db_content b3) \<le> length (db_content b2) + 2"
    using w3(1) by (simp add: printed_def crlf_def)
  then have n4: "length (db_content b3) + length (msg_body m) < db_limit" "length (msg_body m) < 2 ^ 62"
    using b2(4) by (simp_all add: db_limit_def)
  note w4 = reserve_printf [OF w3(2) n4(1) length_c_string]
  have r4: "length (msg_body m) \<le> writableBytes (reserveWritableBytes b3 (length (msg_body m)))"
    by (rule reserve_writable [OF w3(2) n4(2)])
  have "writeMessage m b = db_printf (reserveWritableBytes b3 (length (msg_body m))) (c_string (msg_body m))"
    by (simp add: writeMessage_def room b1_def [symmetric] b2(1) b3_def [symmetric] Let_def)
  then show ?thesis
    using w4 w3(1) w1(1) b2(3) r3 r4 by auto
qed

theorem writeMessage_writes_text_witness:
  "db_content (writeMessage (Request (HttpRequest\<lparr>hr_method := GET, hr_request_uri := str ''/'',
     hm_version := HTTP_1_1\<rparr>)) (DynamicBuffer 1024 1024)) \<noteq> []"
proof -
  let ?m = "Request (HttpRequest\<lparr>hr_method := GET, hr_request_uri := str ''/'', hm_version := HTTP_1_1\<rparr>)"
  have "length (db_content (DynamicBuffer 1024 1024)) + msg_size ?m < 2 ^ 61"
    by (simp add: msg_size_def HttpRequest_def msg_headers_def msg_body_def)
  moreover have "status_ok ?m" by (simp add: status_ok_def)
  ultimately show ?thesis
    using writeMessage_writes_text [OF fresh_inv, of ?m]
    by (auto simp: start_line_def MethodEnumToStr_def)
qed

end
