(* ===== verification/HttpRoundtrip.thy ===== *)
theory HttpRoundtrip
  imports HttpProtocol
begin

text \<open>
  The parser reads back what the writer writes: for every message whose parts hold no bytes that
  the text format cannot carry, receiving \<open>message_text\<close> gives the message and leaves what follows.
\<close>

section \<open>Messages that have a text\<close>

definition plain_text :: "bytes \<Rightarrow> bool" where
  "plain_text s \<longleftrightarrow> 0 \<notin> set s \<and> 13 \<notin> set s"

text \<open>A header survives when its parts are trimmed and the key has no colon.\<close>

definition header_ok :: "bytes \<times> bytes \<Rightarrow> bool" where
  "header_ok h \<longleftrightarrow> plain_text (fst h) \<and> plain_text (snd h) \<and> of_char (CHR '':'') \<notin> set (fst h) \<and>
     trim (fst h) white_space = fst h \<and> trim (snd h) white_space = snd h"

text \<open>The length header announces the body; a message without body must not announce one.\<close>

definition body_ok :: "any_message \<Rightarrow> bool" where
  "body_ok m \<longleftrightarrow> 0 \<notin> set (msg_body m) \<and>
     (if msg_body m = []
      then c_atoi (msg_getHeader m (str ''Content-Length'')) \<le> 0 \<and>
           \<not> msg_headerContain m (str ''Transfer-Encoding'') (str ''chunked'')
      else c_atoi (msg_getHeader m (str ''Content-Length'')) = int (length (msg_body m)))"

definition start_ok :: "any_message \<Rightarrow> bool" where
  "start_ok m = (case m of
     Request r \<Rightarrow> hm_type r = REQUEST \<and> hm_version r \<noteq> VERSION_UNKNOWN \<and> hr_method r \<noteq> METHOD_UNKNOWN \<and>
       plain_text (hr_request_uri r) \<and> 32 \<notin> set (hr_request_uri r)
   | Response r \<Rightarrow> hm_type r = RESPONSE \<and> hm_version r \<noteq> VERSION_UNKNOWN \<and> plain_text (hp_reason_phrase r) \<and>
       0 \<le> hp_status_code r \<and> hp_status_code r < 2 ^ 31)"

definition message_ok :: "any_message \<Rightarrow> bool" where
  "message_ok m \<longleftrightarrow> start_ok m \<and> ci.ordered (msg_headers m) \<and> list_all header_ok (msg_headers m) \<and> body_ok m"

section \<open>Numbers\<close>

lemma atoi_toString:
  assumes "0 \<le> i" and "i < 2 ^ 31"
  shows "c_atoi (toString i) = i"
proof -
  obtain c cs where c: "decimal (nat i) = c # cs" using decimal_nonempty by (cases "decimal (nat i)") auto
  have "c_isdigit c" using decimal_isdigit [of c "nat i"] c by simp
  then have no: "\<not> c_isspace c" "c \<noteq> of_char (CHR ''-'')" "c \<noteq> of_char (CHR ''+'')"
    by (auto simp: c_isdigit_def c_isspace_def word_le_nat_alt)
  then have sign: "split_sign (decimal (nat i)) = (False, decimal (nat i))"
    by (simp add: split_sign_def c)
  have "takeWhile c_isdigit (decimal (nat i)) = decimal (nat i)"
    using decimal_isdigit by (simp add: takeWhile_eq_all_conv)
  note digits = this
  show ?thesis
    using assms sign
    by (simp add: c_atoi_def toString_def digits dec_value_decimal signed_take_bit_int_eq_self)
qed

section \<open>The start line\<close>

lemma split_words:
  assumes "32 \<notin> set a" and "32 \<notin> set b"
  shows "split (a @ 32 # b @ 32 # c) (str '' '') [] 3 = [a, b, c]"
proof -
  have s: "search (a @ 32 # b @ 32 # c) [32] = Some (length a)" "search (b @ 32 # c) [32] = Some (length b)"
    using assms search_char(1) by blast+
  have "split_loop [32] 3 2 c = [c]" by (subst split_loop.simps) simp
  then have "split_loop [32] 3 1 (b @ 32 # c) = [b, c]" using s by (subst split_loop.simps) simp
  then have "split_loop [32] 3 0 (a @ 32 # b @ 32 # c) = [a, b, c]" using s by (subst split_loop.simps) simp
  then show ?thesis by (simp add: split_def)
qed

lemma c_string_plain: "0 \<notin> set s \<Longrightarrow> c_string s = s"
  by (rule c_string_id)

definition start_message :: "any_message \<Rightarrow> any_message" where
  "start_message m = (case m of
     Request r \<Rightarrow> Request (HttpRequest\<lparr>hr_method := hr_method r, hr_request_uri := hr_request_uri r,
                            hm_version := hm_version r\<rparr>)
   | Response r \<Rightarrow> Response (HttpResponse\<lparr>hm_version := hm_version r,
                             hp_status_code := hp_status_code r, hp_reason_phrase := hp_reason_phrase r\<rparr>))"

lemma toString_chars:
  assumes "0 \<le> i" and "c \<in> set (toString i)"
  shows "c \<noteq> 32 \<and> c \<noteq> 13"
proof -
  have "c_isdigit c" using assms decimal_isdigit [of c "nat i"] by (simp add: toString_def)
  then show ?thesis by (auto simp: c_isdigit_def word_le_nat_alt)
qed

lemma around_crlf: "take (length l) (l @ crlf @ t) = l" "drop (length l + 2) (l @ crlf @ t) = t"
  by (simp_all add: crlf_def)

lemma find_crlf: "13 \<notin> set l \<Longrightarrow> find (l @ crlf @ t) crlf = Some (length l)"
  using search_skip_here [of 13 l "[10]" t] by (simp add: find_def crlf_def)

lemma version_chars: "13 \<notin> set (VersionEnumToStr v)" "32 \<notin> set (VersionEnumToStr v)"
  "v \<noteq> VERSION_UNKNOWN \<Longrightarrow> take 4 (VersionEnumToStr v) = str ''HTTP''"
  by (cases v; simp add: VersionEnumToStr_def)+

lemma method_chars: "13 \<notin> set (MethodEnumToStr k)" "32 \<notin> set (MethodEnumToStr k)"
  "take 4 (MethodEnumToStr k) \<noteq> str ''HTTP''"
  by (cases k; simp add: MethodEnumToStr_def)+

lemma read_start_parts:
  assumes "13 \<notin> set l" and "split l (str '' '') [] 3 = [a, b, c]"
  shows "readStartLine hp (l @ crlf @ t) =
    (if take 4 a = str ''HTTP'' then
       if VersionStrToEnum a = VERSION_UNKNOWN \<or> c_atoi b < 0 then (hp, l @ crlf @ t, -1)
       else (hp\<lparr>hp_message := Some (Response (HttpResponse\<lparr>hm_version := VersionStrToEnum a,
               hp_status_code := c_atoi b, hp_reason_phrase := c\<rparr>)), hp_status := READING_HEADER\<rparr>, t, 1)
     else if MethodStrToEnum a = METHOD_UNKNOWN \<or> VersionStrToEnum c = VERSION_UNKNOWN
     then (hp, l @ crlf @ t, -1)
     else (hp\<lparr>hp_message := Some (Request (HttpRequest\<lparr>hr_method := MethodStrToEnum a,
             hr_request_uri := b, hm_version := VersionStrToEnum c\<rparr>)), hp_status := READING_HEADER\<rparr>, t, 1))"
  unfolding readStartLine_def find_crlf [OF assms(1)] option.case Let_def around_crlf assms(2) by simp

lemma read_start_line:
  assumes "start_ok m"
  shows "readStartLine HttpProtocol (start_line m @ t) =
    (HttpProtocol\<lparr>hp_message := Some (start_message m), hp_status := READING_HEADER\<rparr>, t, 1)"
proof (cases m)
  case (Request r)
  let ?l = "MethodEnumToStr (hr_method r) @ 32 # hr_request_uri r @ 32 # VersionEnumToStr (hm_version r)"
  have ok: "hm_version r \<noteq> VERSION_UNKNOWN" "hr_method r \<noteq> METHOD_UNKNOWN" "0 \<notin> set (hr_request_uri r)"
    "13 \<notin> set (hr_request_uri r)" "32 \<notin> set (hr_request_uri r)"
    using assms Request by (auto simp: start_ok_def plain_text_def)
  have line: "start_line m @ t = ?l @ crlf @ t"
    using Request ok by (simp add: start_line_def c_string_plain)
  have l: "13 \<notin> set ?l" using ok by (simp add: version_chars method_chars)
  have s: "split ?l (str '' '') [] 3 = [MethodEnumToStr (hr_method r), hr_request_uri r, VersionEnumToStr (hm_version r)]"
    using ok by (intro split_words) (simp_all add: method_chars)
  show ?thesis
    unfolding line read_start_parts [OF l s]
    by (simp add: method_chars ok version_roundtrip method_roundtrip start_message_def Request del: str_simps)
next
  case (Response r)
  let ?l = "VersionEnumToStr (hm_version r) @ 32 # toString (hp_status_code r) @ 32 # hp_reason_phrase r"
  have ok: "hm_version r \<noteq> VERSION_UNKNOWN" "0 \<notin> set (hp_reason_phrase r)"
    "13 \<notin> set (hp_reason_phrase r)" "0 \<le> hp_status_code r" "hp_status_code r < 2 ^ 31"
    using assms Response by (auto simp: start_ok_def plain_text_def)
  have line: "start_line m @ t = ?l @ crlf @ t"
    using Response ok by (simp add: start_line_def c_string_plain)
  have l: "13 \<notin> set ?l" using ok toString_chars [OF ok(4)] by (auto simp: version_chars)
  have s: "split ?l (str '' '') [] 3 = [VersionEnumToStr (hm_version r), toString (hp_status_code r), hp_reason_phrase r]"
    using toString_chars [OF ok(4)] by (intro split_words) (auto simp: version_chars)
  show ?thesis
    unfolding line read_start_parts [OF l s]
    by (simp add: version_chars(3) ok version_roundtrip atoi_toString [OF ok(4,5)] not_less start_message_def Response del: str_simps)
qed

section \<open>The headers\<close>

definition plain_line :: "bytes \<times> bytes \<Rightarrow> bytes" where
  "plain_line h = fst h @ str '': '' @ snd h"

lemma header_lines:
  "list_all header_ok hs \<Longrightarrow> hs \<noteq> [] \<Longrightarrow>
    concat (map header_line hs) @ crlf @ t = join crlf (map plain_line hs) @ crlf @ crlf @ t"
proof (induction hs rule: induct_list012)
  case (2 h)
  then show ?case by (simp add: header_line_def plain_line_def header_ok_def plain_text_def c_string_plain)
next
  case (3 h h' hs)
  then show ?case by (simp add: header_line_def plain_line_def header_ok_def plain_text_def c_string_plain)
qed simp

lemma search_after_crlf:
  "c \<noteq> 13 \<Longrightarrow> search (c # rs) (crlf @ crlf) = Some n \<Longrightarrow>
    search (crlf @ c # rs) (crlf @ crlf) = Some (2 + n)"
  by (simp add: crlf_def)

lemma find_end_of_headers:
  "ls \<noteq> [] \<Longrightarrow> \<forall>l \<in> set ls. 13 \<notin> set l \<and> l \<noteq> [] \<Longrightarrow>
    search (join crlf ls @ crlf @ crlf @ t) (crlf @ crlf) = Some (length (join crlf ls))"
proof (induction ls rule: induct_list012)
  case (2 l)
  then show ?case using search_skip_here [of 13 l "[10, 13, 10]" t] by (simp add: crlf_def)
next
  case (3 l l' ls)
  obtain c cs where c: "l' = c # cs" "c \<noteq> 13" using 3(4) by (cases l') auto
  let ?rest = "join crlf (l' # ls) @ crlf @ crlf @ t"
  obtain rs where rest: "?rest = c # rs" using c(1) by (cases ls) auto
  have "search ?rest (crlf @ crlf) = Some (length (join crlf (l' # ls)))"
    using 3 by simp
  then have "search (crlf @ ?rest) (crlf @ crlf) = Some (2 + length (join crlf (l' # ls)))"
    using search_after_crlf [OF c(2), of rs] rest by metis
  then have "search (l @ crlf @ ?rest) (crlf @ crlf) = Some (length l + (2 + length (join crlf (l' # ls))))"
    using 3(4) search_skip [of 13 l "crlf @ ?rest" "[10, 13, 10]"] by (simp add: crlf_def)
  then show ?case by (simp add: crlf_def)
qed simp

lemma plain_line_ok: "header_ok h \<Longrightarrow> 13 \<notin> set (plain_line h) \<and> plain_line h \<noteq> []"
  by (auto simp: plain_line_def header_ok_def plain_text_def)

lemma set_headers_lines:
  "list_all header_ok hs \<Longrightarrow> set_headers (map plain_line hs) hp =
    (fold (\<lambda>(k, v). update_message (msg_setHeader k v)) hs hp, True)"
proof (induction hs arbitrary: hp)
  case (Cons h hs)
  obtain k v where h: "h = (k, v)" by fastforce
  have ok: "of_char (CHR '':'') \<notin> set k" "0 \<notin> set v" "trim k white_space = k" "trim v white_space = v"
    using Cons.prems h by (auto simp: header_ok_def plain_text_def)
  have "find (plain_line h) (str '':'') = Some (length k)"
    using ok(1) search_char(1) [of "of_char (CHR '':'')" k "32 # v"] by (simp add: h plain_line_def find_def)
  moreover have "trim (c_string (drop (length k + 1) (plain_line h))) white_space = v"
    using ok c_string_plain [of "32 # v"] by (simp add: h plain_line_def trim_ws white_space_def)
  moreover have "trim (take (length k) (plain_line h)) white_space = k"
    using ok by (simp add: h plain_line_def)
  ultimately show ?case using Cons h by (simp del: str_simps)
qed simp

definition put_headers :: "header_map \<Rightarrow> any_message \<Rightarrow> any_message" where
  "put_headers hs m = (case m of Request r \<Rightarrow> Request (r\<lparr>hm_headers := hs\<rparr>) | Response r \<Rightarrow> Response (r\<lparr>hm_headers := hs\<rparr>))"

lemma fold_set_headers:
  "hp_message hp = Some m \<Longrightarrow> fold (\<lambda>(k, v). update_message (msg_setHeader k v)) hs hp =
    hp\<lparr>hp_message := Some (put_headers (fold (\<lambda>(k, v). omap_set CaseInsensitiveLess k v) hs (msg_headers m)) m)\<rparr>"
proof (induction hs arbitrary: hp m)
  case Nil
  then show ?case by (cases hp; cases m) (simp_all add: put_headers_def msg_headers_def)
next
  case (Cons h hs)
  obtain k v where h: "h = (k, v)" by fastforce
  have one: "update_message (msg_setHeader k v) hp = hp\<lparr>hp_message := Some (msg_setHeader k v m)\<rparr>"
    using Cons.prems by (simp add: update_message_def)
  have parts: "put_headers x (msg_setHeader k v m) = put_headers x m"
    "msg_headers (msg_setHeader k v m) = omap_set CaseInsensitiveLess k v (msg_headers m)" for x
    by (cases m; simp add: put_headers_def msg_setHeader_def setHeader_def msg_headers_def)+
  show ?case
    using Cons.IH [of "hp\<lparr>hp_message := Some (msg_setHeader k v m)\<rparr>" "msg_setHeader k v m"]
    by (simp add: h one parts)
qed

lemma start_message_parts:
  "msg_headers (start_message m) = []" "msg_body (start_message m) = []"
  by (cases m; simp add: start_message_def msg_headers_def msg_body_def HttpRequest_def HttpResponse_def)+

lemma start_message_all:
  "start_ok m \<Longrightarrow> msg_setBody (msg_body m) (put_headers (msg_headers m) (start_message m)) = m"
  by (cases m) (auto simp: start_ok_def start_message_def put_headers_def msg_setBody_def setBody_def
      msg_headers_def msg_body_def HttpRequest_def HttpResponse_def)

lemma msg_setBody_same: "msg_setBody (msg_body m) m = m"
  by (cases m) (simp_all add: msg_setBody_def setBody_def msg_body_def)

lemma put_headers_body: "msg_body (put_headers hs m) = msg_body m" "msg_headers (put_headers hs m) = hs"
  by (cases m; simp add: put_headers_def msg_body_def msg_headers_def)+

lemma getHeader_headers:
  "msg_headers m = msg_headers m' \<Longrightarrow> msg_getHeader m k = msg_getHeader m' k"
  "msg_headers m = msg_headers m' \<Longrightarrow> msg_headerContain m k v = msg_headerContain m' k v"
  by (cases m; cases m'; simp add: msg_getHeader_def msg_headerContain_def getHeader_def headerContain_def
      msg_headers_def)+

lemma read_headers:
  assumes "list_all header_ok hs" and "ci.ordered hs" and "hs \<noteq> []"
    and "hp_message hp = Some m" and "msg_headers m = []"
  shows "readHeader hp (concat (map header_line hs) @ crlf @ t) =
    (hp\<lparr>hp_message := Some (put_headers hs m), hp_status := READING_BODY\<rparr>, t, 1)"
proof -
  let ?ls = "map plain_line hs"
  let ?b = "join crlf ?ls @ crlf @ crlf @ t"
  have ls: "?ls \<noteq> []" "\<forall>l \<in> set ?ls. 13 \<notin> set l \<and> l \<noteq> []"
    using assms(1,3) plain_line_ok by (auto simp: list_all_iff)
  have text_eq: "concat (map header_line hs) @ crlf @ t = ?b"
    by (rule header_lines [OF assms(1,3)])
  obtain h hs' where hs: "hs = h # hs'" using assms(3) by (cases hs) auto
  obtain c cs where c: "plain_line h = c # cs" "c \<noteq> 13"
    using ls(2) hs by (cases "plain_line h") auto
  have "take 2 ?b \<noteq> crlf"
    using c by (cases hs') (auto simp: hs crlf_def)
  moreover have "find ?b (crlf @ crlf) = Some (length (join crlf ?ls))"
    using find_end_of_headers [OF ls] by (simp add: find_def crlf_def)
  moreover have "split (join crlf ?ls) crlf [] (-1) = ?ls"
    using split_loop_join [of ?ls 13 "-1" "[10]" 0] ls by (simp add: split_def crlf_def)
  moreover have "take (length (join crlf ?ls)) ?b = join crlf ?ls" "drop (length (join crlf ?ls) + 4) ?b = t"
    "\<not> length ?b < 2" by (simp_all add: crlf_def)
  moreover have "fold (\<lambda>(k, v). update_message (msg_setHeader k v)) hs hp =
      hp\<lparr>hp_message := Some (put_headers hs m)\<rparr>"
    using fold_set_headers [OF assms(4), of hs] ci.set_all [of "[]" hs] assms(2,5) by simp
  ultimately show ?thesis
    unfolding text_eq readHeader_def by (simp add: set_headers_lines [OF assms(1)])
qed

section \<open>Whole messages\<close>

lemma recv_message_text:
  assumes "message_ok m"
  shows "\<exists>hp. http_recv slack HttpProtocol (message_text m @ ys) = (hp, ys, MESSAGE_READY) \<and>
    hp_message hp = Some m \<and>
    (case m of Request r \<Rightarrow> retrieveRequest hp = Some (r, HttpProtocol) \<and> retrieveResponse hp = None
             | Response r \<Rightarrow> retrieveResponse hp = Some (r, HttpProtocol) \<and> retrieveRequest hp = None)"
proof -
  have ok: "start_ok m" "ci.ordered (msg_headers m)" "list_all header_ok (msg_headers m)" "body_ok m"
    using assms by (auto simp: message_ok_def)
  let ?hs = "msg_headers m"
  let ?hp1 = "HttpProtocol\<lparr>hp_message := Some (start_message m), hp_status := READING_HEADER\<rparr>"
  let ?rest1 = "concat (map header_line ?hs) @ crlf @ msg_body m @ ys"
  have body: "c_string (msg_body m) = msg_body m"
    using ok(4) by (intro c_string_plain) (simp add: body_ok_def)
  have "http_handle slack HttpProtocol (message_text m @ ys) = (?hp1, ?rest1, 1)"
    using read_start_line [OF ok(1), of ?rest1]
    by (simp add: http_handle_def message_text_def body HttpProtocol_def)
  then have step1: "http_recv slack HttpProtocol (message_text m @ ys) = http_recv slack ?hp1 ?rest1"
    by (subst http_recv.simps) (simp add: http_dead_def HttpProtocol_def)
  have "\<exists>hp. http_recv slack ?hp1 ?rest1 = (hp, ys, MESSAGE_READY) \<and> hp_message hp = Some m \<and>
      hp_status hp = FINISHED \<and> http_reset hp = HttpProtocol"
  proof (cases "?hs = []")
    case True
    then have "msg_getHeader m (str ''Content-Length'') = []"
      by (cases m) (simp_all add: msg_getHeader_def getHeader_def msg_headers_def)
    then have "c_atoi (msg_getHeader m (str ''Content-Length'')) = 0"
      by (simp add: c_atoi_def split_sign_def dec_value_def)
    then have none: "msg_body m = []" using ok(4) by (auto simp: body_ok_def split: if_splits)
    then have "start_message m = m"
      using start_message_all [OF ok(1)] start_message_parts [of m] True msg_setBody_same [of "start_message m"]
      by (cases m) (auto simp: put_headers_def start_message_def msg_setBody_def setBody_def HttpRequest_def HttpResponse_def)
    then show ?thesis
      using True none
      by (subst http_recv.simps)
         (simp add: http_dead_def http_handle_def readHeader_def crlf_def http_reset_def HttpProtocol_def)
  next
    case False
    let ?m2 = "put_headers ?hs (start_message m)"
    let ?hp2 = "?hp1\<lparr>hp_message := Some ?m2, hp_status := READING_BODY\<rparr>"
    have "readHeader ?hp1 ?rest1 = (?hp2, msg_body m @ ys, 1)"
      by (rule read_headers [OF ok(3,2) False]) (simp_all add: start_message_parts)
    then have step2: "http_recv slack ?hp1 ?rest1 = http_recv slack ?hp2 (msg_body m @ ys)"
      by (subst http_recv.simps) (simp add: http_dead_def http_handle_def)
    let ?m3 = "msg_setBody (msg_body m) ?m2"
    have "readBody slack ?hp2 (msg_body m @ ys) =
        (?hp2\<lparr>hp_message := Some ?m3, hp_status := FINISHED\<rparr>, ys, 1)"
    proof (cases "msg_body m = []")
      case True
      then show ?thesis
        using ok(4) getHeader_headers [of ?m2 m] put_headers_body msg_setBody_same [of ?m2] start_message_parts(2) [of m]
        by (simp add: readBody_def the_message_def body_ok_def Let_def)
    next
      case False
      then show ?thesis
        using ok(4) getHeader_headers [of ?m2 m] put_headers_body
        by (simp add: readBody_def the_message_def body_ok_def Let_def update_message_def)
    qed
    then have step3: "http_recv slack ?hp2 (msg_body m @ ys) =
        (?hp2\<lparr>hp_message := Some ?m3, hp_status := FINISHED\<rparr>, ys, MESSAGE_READY)"
      using http_recv.simps [of slack ?hp2 "msg_body m @ ys"] by (simp add: http_dead_def http_handle_def)
    have "?m3 = m" by (rule start_message_all [OF ok(1)])
    then show ?thesis
      unfolding step2 step3 by (simp add: http_reset_def HttpProtocol_def)
  qed
  then show ?thesis
    using step1 by (cases m) (auto simp: retrieveRequest_def retrieveResponse_def)
qed

section \<open>Properties\<close>

text \<open>C32. Receiving the text of a message gives the message, leaves the bytes that follow unread,
  and retrieving it resets the parser.\<close>

theorem http_roundtrip:
  assumes "message_ok m"
  shows "\<exists>hp. http_recv slack HttpProtocol (message_text m @ ys) = (hp, ys, MESSAGE_READY) \<and>
    hp_message hp = Some m \<and>
    (case m of Request r \<Rightarrow> retrieveRequest hp = Some (r, HttpProtocol) \<and> retrieveResponse hp = None
             | Response r \<Rightarrow> retrieveResponse hp = Some (r, HttpProtocol) \<and> retrieveRequest hp = None)"
  by (rule recv_message_text [OF assms])

text \<open>A request with a header and a body, followed by the first byte of another one.\<close>

definition sample_request :: any_message where
  "sample_request = Request (HttpRequest\<lparr>hr_method := POST, hr_request_uri := str ''/a'', hm_version := HTTP_1_1,
     hm_headers := [(str ''Content-Length'', str ''2''), (str ''Host'', str ''b'')], hm_body := str ''ok''\<rparr>)"

lemma sample_request_ok: "message_ok sample_request"
  by code_simp

theorem http_roundtrip_witness:
  "\<exists>hp. http_recv [] HttpProtocol (message_text sample_request @ str ''G'') = (hp, str ''G'', MESSAGE_READY) \<and>
    hp_message hp = Some sample_request"
  using http_roundtrip [OF sample_request_ok, of "[]" "str ''G''"] by blast

end
