(* ===== verification/RandomMT.thy ===== *)
theory RandomMT
  imports Prelude
begin

text \<open>
  \<open>random.cc\<close>: the Mersenne Twister MT19937 and the numbers derived from it. \<open>nextInt\<close> is shown to
  give the tempered sequence of the published recurrence, and the numbers of a range to stay in it,
  with the rounding of \<open>double\<close> written out. Every access to the array of the state is checked against its
  bounds, as C++ does not.
\<close>

declare upt_rec_numeral [simp del]

section \<open>State and seeding\<close>

text \<open>\<open>mt_\<close> is an array of 624 words and C++ does not check an index. \<open>mt_fault\<close> records that a word outside
  \<open>mt_\<close> or outside the key was accessed; \<open>mt_touch\<close> goes before every access and is given the indices as the
  code computes them, in \<open>int\<close>. What such an access does to the words is not specified.\<close>

record random =
  mt :: "u32 list"
  mti :: nat
  mt_fault :: bool

definition mt_touch :: "int list \<Rightarrow> random \<Rightarrow> random" where
  "mt_touch is r = r\<lparr>mt_fault := (mt_fault r \<or> list_ex (\<lambda>i. i < 0 \<or> i \<ge> 624) is)\<rparr>"

definition mt_touch_key :: "u32 list \<Rightarrow> nat \<Rightarrow> random \<Rightarrow> random" where
  "mt_touch_key key j r = r\<lparr>mt_fault := (mt_fault r \<or> j \<ge> length key)\<rparr>"

definition put_word :: "nat \<Rightarrow> u32 \<Rightarrow> random \<Rightarrow> random" where
  "put_word i w r = r\<lparr>mt := (mt r)[i := w]\<rparr>"

text \<open>\<open>seed(s)\<close> overwrites every word of \<open>mt_\<close>.\<close>

definition seed_word :: "nat \<Rightarrow> random \<Rightarrow> random" where
  "seed_word i r =
     (let r1 = mt_touch [int i - 1, int i] r; w = mt r1 ! (i - 1)
      in put_word i (1812433253 * (w XOR drop_bit 30 w) + of_nat i) r1)"

definition seed :: "u32 \<Rightarrow> random \<Rightarrow> random" where
  "seed s r = (fold seed_word [1..<624] (put_word 0 s (mt_touch [0] r)))\<lparr>mti := 624\<rparr>"

text \<open>The loops of \<open>seed(key, key_length)\<close>: the generator, \<open>i\<close> and \<open>j\<close>. The end of an index is where the
  last word is copied to the first.\<close>

definition next_index :: "random \<Rightarrow> nat \<Rightarrow> random \<times> nat" where
  "next_index r i =
     (if Suc i \<ge> 624 then (put_word 0 (mt r ! 623) (mt_touch [623, 0] r), 1) else (r, Suc i))"

definition seed_mix1 :: "u32 list \<Rightarrow> random \<times> nat \<times> nat \<Rightarrow> random \<times> nat \<times> nat" where
  "seed_mix1 key = (\<lambda>(r, i, j).
     let r1 = mt_touch_key key j (mt_touch [int i - 1, int i] r); w = mt r1 ! (i - 1);
         (r2, i2) = next_index (put_word i ((mt r1 ! i XOR (w XOR drop_bit 30 w) * 1664525) + key ! j + of_nat j) r1) i
     in (r2, i2, if Suc j \<ge> length key then 0 else Suc j))"

definition seed_mix2 :: "random \<times> nat \<Rightarrow> random \<times> nat" where
  "seed_mix2 = (\<lambda>(r, i).
     let r1 = mt_touch [int i - 1, int i] r; w = mt r1 ! (i - 1)
     in next_index (put_word i ((mt r1 ! i XOR (w XOR drop_bit 30 w) * 1566083941) - of_nat i) r1) i)"

text \<open>The key has fewer than \<open>2 ^ 31\<close> words, so that \<open>(int)key_length\<close> is its length.\<close>

definition seed_key :: "u32 list \<Rightarrow> random \<Rightarrow> random" where
  "seed_key key r =
     (let (r1, i1, _) = (seed_mix1 key ^^ max 624 (length key)) (seed 19650218 r, 1, 0);
          (r2, _) = (seed_mix2 ^^ 623) (r1, i1)
      in put_word 0 0x80000000 (mt_touch [0] r2))"

text \<open>The seed of the default constructor, computed in \<open>int64_t\<close> from the clock and cut to 32 bits.\<close>

definition clock_seed :: "int \<Rightarrow> int \<Rightarrow> u32" where
  "clock_seed sec msec = of_int (sec + (if odd sec then -1 else 1) * msec * 24 * 60 * 60)"

text \<open>The constructors; \<open>mt_\<close> is not initialised before the seeding.\<close>

definition Random :: "u32 list \<Rightarrow> u32 \<Rightarrow> random" where
  "Random raw s = seed s \<lparr>mt = raw, mti = 0, mt_fault = False\<rparr>"

definition Random_key :: "u32 list \<Rightarrow> u32 list \<Rightarrow> random" where
  "Random_key raw key = seed_key key \<lparr>mt = raw, mti = 0, mt_fault = False\<rparr>"

definition Random_clock :: "u32 list \<Rightarrow> int \<Rightarrow> int \<Rightarrow> random" where
  "Random_clock raw sec msec = seed (clock_seed sec msec) \<lparr>mt = raw, mti = 0, mt_fault = False\<rparr>"

section \<open>Numbers\<close>

definition MATRIX_A :: u32 where "MATRIX_A = 0x9908b0df"
definition UPPER_MASK :: u32 where "UPPER_MASK = 0x80000000"
definition LOWER_MASK :: u32 where "LOWER_MASK = 0x7fffffff"

definition mag01 :: "u32 \<Rightarrow> u32" where
  "mag01 x = (if x = 0 then 0 else MATRIX_A)"

text \<open>The new word at \<open>i\<close> from the words at \<open>i\<close>, at \<open>j\<close> and at \<open>m\<close>.\<close>

definition generate :: "nat \<Rightarrow> nat \<Rightarrow> nat \<Rightarrow> random \<Rightarrow> random" where
  "generate i j m r =
     (let r1 = mt_touch [int i, int j, int m] r;
          y = (mt r1 ! i AND UPPER_MASK) OR (mt r1 ! j AND LOWER_MASK)
      in put_word i (mt r1 ! m XOR drop_bit 1 y XOR mag01 (y AND 1)) r1)"

definition refill :: "random \<Rightarrow> random" where
  "refill r =
     (let r1 = fold (\<lambda>i. generate i (i + 1) (i + 397)) [0..<227] r;
          r2 = fold (\<lambda>i. generate i (i + 1) (i - 227)) [227..<623] r1
      in (generate 623 0 396 r2)\<lparr>mti := 0\<rparr>)"

definition temper :: "u32 \<Rightarrow> u32" where
  "temper y0 =
     (let y1 = y0 XOR drop_bit 11 y0;
          y2 = y1 XOR (push_bit 7 y1 AND 0x9d2c5680);
          y3 = y2 XOR (push_bit 15 y2 AND 0xefc60000)
      in y3 XOR drop_bit 18 y3)"

definition nextInt :: "random \<Rightarrow> u32 \<times> random" where
  "nextInt r =
     (let r1 = (if mti r \<ge> 624 then refill r else r);
          r2 = mt_touch [int (mti r1)] r1
      in (temper (mt r2 ! mti r2), r2\<lparr>mti := Suc (mti r2)\<rparr>))"

text \<open>\<open>nextDouble\<close>: \<open>a * 2 ^ 26 + b\<close> is below \<open>2 ^ 53\<close> and the factor is a power of two, so no step
  rounds; the result is given as its multiple of \<open>2 ^ -53\<close>.\<close>

definition nextDouble :: "random \<Rightarrow> nat \<times> random" where
  "nextDouble r =
     (let (a, r1) = nextInt r; (b, r2) = nextInt r1
      in (unat (drop_bit 5 a) * 67108864 + unat (drop_bit 6 b), r2))"

text \<open>A product is rounded to 53 significant bits, to nearest and a tie to even.\<close>

fun bit_length :: "nat \<Rightarrow> nat" where
  "bit_length n = (if n = 0 then 0 else Suc (bit_length (n div 2)))"

declare bit_length.simps [simp del]

definition round_double :: "nat \<Rightarrow> nat" where
  "round_double n =
     (let ulp = 2 ^ (bit_length n - 53);
          q = n div ulp;
          rest = n mod ulp
      in (if 2 * rest < ulp \<or> 2 * rest = ulp \<and> even q then q else Suc q) * ulp)"

definition nextInt_max :: "random \<Rightarrow> u32 \<Rightarrow> u32 \<times> random" where
  "nextInt_max r hi =
     (let (d, r1) = nextDouble r
      in (of_nat (round_double (d * unat hi) div 2 ^ 53), r1))"

definition nextInt_range :: "random \<Rightarrow> u32 \<Rightarrow> u32 \<Rightarrow> u32 \<times> random" where
  "nextInt_range r lo hi =
     (if lo \<ge> hi then (lo, r)
      else let (v, r1) = nextInt_max r (hi - lo + 1) in (lo + v, r1))"

section \<open>The accesses stay inside the array\<close>

definition random_ok :: "random \<Rightarrow> bool" where
  "random_ok r \<longleftrightarrow> length (mt r) = 624 \<and> mti r \<le> 624"

definition in_bounds :: "random \<Rightarrow> bool" where
  "in_bounds r \<longleftrightarrow> random_ok r \<and> \<not> mt_fault r"

lemma array_sel [simp]:
  "mt (mt_touch is r) = mt r" "mti (mt_touch is r) = mti r" "mti (put_word i w r) = mti r"
  "mt (put_word i w r) = (mt r)[i := w]" "mt_fault (put_word i w r) = mt_fault r"
  "mt (mt_touch_key key j r) = mt r" "mti (mt_touch_key key j r) = mti r"
  "mt_fault (mt_touch_key key j r) \<longleftrightarrow> mt_fault r \<or> j \<ge> length key"
  "mt_fault (mt_touch is r) \<longleftrightarrow> mt_fault r \<or> (\<exists>i \<in> set is. i < 0 \<or> i \<ge> 624)"
  by (auto simp: mt_touch_def put_word_def mt_touch_key_def list_ex_iff)

lemma fold_kept: "P r \<Longrightarrow> (\<And>x r. x \<in> set xs \<Longrightarrow> P r \<Longrightarrow> P (f x r)) \<Longrightarrow> P (fold f xs r)"
  by (induction xs arbitrary: r) simp_all

lemma funpow_kept: "P x \<Longrightarrow> (\<And>x. P x \<Longrightarrow> P (f x)) \<Longrightarrow> P ((f ^^ n) x)"
  by (induction n) simp_all

definition words_ok :: "random \<Rightarrow> bool" where
  "words_ok r \<longleftrightarrow> length (mt r) = 624 \<and> \<not> mt_fault r"

lemma generate_ok: "words_ok r \<Longrightarrow> i < 624 \<Longrightarrow> j < 624 \<Longrightarrow> m < 624 \<Longrightarrow> words_ok (generate i j m r)"
  by (simp add: generate_def Let_def words_ok_def)

lemma refill_ok:
  assumes "words_ok r"
  shows "words_ok (refill r)" and "mti (refill r) = 0"
proof -
  let ?r1 = "fold (\<lambda>i. generate i (i + 1) (i + 397)) [0..<227] r"
  let ?r2 = "fold (\<lambda>i. generate i (i + 1) (i - 227)) [227..<623] ?r1"
  have "words_ok ?r1" by (rule fold_kept [of words_ok]) (use assms generate_ok in auto)
  then have "words_ok ?r2" by (rule fold_kept [of words_ok]) (use generate_ok in auto)
  then have "words_ok (generate 623 0 396 ?r2)" by (rule generate_ok) simp_all
  then show "words_ok (refill r)" by (simp add: refill_def Let_def words_ok_def)
  show "mti (refill r) = 0" by (simp add: refill_def Let_def)
qed

lemma in_bounds_words: "in_bounds r \<longleftrightarrow> words_ok r \<and> mti r \<le> 624"
  by (auto simp: in_bounds_def random_ok_def words_ok_def)

lemma seed_ok: "words_ok r \<Longrightarrow> in_bounds (seed s r)"
proof -
  assume "words_ok r"
  then have start: "words_ok (put_word 0 s (mt_touch [0] r))" by (simp add: words_ok_def)
  have "words_ok (fold seed_word [1..<624] (put_word 0 s (mt_touch [0] r)))"
    by (rule fold_kept [of words_ok, OF start]) (auto simp: seed_word_def Let_def words_ok_def)
  then show ?thesis by (simp add: seed_def in_bounds_words words_ok_def)
qed

text \<open>The indices of the key loops: \<open>i\<close> runs around \<open>mt_\<close> from 1 on, \<open>j\<close> around the key.\<close>

definition mix_ok :: "u32 list \<Rightarrow> random \<times> nat \<times> nat \<Rightarrow> bool" where
  "mix_ok key = (\<lambda>(r, i, j). in_bounds r \<and> 1 \<le> i \<and> i < 624 \<and> j < length key)"

lemma next_index_ok:
  "in_bounds r \<Longrightarrow> 1 \<le> i \<Longrightarrow> i < 624 \<Longrightarrow>
    in_bounds (fst (next_index r i)) \<and> 1 \<le> snd (next_index r i) \<and> snd (next_index r i) < 624"
  by (simp add: next_index_def in_bounds_def random_ok_def)

lemma put_word_ok: "in_bounds r \<Longrightarrow> in_bounds (put_word i w r)"
  by (simp add: in_bounds_def random_ok_def)

lemma seed_mix1_ok:
  assumes "mix_ok key st"
  shows "mix_ok key (seed_mix1 key st)"
proof -
  obtain r i j where st: "st = (r, i, j)" by (cases st) blast
  have ok: "in_bounds r" "1 \<le> i" "i < 624" "j < length key" using assms by (simp_all add: st mix_ok_def)
  then have "in_bounds (mt_touch_key key j (mt_touch [int i - 1, int i] r))" by (simp add: in_bounds_def random_ok_def)
  from next_index_ok [OF put_word_ok [OF this] ok(2,3)] show ?thesis
    using ok(4) by (auto simp: st seed_mix1_def mix_ok_def Let_def split_beta)
qed

lemma seed_mix2_ok:
  assumes "in_bounds (fst st)" and "1 \<le> snd st" and "snd st < 624"
  shows "in_bounds (fst (seed_mix2 st)) \<and> 1 \<le> snd (seed_mix2 st) \<and> snd (seed_mix2 st) < 624"
proof -
  have "in_bounds (mt_touch [int (snd st) - 1, int (snd st)] (fst st))"
    using assms by (simp add: in_bounds_def random_ok_def)
  from next_index_ok [OF put_word_ok [OF this] assms(2,3)] show ?thesis
    by (simp add: seed_mix2_def Let_def split_beta)
qed

lemma seed_key_ok:
  assumes "words_ok r" and "key \<noteq> []"
  shows "in_bounds (seed_key key r)"
proof -
  define st1 where "st1 = (seed_mix1 key ^^ max 624 (length key)) (seed 19650218 r, 1, 0)"
  define st2 where "st2 = (seed_mix2 ^^ 623) (fst st1, fst (snd st1))"
  have "mix_ok key (seed 19650218 r, 1, 0)" using seed_ok [OF assms(1)] assms(2) by (simp add: mix_ok_def)
  then have "mix_ok key st1" unfolding st1_def by (rule funpow_kept [of "mix_ok key"]) (rule seed_mix1_ok)
  then have "in_bounds (fst st1) \<and> 1 \<le> fst (snd st1) \<and> fst (snd st1) < 624" by (simp add: mix_ok_def split_beta)
  then have "in_bounds (fst st2) \<and> 1 \<le> snd st2 \<and> snd st2 < 624"
    unfolding st2_def
    by (intro funpow_kept [of "\<lambda>st. in_bounds (fst st) \<and> 1 \<le> snd st \<and> snd st < 624"] seed_mix2_ok) simp_all
  moreover have "seed_key key r = put_word 0 0x80000000 (mt_touch [0] (fst st2))"
    by (simp only: seed_key_def st1_def st2_def Let_def split_beta)
  ultimately show ?thesis by (simp add: in_bounds_def random_ok_def)
qed

lemma nextInt_ok: "in_bounds r \<Longrightarrow> in_bounds (snd (nextInt r))"
  using refill_ok [of r] by (auto simp: in_bounds_words words_ok_def nextInt_def Let_def)

lemma nextDouble_ok: "in_bounds r \<Longrightarrow> in_bounds (snd (nextDouble r))"
  by (simp add: nextDouble_def split_beta nextInt_ok)

lemma nextInt_max_ok: "in_bounds r \<Longrightarrow> in_bounds (snd (nextInt_max r hi))"
  by (simp add: nextInt_max_def split_beta nextDouble_ok)

lemma nextInt_range_ok: "in_bounds r \<Longrightarrow> in_bounds (snd (nextInt_range r lo hi))"
  by (simp add: nextInt_range_def split_beta nextInt_max_ok)

text \<open>A fault is not forgotten, and an empty key is one: its first word is read.\<close>

lemma fault_kept:
  "mt_fault r \<Longrightarrow> mt_fault (fst (seed_mix1 key (r, ij)))" "mt_fault r \<Longrightarrow> mt_fault (fst (seed_mix2 (r, i)))"
  by (auto simp: seed_mix1_def seed_mix2_def next_index_def Let_def split: prod.split)

lemma empty_key_faults: "mt_fault (seed_key [] r)"
proof -
  have "mt_fault (fst (seed_mix1 [] (r, i, j)))" for r i j
    by (simp add: seed_mix1_def next_index_def Let_def)
  then have one: "mt_fault (fst (seed_mix1 [] st))" for st by (cases st) auto
  have "(624 :: nat) = Suc 623" by simp
  then have mixed: "mt_fault (fst ((seed_mix1 [] ^^ 624) st))" for st
    by (simp only: funpow.simps o_apply one)
  have "mt_fault (fst ((seed_mix2 ^^ n) (r, i)))" if "mt_fault r" for n r i
    by (rule funpow_kept [of "\<lambda>st. mt_fault (fst st)"]) (use that fault_kept(2) in auto)
  then have "mt_fault (fst ((seed_mix2 ^^ 623) (fst st, fst (snd st))))" if "mt_fault (fst st)" for st :: "random \<times> nat \<times> nat"
    using that by blast
  from this [OF mixed [of "(seed 19650218 r, 1, 0)"]] show ?thesis
    by (simp only: seed_key_def Let_def split_beta list.size max_0R array_sel) simp
qed

section \<open>The recurrence\<close>

text \<open>The step of the published generator and its tempering, with the constants of the publication.\<close>

definition twist :: "u32 \<Rightarrow> u32 \<Rightarrow> u32 \<Rightarrow> u32" where
  "twist u v m =
     (let y = (u AND 2147483648) OR (v AND 2147483647)
      in m XOR drop_bit 1 y XOR (if bit y 0 then 2567483615 else 0))"

definition mt_temper :: "u32 \<Rightarrow> u32" where
  "mt_temper x =
     (let x1 = x XOR drop_bit 11 x;
          x2 = x1 XOR (push_bit 7 x1 AND 2636928640);
          x3 = x2 XOR (push_bit 15 x2 AND 4022730752)
      in x3 XOR drop_bit 18 x3)"

lemma temper_published: "temper = mt_temper"
  by (simp add: fun_eq_iff temper_def mt_temper_def)

lemma generate_twist:
  "mt (generate i j m r) = (mt r)[i := twist (mt r ! i) (mt r ! j) (mt r ! m)]"
proof -
  have "mag01 (y AND 1) = (if bit y 0 then 2567483615 else 0)" for y
    by (simp add: mag01_def MATRIX_A_def and_one_eq bit_0 odd_iff_mod_2_eq_one)
  then show ?thesis by (simp add: generate_def twist_def Let_def UPPER_MASK_def LOWER_MASK_def)
qed

text \<open>The published sequence: 624 start words, then each word from three earlier ones.\<close>

function mt_word :: "u32 list \<Rightarrow> nat \<Rightarrow> u32" where
  "mt_word start k =
     (if k < 624 then start ! k
      else twist (mt_word start (k - 624)) (mt_word start (k - 623)) (mt_word start (k - 227)))"
  by pat_completeness auto
termination by (relation "measure snd") auto

declare mt_word.simps [simp del]

lemma mt_word_start: "k < 624 \<Longrightarrow> mt_word start k = start ! k"
  by (simp add: mt_word.simps)

lemma mt_word_next:
  "mt_word start (624 + k) = twist (mt_word start k) (mt_word start (Suc k)) (mt_word start (k + 397))"
  by (subst mt_word.simps) (simp add: add.commute)

text \<open>The three parts of the refill are one loop around the array.\<close>

definition round_step :: "nat \<Rightarrow> random \<Rightarrow> random" where
  "round_step i = generate i (Suc i mod 624) ((i + 397) mod 624)"

lemma refill_loop: "refill r = (fold round_step [0..<624] r)\<lparr>mti := 0\<rparr>"
proof -
  have one: "fold round_step [0..<227] r = fold (\<lambda>i. generate i (i + 1) (i + 397)) [0..<227] r" for r
    by (rule fold_cong) (simp_all add: round_step_def)
  have two: "fold round_step [227..<623] r = fold (\<lambda>i. generate i (i + 1) (i - 227)) [227..<623] r" for r
  proof (rule fold_cong [OF refl refl])
    fix i assume "i \<in> set [227..<623]"
    then have "(i + 397) mod 624 = i - 227" "Suc i mod 624 = i + 1" by (auto simp: mod_if)
    then show "round_step i = generate i (i + 1) (i - 227)" by (simp add: round_step_def)
  qed
  have "[0..<624] = [0..<227] @ [227..<623] @ [623]"
    using upt_add_eq_append [of 0 227 397] upt_add_eq_append [of 227 623 1] upt_conv_Cons [of 623 624] by simp
  then show ?thesis
    by (simp only: fold_append o_apply one two fold.simps id_apply refill_def Let_def)
       (simp add: round_step_def)
qed

definition window :: "u32 list \<Rightarrow> nat \<Rightarrow> u32 list \<Rightarrow> bool" where
  "window start b ws \<longleftrightarrow> ws = map (mt_word start) [b..<b + 624]"

lemma round_steps:
  assumes "mt r = map (mt_word start) [b..<b + 624]" and "n \<le> 624"
  shows "mt (fold round_step [0..<n] r) = map (\<lambda>i. mt_word start (if i < n then b + 624 + i else b + i)) [0..<624]"
  using assms(2)
proof (induction n)
  case 0
  show ?case by (rule nth_equalityI) (simp_all add: assms(1))
next
  case (Suc n)
  let ?ws = "map (\<lambda>i. mt_word start (if i < n then b + 624 + i else b + i)) [0..<624]"
  have at: "?ws ! (i mod 624) = mt_word start (b + i)" if "n \<le> i" "i \<le> n + 624" "\<not> (i = n + 624)" for i
  proof (cases "i < 624")
    case False
    then have "i mod 624 = i - 624" "i - 624 < n" using that Suc.prems by (auto simp: mod_if)
    then show ?thesis using False Suc.prems by simp
  qed (use that in simp)
  have "mt (fold round_step [0..<n] r) = ?ws" using Suc by simp
  then have "mt (fold round_step [0..<Suc n] r) = ?ws[n := twist (?ws ! n) (?ws ! (Suc n mod 624)) (?ws ! ((n + 397) mod 624))]"
    by (simp add: round_step_def generate_twist del: nth_map)
  also have "\<dots> = ?ws[n := mt_word start (624 + (b + n))]"
    using at [of n] at [of "Suc n"] at [of "n + 397"] Suc.prems
    by (simp add: mt_word_next [of start "b + n"] add.assoc del: nth_map)
  also have "\<dots> = map (\<lambda>i. mt_word start (if i < Suc n then b + 624 + i else b + i)) [0..<624]"
    by (rule nth_equalityI) (auto simp: nth_list_update less_Suc_eq ac_simps)
  finally show ?case .
qed

lemma refill_window: "window start b (mt r) \<Longrightarrow> window start (b + 624) (mt (refill r))" "mti (refill r) = 0"
  using round_steps [of r start b 624]
  by (auto simp: window_def refill_loop intro!: nth_equalityI)

section \<open>Rounding\<close>

lemma bit_length_bounds: "n < 2 ^ bit_length n" "0 < n \<Longrightarrow> 2 ^ bit_length n \<le> 2 * n"
proof (induction n rule: bit_length.induct)
  case (1 n)
  { case 1 then show ?case using "1.IH"(1) by (subst bit_length.simps) auto }
  { case 2
    then show ?case
      using "1.IH"(2) by (subst bit_length.simps) (cases "n = 1"; auto simp: bit_length.simps) }
qed

text \<open>Rounding moves a number by at most half a unit in the last place.\<close>

lemma round_double_le: "2 * round_double n \<le> 2 * n + (if bit_length n \<le> 53 then 0 else 2 ^ (bit_length n - 53))"
proof -
  define s where "s = bit_length n - 53"
  define q where "q = n div 2 ^ s"
  define rest where "rest = n mod 2 ^ s"
  have n: "n = q * 2 ^ s + rest" unfolding q_def rest_def by (rule div_mult_mod_eq [symmetric])
  have round: "round_double n =
      (if 2 * rest < 2 ^ s \<or> 2 * rest = 2 ^ s \<and> even q then q else Suc q) * 2 ^ s"
    by (simp add: round_double_def Let_def s_def q_def rest_def)
  show ?thesis
  proof (cases "s = 0")
    case True
    then have "rest = 0" by (simp add: rest_def)
    then show ?thesis using True n round by simp
  next
    case False
    then have half: "(if bit_length n \<le> 53 then 0 else 2 ^ (bit_length n - 53)) = (2 ^ s :: nat)"
      by (simp add: s_def)
    show ?thesis
    proof (cases "2 * rest < 2 ^ s \<or> 2 * rest = 2 ^ s \<and> even q")
      case True
      then have "round_double n = q * 2 ^ s" using round by simp
      then show ?thesis using n half by linarith
    next
      case False
      then have "round_double n = q * 2 ^ s + 2 ^ s" "2 ^ s \<le> 2 * rest" using round by auto
      then show ?thesis using n half by linarith
    qed
  qed
qed

lemma round_double_0 [simp]: "round_double 0 = 0"
  by (simp add: round_double_def Let_def bit_length.simps [of 0])

lemma scaled_below:
  assumes "d < 2 ^ 53" and "0 < m"
  shows "round_double (d * m) div 2 ^ 53 < m"
proof -
  let ?n = "d * m"
  have "Suc d \<le> 2 ^ 53" using assms(1) by simp
  then have "Suc d * m \<le> 2 ^ 53 * m" by (rule mult_le_mono1)
  then have n: "?n + m \<le> 2 ^ 53 * m" by simp
  have "2 * round_double ?n < 2 * (2 ^ 53 * m)"
  proof (cases "bit_length ?n \<le> 53")
    case True
    then have "2 * round_double ?n \<le> 2 * ?n" using round_double_le [of ?n] by simp
    then show ?thesis using n assms(2) by linarith
  next
    case False
    then have "?n > 0" by (cases "?n = 0") (auto simp: bit_length.simps)
    then have "2 ^ bit_length ?n \<le> 2 * ?n" by (rule bit_length_bounds(2))
    moreover have "(2 :: nat) ^ bit_length ?n = 2 ^ (bit_length ?n - 53) * 2 ^ 53"
      unfolding power_add [symmetric] using False by simp
    ultimately have "2 ^ (bit_length ?n - 53) * 2 ^ 53 \<le> 2 * ?n" by linarith
    also have "\<dots> < 2 * (2 ^ 53 * m)" using n assms(2) by simp
    finally have "(2 ^ (bit_length ?n - 53) :: nat) < 2 * m" by simp
    moreover have "2 * round_double ?n \<le> 2 * ?n + 2 ^ (bit_length ?n - 53)"
      using round_double_le [of ?n] False by simp
    ultimately show ?thesis using n by linarith
  qed
  then show ?thesis by (simp add: less_mult_imp_div_less mult.commute)
qed

lemma nextDouble_below: "fst (nextDouble r) < 2 ^ 53"
proof -
  have parts: "unat (drop_bit 5 a) < 2 ^ 27" "unat (drop_bit 6 a) < 2 ^ 26" for a :: u32
    using unsigned_less [of a, where ?'a = nat] by (auto simp: unat_drop_bit less_mult_imp_div_less)
  show ?thesis
    using parts(1) [of "fst (nextInt r)"] parts(2) [of "fst (nextInt (snd (nextInt r)))"]
    by (simp add: nextDouble_def split_beta)
qed

lemma nextInt_max_below: "0 < hi \<Longrightarrow> fst (nextInt_max r hi) < hi"
proof -
  assume "0 < hi"
  then have "round_double (fst (nextDouble r) * unat hi) div 2 ^ 53 < unat hi"
    by (intro scaled_below nextDouble_below) (simp add: unat_gt_0)
  then show ?thesis by (simp add: nextInt_max_def split_beta of_nat_less_iff word_less_nat_alt unat_of_nat mod_less)
qed

section \<open>The sequence of numbers\<close>

fun nextInts :: "nat \<Rightarrow> random \<Rightarrow> u32 list \<times> random" where
  "nextInts 0 r = ([], r)"
| "nextInts (Suc n) r =
     (let (x, r1) = nextInt r; (xs, r2) = nextInts n r1 in (x # xs, r2))"

text \<open>The state holds a window of the recurrence and stands at position \<open>p\<close> of it.\<close>

definition stands_at :: "u32 list \<Rightarrow> nat \<Rightarrow> random \<Rightarrow> bool" where
  "stands_at start p r \<longleftrightarrow> (\<exists>b. window start b (mt r) \<and> p = b + mti r \<and> mti r \<le> 624)"

lemma stands_at_start: "random_ok r \<Longrightarrow> stands_at (mt r) (mti r) r"
  unfolding stands_at_def window_def random_ok_def
  by (intro exI [of _ 0]) (auto intro!: nth_equalityI simp: mt_word_start)

lemma nextInt_stands_at:
  assumes "stands_at start p r"
  shows "fst (nextInt r) = mt_temper (mt_word start p)" and "stands_at start (Suc p) (snd (nextInt r))"
proof -
  obtain b where b: "window start b (mt r)" "p = b + mti r" "mti r \<le> 624"
    using assms by (auto simp: stands_at_def)
  have refilled: "window start (b + 624) (mt (refill r))" by (rule refill_window(1) [OF b(1)])
  have at: "ws ! i = mt_word start (c + i)" if "window start c ws" "i < 624" for c ws i
    using that by (simp add: window_def)
  show "fst (nextInt r) = mt_temper (mt_word start p)"
    using at [OF b(1)] at [OF refilled, of 0] b(2,3)
    by (auto simp: nextInt_def Let_def temper_published refill_window(2))
  show "stands_at start (Suc p) (snd (nextInt r))"
    unfolding stands_at_def
    by (rule exI [of _ "if mti r < 624 then b else b + 624"])
       (use b refilled in \<open>auto simp: nextInt_def Let_def refill_window(2)\<close>)
qed

lemma nextInts_stands_at:
  "stands_at start p r \<Longrightarrow> fst (nextInts n r) = map (\<lambda>k. mt_temper (mt_word start (p + k))) [0..<n]"
proof (induction n arbitrary: p r)
  case (Suc n)
  have "fst (nextInts (Suc n) r) = fst (nextInt r) # fst (nextInts n (snd (nextInt r)))"
    by (simp add: split_beta Let_def)
  then show ?case
    using nextInt_stands_at [OF Suc.prems] Suc.IH [of "Suc p"]
    by (simp add: upt_conv_Cons map_Suc_upt [symmetric] del: upt_Suc)
qed simp

section \<open>Properties\<close>

text \<open>C37. The numbers of \<open>nextInt\<close> are the tempered words of the published recurrence, with the published
  constants, from the
  position of the index on, however often the 624 words are generated anew.\<close>

theorem nextInt_is_MT19937:
  assumes "random_ok r"
  shows "fst (nextInts n r) = map (\<lambda>k. mt_temper (mt_word (mt r) (mti r + k))) [0..<n]"
  by (rule nextInts_stands_at [OF stands_at_start [OF assms]])

theorem nextInt_is_MT19937_witness:
  "fst (nextInts 2000 (Random (replicate 624 0) 5489)) =
    map (\<lambda>k. mt_temper (mt_word (mt (Random (replicate 624 0) 5489)) (624 + k))) [0..<2000]"
proof -
  have "random_ok (Random (replicate 624 0) 5489)"
    using seed_ok by (simp add: Random_def words_ok_def in_bounds_def)
  from nextInt_is_MT19937 [OF this, of 2000] show ?thesis by (simp add: Random_def seed_def)
qed

text \<open>C38. A number below a positive bound is below it and a number of a range is in it, in spite of
  the rounding; the range of all 32-bit numbers is the exception, where the result is always 0.\<close>

theorem nextInt_in_range:
  assumes "lo \<le> hi"
  shows "(n = 0 \<or> fst (nextInt_max r n) < n) \<and>
    (if lo = 0 \<and> hi = 2 ^ 32 - 1 then fst (nextInt_range r lo hi) = 0
     else lo \<le> fst (nextInt_range r lo hi) \<and> fst (nextInt_range r lo hi) \<le> hi)"
proof
  show "n = 0 \<or> fst (nextInt_max r n) < n"
    using nextInt_max_below [of n r] by (auto simp: word_gt_0)
  show "if lo = 0 \<and> hi = 2 ^ 32 - 1 then fst (nextInt_range r lo hi) = 0
     else lo \<le> fst (nextInt_range r lo hi) \<and> fst (nextInt_range r lo hi) \<le> hi"
  proof (cases "lo = 0 \<and> hi = 2 ^ 32 - 1 \<or> lo = hi")
    case True
    then show ?thesis by (auto simp: nextInt_range_def nextInt_max_def split_beta)
  next
    case False
    then have "unat (hi - lo + 1) = unat hi - unat lo + 1"
      using assms unsigned_less [of hi, where ?'a = nat]
      by (auto simp: unat_word_ariths unat_sub word_le_nat_alt word_unat_eq_iff)
    moreover from this have "fst (nextInt_max r (hi - lo + 1)) < hi - lo + 1"
      by (intro nextInt_max_below) (simp add: word_less_nat_alt)
    ultimately show ?thesis
      using False assms unsigned_less [of hi, where ?'a = nat]
      by (auto simp: nextInt_range_def split_beta word_le_nat_alt word_less_nat_alt unat_word_ariths)
  qed
qed

theorem nextInt_in_range_witness:
  "fst (nextInt_range (Random [] 1) 10 20) \<le> 20 \<and> 10 \<le> fst (nextInt_range (Random [] 1) 10 20)"
  using nextInt_in_range [of 10 20 0 "Random [] 1"] by simp

text \<open>The calls on a generator.\<close>

datatype random_call = Seed u32 | SeedKey "u32 list" | NextInt | NextDouble | NextIntMax u32 | NextIntRange u32 u32

fun random_apply :: "random_call \<Rightarrow> random \<Rightarrow> random" where
  "random_apply (Seed s) r = seed s r"
| "random_apply (SeedKey key) r = seed_key key r"
| "random_apply NextInt r = snd (nextInt r)"
| "random_apply NextDouble r = snd (nextDouble r)"
| "random_apply (NextIntMax hi) r = snd (nextInt_max r hi)"
| "random_apply (NextIntRange lo hi) r = snd (nextInt_range r lo hi)"

definition key_ok :: "u32 list \<Rightarrow> bool" where
  "key_ok key \<longleftrightarrow> key \<noteq> [] \<and> length key < 2 ^ 31"

fun call_ok :: "random_call \<Rightarrow> bool" where
  "call_ok (SeedKey key) \<longleftrightarrow> key_ok key"
| "call_ok _ \<longleftrightarrow> True"

text \<open>C39. Through every constructor and every sequence of calls with keys that are not empty, every access to
  the array \<open>mt_\<close> and to a key is inside it, in the loops of both seedings, in the generation of new words and
  in the reading of the next; the state has its 624 words, and its index is at most 624. With an empty key
  the seeding reads past the end of the key.\<close>

theorem random_in_bounds:
  assumes "length raw = 624" and "r \<in> {Random raw s, Random_key raw key, Random_clock raw sec msec}"
    and "key_ok key" and "\<forall>c \<in> set calls. call_ok c"
  shows "\<not> mt_fault (fold random_apply calls r) \<and> random_ok (fold random_apply calls r) \<and>
    mt_fault (Random_key raw [])"
proof -
  have "words_ok \<lparr>mt = raw, mti = 0, mt_fault = False\<rparr>" using assms(1) by (simp add: words_ok_def)
  then have "in_bounds r"
    using assms(2,3) by (auto simp: Random_def Random_key_def Random_clock_def key_ok_def intro!: seed_ok seed_key_ok)
  moreover have "in_bounds (random_apply c r)" if "in_bounds r" "call_ok c" for c r
    using that seed_ok seed_key_ok nextInt_ok nextDouble_ok nextInt_max_ok nextInt_range_ok
    by (cases c) (auto simp: in_bounds_words key_ok_def)
  ultimately have "in_bounds (fold random_apply calls r)"
    using assms(4) by (intro fold_kept [of in_bounds]) auto
  then show ?thesis by (simp add: in_bounds_def Random_key_def empty_key_faults)
qed

theorem random_in_bounds_witness:
  "\<not> mt_fault (fold random_apply [NextInt, NextIntRange 3 8, SeedKey [1, 2], NextDouble]
     (Random_key (replicate 624 0) [0x123, 0x234, 0x345, 0x456]))"
  using random_in_bounds [of "replicate 624 0" "Random_key (replicate 624 0) [0x123, 0x234, 0x345, 0x456]" 0
      "[0x123, 0x234, 0x345, 0x456]" 0 0 "[NextInt, NextIntRange 3 8, SeedKey [1, 2], NextDouble]"]
  by (simp add: key_ok_def)

end
