(* ===== verification/SocketAddress.thy ===== *)
theory SocketAddress
  imports DecimalText HashBlock
begin

text \<open>
  \<open>socket_address.cc\<close>: an address kept as text (IP and port), as the native structure, or both, each
  form computed from the other on demand. \<open>inet_pton\<close> and \<open>inet_ntop\<close> of the C library are written out
  for IPv4; for IPv6 they are the parameters \<open>pton6\<close> and \<open>ntop6\<close>.
\<close>

section \<open>IPv4 text\<close>

text \<open>One number of a dotted address: up to three digits, at most 255, no leading zero. An address in
  memory is the list of its bytes in network order.\<close>

definition octet_of :: "bytes \<Rightarrow> byte option" where
  "octet_of f = (if canonical f \<and> length f \<le> 3 \<and> dec_value f \<le> 255 then Some (of_int (dec_value f)) else None)"

definition inet_pton4 :: "bytes \<Rightarrow> bytes option" where
  "inet_pton4 src =
     (let fields = split (c_string src) (str ''.'') [] (-1);
          octets = map octet_of fields
      in if length fields = 4 \<and> None \<notin> set octets then Some (map the octets) else None)"

definition inet_ntop4 :: "bytes \<Rightarrow> bytes" where
  "inet_ntop4 addr = join (str ''.'') (map (\<lambda>b. decimal (unat b)) addr)"

section \<open>Native addresses\<close>

text \<open>The union \<open>NativeAddress\<close>: zeroed, or one of the two structures; ports and addresses as their
  bytes in memory. \<open>Sockaddr_other\<close> is any other family.\<close>

datatype sockaddr =
  Sockaddr_zero
| Sockaddr_in bytes bytes
| Sockaddr_in6 bytes u32 bytes u32
| Sockaddr_other

datatype sa_protocol = PROTOCOL_UNKNOWN | IP_V4 | IP_V6

record socket_address =
  sa_has_addr :: bool
  sa_ip :: bytes
  sa_port :: u16
  sa_has_native :: bool
  sa_protocol :: sa_protocol
  sa_native :: sockaddr
  sa_native_size :: nat

definition ntohs :: "bytes \<Rightarrow> u16" where
  "ntohs b = ucast (b ! 1) OR push_bit 8 (ucast (b ! 0))"

definition SocketAddress :: socket_address where
  "SocketAddress = \<lparr>sa_has_addr = False, sa_ip = [], sa_port = 0, sa_has_native = False,
     sa_protocol = PROTOCOL_UNKNOWN, sa_native = Sockaddr_zero, sa_native_size = 0\<rparr>"

definition SocketAddress_of :: "bytes \<Rightarrow> u16 \<Rightarrow> socket_address" where
  "SocketAddress_of ip port = \<lparr>sa_has_addr = True, sa_ip = ip, sa_port = port, sa_has_native = False,
     sa_protocol = PROTOCOL_UNKNOWN, sa_native = Sockaddr_zero, sa_native_size = 0\<rparr>"

text \<open>\<open>inet_ntop\<close> cannot fail here: its buffers hold every address.\<close>

definition translateNativeAddressToAddress :: "(bytes \<Rightarrow> bytes) \<Rightarrow> socket_address \<Rightarrow> socket_address" where
  "translateNativeAddressToAddress ntop6 sa =
     (let sa1 = sa\<lparr>sa_ip := [], sa_port := 0\<rparr>
      in case (sa_protocol sa, sa_native sa) of
           (IP_V4, Sockaddr_in port addr) \<Rightarrow>
             sa1\<lparr>sa_ip := inet_ntop4 addr, sa_port := ntohs port, sa_has_addr := True\<rparr>
         | (IP_V6, Sockaddr_in6 port flow addr scope) \<Rightarrow>
             sa1\<lparr>sa_ip := ntop6 addr, sa_port := ntohs port, sa_has_addr := True\<rparr>
         | _ \<Rightarrow> sa1)"

definition translateAddressToNativeAddress :: "(bytes \<Rightarrow> bytes option) \<Rightarrow> socket_address \<Rightarrow> socket_address" where
  "translateAddressToNativeAddress pton6 sa =
     (let sa1 = sa\<lparr>sa_native := Sockaddr_zero, sa_protocol := PROTOCOL_UNKNOWN, sa_native_size := 0\<rparr>
      in if find_from (sa_ip sa) (str ''.'') 0 \<noteq> None then
           (case inet_pton4 (sa_ip sa) of
              None \<Rightarrow> sa1
            | Some addr \<Rightarrow> sa1\<lparr>sa_native := Sockaddr_in (be16 (sa_port sa)) addr, sa_protocol := IP_V4,
                sa_native_size := 16, sa_has_native := True\<rparr>)
         else if find_from (sa_ip sa) (str '':'') 0 \<noteq> None then
           (case pton6 (c_string (sa_ip sa)) of
              None \<Rightarrow> sa1
            | Some addr \<Rightarrow> sa1\<lparr>sa_native := Sockaddr_in6 (be16 (sa_port sa)) 0 addr 0, sa_protocol := IP_V6,
                sa_native_size := 28, sa_has_native := True\<rparr>)
         else sa1)"

section \<open>Operations\<close>

text \<open>The queries fill in the missing form, so each returns the object as well.\<close>

definition fill_address :: "(bytes \<Rightarrow> bytes) \<Rightarrow> socket_address \<Rightarrow> socket_address" where
  "fill_address ntop6 sa =
     (if \<not> sa_has_addr sa \<and> sa_has_native sa then translateNativeAddressToAddress ntop6 sa else sa)"

definition fill_native :: "(bytes \<Rightarrow> bytes option) \<Rightarrow> socket_address \<Rightarrow> socket_address" where
  "fill_native pton6 sa =
     (if \<not> sa_has_native sa \<and> sa_has_addr sa then translateAddressToNativeAddress pton6 sa else sa)"

definition getIp :: "(bytes \<Rightarrow> bytes) \<Rightarrow> socket_address \<Rightarrow> bytes \<times> socket_address" where
  "getIp ntop6 sa = (let sa1 = fill_address ntop6 sa in (sa_ip sa1, sa1))"

definition getPort :: "(bytes \<Rightarrow> bytes) \<Rightarrow> socket_address \<Rightarrow> u16 \<times> socket_address" where
  "getPort ntop6 sa = (let sa1 = fill_address ntop6 sa in (sa_port sa1, sa1))"

definition getProtocol :: "(bytes \<Rightarrow> bytes option) \<Rightarrow> socket_address \<Rightarrow> sa_protocol \<times> socket_address" where
  "getProtocol pton6 sa = (let sa1 = fill_native pton6 sa in (sa_protocol sa1, sa1))"

definition setAddress :: "bytes \<Rightarrow> u16 \<Rightarrow> socket_address \<Rightarrow> socket_address" where
  "setAddress ip port sa = sa\<lparr>sa_ip := ip, sa_port := port, sa_has_addr := True, sa_has_native := False\<rparr>"

text \<open>None stands for the null pointer.\<close>

definition getNativeAddress :: "(bytes \<Rightarrow> bytes option) \<Rightarrow> socket_address \<Rightarrow> sockaddr option \<times> socket_address" where
  "getNativeAddress pton6 sa =
     (let sa1 = fill_native pton6 sa
      in (if sa_protocol sa1 = IP_V4 \<or> sa_protocol sa1 = IP_V6 then Some (sa_native sa1) else None, sa1))"

definition getNativeAddressSize :: "(bytes \<Rightarrow> bytes option) \<Rightarrow> socket_address \<Rightarrow> nat \<times> socket_address" where
  "getNativeAddressSize pton6 sa = (let sa1 = fill_native pton6 sa in (sa_native_size sa1, sa1))"

definition setNativeAddress :: "sockaddr \<Rightarrow> socket_address \<Rightarrow> bool \<times> socket_address" where
  "setNativeAddress native sa =
     (case native of
        Sockaddr_in port addr \<Rightarrow>
          (True, sa\<lparr>sa_protocol := IP_V4, sa_native_size := 16, sa_native := native,
                    sa_has_addr := False, sa_has_native := True\<rparr>)
      | Sockaddr_in6 port flow addr scope \<Rightarrow>
          (True, sa\<lparr>sa_protocol := IP_V6, sa_native_size := 28, sa_native := native,
                    sa_has_addr := False, sa_has_native := True\<rparr>)
      | _ \<Rightarrow> (False, sa))"

text \<open>What \<open>getaddrinfo\<close> gives is a parameter; an entry of another family adds an empty address.\<close>

definition getAddressByDomain ::
  "(bytes \<Rightarrow> sockaddr list option) \<Rightarrow> bytes \<Rightarrow> socket_address list \<Rightarrow> bool \<times> socket_address list" where
  "getAddressByDomain getaddrinfo domain addr_list =
     (case getaddrinfo domain of
        None \<Rightarrow> (False, addr_list)
      | Some res \<Rightarrow> (True, addr_list @ map (\<lambda>a. snd (setNativeAddress a SocketAddress)) res))"

definition ipV4TextToBin :: "bytes \<Rightarrow> u32 option" where
  "ipV4TextToBin src = (case inet_pton4 src of None \<Rightarrow> None | Some addr \<Rightarrow> Some (load_be32 addr 0))"

definition ipV4BinToText :: "u32 \<Rightarrow> bytes" where
  "ipV4BinToText binary = inet_ntop4 (be32 binary)"

definition ipV6TextToBin :: "(bytes \<Rightarrow> bytes option) \<Rightarrow> bytes \<Rightarrow> bytes option" where
  "ipV6TextToBin pton6 src = pton6 (c_string src)"

text \<open>The address is printed with the family \<open>AF_INET\<close>: its first four bytes as an IPv4 address.\<close>

definition ipV6BinToText :: "bytes \<Rightarrow> bytes" where
  "ipV6BinToText binary = inet_ntop4 (take 4 binary)"

section \<open>IPv4 text and addresses\<close>

lemma octet_decimal: "octet_of (decimal (unat b)) = Some b"
proof -
  have "unat b < 10 ^ 3" "unat b < 256" using unat_byte_less [of b] by simp_all
  then have "length (decimal (unat b)) \<le> 3" by (intro length_decimal) simp_all
  moreover have "int (unat b) \<le> 255" using \<open>unat b < 256\<close> by linarith
  moreover have "of_int (int (unat b)) = b" by simp
  ultimately show ?thesis
    unfolding octet_of_def dec_value_decimal by (simp only: canonical_decimal simp_thms if_True)
qed

lemma octet_Some: "octet_of f = Some b \<Longrightarrow> decimal (unat b) = f"
proof -
  assume f: "octet_of f = Some b"
  then have "canonical f" "dec_value f \<le> 255" "b = of_int (dec_value f)"
    by (auto simp: octet_of_def split: if_splits)
  moreover from this have "0 \<le> dec_value f" using dec_value_pos [of f] by (simp add: canonical_def)
  ultimately have "unat b = nat (dec_value f)" by (simp add: unat_eq_nat_uint uint_word_of_int)
  then show ?thesis using decimal_dec_value [OF \<open>canonical f\<close>] by simp
qed

lemma decimal_no: "46 \<notin> set (decimal n)" "0 \<notin> set (decimal n)" "58 \<notin> set (decimal n)"
  using decimal_isdigit [of 46 n] decimal_isdigit [of 0 n] decimal_isdigit [of 58 n]
  by (auto simp: c_isdigit_def)

lemma pton_ntop4:
  assumes "length addr = 4"
  shows "inet_pton4 (inet_ntop4 addr) = Some addr"
proof -
  let ?fs = "map (\<lambda>b. decimal (unat b)) addr"
  have ne: "?fs \<noteq> []" using assms by auto
  have chars: "0 \<notin> set (join (str ''.'') fs)" if "\<forall>f \<in> set fs. 0 \<notin> set f" for fs
    using that by (induction fs rule: induct_list012) auto
  have "c_string (inet_ntop4 addr) = inet_ntop4 addr"
    unfolding inet_ntop4_def by (intro c_string_id chars) (auto simp: decimal_no)
  moreover have "split (inet_ntop4 addr) (str ''.'') [] (-1) = ?fs"
    using split_loop_join [of ?fs 46 "-1" "[]" 0] ne decimal_no(1)
    by (auto simp: split_def inet_ntop4_def)
  moreover have "map octet_of ?fs = map Some addr" by (simp add: octet_decimal)
  ultimately show ?thesis
    using assms by (simp only: inet_pton4_def Let_def) (simp add: octet_decimal o_def)
qed

lemma pton4_Some:
  assumes "inet_pton4 src = Some addr"
  shows "length addr = 4" and "inet_ntop4 addr = c_string src"
proof -
  let ?fs = "split (c_string src) (str ''.'') [] (-1)"
  have fs: "length ?fs = 4" "None \<notin> set (map octet_of ?fs)" "addr = map (the \<circ> octet_of) ?fs"
    using assms by (auto simp: inet_pton4_def Let_def split: if_splits)
  then show "length addr = 4" by simp
  have "decimal (unat (the (octet_of f))) = f" if "f \<in> set ?fs" for f
    using octet_Some [of f] fs(2) that by (cases "octet_of f") force+
  then have "map (\<lambda>b. decimal (unat b)) addr = ?fs" by (auto simp: fs(3) intro: map_idI)
  moreover have "join (str ''.'') ?fs = c_string src"
    using join_split_loop [of "str ''.''" "-1" 0 "c_string src"] by (simp add: split_def)
  ultimately show "inet_ntop4 addr = c_string src" by (simp add: inet_ntop4_def)
qed

lemma load_be32_be32: "load_be32 (be32 v) 0 = v"
  using be32_join [of v] by (simp add: load_be32_def be32_def ac_simps)

lemma ntohs_be16: "ntohs (be16 v) = v"
  using be16_join [of v] by (simp add: ntohs_def be16_def)

text \<open>Four bytes are the number they were joined to.\<close>

lemma be32_load_be32: "length a = 4 \<Longrightarrow> be32 (load_be32 a 0) = a"
proof -
  assume "length a = 4"
  then obtain p q r s where a: "a = [p, q, r, s]" by (auto simp: numeral_eq_Suc length_Suc_conv)
  have "ucast (drop_bit 24 (load_be32 a 0)) = p" "ucast (drop_bit 16 (load_be32 a 0)) = q"
    "ucast (drop_bit 8 (load_be32 a 0)) = r" "ucast (load_be32 a 0) = s"
    by (rule bit_word_eqI, auto simp: a load_be32_def bit_simps dest: bit_imp_le_length)+
  then show ?thesis by (simp add: be32_def a)
qed

lemma be16_ntohs: "length a = 2 \<Longrightarrow> be16 (ntohs a) = a"
proof -
  assume "length a = 2"
  then obtain p q where a: "a = [p, q]" by (auto simp: numeral_eq_Suc length_Suc_conv)
  have "ucast (drop_bit 8 (ntohs a)) = p" "ucast (ntohs a) = q"
    by (rule bit_word_eqI, auto simp: a ntohs_def bit_simps dest: bit_imp_le_length)+
  then show ?thesis by (simp add: be16_def a)
qed

lemma search_member: "c \<in> set s \<Longrightarrow> search s [c] \<noteq> None"
  by (induction s) auto

lemma find_char: "find_from s [c] 0 \<noteq> None \<longleftrightarrow> c \<in> set s"
  using search_member [of c s] search_char(2) [of c s]
  by (cases "c \<in> set s") (auto simp: find_from_def)

lemma dots4: "length a = 4 \<Longrightarrow> 46 \<in> set (inet_ntop4 a)"
  by (auto simp: inet_ntop4_def numeral_eq_Suc length_Suc_conv)

section \<open>What the queries see\<close>

type_synonym address_view = "bytes \<times> u16 \<times> sa_protocol \<times> sockaddr option \<times> nat"

definition address_view :: "(bytes \<Rightarrow> bytes option) \<Rightarrow> (bytes \<Rightarrow> bytes) \<Rightarrow> socket_address \<Rightarrow> address_view" where
  "address_view pton6 ntop6 sa =
     (fst (getIp ntop6 sa), fst (getPort ntop6 sa), fst (getProtocol pton6 sa),
      fst (getNativeAddress pton6 sa), fst (getNativeAddressSize pton6 sa))"

lemmas query_defs = address_view_def getIp_def getPort_def getProtocol_def getNativeAddress_def
  getNativeAddressSize_def Let_def

text \<open>Each translation leaves the other form alone, so a query is not changed by the other's.\<close>

lemma translate_native_keeps:
  "sa_has_native (translateNativeAddressToAddress ntop6 sa) = sa_has_native sa"
  "sa_protocol (translateNativeAddressToAddress ntop6 sa) = sa_protocol sa"
  "sa_native (translateNativeAddressToAddress ntop6 sa) = sa_native sa"
  "sa_native_size (translateNativeAddressToAddress ntop6 sa) = sa_native_size sa"
  by (cases "sa_protocol sa"; cases "sa_native sa";
      simp add: translateNativeAddressToAddress_def Let_def)+

lemma translate_native_again:
  "translateNativeAddressToAddress ntop6 (translateNativeAddressToAddress ntop6 sa) =
    translateNativeAddressToAddress ntop6 sa"
  by (cases "sa_protocol sa"; cases "sa_native sa")
    (simp_all add: translateNativeAddressToAddress_def Let_def)

lemma translate_address_keeps:
  "sa_has_addr (translateAddressToNativeAddress pton6 sa) = sa_has_addr sa"
  "sa_ip (translateAddressToNativeAddress pton6 sa) = sa_ip sa"
  "sa_port (translateAddressToNativeAddress pton6 sa) = sa_port sa"
  by (simp_all add: translateAddressToNativeAddress_def Let_def split: option.split)

lemma translate_address_again:
  "translateAddressToNativeAddress pton6 (translateAddressToNativeAddress pton6 sa) =
    translateAddressToNativeAddress pton6 sa"
  by (simp add: translateAddressToNativeAddress_def Let_def split: option.split)

lemma fill_address_again: "fill_address ntop6 (fill_address ntop6 sa) = fill_address ntop6 sa"
  using translate_native_again [of ntop6 sa] by (simp add: fill_address_def)

lemma fill_native_again: "fill_native pton6 (fill_native pton6 sa) = fill_native pton6 sa"
  using translate_address_again [of pton6 sa] by (simp add: fill_native_def)

lemma fill_address_native:
  "sa_protocol (fill_native pton6 (fill_address ntop6 sa)) = sa_protocol (fill_native pton6 sa)"
  "sa_native (fill_native pton6 (fill_address ntop6 sa)) = sa_native (fill_native pton6 sa)"
  "sa_native_size (fill_native pton6 (fill_address ntop6 sa)) = sa_native_size (fill_native pton6 sa)"
  by (simp_all add: fill_address_def fill_native_def translate_native_keeps)

lemma fill_native_address:
  "sa_ip (fill_address ntop6 (fill_native pton6 sa)) = sa_ip (fill_address ntop6 sa)"
  "sa_port (fill_address ntop6 (fill_native pton6 sa)) = sa_port (fill_address ntop6 sa)"
  by (simp_all add: fill_address_def fill_native_def translate_address_keeps)

text \<open>The queries by name.\<close>

datatype address_query = GetIp | GetPort | GetProtocol | GetNativeAddress | GetNativeAddressSize

fun run_query :: "(bytes \<Rightarrow> bytes option) \<Rightarrow> (bytes \<Rightarrow> bytes) \<Rightarrow> address_query \<Rightarrow> socket_address \<Rightarrow> socket_address" where
  "run_query pton6 ntop6 GetIp sa = snd (getIp ntop6 sa)"
| "run_query pton6 ntop6 GetPort sa = snd (getPort ntop6 sa)"
| "run_query pton6 ntop6 GetProtocol sa = snd (getProtocol pton6 sa)"
| "run_query pton6 ntop6 GetNativeAddress sa = snd (getNativeAddress pton6 sa)"
| "run_query pton6 ntop6 GetNativeAddressSize sa = snd (getNativeAddressSize pton6 sa)"

lemma run_query_view: "address_view pton6 ntop6 (run_query pton6 ntop6 q sa) = address_view pton6 ntop6 sa"
  by (cases q) (simp_all add: query_defs fill_address_again fill_native_again fill_address_native fill_native_address)

section \<open>Properties\<close>

text \<open>Native addresses that have a text.\<close>

definition text6_ok :: "(bytes \<Rightarrow> bytes option) \<Rightarrow> (bytes \<Rightarrow> bytes) \<Rightarrow> bytes \<Rightarrow> bool" where
  "text6_ok pton6 ntop6 addr \<longleftrightarrow>
     pton6 (ntop6 addr) = Some addr \<and> 58 \<in> set (ntop6 addr) \<and> 0 \<notin> set (ntop6 addr) \<and> 46 \<notin> set (ntop6 addr)"

definition native_ok :: "(bytes \<Rightarrow> bytes option) \<Rightarrow> (bytes \<Rightarrow> bytes) \<Rightarrow> sockaddr \<Rightarrow> bool" where
  "native_ok pton6 ntop6 native =
     (case native of
        Sockaddr_in port addr \<Rightarrow> length port = 2 \<and> length addr = 4
      | Sockaddr_in6 port flow addr scope \<Rightarrow>
          length port = 2 \<and> flow = 0 \<and> scope = 0 \<and> text6_ok pton6 ntop6 addr
      | _ \<Rightarrow> False)"

text \<open>C40. An address given in native form and read as text, then made anew from the text, has the
  same native form: every IPv4 address, and every IPv6 address without flow information and scope
  whose text the C library reads back and which holds no dot. An IPv6 address with a dot in its text is refused
  (\<open>mapped_address_refused\<close>); flow information and scope are not part of a \<open>SocketAddress\<close>.\<close>

theorem native_text_roundtrip:
  assumes "native_ok pton6 ntop6 native"
  shows "\<exists>sa1 ip sa2 port sa3.
    setNativeAddress native sa = (True, sa1) \<and> getIp ntop6 sa1 = (ip, sa2) \<and> getPort ntop6 sa2 = (port, sa3) \<and>
    fst (getNativeAddress pton6 (SocketAddress_of ip port)) = Some native"
proof (cases native)
  case (Sockaddr_in port addr)
  then have len: "length port = 2" "length addr = 4" using assms by (auto simp: native_ok_def)
  have "find_from (inet_ntop4 addr) (str ''.'') 0 \<noteq> None"
    using dots4 [OF len(2)] find_char by simp
  then show ?thesis
    using Sockaddr_in pton_ntop4 [OF len(2)] be16_ntohs [OF len(1)]
    by (auto simp: setNativeAddress_def query_defs fill_address_def translateNativeAddressToAddress_def
        SocketAddress_of_def fill_native_def translateAddressToNativeAddress_def)
next
  case (Sockaddr_in6 port flow addr scope)
  then have ok: "length port = 2" "flow = 0" "scope = 0" "pton6 (ntop6 addr) = Some addr"
    "58 \<in> set (ntop6 addr)" "0 \<notin> set (ntop6 addr)" "46 \<notin> set (ntop6 addr)"
    using assms by (auto simp: native_ok_def text6_ok_def)
  have "find_from (ntop6 addr) (str ''.'') 0 = None" "find_from (ntop6 addr) (str '':'') 0 \<noteq> None"
    using ok find_char [of "ntop6 addr" 46] find_char [of "ntop6 addr" 58] by simp_all
  then show ?thesis
    using Sockaddr_in6 ok be16_ntohs [OF ok(1)] c_string_id [OF ok(6)]
    by (auto simp: setNativeAddress_def query_defs fill_address_def translateNativeAddressToAddress_def
        SocketAddress_of_def fill_native_def translateAddressToNativeAddress_def)
qed (use assms in \<open>auto simp: native_ok_def\<close>)

theorem native_text_roundtrip_witness:
  "\<exists>sa1 ip sa2 port sa3.
    setNativeAddress (Sockaddr_in6 [0, 80] 0 (replicate 15 0 @ [1]) 0) SocketAddress = (True, sa1) \<and>
    getIp (\<lambda>a. str ''::1'') sa1 = (ip, sa2) \<and> getPort (\<lambda>a. str ''::1'') sa2 = (port, sa3) \<and>
    fst (getNativeAddress (\<lambda>s. if s = str ''::1'' then Some (replicate 15 0 @ [1]) else None)
      (SocketAddress_of ip port)) = Some (Sockaddr_in6 [0, 80] 0 (replicate 15 0 @ [1]) 0)"
  by (rule native_text_roundtrip) (simp add: native_ok_def text6_ok_def)

text \<open>The text of an IPv6 address that ends in IPv4 notation is taken for an IPv4 address, whatever
  \<open>inet_pton\<close> makes of it.\<close>

lemma mapped_address_refused:
  "fst (getNativeAddress pton6 (SocketAddress_of (str ''::ffff:1.2.3.4'') 80)) = None"
proof -
  have "find_from (str ''::ffff:1.2.3.4'') (str ''.'') 0 \<noteq> None" "inet_pton4 (str ''::ffff:1.2.3.4'') = None"
    by code_simp+
  then show ?thesis
    by (simp add: query_defs fill_native_def SocketAddress_of_def translateAddressToNativeAddress_def del: str_simps)
qed

text \<open>No query changes what any query gives: whatever was asked before, in whatever order, IP,
  port, protocol, native address and its size are the same.\<close>

lemma queries_do_not_change_address:
  "address_view pton6 ntop6 (fold (run_query pton6 ntop6) queries sa) = address_view pton6 ntop6 sa"
  by (induction queries arbitrary: sa) (simp_all add: run_query_view)

text \<open>A text is read as an IPv4 number exactly if it is the text printed for the number.\<close>

lemma ipV4_text_iff: "ipV4TextToBin src = Some v \<longleftrightarrow> c_string src = ipV4BinToText v"
proof
  assume "ipV4TextToBin src = Some v"
  then obtain addr where addr: "inet_pton4 src = Some addr" "v = load_be32 addr 0"
    by (auto simp: ipV4TextToBin_def split: option.splits)
  then show "c_string src = ipV4BinToText v"
    using pton4_Some [OF addr(1)] by (simp add: ipV4BinToText_def be32_load_be32)
next
  assume text_eq: "c_string src = ipV4BinToText v"
  have "c_string (c_string src) = c_string src" by (simp add: c_string_def)
  then have "inet_pton4 src = inet_pton4 (ipV4BinToText v)"
    by (simp add: inet_pton4_def flip: text_eq)
  then show "ipV4TextToBin src = Some v"
    by (simp add: ipV4TextToBin_def ipV4BinToText_def pton_ntop4 load_be32_be32)
qed

text \<open>\<open>ipV6BinToText\<close> prints the address as IPv4.\<close>

lemma ipV6BinToText_is_IPv4:
  "ipV6BinToText ([0x20, 1, 0x0d, 0xb8] @ replicate 11 0 @ [1]) = str ''32.1.13.184''"
  by code_simp

end
