(* ===== verification/WebSocket.thy ===== *)
theory WebSocket
  imports HttpProtocol Base64 Sha RandomMT SocketAddress
begin

text \<open>
  \<open>protocol/web_socket_protocol.cc\<close>: the handshake over HTTP and the frames, for both ends. As in
  \<open>HttpProtocol\<close> the input is the readable bytes of a \<open>DynamicBuffer\<close>; \<open>message_\<close> is the bytes it
  holds. What the output callback is given is appended to \<open>ws_output\<close>. The random generator is shared
  with the caller and so is passed along.
\<close>

section \<open>State\<close>

datatype ws_status = WS_DETACHED | WS_WAITING_HANDSHAKE_REQUEST | WS_WAITING_HANDSHAKE_RESPONSE
  | WS_CONNECTED | WS_FINISHED | WS_CLOSED | WS_PENDING_ERROR

datatype ws_ret_code = WS_ERROR | WS_WAITING_MORE_DATA | WS_CONNECTION_ESTABLISHED | WS_MESSAGE_READY
  | WS_PEER_CLOSED | WS_PING_FRAME | WS_PONG_FRAME

record web_socket =
  ws_status :: ws_status
  ws_output_cb :: bool
  ws_output :: "bytes list"
  ws_http :: http_protocol
  ws_handshake_headers :: header_map
  ws_message :: bytes
  ws_is_client :: bool
  ws_close_frame_sent :: bool
  ws_last_op_code :: int
  ws_ret_code :: ws_ret_code

definition WebSocketProtocol :: web_socket where
  "WebSocketProtocol = \<lparr>ws_status = WS_DETACHED, ws_output_cb = False, ws_output = [],
     ws_http = HttpProtocol, ws_handshake_headers = [], ws_message = [], ws_is_client = False,
     ws_close_frame_sent = False, ws_last_op_code = -1, ws_ret_code = WS_ERROR\<rparr>"

definition setOutputCallback :: "bool \<Rightarrow> web_socket \<Rightarrow> web_socket" where
  "setOutputCallback cb ws = ws\<lparr>ws_output_cb := cb\<rparr>"

definition ws_emit :: "bytes \<Rightarrow> web_socket \<Rightarrow> web_socket" where
  "ws_emit out ws = (if ws_output_cb ws then ws\<lparr>ws_output := ws_output ws @ [out]\<rparr> else ws)"

definition setHandshakeHeader :: "bytes \<Rightarrow> bytes \<Rightarrow> web_socket \<Rightarrow> web_socket" where
  "setHandshakeHeader key val ws =
     ws\<lparr>ws_handshake_headers := omap_set CaseInsensitiveLess key val (ws_handshake_headers ws)\<rparr>"

section \<open>Handshake\<close>

text \<open>Bytes made of \<open>nextInt(256)\<close>.\<close>

fun random_bytes :: "nat \<Rightarrow> random \<Rightarrow> bytes \<times> random" where
  "random_bytes 0 r = ([], r)"
| "random_bytes (Suc n) r =
     (let (x, r1) = nextInt_max r 256; (xs, r2) = random_bytes n r1 in (ucast x # xs, r2))"

definition set_headers_of :: "header_map \<Rightarrow> 'a http_message_scheme \<Rightarrow> 'a http_message_scheme" where
  "set_headers_of hs msg = fold (\<lambda>(k, v). setHeader k v) hs msg"

definition has_handshake_header :: "bytes \<Rightarrow> web_socket \<Rightarrow> bool" where
  "has_handshake_header key ws \<longleftrightarrow>
     omap_find CaseInsensitiveLess key (ws_handshake_headers ws) \<noteq> None"

definition base_request :: "bytes \<Rightarrow> http_request" where
  "base_request request_uri =
     setHeader (str ''Sec-WebSocket-Version'') (str ''13'')
       (setHeader (str ''Connection'') (str ''Upgrade'')
         (setHeader (str ''Upgrade'') (str ''websocket'')
           (setRequestUri request_uri (setMethod GET (setVersion HTTP_1_1 HttpRequest)))))"

text \<open>The key and the host are added to the headers of the object, where they are missing.\<close>

definition provide_headers ::
  "(bytes \<Rightarrow> bytes) \<Rightarrow> socket_address \<Rightarrow> random \<Rightarrow> web_socket \<Rightarrow> web_socket \<times> random" where
  "provide_headers ntop6 peer_addr rnd ws =
     (let (ws1, rnd1) =
            (if has_handshake_header (str ''Sec-WebSocket-Key'') ws then (ws, rnd)
             else let (key, rnd1) = random_bytes 16 rnd
                  in (setHandshakeHeader (str ''Sec-WebSocket-Key'') (base64Encode key) ws, rnd1));
          ws2 = (if has_handshake_header (str ''Host'') ws1 then ws1
                 else setHandshakeHeader (str ''Host'')
                   (fst (getIp ntop6 peer_addr) @ str '':'' @
                    toString (uint (fst (getPort ntop6 peer_addr)))) ws1)
      in (ws2, rnd1))"

definition startAsClient ::
  "(bytes \<Rightarrow> bytes) \<Rightarrow> socket_address \<Rightarrow> random \<Rightarrow> bytes \<Rightarrow> web_socket \<Rightarrow> bool \<times> web_socket \<times> random" where
  "startAsClient ntop6 peer_addr rnd request_uri ws =
     (if ws_status ws \<noteq> WS_DETACHED then (False, ws, rnd)
      else let ws1 = ws\<lparr>ws_status := WS_WAITING_HANDSHAKE_RESPONSE, ws_is_client := True\<rparr>;
               (ws2, rnd1) = provide_headers ntop6 peer_addr rnd ws1;
               request = set_headers_of (ws_handshake_headers ws2) (base_request request_uri)
           in (True, ws_emit (sendMessage (Request request)) ws2, rnd1))"

definition startAsServer :: "web_socket \<Rightarrow> bool \<times> web_socket" where
  "startAsServer ws =
     (if ws_status ws \<noteq> WS_DETACHED then (False, ws)
      else (True, ws\<lparr>ws_status := WS_WAITING_HANDSHAKE_REQUEST, ws_is_client := False\<rparr>))"

definition checkHandshakeRequestValid :: "http_request \<Rightarrow> bool" where
  "checkHandshakeRequestValid request =
     (if \<not> hasHeader request (str ''Host'') then False
      else if \<not> headerContain request (str ''Upgrade'') (str ''websocket'') then False
      else if \<not> headerContain request (str ''Connection'') (str ''Upgrade'') then False
      else if length (getHeader request (str ''Sec-WebSocket-Key'')) \<noteq> 24 then False
      else if \<not> headerEqual request (str ''Sec-WebSocket-Version'') (str ''13'') then False
      else True)"

definition sendHandshakeErrorResponse :: "web_socket \<Rightarrow> web_socket" where
  "sendHandshakeErrorResponse ws = ws_emit (str ''HTTP/1.1 400 Bad Request'' @ crlf @ crlf) ws"

text \<open>The answer to a key; \<open>block\<close> is the memory of the hash context.\<close>

definition accept_of :: "bytes \<Rightarrow> bytes \<Rightarrow> bytes" where
  "accept_of block sec_key =
     base64Encode (sha1Binary block (sec_key @ str ''258EAFA5-E914-47DA-95CA-C5AB0DC85B11''))"

definition base_response :: "bytes \<Rightarrow> bytes \<Rightarrow> http_response" where
  "base_response block sec_key =
     setHeader (str ''Sec-WebSocket-Accept'') (accept_of block sec_key)
       (setHeader (str ''Connection'') (str ''Upgrade'')
         (setHeader (str ''Upgrade'') (str ''websocket'')
           (setReasonPhrase (str ''Switching Protocols'')
             (setStatusCode 101 (setVersion HTTP_1_1 HttpResponse)))))"

text \<open>What the environment gives: the memory of the hash contexts, \<open>Timestamp::format\<close> and the clock.\<close>

record ws_env =
  env_block :: bytes
  env_time_format :: "bytes \<Rightarrow> int \<Rightarrow> bytes"
  env_clock :: int

definition handshake_response :: "ws_env \<Rightarrow> header_map \<Rightarrow> http_request \<Rightarrow> http_response" where
  "handshake_response env hs request =
     (let response = set_headers_of hs
            (base_response (env_block env) (getHeader request (str ''Sec-WebSocket-Key'')))
      in if hasHeader response (str ''Date'')
         then setDate (env_time_format env) (env_clock env) 0 response else response)"

definition sendHandshakeSuccessResponse :: "ws_env \<Rightarrow> http_request \<Rightarrow> web_socket \<Rightarrow> web_socket" where
  "sendHandshakeSuccessResponse env request ws =
     ws_emit (sendMessage (Response (handshake_response env (ws_handshake_headers ws) request))) ws"

definition readHandshakeRequest ::
  "ws_env \<Rightarrow> bytes \<Rightarrow> web_socket \<Rightarrow> bytes \<Rightarrow> web_socket \<times> bytes \<times> int" where
  "readHandshakeRequest env slack ws buffer =
     (let (http, rest, ret) = http_recv slack (ws_http ws) buffer;
          ws1 = ws\<lparr>ws_http := http\<rparr>
      in case ret of
           WAITING_MORE_DATA \<Rightarrow> (ws1, rest, 0)
         | MESSAGE_READY \<Rightarrow>
             (case retrieveRequest http of
                None \<Rightarrow> (sendHandshakeErrorResponse ws1, rest, -1)
              | Some (request, http1) \<Rightarrow>
                  let ws2 = ws1\<lparr>ws_http := http1\<rparr>
                  in if \<not> checkHandshakeRequestValid request
                     then (sendHandshakeErrorResponse ws2, rest, -1)
                     else ((sendHandshakeSuccessResponse env request ws2)
                             \<lparr>ws_status := WS_CONNECTED, ws_ret_code := WS_CONNECTION_ESTABLISHED\<rparr>,
                           rest, 2))
         | ERROR \<Rightarrow> (sendHandshakeErrorResponse ws1, rest, -1))"

definition checkHandshakeResponseValid :: "bytes \<Rightarrow> http_response \<Rightarrow> bytes \<Rightarrow> bool" where
  "checkHandshakeResponseValid block response sec_key =
     (if hp_status_code response \<noteq> 101 then False
      else if \<not> headerContain response (str ''Upgrade'') (str ''websocket'') then False
      else if \<not> headerContain response (str ''Connection'') (str ''Upgrade'') then False
      else if \<not> headerEqual response (str ''Sec-WebSocket-Accept'') (accept_of block sec_key) then False
      else True)"

text \<open>\<open>operator[]\<close> adds an empty entry where the key is missing.\<close>

definition handshake_header :: "bytes \<Rightarrow> web_socket \<Rightarrow> bytes \<times> web_socket" where
  "handshake_header key ws =
     (case omap_find CaseInsensitiveLess key (ws_handshake_headers ws) of
        Some v \<Rightarrow> (v, ws)
      | None \<Rightarrow> ([], setHandshakeHeader key [] ws))"

definition readHandshakeResponse ::
  "ws_env \<Rightarrow> bytes \<Rightarrow> web_socket \<Rightarrow> bytes \<Rightarrow> web_socket \<times> bytes \<times> int" where
  "readHandshakeResponse env slack ws buffer =
     (let (http, rest, ret) = http_recv slack (ws_http ws) buffer;
          ws1 = ws\<lparr>ws_http := http\<rparr>
      in case ret of
           WAITING_MORE_DATA \<Rightarrow> (ws1, rest, 0)
         | MESSAGE_READY \<Rightarrow>
             (case retrieveResponse http of
                None \<Rightarrow> (ws1, rest, -1)
              | Some (response, http1) \<Rightarrow>
                  let (sec_key, ws2) = handshake_header (str ''Sec-WebSocket-Key'') (ws1\<lparr>ws_http := http1\<rparr>)
                  in if \<not> checkHandshakeResponseValid (env_block env) response sec_key
                     then (ws2, rest, -1)
                     else (ws2\<lparr>ws_status := WS_CONNECTED, ws_ret_code := WS_CONNECTION_ESTABLISHED\<rparr>,
                           rest, 2))
         | ERROR \<Rightarrow> (ws1, rest, -1))"

section \<open>Control frames\<close>

definition control_frame :: "byte \<Rightarrow> bool \<Rightarrow> bytes" where
  "control_frame opcode is_client = (if is_client then [opcode, 0x80, 0, 0, 0, 0] else [opcode, 0])"

definition sendCloseFrame :: "web_socket \<Rightarrow> web_socket" where
  "sendCloseFrame ws =
     (if ws_status ws \<noteq> WS_CONNECTED then ws
      else if ws_close_frame_sent ws then ws
      else ws_emit (control_frame 0x88 (ws_is_client ws)) (ws\<lparr>ws_close_frame_sent := True\<rparr>))"

definition sendPingFrame :: "web_socket \<Rightarrow> web_socket" where
  "sendPingFrame ws =
     (if ws_status ws \<noteq> WS_CONNECTED then ws
      else if ws_close_frame_sent ws then ws
      else ws_emit (control_frame 0x89 (ws_is_client ws)) ws)"

definition sendPongFrame :: "web_socket \<Rightarrow> web_socket" where
  "sendPongFrame ws =
     (if ws_status ws \<noteq> WS_CONNECTED then ws
      else if ws_close_frame_sent ws then ws
      else ws_emit (control_frame 0x8a (ws_is_client ws)) ws)"

section \<open>Reading a frame\<close>

text \<open>\<open>peekInt16\<close> and \<open>peekInt64\<close> of the buffer on its readable bytes (see \<open>content_peek\<close>).\<close>

definition content_be :: "bytes \<Rightarrow> nat \<Rightarrow> nat \<Rightarrow> nat option" where
  "content_be buffer off n =
     (if length buffer < off + n then None
      else Some (foldl (\<lambda>v c. 256 * v + unat c) 0 (take n (drop off buffer))))"

text \<open>The length of the payload and where the header goes on; on the left what the function returns
  early.\<close>

definition payload_size :: "bytes \<Rightarrow> byte \<Rightarrow> int + nat \<times> nat" where
  "payload_size buffer b1 =
     (let len7 = unat (b1 AND 0x7f)
      in if len7 = 126 then
           (case content_be buffer 2 2 of
              None \<Rightarrow> Inl 0
            | Some n \<Rightarrow> if n < 126 then Inl (-1) else Inr (n, 4))
         else if len7 = 127 then
           (case content_be buffer 2 8 of
              None \<Rightarrow> Inl 0
            | Some n \<Rightarrow> if n < 0xffff then Inl (-1) else Inr (n, 10))
         else Inr (len7, 2))"

text \<open>Each byte is combined with the byte of the key at its index modulo 4.\<close>

definition masked :: "bytes \<Rightarrow> bytes \<Rightarrow> bytes" where
  "masked key xs = map2 (\<lambda>i x. x XOR key ! (i mod 4)) [0..<length xs] xs"

definition process_frame :: "bool \<Rightarrow> int \<Rightarrow> web_socket \<Rightarrow> web_socket \<times> int" where
  "process_frame fin opcode0 ws =
     (if \<not> fin then ((if opcode0 \<noteq> 0 then ws\<lparr>ws_last_op_code := opcode0\<rparr> else ws), 0)
      else
        let (opcode, ws1) = (if opcode0 = 0 then (ws_last_op_code ws, ws\<lparr>ws_last_op_code := -1\<rparr>)
                             else (opcode0, ws))
        in if opcode = 1 \<or> opcode = 2 then (ws1\<lparr>ws_status := WS_FINISHED\<rparr>, 1)
           else if opcode = 8 then
             ((sendCloseFrame ws1)\<lparr>ws_status := WS_CLOSED, ws_message := []\<rparr>, 1)
           else if opcode = 9 then
             ((sendPongFrame (ws1\<lparr>ws_message := []\<rparr>))\<lparr>ws_ret_code := WS_PING_FRAME\<rparr>, 2)
           else if opcode = 10 then (ws1\<lparr>ws_message := [], ws_ret_code := WS_PONG_FRAME\<rparr>, 2)
           else (ws1, -1))"

definition readFrame :: "web_socket \<Rightarrow> bytes \<Rightarrow> web_socket \<times> bytes \<times> int" where
  "readFrame ws buffer =
     (if length buffer < 2 then (ws, buffer, 0)
      else if buffer ! 0 AND 0x70 \<noteq> 0 then (ws, buffer, -1)
      else case payload_size buffer (buffer ! 1) of
             Inl ret \<Rightarrow> (ws, buffer, ret)
           | Inr (payload_length, p) \<Rightarrow>
               let mask = (buffer ! 1 AND 0x80 \<noteq> 0)
               in if mask \<and> ws_is_client ws then (ws, buffer, -1)
                  else if mask \<and> length buffer - p < 4 then (ws, buffer, 0)
                  else
                    let mask_key = take 4 (drop p buffer);
                        p1 = (if mask then p + 4 else p)
                    in if payload_length > 0 \<and> length buffer - p1 < payload_length then (ws, buffer, 0)
                       else
                         let payload = take payload_length (drop p1 buffer);
                             data = (if mask then masked mask_key payload else payload);
                             (ws1, ret) = process_frame (buffer ! 0 AND 0x80 \<noteq> 0)
                               (uint (buffer ! 0 AND 0x0f)) (ws\<lparr>ws_message := ws_message ws @ data\<rparr>)
                         in (ws1, drop (p1 + payload_length) buffer, ret))"

section \<open>Receiving\<close>

definition ws_dead :: "web_socket \<Rightarrow> bool" where
  "ws_dead ws \<longleftrightarrow> ws_status ws \<in> {WS_DETACHED, WS_FINISHED, WS_CLOSED, WS_PENDING_ERROR}"

definition ws_handle :: "ws_env \<Rightarrow> bytes \<Rightarrow> web_socket \<Rightarrow> bytes \<Rightarrow> web_socket \<times> bytes \<times> int" where
  "ws_handle env slack ws buffer =
     (case ws_status ws of
        WS_WAITING_HANDSHAKE_REQUEST \<Rightarrow> readHandshakeRequest env slack ws buffer
      | WS_WAITING_HANDSHAKE_RESPONSE \<Rightarrow> readHandshakeResponse env slack ws buffer
      | WS_CONNECTED \<Rightarrow> readFrame ws buffer
      | _ \<Rightarrow> (ws, buffer, -1))"

text \<open>A handler that returns 1 has set the status \<open>FINISHED\<close> or \<open>CLOSED\<close>, so the loop of \<open>recvMessage\<close>
  never comes to a second round.\<close>

lemma process_frame_one:
  "process_frame fin opcode ws = (ws1, ret) \<Longrightarrow>
    ret \<in> {0, -1, 2} \<or> ws_status ws1 = WS_FINISHED \<or> ws_status ws1 = WS_CLOSED"
  by (auto simp: process_frame_def Let_def split: if_splits)

lemma payload_size_early: "payload_size buffer b1 = Inl ret \<Longrightarrow> ret \<in> {0, -1}"
  by (auto simp: payload_size_def Let_def split: if_splits option.splits)

lemma readFrame_one:
  "readFrame ws buffer = (ws1, rest, ret) \<Longrightarrow>
    ret \<in> {0, -1, 2} \<or> ws_status ws1 = WS_FINISHED \<or> ws_status ws1 = WS_CLOSED"
  using payload_size_early [of buffer "buffer ! 1" ret]
  by (auto simp: readFrame_def Let_def split: if_splits sum.splits prod.splits dest!: process_frame_one)

lemma ws_handle_one:
  "ws_handle env slack ws buffer = (ws1, rest, ret) \<Longrightarrow>
    ret \<in> {0, -1, 2} \<or> ws_status ws1 = WS_FINISHED \<or> ws_status ws1 = WS_CLOSED"
  by (cases "ws_status ws")
    (auto simp: ws_handle_def readHandshakeRequest_def readHandshakeResponse_def Let_def
      split: prod.splits ret_code.splits option.splits if_splits dest!: readFrame_one)

function ws_recv :: "ws_env \<Rightarrow> bytes \<Rightarrow> web_socket \<Rightarrow> bytes \<Rightarrow> web_socket \<times> bytes \<times> ws_ret_code" where
  "ws_recv env slack ws buffer =
     (if ws_dead ws then (ws, buffer, WS_ERROR)
      else case ws_handle env slack ws buffer of (ws1, rest, ret) \<Rightarrow>
        if ret = 0 then (ws1, rest, WS_WAITING_MORE_DATA)
        else if ret = -1 then (ws1\<lparr>ws_status := WS_PENDING_ERROR\<rparr>, rest, WS_ERROR)
        else if ret = 2 then (ws1, rest, ws_ret_code ws1)
        else if ws_status ws1 = WS_FINISHED then (ws1, rest, WS_MESSAGE_READY)
        else if ws_status ws1 = WS_CLOSED then (ws1, rest, WS_PEER_CLOSED)
        else ws_recv env slack ws1 rest)"
  by pat_completeness auto
termination
  by (relation "measure (\<lambda>(env, slack, ws, buffer). 0)") (auto dest!: ws_handle_one [OF sym])

declare ws_recv.simps [simp del]

definition retrieveMessage :: "web_socket \<Rightarrow> (bytes \<times> web_socket) option" where
  "retrieveMessage ws =
     (if ws_status ws \<noteq> WS_FINISHED then None
      else Some (ws_message ws, ws\<lparr>ws_message := [], ws_status := WS_CONNECTED\<rparr>))"

section \<open>Sending a message\<close>

definition put_byte :: "byte \<Rightarrow> dynamic_buffer \<Rightarrow> dynamic_buffer" where
  "put_byte c b = db_write (db_store b [c]) 1"

text \<open>The two length bytes and what follows them.\<close>

definition frame_header :: "bool \<Rightarrow> nat \<Rightarrow> dynamic_buffer" where
  "frame_header is_client sz =
     (let flag = (if is_client then 0x80 else 0);
          b = put_byte 0x82 (reserveWritableBytes (DynamicBuffer 1024 1024) 2)
      in if sz < 126 then put_byte (flag OR of_nat sz) b
         else if sz < 65535 then writeInt16 (put_byte (flag OR 126) b) (of_nat sz)
         else writeInt64 (put_byte (flag OR 127) b) (of_nat sz))"

text \<open>The key is read through a pointer into the vector while the payload is masked. Where the room
  for the payload has been made in a new vector, the pointer reads freed memory: \<open>freed\<close>.\<close>

definition client_frame :: "bytes \<Rightarrow> bytes \<Rightarrow> bytes \<Rightarrow> dynamic_buffer" where
  "client_frame freed key buffer =
     (let b1 = db_write (db_store (reserveWritableBytes (frame_header True (length buffer)) 4) key) 4;
          b2 = reserveWritableBytes b1 (length buffer);
          mask_key = (if writableBytes b1 \<ge> length buffer then key else freed)
      in db_write (db_store b2 (masked mask_key buffer)) (length buffer))"

definition server_frame :: "bytes \<Rightarrow> dynamic_buffer" where
  "server_frame buffer =
     (let b = reserveWritableBytes (frame_header False (length buffer)) (length buffer)
      in db_write (db_store b buffer) (length buffer))"

definition ws_sendMessage :: "bytes \<Rightarrow> random \<Rightarrow> web_socket \<Rightarrow> bytes \<Rightarrow> web_socket \<times> random" where
  "ws_sendMessage freed rnd ws buffer =
     (if ws_status ws \<noteq> WS_CONNECTED then (ws, rnd)
      else if ws_close_frame_sent ws then (ws, rnd)
      else if ws_is_client ws then
        (let (key, rnd1) = random_bytes 4 rnd
         in (ws_emit (db_content (client_frame freed key buffer)) ws, rnd1))
      else (ws_emit (db_content (server_frame buffer)) ws, rnd))"

end
