(* ===== verification/FreshBuffer.thy ===== *)
theory FreshBuffer
  imports DynamicBuffer
begin

text \<open>
  A \<open>DynamicBuffer\<close> as its default constructor makes it, to which only has been written: while the
  first 1024 bytes last, no write moves it. The writers of a message in a local buffer use it.
\<close>

definition fresh :: "dynamic_buffer \<Rightarrow> bytes \<Rightarrow> bool" where
  "fresh b xs \<longleftrightarrow> db_inv b \<and> db_read_index b = 0 \<and> length (db_buffer b) = 1024 \<and> db_content b = xs"

lemma fresh_start: "fresh (DynamicBuffer 1024 1024) []"
  by (simp add: fresh_def DynamicBuffer_inv) (simp add: DynamicBuffer_def)

lemma fresh_write_index: "fresh b xs \<Longrightarrow> db_write_index b = length xs"
  using length_db_content [of b] by (auto simp: fresh_def readableBytes_def db_inv_def)

lemma fresh_writable: "fresh b xs \<Longrightarrow> writableBytes b = 1024 - length xs"
  using fresh_write_index [of b xs] by (simp add: fresh_def writableBytes_def)

lemma fresh_reserve: "fresh b xs \<Longrightarrow> length xs + n \<le> 1024 \<Longrightarrow> reserveWritableBytes b n = b"
  using fresh_writable [of b xs] by (simp add: reserveWritableBytes_def)

lemma fresh_store:
  assumes "fresh b xs" and "length xs + length ys \<le> 1024"
  shows "fresh (db_write (db_store b ys) (length ys)) (xs @ ys)"
proof -
  have w: "length ys \<le> writableBytes b" using fresh_writable [OF assms(1)] assms(2) by simp
  have idx: "db_write_index b = length xs" "length (db_buffer b) = 1024" "db_read_index b = 0"
    using assms(1) fresh_write_index [OF assms(1)] by (auto simp: fresh_def)
  have "length (db_buffer (db_write (db_store b ys) (length ys))) = 1024"
    using idx assms(2) by (simp add: db_write_def db_store_def writeBegin_def)
  moreover have "db_read_index (db_write (db_store b ys) (length ys)) = 0"
    using idx by (simp add: db_write_def db_store_def)
  ultimately show ?thesis
    using store_write_content [OF _ w] assms(1) by (simp add: fresh_def)
qed

lemma fresh_append: "fresh b xs \<Longrightarrow> length xs + length ys \<le> 1024 \<Longrightarrow> fresh (db_append b ys) (xs @ ys)"
  using fresh_reserve [of b xs "length ys"] fresh_store [of b xs ys] by (simp add: db_append_def)

lemma fresh_content: "fresh b xs \<Longrightarrow> db_content b = xs" "fresh b xs \<Longrightarrow> db_inv b"
  by (simp_all add: fresh_def)

end
