(* ===== verification/WebSocketFrames.thy ===== *)
theory WebSocketFrames
  imports WebSocket FreshBuffer
begin

text \<open>
  The frames of \<open>WebSocketProtocol\<close>: what one end sends the other end reads, in order; a frame is
  read only when it is complete; and nothing is sent behind a close frame.
\<close>

section \<open>Masking\<close>

lemma length_masked [simp]: "length (masked key xs) = length xs"
  by (simp add: masked_def)

lemma nth_masked: "i < length xs \<Longrightarrow> masked key xs ! i = xs ! i XOR key ! (i mod 4)"
  by (simp add: masked_def)

lemma masked_twice: "masked key (masked key xs) = xs"
  by (rule nth_equalityI) (simp_all add: nth_masked xor.assoc)

section \<open>Big-endian lengths\<close>

lemma be16_value: "foldl (\<lambda>v c. 256 * v + unat c) 0 (be16 v) = unat v"
proof -
  have "unat (ucast (drop_bit 8 v) :: byte) = unat v div 256" "unat (ucast v :: byte) = unat v mod 256"
    using unsigned_less [of v, where ?'a = nat] by (simp_all add: unsigned_ucast_eq take_bit_eq_mod unat_drop_bit)
  then show ?thesis by (simp add: be16_def)
qed

lemma be64_value: "foldl (\<lambda>v c. 256 * v + unat c) 0 (be64 v) = unat v"
proof -
  have byte: "unat (ucast (drop_bit n v) :: byte) = unat v div 2 ^ n mod 256" for n
    by (simp add: unsigned_ucast_eq take_bit_eq_mod unat_drop_bit)
  define n where "n = unat v"
  have step: "256 * (n div (256 * k)) + n div k mod 256 = n div k" for k
    using mult_div_mod_eq [of 256 "n div k"] by (simp add: div_mult2_eq mult.commute)
  have "n < 2 ^ 64" using unsigned_less [of v, where ?'a = nat] by (simp add: n_def)
  then have top: "n div 2 ^ 56 mod 256 = n div 2 ^ 56" by (simp add: less_mult_imp_div_less)
  show ?thesis
    using byte [of 56] byte [of 48] byte [of 40] byte [of 32] byte [of 24] byte [of 16] byte [of 8] byte [of 0]
      step [of "2 ^ 48"] step [of "2 ^ 40"] step [of "2 ^ 32"] step [of "2 ^ 24"] step [of "2 ^ 16"]
      step [of "2 ^ 8"] step [of 1] top
    by (simp add: be64_def n_def [symmetric])
qed

text \<open>\<open>content_be\<close> is \<open>peekInt16\<close> and \<open>peekInt64\<close> of a buffer with that content.\<close>

lemma bytes_be16: "length a = 2 \<Longrightarrow> \<exists>v. a = be16 v"
  using be16_ntohs by metis

lemma bytes_be64: "length a = 8 \<Longrightarrow> \<exists>v. a = be64 v"
proof -
  assume "length a = 8"
  then obtain b0 b1 b2 b3 b4 b5 b6 b7 where a: "a = [b0, b1, b2, b3, b4, b5, b6, b7]"
    by (auto simp: numeral_eq_Suc length_Suc_conv)
  define v :: u64 where "v = ucast b7 OR push_bit 8 (ucast b6) OR push_bit 16 (ucast b5) OR
    push_bit 24 (ucast b4) OR push_bit 32 (ucast b3) OR push_bit 40 (ucast b2) OR
    push_bit 48 (ucast b1) OR push_bit 56 (ucast b0)"
  have "ucast (drop_bit 56 v) = b0" "ucast (drop_bit 48 v) = b1" "ucast (drop_bit 40 v) = b2"
    "ucast (drop_bit 32 v) = b3" "ucast (drop_bit 24 v) = b4" "ucast (drop_bit 16 v) = b5"
    "ucast (drop_bit 8 v) = b6"
    by (rule bit_word_eqI, simp add: v_def bit_simps, auto dest: bit_imp_le_length)+
  moreover have "ucast v = b7"
    by (rule bit_word_eqI) (auto simp: v_def bit_simps dest: bit_imp_le_length)
  ultimately have "a = be64 v" by (simp add: be64_def a)
  then show ?thesis by blast
qed

lemma content_be_Some:
  "take 2 (drop off xs) = be16 v \<Longrightarrow> content_be xs off 2 = Some (unat v)"
  "take 8 (drop off xs) = be64 w \<Longrightarrow> content_be xs off 8 = Some (unat w)"
  using chunk_in_range [of 2 off xs "be16 v"] chunk_in_range [of 8 off xs "be64 w"]
  by (auto simp: content_be_def be16_value be64_value)

lemma content_peek:
  assumes "db_inv b" and "off < 2 ^ 63"
  shows "map_option unat (peekInt16 b off) = content_be (db_content b) off 2"
    and "map_option unat (peekInt64 b off) = content_be (db_content b) off 8"
proof -
  show "map_option unat (peekInt16 b off) = content_be (db_content b) off 2"
  proof (cases "length (db_content b) < off + 2")
    case True
    then show ?thesis using peek_too_short(2) [OF assms] by (simp add: content_be_def)
  next
    case False
    then obtain v where v: "take 2 (drop off (db_content b)) = be16 v"
      using bytes_be16 [of "take 2 (drop off (db_content b))"] by auto
    show ?thesis using peekInt16_content [OF assms v] content_be_Some(1) [OF v] by simp
  qed
  show "map_option unat (peekInt64 b off) = content_be (db_content b) off 8"
  proof (cases "length (db_content b) < off + 8")
    case True
    then show ?thesis using peek_too_short(4) [OF assms] by (simp add: content_be_def)
  next
    case False
    then obtain v where v: "take 8 (drop off (db_content b)) = be64 v"
      using bytes_be64 [of "take 8 (drop off (db_content b))"] by auto
    show ?thesis using peekInt64_content [OF assms v] content_be_Some(2) [OF v] by simp
  qed
qed

section \<open>The frame that is sent\<close>

definition frame_head :: "bool \<Rightarrow> nat \<Rightarrow> bytes" where
  "frame_head is_client n =
     (let flag = (if is_client then 0x80 else 0)
      in if n < 126 then [0x82, flag OR of_nat n]
         else if n < 65535 then [0x82, flag OR 126] @ be16 (of_nat n)
         else [0x82, flag OR 127] @ be64 (of_nat n))"

lemma length_frame_head: "length (frame_head c n) \<le> 10"
  by (simp add: frame_head_def Let_def)

lemma frame_header_fresh: "fresh (frame_header c n) (frame_head c n)"
proof -
  have start: "fresh (put_byte 0x82 (reserveWritableBytes (DynamicBuffer 1024 1024) 2)) [0x82]"
    using fresh_store [OF fresh_start, of "[0x82]"] fresh_reserve [OF fresh_start, of 2]
    by (simp add: put_byte_def)
  then have two: "fresh (put_byte x (put_byte 0x82 (reserveWritableBytes (DynamicBuffer 1024 1024) 2))) [0x82, x]" for x
    using fresh_store [OF start, of "[x]"] by (simp add: put_byte_def)
  show ?thesis
    using two fresh_append [OF two, where ys = "be16 (of_nat n)"] fresh_append [OF two, where ys = "be64 (of_nat n)"]
    by (simp add: frame_header_def frame_head_def Let_def writeInt_append)
qed

lemma client_frame_content:
  assumes "length xs \<le> 1016" and "length key = 4"
  shows "db_content (client_frame freed key xs) = frame_head True (length xs) @ key @ masked key xs"
proof -
  let ?h = "frame_head True (length xs)"
  have room: "length ?h + 4 + length xs \<le> 1024"
    using assms(1) by (simp add: frame_head_def Let_def)
  let ?b1 = "db_write (db_store (reserveWritableBytes (frame_header True (length xs)) 4) key) 4"
  have b1: "fresh ?b1 (?h @ key)"
    using fresh_store [OF frame_header_fresh, of True "length xs" key] fresh_reserve [OF frame_header_fresh] room assms(2)
    by simp
  have "reserveWritableBytes ?b1 (length xs) = ?b1" "length xs \<le> writableBytes ?b1"
    using fresh_reserve [OF b1] fresh_writable [OF b1] room assms(2) by simp_all
  then show ?thesis
    using fresh_content(1) [OF fresh_store [OF b1, of "masked key xs"]] room assms(2)
    by (simp add: client_frame_def Let_def)
qed

lemma server_frame_content:
  assumes "length xs < 2 ^ 60"
  shows "db_content (server_frame xs) = frame_head False (length xs) @ xs"
proof -
  let ?b = "frame_header False (length xs)"
  have b: "db_inv ?b" "db_content ?b = frame_head False (length xs)"
    using frame_header_fresh by (auto simp: fresh_def)
  have "length (db_content ?b) + length xs < db_limit"
    using length_frame_head [of False "length xs"] assms by (simp add: b(2) db_limit_def)
  then show ?thesis
    using append_content [OF b(1)] by (simp add: server_frame_def db_append_def Let_def b(2))
qed

lemma length_random_bytes [simp]: "length (fst (random_bytes n r)) = n"
  by (induction n arbitrary: r) (simp_all add: split_beta)

section \<open>Reading it back\<close>

lemma low_bits: "n < 126 \<Longrightarrow> unat ((of_nat n :: byte) AND 0x7f) = n"
  "n < 126 \<Longrightarrow> unat ((0x80 OR of_nat n :: byte) AND 0x7f) = n"
  "n < 126 \<Longrightarrow> (of_nat n :: byte) AND 0x80 = 0"
  "n < 126 \<Longrightarrow> (0x80 OR of_nat n :: byte) AND 0x80 \<noteq> 0"
proof -
  have "list_all (\<lambda>n. unat ((of_nat n :: byte) AND 0x7f) = n \<and> unat ((0x80 OR of_nat n :: byte) AND 0x7f) = n \<and>
      (of_nat n :: byte) AND 0x80 = 0 \<and> (0x80 OR of_nat n :: byte) AND 0x80 \<noteq> 0) [0..<126]"
    by code_simp
  then show "n < 126 \<Longrightarrow> unat ((of_nat n :: byte) AND 0x7f) = n"
    "n < 126 \<Longrightarrow> unat ((0x80 OR of_nat n :: byte) AND 0x7f) = n"
    "n < 126 \<Longrightarrow> (of_nat n :: byte) AND 0x80 = 0"
    "n < 126 \<Longrightarrow> (0x80 OR of_nat n :: byte) AND 0x80 \<noteq> 0"
    by (simp_all only: list_all_iff set_upt atLeastLessThan_iff) auto
qed

lemma payload_size_head:
  assumes "n < 2 ^ 64"
  shows "payload_size (frame_head c n @ t) ((frame_head c n @ t) ! 1) = Inr (n, length (frame_head c n))"
    and "(frame_head c n @ t) ! 1 AND 0x80 \<noteq> 0 \<longleftrightarrow> c"
    and "(frame_head c n @ t) ! 0 = 0x82" and "\<not> length (frame_head c n @ t) < 2"
proof -
  have "unat (of_nat n :: u16) = n" if "n < 65536" using that by (simp add: unat_of_nat)
  moreover have "unat (of_nat n :: u64) = n" using assms by (simp add: unat_of_nat)
  ultimately show "payload_size (frame_head c n @ t) ((frame_head c n @ t) ! 1) = Inr (n, length (frame_head c n))"
    using content_be_Some(1) [of 2 "[0x82, (if c then 0x80 else 0) OR 126] @ be16 (of_nat n) @ t" "of_nat n"]
      content_be_Some(2) [of 2 "[0x82, (if c then 0x80 else 0) OR 127] @ be64 (of_nat n) @ t" "of_nat n"]
    by (cases c) (simp_all add: payload_size_def frame_head_def Let_def low_bits)
  show "(frame_head c n @ t) ! 1 AND 0x80 \<noteq> 0 \<longleftrightarrow> c"
    using low_bits(3,4) [of n] by (cases c) (simp_all add: frame_head_def Let_def)
  show "(frame_head c n @ t) ! 0 = 0x82" "\<not> length (frame_head c n @ t) < 2"
    by (simp_all add: frame_head_def Let_def)
qed

definition frame_of :: "bool \<Rightarrow> bytes \<Rightarrow> bytes \<Rightarrow> bytes" where
  "frame_of c key xs = frame_head c (length xs) @ (if c then key @ masked key xs else xs)"

lemma opcode_bits: "(0x82 :: byte) AND 0x70 = 0" "(0x82 :: byte) AND 0x80 \<noteq> 0" "uint ((0x82 :: byte) AND 0x0f) = 2"
  by simp_all

lemma process_data_frame:
  "process_frame True 2 ws = (ws\<lparr>ws_status := WS_FINISHED\<rparr>, 1)"
  by (simp add: process_frame_def)

lemma readFrame_frame_of:
  assumes "ws_is_client ws \<longleftrightarrow> \<not> c" and "length xs < 2 ^ 60" and "length key = 4"
  shows "readFrame ws (frame_of c key xs @ ys) =
    (ws\<lparr>ws_message := ws_message ws @ xs, ws_status := WS_FINISHED\<rparr>, ys, 1)"
proof -
  let ?t = "(if c then key @ masked key xs else xs) @ ys"
  have n: "length xs < 2 ^ 64" using assms(2) by simp
  have shape: "frame_of c key xs @ ys = frame_head c (length xs) @ ?t"
    by (simp add: frame_of_def)
  note head = payload_size_head(1) [OF n, of c ?t]
  note facts = payload_size_head(2-4) [OF n, where c = c and t = ?t] opcode_bits process_data_frame
  show ?thesis
    unfolding shape readFrame_def head sum.case prod.case Let_def
    using facts assms by (cases c) (simp_all add: masked_twice)
qed

section \<open>Sequences of messages\<close>

fun send_all :: "bytes \<Rightarrow> random \<Rightarrow> web_socket \<Rightarrow> bytes list \<Rightarrow> web_socket \<times> random" where
  "send_all freed rnd ws [] = (ws, rnd)"
| "send_all freed rnd ws (m # ms) =
     (let (ws1, rnd1) = ws_sendMessage freed rnd ws m in send_all freed rnd1 ws1 ms)"

text \<open>Receive and retrieve \<open>n\<close> times, as long as messages are ready.\<close>

fun recv_all :: "ws_env \<Rightarrow> bytes \<Rightarrow> nat \<Rightarrow> web_socket \<Rightarrow> bytes \<Rightarrow> bytes list \<times> web_socket \<times> bytes" where
  "recv_all env slack 0 ws buffer = ([], ws, buffer)"
| "recv_all env slack (Suc n) ws buffer =
     (let (ws1, rest, ret) = ws_recv env slack ws buffer
      in case retrieveMessage ws1 of
           None \<Rightarrow> ([], ws1, rest)
         | Some (m, ws2) \<Rightarrow>
             let (ms, ws3, rest3) = recv_all env slack n ws2 rest in (m # ms, ws3, rest3))"

lemma recv_frame:
  assumes "ws_status ws = WS_CONNECTED" and "ws_is_client ws \<longleftrightarrow> \<not> c" and "length xs < 2 ^ 60" and "length key = 4"
  shows "ws_recv env slack ws (frame_of c key xs @ ys) =
    (ws\<lparr>ws_message := ws_message ws @ xs, ws_status := WS_FINISHED\<rparr>, ys, WS_MESSAGE_READY)"
  using ws_recv.simps [of env slack ws "frame_of c key xs @ ys"] readFrame_frame_of [OF assms(2-4), of ys] assms(1)
  by (simp add: ws_dead_def ws_handle_def)

lemma retrieve_received:
  "ws_status ws = WS_CONNECTED \<Longrightarrow> ws_message ws = [] \<Longrightarrow>
    retrieveMessage (ws\<lparr>ws_message := ws_message ws @ xs, ws_status := WS_FINISHED\<rparr>) = Some (xs, ws)"
  by (cases ws) (simp add: retrieveMessage_def)

text \<open>The longest message of each end.\<close>

definition message_limit :: "bool \<Rightarrow> nat" where
  "message_limit is_client = (if is_client then 1017 else 2 ^ 60)"

lemma send_frame:
  assumes "ws_status ws = WS_CONNECTED" and "\<not> ws_close_frame_sent ws" and "ws_output_cb ws"
    and "length xs < message_limit (ws_is_client ws)"
  shows "\<exists>key rnd1. length key = 4 \<and> ws_sendMessage freed rnd ws xs =
    (ws\<lparr>ws_output := ws_output ws @ [frame_of (ws_is_client ws) key xs]\<rparr>, rnd1)"
proof (cases "ws_is_client ws")
  case True
  obtain key rnd1 where key: "random_bytes 4 rnd = (key, rnd1)" by fastforce
  have len: "length key = 4" using length_random_bytes [of 4 rnd] key by simp
  have "length xs \<le> 1016" using assms(4) True by (simp add: message_limit_def)
  from client_frame_content [OF this len] show ?thesis
    using assms True key len by (intro exI [of _ key]) (simp add: ws_sendMessage_def ws_emit_def frame_of_def)
next
  case False
  then have "length xs < 2 ^ 60" using assms(4) by (simp add: message_limit_def)
  from server_frame_content [OF this] show ?thesis
    using assms False by (intro exI [of _ "[0, 0, 0, 0]"]) (simp add: ws_sendMessage_def ws_emit_def frame_of_def)
qed

section \<open>Incomplete frames\<close>

lemma content_be_append: "content_be xs off n = Some v \<Longrightarrow> content_be (xs @ ys) off n = Some v"
  by (auto simp: content_be_def split: if_splits)

lemma payload_size_append:
  "payload_size xs b = Inr np \<Longrightarrow> payload_size (xs @ ys) b = Inr np"
  "payload_size xs b = Inl (-1) \<Longrightarrow> payload_size (xs @ ys) b = Inl (-1)"
  by (auto simp: payload_size_def Let_def content_be_append split: if_splits option.splits)

lemma payload_size_bound:
  "payload_size xs b = Inr (n, p) \<Longrightarrow> 2 \<le> length xs \<Longrightarrow> p \<le> length xs"
  by (auto simp: payload_size_def content_be_def Let_def split: if_splits option.splits)

definition is_masked :: "bytes \<Rightarrow> bool" where
  "is_masked xs \<longleftrightarrow> xs ! 1 AND 0x80 \<noteq> 0"

text \<open>Where the payload begins, and the frame that is complete.\<close>

definition payload_begin :: "bytes \<Rightarrow> nat \<Rightarrow> nat" where
  "payload_begin xs p = (if is_masked xs then p + 4 else p)"

definition frame_result :: "web_socket \<Rightarrow> nat \<Rightarrow> nat \<Rightarrow> bytes \<Rightarrow> web_socket \<times> int" where
  "frame_result ws n p xs =
     (let payload = take n (drop (payload_begin xs p) xs)
      in process_frame (xs ! 0 AND 0x80 \<noteq> 0) (uint (xs ! 0 AND 0x0f))
           (ws\<lparr>ws_message := ws_message ws @
              (if is_masked xs then masked (take 4 (drop p xs)) payload else payload)\<rparr>))"

lemma readFrame_Inr:
  assumes "\<not> length xs < 2" and "xs ! 0 AND 0x70 = 0" and "payload_size xs (xs ! 1) = Inr (n, p)"
  shows "readFrame ws xs =
    (if is_masked xs \<and> ws_is_client ws then (ws, xs, -1)
     else if length xs < payload_begin xs p + n then (ws, xs, 0)
     else (fst (frame_result ws n p xs), drop (payload_begin xs p + n) xs, snd (frame_result ws n p xs)))"
proof -
  have p: "p \<le> length xs" using payload_size_bound [OF assms(3)] assms(1) by simp
  have short: "(is_masked xs \<and> length xs - p < 4) \<or> (n > 0 \<and> length xs - payload_begin xs p < n) \<longleftrightarrow>
      length xs < payload_begin xs p + n"
    using p by (auto simp: payload_begin_def)
  show ?thesis
  proof (cases "length xs < payload_begin xs p + n")
    case True
    then show ?thesis
      using assms short unfolding readFrame_def is_masked_def payload_begin_def Let_def by auto
  next
    case False
    then have "\<not> (is_masked xs \<and> length xs - p < 4)" "\<not> (n > 0 \<and> length xs - payload_begin xs p < n)"
      using short by blast+
    then show ?thesis
      using assms False
      by (simp only: readFrame_def is_masked_def payload_begin_def frame_result_def Let_def sum.case prod.case
          if_False simp_thms split_beta fst_conv snd_conv)
  qed
qed

lemma frame_result_append:
  assumes "payload_begin xs p + n \<le> length xs" and "\<not> length xs < 2"
  shows "frame_result ws n p (xs @ ys) = frame_result ws n p xs" and "payload_begin (xs @ ys) p = payload_begin xs p"
    and "is_masked (xs @ ys) = is_masked xs"
proof -
  show m: "is_masked (xs @ ys) = is_masked xs" using assms(2) by (simp add: is_masked_def nth_append)
  then show b: "payload_begin (xs @ ys) p = payload_begin xs p" by (simp add: payload_begin_def)
  have first: "(xs @ ys) ! 0 = xs ! 0" using assms(2) by (cases xs) auto
  have payload: "take n (drop (payload_begin xs p) (xs @ ys)) = take n (drop (payload_begin xs p) xs)"
    using assms(1) by simp
  have key: "(if is_masked xs then masked (take 4 (drop p (xs @ ys))) q else q) =
      (if is_masked xs then masked (take 4 (drop p xs)) q else q)" for q
    using assms(1) by (auto simp: payload_begin_def)
  show "frame_result ws n p (xs @ ys) = frame_result ws n p xs"
    by (simp only: frame_result_def m b first payload key)
qed

text \<open>A frame that is used up is used up in the same way when more bytes follow; otherwise nothing is
  changed.\<close>

lemma readFrame_append:
  assumes "readFrame ws xs = (ws', rest, ret)"
  shows "(ws' = ws \<and> rest = xs \<and> ret = 0) \<or> readFrame ws (xs @ ys) = (ws', rest @ ys, ret)"
proof (cases "length xs < 2")
  case True
  then show ?thesis using assms by (simp add: readFrame_def)
next
  case False
  then have at: "(xs @ ys) ! 0 = xs ! 0" "(xs @ ys) ! 1 = xs ! 1" "\<not> length (xs @ ys) < 2"
    by (auto simp: nth_append)
  show ?thesis
  proof (cases "xs ! 0 AND 0x70 \<noteq> 0")
    case True
    then show ?thesis using assms False at by (simp add: readFrame_def)
  next
    case rsv: False
    show ?thesis
    proof (cases "payload_size xs (xs ! 1)")
      case (Inl early)
      then have "early = 0 \<or> payload_size (xs @ ys) (xs ! 1) = Inl (-1)"
        using payload_size_early [OF Inl] payload_size_append(2) [of xs "xs ! 1" ys] by auto
      then show ?thesis using assms False rsv at Inl payload_size_early [OF Inl] payload_size_append(2) [of xs "xs ! 1" ys]
        by (auto simp: readFrame_def)
    next
      case (Inr np)
      obtain n p where np: "np = (n, p)" by fastforce
      note one = readFrame_Inr [OF False _ Inr [unfolded np], of ws]
      have two: "readFrame ws (xs @ ys) =
          (if is_masked (xs @ ys) \<and> ws_is_client ws then (ws, xs @ ys, -1)
           else if length (xs @ ys) < payload_begin (xs @ ys) p + n then (ws, xs @ ys, 0)
           else (fst (frame_result ws n p (xs @ ys)), drop (payload_begin (xs @ ys) p + n) (xs @ ys),
             snd (frame_result ws n p (xs @ ys))))"
        by (rule readFrame_Inr) (use at rsv payload_size_append(1) [OF Inr, of ys] np in \<open>simp_all del: One_nat_def\<close>)
      have m: "is_masked (xs @ ys) = is_masked xs" using at by (simp add: is_masked_def)
      consider "is_masked xs" "ws_is_client ws" | "length xs < payload_begin xs p + n"
        | "\<not> (is_masked xs \<and> ws_is_client ws)" "payload_begin xs p + n \<le> length xs"
        by linarith
      then show ?thesis
      proof cases
        case 3
        then show ?thesis
          using assms one two rsv frame_result_append(1) [OF 3(2) False, of ws ys] frame_result_append(2,3) [OF 3(2) False, of ys] by auto
      qed (use assms one two rsv m in \<open>auto split: if_splits\<close>)
    qed
  qed
qed

section \<open>Sequences of calls\<close>

inductive ws_step :: "web_socket \<Rightarrow> web_socket \<Rightarrow> bool" where
  step_callback: "ws_step ws (setOutputCallback cb ws)"
| step_header: "ws_step ws (setHandshakeHeader k v ws)"
| step_client: "startAsClient ntop6 peer rnd uri ws = (ok, ws', rnd') \<Longrightarrow> ws_step ws ws'"
| step_server: "startAsServer ws = (ok, ws') \<Longrightarrow> ws_step ws ws'"
| step_recv: "ws_recv env slack ws buffer = (ws', rest, r) \<Longrightarrow> ws_step ws ws'"
| step_retrieve: "retrieveMessage ws = Some (m, ws') \<Longrightarrow> ws_step ws ws'"
| step_send: "ws_sendMessage freed rnd ws m = (ws', rnd') \<Longrightarrow> ws_step ws ws'"
| step_close: "ws_step ws (sendCloseFrame ws)"
| step_ping: "ws_step ws (sendPingFrame ws)"

inductive_cases ws_stepE: "ws_step ws ws'"

lemmas ws_step_cases = ws_stepE [consumes 1, case_names callback header client server recv retrieve send close ping]

definition ended :: "web_socket \<Rightarrow> bool" where
  "ended ws \<longleftrightarrow> ws_status ws = WS_CLOSED \<or> ws_status ws = WS_PENDING_ERROR"

definition handshake_done :: "web_socket \<Rightarrow> bool" where
  "handshake_done ws \<longleftrightarrow> ws_status ws \<in> {WS_CONNECTED, WS_FINISHED, WS_CLOSED, WS_PENDING_ERROR}"

definition close_after_handshake :: "web_socket \<Rightarrow> bool" where
  "close_after_handshake ws \<longleftrightarrow> (ws_close_frame_sent ws \<longrightarrow> handshake_done ws)"

lemma emit_fields [simp]:
  "ws_status (ws_emit out ws) = ws_status ws" "ws_close_frame_sent (ws_emit out ws) = ws_close_frame_sent ws"
  "ws_is_client (ws_emit out ws) = ws_is_client ws"
  by (simp_all add: ws_emit_def)

lemma header_fields [simp]:
  "ws_status (setHandshakeHeader k v ws) = ws_status ws"
  "ws_close_frame_sent (setHandshakeHeader k v ws) = ws_close_frame_sent ws"
  "ws_output (setHandshakeHeader k v ws) = ws_output ws"
  by (simp_all add: setHandshakeHeader_def)

lemma provide_headers_fields:
  "provide_headers ntop6 peer rnd ws = (ws', rnd') \<Longrightarrow>
    ws_status ws' = ws_status ws \<and> ws_close_frame_sent ws' = ws_close_frame_sent ws"
  by (auto simp: provide_headers_def Let_def split: prod.splits if_splits)

text \<open>What one frame does to the status, the flag and the output.\<close>

lemma process_frame_fields:
  assumes "process_frame fin opcode ws = (ws', ret)" and "ws_status ws = WS_CONNECTED"
  shows "handshake_done ws'" and "ws_close_frame_sent ws \<Longrightarrow> ws_close_frame_sent ws' \<and> ws_output ws' = ws_output ws"
  using assms
  by (auto simp: process_frame_def Let_def handshake_done_def sendCloseFrame_def sendPongFrame_def split: if_splits)

lemma readFrame_fields:
  assumes "readFrame ws xs = (ws', rest, ret)" and "ws_status ws = WS_CONNECTED"
  shows "handshake_done ws'" and "ws_close_frame_sent ws \<Longrightarrow> ws_close_frame_sent ws' \<and> ws_output ws' = ws_output ws"
proof -
  have "ws' = ws \<or> (\<exists>fin opcode data ret'. process_frame fin opcode (ws\<lparr>ws_message := data\<rparr>) = (ws', ret'))"
    using assms(1) unfolding readFrame_def Let_def
    by (auto split: if_splits sum.splits prod.splits simp del: One_nat_def)
  then show "handshake_done ws'" "ws_close_frame_sent ws \<Longrightarrow> ws_close_frame_sent ws' \<and> ws_output ws' = ws_output ws"
    using assms(2) process_frame_fields by (fastforce simp: handshake_done_def)+
qed

lemma recv_connected:
  assumes "ws_recv env slack ws xs = (ws', rest, r)" and "ws_status ws = WS_CONNECTED"
  shows "handshake_done ws'" and "ws_close_frame_sent ws \<Longrightarrow> ws_close_frame_sent ws' \<and> ws_output ws' = ws_output ws"
proof -
  obtain ws1 rest1 ret where frame: "readFrame ws xs = (ws1, rest1, ret)" by (cases "readFrame ws xs") auto
  then have "ws' = ws1 \<or> ws' = ws1\<lparr>ws_status := WS_PENDING_ERROR\<rparr>"
    using assms ws_recv.simps [of env slack ws xs] readFrame_one [OF frame]
    by (auto simp: ws_dead_def ws_handle_def split: if_splits)
  then show "handshake_done ws'" "ws_close_frame_sent ws \<Longrightarrow> ws_close_frame_sent ws' \<and> ws_output ws' = ws_output ws"
    using readFrame_fields [OF frame assms(2)] by (auto simp: handshake_done_def)
qed

lemma recv_other:
  assumes "ws_recv env slack ws xs = (ws', rest, r)" and "ws_status ws \<noteq> WS_CONNECTED"
  shows "ws_close_frame_sent ws' = ws_close_frame_sent ws" and "handshake_done ws \<Longrightarrow> ws' = ws"
proof -
  have "ws_close_frame_sent ws1 = ws_close_frame_sent ws" if "ws_handle env slack ws xs = (ws1, rest1, ret)" for ws1 rest1 ret
    using that assms(2)
    by (cases "ws_status ws")
      (auto simp: ws_handle_def readHandshakeRequest_def readHandshakeResponse_def Let_def
        sendHandshakeErrorResponse_def sendHandshakeSuccessResponse_def handshake_header_def
        split: prod.splits ret_code.splits option.splits if_splits)
  then show "ws_close_frame_sent ws' = ws_close_frame_sent ws"
    using assms(1) ws_recv.simps [of env slack ws xs] ws_handle_one [of env slack ws xs]
    by (auto split: if_splits prod.splits)
  show "handshake_done ws \<Longrightarrow> ws' = ws"
    using assms ws_recv.simps [of env slack ws xs] by (auto simp: handshake_done_def ws_dead_def)
qed

lemma step_keeps_close:
  assumes "ws_step ws ws'" and "close_after_handshake ws"
  shows "close_after_handshake ws'"
  using assms(1)
proof (cases rule: ws_step_cases)
  case step_recv: (recv env slack buffer rest r)
  show ?thesis
  proof (cases "ws_status ws = WS_CONNECTED")
    case True
    then show ?thesis using recv_connected(1) [OF step_recv] by (simp add: close_after_handshake_def)
  next
    case False
    then show ?thesis using recv_other [OF step_recv False] assms(2) by (auto simp: close_after_handshake_def)
  qed
next
  case (client ntop6 peer rnd uri ok rnd')
  then show ?thesis
    using assms(2) provide_headers_fields
    by (fastforce simp: startAsClient_def Let_def close_after_handshake_def handshake_done_def split: if_splits prod.splits)
qed (use assms(2) in \<open>auto simp: close_after_handshake_def handshake_done_def setOutputCallback_def startAsServer_def
      retrieveMessage_def ws_sendMessage_def sendCloseFrame_def sendPingFrame_def split: if_splits prod.splits\<close>)

lemma reachable_close: "ws_step\<^sup>*\<^sup>* WebSocketProtocol ws \<Longrightarrow> close_after_handshake ws"
proof (induction rule: rtranclp_induct)
  case base
  show ?case by (simp add: WebSocketProtocol_def close_after_handshake_def)
qed (rule step_keeps_close)

lemma step_silent:
  assumes "ws_step ws ws'" and "close_after_handshake ws" and "ws_close_frame_sent ws \<or> ended ws"
  shows "ws_output ws' = ws_output ws \<and> (ws_close_frame_sent ws' \<or> ended ws') \<and> (ended ws \<longrightarrow> ws_status ws' = ws_status ws)"
  using assms(1)
proof (cases rule: ws_step_cases)
  case step_recv: (recv env slack buffer rest r)
  have "handshake_done ws" using assms(2,3) by (auto simp: close_after_handshake_def ended_def handshake_done_def)
  then show ?thesis
    using recv_connected [OF step_recv] recv_other [OF step_recv] assms(3)
    by (cases "ws_status ws = WS_CONNECTED") (auto simp: ended_def)
qed (use assms(2,3) in \<open>auto simp: close_after_handshake_def ended_def handshake_done_def setOutputCallback_def
      startAsServer_def startAsClient_def retrieveMessage_def ws_sendMessage_def sendCloseFrame_def sendPingFrame_def
      split: if_splits prod.splits\<close>)

section \<open>Properties\<close>

text \<open>C34. A sequence of messages, of at most 1016 bytes each if the sender is the client and below \<open>2^60\<close>
  bytes if it is the server, sent by one end is received by the other end, complete, unchanged
  and in order, over any stream that delivers the bytes of the frames; afterwards the receiver is as
  before and what follows is unread. A longer message of a client does not fit into the buffer as it is created;
  the code then masks with freed memory and it may arrive changed.\<close>

theorem messages_arrive_in_order:
  assumes "ws_status s = WS_CONNECTED" and "\<not> ws_close_frame_sent s" and "ws_output_cb s"
    and "list_all (\<lambda>m. length m < message_limit (ws_is_client s)) ms"
    and "ws_status r = WS_CONNECTED" and "ws_is_client r \<longleftrightarrow> \<not> ws_is_client s" and "ws_message r = []"
  shows "\<exists>out. ws_output (fst (send_all freed rnd s ms)) = ws_output s @ out \<and>
    recv_all env slack (length ms) r (concat out @ ys) = (ms, r, ys)"
  using assms(1-4,6)
proof (induction ms arbitrary: s rnd)
  case Nil
  show ?case by (rule exI [of _ "[]"]) simp
next
  case (Cons m ms)
  have m: "length m < message_limit (ws_is_client s)" using Cons.prems(4) by simp
  then have "length m < 2 ^ 60" by (simp add: message_limit_def split: if_splits)
  obtain key rnd1 where key: "length key = 4" and sent: "ws_sendMessage freed rnd s m =
      (s\<lparr>ws_output := ws_output s @ [frame_of (ws_is_client s) key m]\<rparr>, rnd1)"
    using send_frame [OF Cons.prems(1-3) m] by blast
  let ?s1 = "s\<lparr>ws_output := ws_output s @ [frame_of (ws_is_client s) key m]\<rparr>"
  have "\<exists>out. ws_output (fst (send_all freed rnd1 ?s1 ms)) = ws_output ?s1 @ out \<and>
      recv_all env slack (length ms) r (concat out @ ys) = (ms, r, ys)"
    by (rule Cons.IH) (use Cons.prems in simp_all)
  then obtain out where out: "ws_output (fst (send_all freed rnd1 ?s1 ms)) = ws_output ?s1 @ out"
    "recv_all env slack (length ms) r (concat out @ ys) = (ms, r, ys)" by blast
  note received = recv_frame [OF assms(5) Cons.prems(5) \<open>length m < 2 ^ 60\<close> key, of env slack "concat out @ ys"]
  show ?case
    by (rule exI [of _ "frame_of (ws_is_client s) key m # out"])
       (use sent out received retrieve_received [OF assms(5,7), of m] in simp)
qed

definition connected_end :: "bool \<Rightarrow> web_socket" where
  "connected_end is_client =
     WebSocketProtocol\<lparr>ws_status := WS_CONNECTED, ws_output_cb := True, ws_is_client := is_client\<rparr>"

theorem messages_arrive_in_order_witness:
  "\<exists>out. recv_all \<lparr>env_block = [], env_time_format = (\<lambda>f t. []), env_clock = 0\<rparr> [] 2
      (connected_end False) (concat out @ [7]) = ([str ''hello'', []], connected_end False, [7]) \<and>
    ws_output (fst (send_all [] (Random [] 1) (connected_end True) [str ''hello'', []])) = out"
  using messages_arrive_in_order [of "connected_end True" "[str ''hello'', []]" "connected_end False" "[]"
      "Random [] 1" "\<lparr>env_block = [], env_time_format = (\<lambda>f t. []), env_clock = 0\<rparr>" "[]" "[7]"]
  by (auto simp: connected_end_def WebSocketProtocol_def message_limit_def eval_nat_numeral
      simp del: send_all.simps recv_all.simps)

text \<open>C35. In a connection the bytes of a frame change nothing until the frame is complete, and what it
  does then does not depend on what follows it.\<close>

theorem frame_is_read_when_complete:
  assumes "ws_status ws = WS_CONNECTED" and "ws_recv env slack ws xs = (ws', rest, r)"
  shows "(ws' = ws \<and> rest = xs \<and> r = WS_WAITING_MORE_DATA) \<or>
    ws_recv env slack ws (xs @ ys) = (ws', rest @ ys, r)"
proof -
  obtain ws1 rest1 ret where frame: "readFrame ws xs = (ws1, rest1, ret)" by (cases "readFrame ws xs") auto
  show ?thesis
    using readFrame_append [OF frame, of ys] readFrame_one [OF frame] assms frame
      ws_recv.simps [of env slack ws xs] ws_recv.simps [of env slack ws "xs @ ys"]
    by (auto simp: ws_dead_def ws_handle_def split: if_splits)
qed

definition no_env :: ws_env where
  "no_env = \<lparr>env_block = [], env_time_format = (\<lambda>f t. []), env_clock = 0\<rparr>"

theorem frame_is_read_when_complete_witness:
  "fst (ws_recv no_env [] (connected_end True) [0x82, 2, 65]) = connected_end True \<or>
    ws_recv no_env [] (connected_end True) ([0x82, 2, 65] @ [66]) =
      (case ws_recv no_env [] (connected_end True) [0x82, 2, 65] of (ws, rest, r) \<Rightarrow> (ws, rest @ [66], r))"
proof -
  obtain ws' rest r where one: "ws_recv no_env [] (connected_end True) [0x82, 2, 65] = (ws', rest, r)"
    by (cases "ws_recv no_env [] (connected_end True) [0x82, 2, 65]") auto
  have "ws_status (connected_end True) = WS_CONNECTED" by (simp add: connected_end_def)
  from frame_is_read_when_complete [OF this one, of "[66]"] show ?thesis unfolding one by auto
qed

text \<open>Where the first fragment of a message is read, the second one stays unread although it is there;
  and a ping between two fragments loses what the first one brought.\<close>

lemma fragment_waits:
  "snd (ws_recv no_env [] (connected_end True) [0x01, 1, 65, 0x80, 1, 66]) = ([0x80, 1, 66], WS_WAITING_MORE_DATA)"
  by (simp add: ws_recv.simps ws_dead_def ws_handle_def connected_end_def WebSocketProtocol_def readFrame_def
      payload_size_def process_frame_def)

lemma ping_clears_fragment:
  "ws_message (fst (process_frame True 9 (connected_end True \<lparr>ws_message := [65], ws_last_op_code := 1\<rparr>))) = []"
  by (simp add: process_frame_def connected_end_def WebSocketProtocol_def sendPongFrame_def ws_emit_def)

text \<open>C36. Once a close frame has been sent or the connection has ended, no sequence of calls sends
  another byte, and an ended connection stays ended.\<close>

theorem nothing_after_close:
  assumes "ws_step\<^sup>*\<^sup>* WebSocketProtocol ws" and "ws_close_frame_sent ws \<or> ended ws" and "ws_step\<^sup>*\<^sup>* ws ws'"
  shows "ws_output ws' = ws_output ws \<and> (ended ws \<longrightarrow> ws_status ws' = ws_status ws)"
proof -
  have "ws_output ws' = ws_output ws \<and> (ws_close_frame_sent ws' \<or> ended ws') \<and> (ended ws \<longrightarrow> ws_status ws' = ws_status ws)"
    using assms(3,2)
  proof (induction rule: rtranclp_induct)
    case (step v w)
    have "close_after_handshake v"
      using reachable_close assms(1) step.hyps(1) by (meson rtranclp_trans)
    from step_silent [OF step.hyps(2) this] show ?case using step by (auto simp: ended_def)
  qed simp
  then show ?thesis by simp
qed

theorem nothing_after_close_witness:
  "\<exists>ws. ws_status ws = WS_PENDING_ERROR \<and> ws_output (sendPingFrame ws) = ws_output ws"
proof -
  let ?s = "snd (startAsServer WebSocketProtocol)"
  obtain ws rest r where err: "ws_recv no_env [] ?s [88, 13, 10] = (ws, rest, r)"
    by (cases "ws_recv no_env [] ?s [88, 13, 10]") auto
  have "ws_status (fst (ws_recv no_env [] ?s [88, 13, 10])) = WS_PENDING_ERROR" by code_simp
  then have ended: "ws_status ws = WS_PENDING_ERROR" by (simp add: err)
  have "ws_step WebSocketProtocol ?s"
    using step_server [of WebSocketProtocol "fst (startAsServer WebSocketProtocol)" ?s] by simp
  then have "ws_step\<^sup>*\<^sup>* WebSocketProtocol ws" using step_recv [OF err] by (meson rtranclp.simps)
  from nothing_after_close [OF this _ r_into_rtranclp [of ws_step, OF step_ping]] ended show ?thesis
    by (auto simp: ended_def)
qed

end
