(* ===== verification/WebSocketHandshake.thy ===== *)
theory WebSocketHandshake
  imports WebSocketFrames HttpRoundtrip
begin

text \<open>
  The handshake of \<open>WebSocketProtocol\<close>, end to end: the request a client sends is accepted by a
  server, and the server's response by the client, over the writer and the parser of \<open>HttpProtocol\<close>.
\<close>

section \<open>Small messages are written exactly\<close>

lemma fresh_printf:
  assumes "fresh b xs" and "length xs + n \<le> 1024" and "length xs + length line < 1024"
  shows "fresh (db_printf (reserveWritableBytes b n) line) (xs @ line)"
proof -
  have same: "reserveWritableBytes b n = b" by (rule fresh_reserve [OF assms(1,2)])
  have w: "writableBytes b = 1024 - length xs" by (rule fresh_writable [OF assms(1)])
  have idx: "db_write_index b = length xs" "length (db_buffer b) = 1024" "db_read_index b = 0" "db_inv b"
    using assms(1) fresh_write_index [OF assms(1)] by (auto simp: fresh_def)
  have printf: "db_printf b line = db_write (db_store b (line @ [0])) (length line)"
    using assms(3) w by (simp add: db_printf_def)
  have "length (db_buffer (db_printf b line)) = 1024" "db_read_index (db_printf b line) = 0"
    using idx assms(3) by (simp_all add: printf db_write_def db_store_def writeBegin_def)
  moreover have "db_content (db_printf b line) = xs @ line" "db_inv (db_printf b line)"
    using printf_content [OF idx(4), of line] assms(1,3) w by (auto simp: printed_def fresh_def)
  ultimately show ?thesis by (simp add: fresh_def same)
qed

lemma fresh_headers:
  assumes "fresh b xs" and "length xs + sum_list (map (\<lambda>h. 32 + length (fst h) + length (snd h)) hs) \<le> 1024"
  shows "\<exists>ys. fresh (fold (\<lambda>h b. db_printf (reserveWritableBytes b
        (sz_add (sz_add 32 (length (fst h))) (length (snd h)))) (header_line h)) hs b)
      (xs @ concat (map header_line hs)) \<and>
    length (concat (map header_line hs)) \<le> sum_list (map (\<lambda>h. 32 + length (fst h) + length (snd h)) hs)"
  using assms
proof (induction hs arbitrary: b xs)
  case (Cons h hs)
  let ?n = "32 + length (fst h) + length (snd h)"
  have n: "sz_add (sz_add 32 (length (fst h))) (length (snd h)) = ?n"
    using Cons.prems(2) by (simp add: sz_add_small)
  have short: "length (header_line h) + 20 < ?n" by (rule length_header_line)
  have step: "fresh (db_printf (reserveWritableBytes b ?n) (header_line h)) (xs @ header_line h)"
    using Cons.prems short by (intro fresh_printf) simp_all
  have "length (xs @ header_line h) + sum_list (map (\<lambda>h. 32 + length (fst h) + length (snd h)) hs) \<le> 1024"
    using Cons.prems(2) short by simp
  from Cons.IH [OF step this] show ?case using short by (simp add: n)
qed simp

lemma sendMessage_small:
  assumes "msg_size m \<le> 1024" and "status_ok m"
  shows "sendMessage m = message_text m"
proof -
  define u where "u = (case m of Request r \<Rightarrow> length (hr_request_uri r) | Response r \<Rightarrow> length (hp_reason_phrase r))"
  define n where "n = sum_list (map (\<lambda>h. 32 + length (fst h) + length (snd h)) (msg_headers m))"
  have size: "u + n + length (msg_body m) + 70 \<le> 1024" using assms(1) by (simp add: msg_size_def u_def n_def)
  have room: "start_line_room m = 64 + u"
    using size by (cases m) (simp_all add: start_line_room_def u_def sz_add_small)
  have line: "length (start_line m) + 20 \<le> 64 + u"
    using length_start_line [OF assms(2)] by (simp add: u_def)
  let ?b1 = "db_printf (reserveWritableBytes (DynamicBuffer 1024 1024) (start_line_room m)) (start_line m)"
  have b1: "fresh ?b1 (start_line m)"
    using fresh_printf [OF fresh_start, of "start_line_room m" "start_line m"] size room line by simp
  let ?b2 = "fold (\<lambda>h b. db_printf (reserveWritableBytes b
        (sz_add (sz_add 32 (length (fst h))) (length (snd h)))) (header_line h)) (msg_headers m) ?b1"
  let ?t2 = "start_line m @ concat (map header_line (msg_headers m))"
  have b2: "fresh ?b2 ?t2" "length ?t2 \<le> 44 + u + n"
    using fresh_headers [OF b1, of "msg_headers m"] size line by (auto simp: n_def)
  let ?b3 = "db_printf (reserveWritableBytes ?b2 2) crlf"
  have b3: "fresh ?b3 (?t2 @ crlf)"
    using b2 size by (intro fresh_printf) (simp_all add: crlf_def)
  have "fresh (db_printf (reserveWritableBytes ?b3 (length (msg_body m))) (c_string (msg_body m)))
      ((?t2 @ crlf) @ c_string (msg_body m))"
    using b2(2) size length_c_string [of "msg_body m"] by (intro fresh_printf [OF b3]) (simp_all add: crlf_def)
  then show ?thesis
    by (simp add: sendMessage_def writeMessage_def Let_def message_text_def fresh_def)
qed

section \<open>Headers\<close>

definition plain_value :: "bytes \<Rightarrow> bool" where
  "plain_value v \<longleftrightarrow> list_all (\<lambda>c. c \<notin> {0, 9, 13, 32}) v"

lemma trim_plain: "plain_value v \<Longrightarrow> trim v white_space = v"
proof -
  assume v: "plain_value v"
  have "dropWhile (\<lambda>c. c \<in> set white_space) w = w" if "set w \<subseteq> set v" for w
    using v that by (cases w) (auto simp: plain_value_def list_all_iff white_space_def)
  then show ?thesis by (simp add: trim_def ltrim_dropWhile rtrim_dropWhile)
qed

lemma plain_header: "plain_value k \<Longrightarrow> plain_value v \<Longrightarrow> 58 \<notin> set k \<Longrightarrow> header_ok (k, v)"
  by (auto simp: header_ok_def trim_plain plain_text_def plain_value_def list_all_iff)

lemma header_ok_parts: "header_ok (k', v') \<Longrightarrow> header_ok (k, v) \<Longrightarrow> header_ok (k', v)"
  by (simp add: header_ok_def)

lemma omap_set_all:
  "list_all header_ok m \<Longrightarrow> header_ok (k, v) \<Longrightarrow> list_all header_ok (omap_set lt k v m)"
  by (induction m) (auto simp: omap_set.simps(2) dest: header_ok_parts)

text \<open>The room the writer reserves for headers.\<close>

definition headers_size :: "header_map \<Rightarrow> nat" where
  "headers_size hs = sum_list (map (\<lambda>h. 32 + length (fst h) + length (snd h)) hs)"

lemma omap_set_size: "headers_size (omap_set lt k v m) \<le> headers_size m + 32 + length k + length v"
  by (induction m) (auto simp: omap_set.simps(2) headers_size_def)

text \<open>Messages whose headers can be sent, and what setting headers does to them.\<close>

definition sendable :: "nat \<Rightarrow> 'a http_message_scheme \<Rightarrow> bool" where
  "sendable n msg \<longleftrightarrow> headers_ordered msg \<and> list_all header_ok (hm_headers msg) \<and> headers_size (hm_headers msg) \<le> n \<and>
     hm_body msg = []"

lemma sendable_set:
  "sendable n msg \<Longrightarrow> header_ok (k, v) \<Longrightarrow> sendable (n + 32 + length k + length v) (setHeader k v msg)"
  using omap_set_size [of CaseInsensitiveLess k v "hm_headers msg"]
  by (auto simp: sendable_def setHeader_ordered) (simp_all add: setHeader_def omap_set_all)

lemma sendable_all:
  "sendable n msg \<Longrightarrow> list_all header_ok hs \<Longrightarrow> sendable (n + headers_size hs) (set_headers_of hs msg)"
proof (induction hs arbitrary: n msg)
  case (Cons h hs)
  obtain k v where h: "h = (k, v)" by fastforce
  have "sendable (n + 32 + length k + length v) (setHeader k v msg)"
    using Cons.prems h by (intro sendable_set) simp_all
  from Cons.IH [OF this] Cons.prems(2) show ?case
    by (simp add: h set_headers_of_def headers_size_def ac_simps)
qed (simp add: set_headers_of_def headers_size_def)

text \<open>The headers of the handshake win over those set before.\<close>

lemma find_fold:
  "headers_ordered msg \<Longrightarrow> ci.ordered hs \<Longrightarrow>
    omap_find CaseInsensitiveLess x (hm_headers (set_headers_of hs msg)) =
      (case omap_find CaseInsensitiveLess x hs of
         Some v \<Rightarrow> Some v | None \<Rightarrow> omap_find CaseInsensitiveLess x (hm_headers msg))"
proof (induction hs arbitrary: msg)
  case (Cons h hs)
  obtain k v where h: "h = (k, v)" by fastforce
  let ?msg = "setHeader k v msg"
  have IH: "omap_find CaseInsensitiveLess x (hm_headers (set_headers_of hs ?msg)) =
      (case omap_find CaseInsensitiveLess x hs of
         Some v \<Rightarrow> Some v | None \<Rightarrow> omap_find CaseInsensitiveLess x (hm_headers ?msg))"
    using Cons.prems h by (intro Cons.IH) (simp_all add: setHeader_ordered)
  have above: "\<forall>k' \<in> set (map fst hs). CaseInsensitiveLess k k'" using Cons.prems(2) h by auto
  have get: "omap_find CaseInsensitiveLess x (hm_headers ?msg) =
      (if ci.same_key x k then Some v else omap_find CaseInsensitiveLess x (hm_headers msg))"
    using ci.find_set [OF Cons.prems(1)] by (simp add: setHeader_def)
  have all: "set_headers_of (h # hs) msg = set_headers_of hs ?msg" by (simp add: set_headers_of_def h)
  show ?case
  proof (cases x k rule: ci.compare_cases)
    case below
    then have "omap_find CaseInsensitiveLess x hs = None" "\<not> ci.same_key x k"
      using above ci.find_above [of hs x] ci.less_trans ci.same_key_not_less by blast+
    then show ?thesis using IH get all h by (simp add: ci.find_Cons(2) [OF below])
  next
    case after: above
    then have "\<not> ci.same_key x k" using ci.same_key_not_less by blast
    then show ?thesis using IH get all h by (simp add: ci.find_Cons(1) [OF after] split: option.split)
  next
    case same
    then have "omap_find CaseInsensitiveLess x hs = None"
      using above ci.find_above [of hs x] ci.less_same_key(1) [OF same] by blast
    then show ?thesis using IH get all h same by (simp add: ci.find_Cons(3) [OF same])
  qed
qed (simp add: set_headers_of_def)

lemma getHeader_fold:
  "headers_ordered msg \<Longrightarrow> ci.ordered hs \<Longrightarrow> getHeader (set_headers_of hs msg) x =
    (case omap_find CaseInsensitiveLess x hs of Some v \<Rightarrow> v | None \<Rightarrow> getHeader msg x)"
  by (simp add: getHeader_def find_fold split: option.split)

lemma hasHeader_fold:
  "headers_ordered msg \<Longrightarrow> ci.ordered hs \<Longrightarrow> hasHeader (set_headers_of hs msg) x \<longleftrightarrow>
    omap_find CaseInsensitiveLess x hs \<noteq> None \<or> hasHeader msg x"
  by (simp add: hasHeader_def find_fold split: option.split)

lemma set_headers_fields:
  "hm_type (set_headers_of hs r) = hm_type r" "hm_version (set_headers_of hs r) = hm_version r"
  "hm_body (set_headers_of hs r) = hm_body r"
  by (induction hs arbitrary: r; auto simp: set_headers_of_def setHeader_def split: prod.splits)+

lemma set_headers_request:
  "hr_method (set_headers_of hs r) = hr_method r" "hr_request_uri (set_headers_of hs r) = hr_request_uri r"
  by (induction hs arbitrary: r; auto simp: set_headers_of_def setHeader_def split: prod.splits)+

lemma set_headers_response:
  "hp_status_code (set_headers_of hs q) = hp_status_code q" "hp_reason_phrase (set_headers_of hs q) = hp_reason_phrase q"
  by (induction hs arbitrary: q; auto simp: set_headers_of_def setHeader_def split: prod.splits)+

section \<open>The messages of the handshake\<close>

text \<open>Headers that the user may add: none of those the handshake sets or that announce a body.\<close>

definition reserved :: "bytes list" where
  "reserved = map str [''Upgrade'', ''Connection'', ''Sec-WebSocket-Version'', ''Sec-WebSocket-Key'',
     ''Sec-WebSocket-Accept'', ''Content-Length'', ''Transfer-Encoding'', ''Date'']"

definition user_headers_ok :: "header_map \<Rightarrow> bool" where
  "user_headers_ok hs \<longleftrightarrow> ci.ordered hs \<and> list_all header_ok hs \<and>
     list_all (\<lambda>x. omap_find CaseInsensitiveLess x hs = None) reserved"

text \<open>The names of the headers are different in any case of their letters.\<close>

lemma names_differ:
  "\<not> stricmp (str ''Upgrade'') (str ''Connection'')" "\<not> stricmp (str ''Upgrade'') (str ''Sec-WebSocket-Version'')"
  "\<not> stricmp (str ''Connection'') (str ''Sec-WebSocket-Version'')"
  "\<not> stricmp (str ''Upgrade'') (str ''Sec-WebSocket-Accept'')" "\<not> stricmp (str ''Connection'') (str ''Sec-WebSocket-Accept'')"
  "\<not> stricmp (str ''Content-Length'') (str ''Upgrade'')" "\<not> stricmp (str ''Content-Length'') (str ''Connection'')"
  "\<not> stricmp (str ''Content-Length'') (str ''Sec-WebSocket-Version'')" "\<not> stricmp (str ''Content-Length'') (str ''Sec-WebSocket-Accept'')"
  "\<not> stricmp (str ''Transfer-Encoding'') (str ''Upgrade'')" "\<not> stricmp (str ''Transfer-Encoding'') (str ''Connection'')"
  "\<not> stricmp (str ''Transfer-Encoding'') (str ''Sec-WebSocket-Version'')" "\<not> stricmp (str ''Transfer-Encoding'') (str ''Sec-WebSocket-Accept'')"
  "\<not> stricmp (str ''Date'') (str ''Upgrade'')" "\<not> stricmp (str ''Date'') (str ''Connection'')"
  "\<not> stricmp (str ''Date'') (str ''Sec-WebSocket-Accept'')"
  by code_simp+

lemma names_differ_key:
  "\<not> stricmp (str ''Upgrade'') (str ''Sec-WebSocket-Key'')" "\<not> stricmp (str ''Connection'') (str ''Sec-WebSocket-Key'')"
  "\<not> stricmp (str ''Sec-WebSocket-Version'') (str ''Sec-WebSocket-Key'')" "\<not> stricmp (str ''Content-Length'') (str ''Sec-WebSocket-Key'')"
  "\<not> stricmp (str ''Transfer-Encoding'') (str ''Sec-WebSocket-Key'')" "\<not> stricmp (str ''Host'') (str ''Sec-WebSocket-Key'')"
  "\<not> stricmp (str ''Sec-WebSocket-Key'') (str ''Host'')" "\<not> stricmp (str ''Upgrade'') (str ''Host'')"
  "\<not> stricmp (str ''Connection'') (str ''Host'')" "\<not> stricmp (str ''Sec-WebSocket-Version'') (str ''Host'')"
  "\<not> stricmp (str ''Content-Length'') (str ''Host'')" "\<not> stricmp (str ''Transfer-Encoding'') (str ''Host'')"
  by code_simp+

lemma stricmp_refl [simp]: "stricmp x x"
  by (simp add: stricmp_ci_key)

lemma headers_plain:
  "header_ok (str ''Upgrade'', str ''websocket'')" "header_ok (str ''Connection'', str ''Upgrade'')"
  "header_ok (str ''Sec-WebSocket-Version'', str ''13'')"
  by code_simp+

lemma names_plain: "plain_value (str ''Sec-WebSocket-Accept'')" "plain_value (str ''Sec-WebSocket-Key'')" "plain_value (str ''Host'')"
  "58 \<notin> set (str ''Sec-WebSocket-Accept'')" "58 \<notin> set (str ''Sec-WebSocket-Key'')" "58 \<notin> set (str ''Host'')"
  by code_simp+

text \<open>Base64 text can be the value of a header.\<close>

lemma plain_base64: "length xs < 2 ^ 30 \<Longrightarrow> plain_value (base64Encode xs)"
proof -
  have table: "list_all (\<lambda>c. c \<notin> {0, 9, 13, 32}) (pad # s_encode_table)" by code_simp
  have "c \<notin> {0, 9, 13, 32}" if "c \<in> set (rfc4648 xs)" for c
    using rfc4648_chars [OF that] table by (auto simp: list_all_iff)
  then show "length xs < 2 ^ 30 \<Longrightarrow> plain_value (base64Encode xs)"
    by (simp add: plain_value_def list_all_iff base64Encode_small)
qed

lemma sendable_base_request: "sendable 152 (base_request uri)"
proof -
  have "sendable 0 (setRequestUri uri (setMethod GET (setVersion HTTP_1_1 HttpRequest)))"
    by (simp add: sendable_def headers_size_def setRequestUri_def setMethod_def setVersion_def HttpRequest_def)
  from sendable_set [OF sendable_set [OF sendable_set [OF this headers_plain(1)] headers_plain(2)] headers_plain(3)]
  show ?thesis by (simp add: base_request_def del: str_simps)
qed

lemma sendable_base_response:
  assumes "length block = 64"
  shows "sendable 177 (base_response block key)"
proof -
  let ?hash = "sha1Binary block (key @ str ''258EAFA5-E914-47DA-95CA-C5AB0DC85B11'')"
  have hash: "length ?hash = 20" using sha1Binary_spec(2) [OF assms] by blast
  then have accept: "length (accept_of block key) = 28"
    by (simp add: accept_of_def base64Encode_small length_rfc4648 del: str_simps)
  have ok: "header_ok (str ''Sec-WebSocket-Accept'', accept_of block key)"
    using hash unfolding accept_of_def by (intro plain_header plain_base64 names_plain) simp
  have "sendable 0 (setReasonPhrase (str ''Switching Protocols'') (setStatusCode 101 (setVersion HTTP_1_1 HttpResponse)))"
    by (simp add: sendable_def headers_size_def setReasonPhrase_def setStatusCode_def setVersion_def HttpResponse_def)
  from sendable_set [OF sendable_set [OF sendable_set [OF this headers_plain(1)] headers_plain(2)] ok] accept
  show ?thesis by (simp add: base_response_def del: str_simps)
qed

lemma base_request_headers:
  "getHeader (base_request uri) (str ''Upgrade'') = str ''websocket''"
  "getHeader (base_request uri) (str ''Connection'') = str ''Upgrade''"
  "getHeader (base_request uri) (str ''Sec-WebSocket-Version'') = str ''13''"
  "getHeader (base_request uri) (str ''Content-Length'') = []"
  "getHeader (base_request uri) (str ''Transfer-Encoding'') = []"
proof -
  let ?r = "setRequestUri uri (setMethod GET (setVersion HTTP_1_1 HttpRequest))"
  have "headers_ordered ?r" "getHeader ?r x = []" for x
    by (simp_all add: getHeader_def setRequestUri_def setMethod_def setVersion_def HttpRequest_def)
  then show "getHeader (base_request uri) (str ''Upgrade'') = str ''websocket''"
    "getHeader (base_request uri) (str ''Connection'') = str ''Upgrade''"
    "getHeader (base_request uri) (str ''Sec-WebSocket-Version'') = str ''13''"
    "getHeader (base_request uri) (str ''Content-Length'') = []"
    "getHeader (base_request uri) (str ''Transfer-Encoding'') = []"
    by (simp_all add: base_request_def getHeader_set setHeader_ordered names_differ del: str_simps)
qed

lemma base_response_headers:
  "getHeader (base_response block key) (str ''Upgrade'') = str ''websocket''"
  "getHeader (base_response block key) (str ''Connection'') = str ''Upgrade''"
  "getHeader (base_response block key) (str ''Sec-WebSocket-Accept'') = accept_of block key"
  "getHeader (base_response block key) (str ''Content-Length'') = []"
  "getHeader (base_response block key) (str ''Transfer-Encoding'') = []"
  "\<not> hasHeader (base_response block key) (str ''Date'')"
proof -
  let ?r = "setReasonPhrase (str ''Switching Protocols'') (setStatusCode 101 (setVersion HTTP_1_1 HttpResponse))"
  have "headers_ordered ?r" "getHeader ?r x = []" "\<not> hasHeader ?r x" for x
    by (simp_all add: getHeader_def hasHeader_def setReasonPhrase_def setStatusCode_def setVersion_def HttpResponse_def)
  then show "getHeader (base_response block key) (str ''Upgrade'') = str ''websocket''"
    "getHeader (base_response block key) (str ''Connection'') = str ''Upgrade''"
    "getHeader (base_response block key) (str ''Sec-WebSocket-Accept'') = accept_of block key"
    "getHeader (base_response block key) (str ''Content-Length'') = []"
    "getHeader (base_response block key) (str ''Transfer-Encoding'') = []"
    "\<not> hasHeader (base_response block key) (str ''Date'')"
    by (simp_all add: base_response_def getHeader_set hasHeader_set setHeader_ordered names_differ del: str_simps)
qed

section \<open>Both ends\<close>

lemma no_length: "getHeader msg (str ''Content-Length'') = [] \<Longrightarrow> c_atoi (getHeader msg (str ''Content-Length'')) = 0"
  by (simp add: c_atoi_def split_sign_def dec_value_def del: str_simps)

lemma not_chunked:
  "getHeader msg (str ''Transfer-Encoding'') = [] \<Longrightarrow> \<not> headerContain msg (str ''Transfer-Encoding'') (str ''chunked'')"
proof -
  have "find_from (toLower []) (toLower (str ''chunked'')) 0 = None" by code_simp
  then show "getHeader msg (str ''Transfer-Encoding'') = [] \<Longrightarrow> \<not> headerContain msg (str ''Transfer-Encoding'') (str ''chunked'')"
    by (simp add: headerContain_def del: str_simps)
qed

lemma request_sendable:
  assumes "sendable n r" and "start_ok (Request r)" and "getHeader r (str ''Content-Length'') = []"
    and "getHeader r (str ''Transfer-Encoding'') = []" and "length (hr_request_uri r) + n + 70 \<le> 1024"
  shows "message_ok (Request r)" and "sendMessage (Request r) = message_text (Request r)"
proof -
  show "message_ok (Request r)"
    using assms no_length [OF assms(3)] not_chunked [OF assms(4)]
    by (simp add: message_ok_def sendable_def msg_headers_def body_ok_def msg_body_def msg_getHeader_def
        msg_headerContain_def del: str_simps)
  show "sendMessage (Request r) = message_text (Request r)"
    using assms(1,5) by (intro sendMessage_small)
      (simp_all add: msg_size_def status_ok_def sendable_def headers_size_def msg_headers_def msg_body_def)
qed

lemma response_sendable:
  assumes "sendable n r" and "start_ok (Response r)" and "getHeader r (str ''Content-Length'') = []"
    and "getHeader r (str ''Transfer-Encoding'') = []" and "length (hp_reason_phrase r) + n + 70 \<le> 1024"
  shows "message_ok (Response r)" and "sendMessage (Response r) = message_text (Response r)"
proof -
  show "message_ok (Response r)"
    using assms no_length [OF assms(3)] not_chunked [OF assms(4)]
    by (simp add: message_ok_def sendable_def msg_headers_def body_ok_def msg_body_def msg_getHeader_def
        msg_headerContain_def del: str_simps)
  show "sendMessage (Response r) = message_text (Response r)"
    using assms(1,2,5) by (intro sendMessage_small)
      (simp_all add: msg_size_def status_ok_def sendable_def headers_size_def msg_headers_def msg_body_def start_ok_def)
qed

lemma server_accepts:
  assumes "ws_status s = WS_WAITING_HANDSHAKE_REQUEST" and "ws_http s = HttpProtocol"
    and "message_ok (Request req)" and "checkHandshakeRequestValid req"
  shows "ws_recv env slack s (message_text (Request req) @ ys) =
    ((sendHandshakeSuccessResponse env req s)\<lparr>ws_status := WS_CONNECTED, ws_ret_code := WS_CONNECTION_ESTABLISHED\<rparr>,
     ys, WS_CONNECTION_ESTABLISHED)"
proof -
  obtain hp where hp: "http_recv slack HttpProtocol (message_text (Request req) @ ys) = (hp, ys, MESSAGE_READY)"
    "retrieveRequest hp = Some (req, HttpProtocol)"
    using recv_message_text [OF assms(3), of slack ys] by auto
  have same: "s\<lparr>ws_http := HttpProtocol\<rparr> = s" using assms(2) by (cases s) simp
  show ?thesis
    using ws_recv.simps [of env slack s "message_text (Request req) @ ys"] hp assms(1,2,4) same
    by (simp add: ws_dead_def ws_handle_def readHandshakeRequest_def)
qed

lemma client_accepts:
  assumes "ws_status c = WS_WAITING_HANDSHAKE_RESPONSE" and "ws_http c = HttpProtocol"
    and "message_ok (Response resp)"
    and "omap_find CaseInsensitiveLess (str ''Sec-WebSocket-Key'') (ws_handshake_headers c) = Some key"
    and "checkHandshakeResponseValid (env_block env) resp key"
  shows "ws_recv env slack c (message_text (Response resp) @ ys) =
    (c\<lparr>ws_status := WS_CONNECTED, ws_ret_code := WS_CONNECTION_ESTABLISHED\<rparr>, ys, WS_CONNECTION_ESTABLISHED)"
proof -
  obtain hp where hp: "http_recv slack HttpProtocol (message_text (Response resp) @ ys) = (hp, ys, MESSAGE_READY)"
    "retrieveResponse hp = Some (resp, HttpProtocol)"
    using recv_message_text [OF assms(3), of slack ys] by auto
  have same: "c\<lparr>ws_http := HttpProtocol\<rparr> = c" using assms(2) by (cases c) simp
  show ?thesis
    using ws_recv.simps [of env slack c "message_text (Response resp) @ ys"] hp assms(1,2,4,5) same
    by (simp add: ws_dead_def ws_handle_def readHandshakeResponse_def handshake_header_def del: str_simps)
qed

lemma digit_plain: "c_isdigit c \<Longrightarrow> c \<notin> {0, 9, 13, 32}"
  by (auto simp: c_isdigit_def)

text \<open>What the client's headers become.\<close>

lemma provided_headers:
  assumes "user_headers_ok (ws_handshake_headers c)"
    and "plain_value (fst (getIp ntop6 peer))"
    and "provide_headers ntop6 peer rnd c = (c2, rnd2)"
  shows "\<exists>hs key. c2 = c\<lparr>ws_handshake_headers := hs\<rparr> \<and> ci.ordered hs \<and> list_all header_ok hs \<and>
    headers_size hs \<le> headers_size (ws_handshake_headers c) + 115 + length (fst (getIp ntop6 peer)) \<and>
    omap_find CaseInsensitiveLess (str ''Sec-WebSocket-Key'') hs = Some key \<and> length key = 24 \<and>
    omap_find CaseInsensitiveLess (str ''Host'') hs \<noteq> None \<and>
    list_all (\<lambda>x. omap_find CaseInsensitiveLess x hs = None)
      (map str [''Upgrade'', ''Connection'', ''Sec-WebSocket-Version'', ''Content-Length'', ''Transfer-Encoding''])"
proof -
  let ?H = "ws_handshake_headers c"
  let ?k = "str ''Sec-WebSocket-Key''" and ?h = "str ''Host''"
  let ?names = "map str [''Upgrade'', ''Connection'', ''Sec-WebSocket-Version'', ''Content-Length'', ''Transfer-Encoding'']"
  let ?ip = "fst (getIp ntop6 peer)"
  define host where "host = ?ip @ str '':'' @ toString (uint (fst (getPort ntop6 peer)))"
  have H: "ci.ordered ?H" "list_all header_ok ?H" using assms(1) by (simp_all add: user_headers_ok_def)
  have absent: "omap_find CaseInsensitiveLess x ?H = None" if "x \<in> set reserved" for x
    using assms(1) that by (auto simp: user_headers_ok_def list_all_iff)
  obtain kb r1 where kb: "random_bytes 16 rnd = (kb, r1)" by fastforce
  have len16: "length kb = 16" using length_random_bytes [of 16 rnd] kb by simp
  define key where "key = base64Encode kb"
  have key: "length key = 24" "header_ok (?k, key)"
    using len16 by (simp add: key_def base64Encode_small length_rfc4648)
      (unfold key_def, intro plain_header plain_base64 names_plain, simp add: len16)
  define H1 where "H1 = omap_set CaseInsensitiveLess ?k key ?H"
  have H1: "ci.ordered H1" "list_all header_ok H1" "headers_size H1 \<le> headers_size ?H + 73"
    using ci.set_ordered [OF H(1)] omap_set_all [OF H(2) key(2)] omap_set_size [of CaseInsensitiveLess ?k key ?H] key(1)
    by (simp_all add: H1_def)
  have find1: "omap_find CaseInsensitiveLess x H1 = (if stricmp x ?k then Some key else omap_find CaseInsensitiveLess x ?H)" for x
    unfolding H1_def by (simp add: ci.find_set [OF H(1)] ci_same_key del: str_simps)
  have names1: "list_all (\<lambda>x. omap_find CaseInsensitiveLess x H1 = None) ?names"
    using absent by (simp add: find1 names_differ_key reserved_def del: str_simps)
  have no_key: "\<not> has_handshake_header ?k c"
    using absent [of ?k] by (simp add: has_handshake_header_def reserved_def del: str_simps)
  let ?c1 = "setHandshakeHeader ?k key c"
  have c1: "ws_handshake_headers ?c1 = H1" "?c1 = c\<lparr>ws_handshake_headers := H1\<rparr>"
    by (simp_all add: setHandshakeHeader_def H1_def del: str_simps)
  have c2: "c2 = (if has_handshake_header ?h ?c1 then ?c1 else setHandshakeHeader ?h host ?c1)"
    using assms(3) no_key kb by (auto simp: provide_headers_def key_def host_def Let_def simp del: str_simps)
  show ?thesis
  proof (cases "has_handshake_header ?h ?c1")
    case True
    then show ?thesis
      using c2 c1 H1 names1 key(1) find1 [of ?k]
      by (intro exI [of _ H1] exI [of _ key]) (simp add: has_handshake_header_def del: str_simps)
  next
    case False
    define H2 where "H2 = omap_set CaseInsensitiveLess ?h host H1"
    have port: "length (toString (uint p)) \<le> 5" "c \<in> set (toString (uint p)) \<Longrightarrow> c_isdigit c" for p :: u16 and c
      using length_decimal [of "unat p" 5] decimal_isdigit [of c "unat p"] unsigned_less [of p, where ?'a = nat]
      by (auto simp: toString_def)
    have "plain_value host"
      using assms(2) digit_plain [OF port(2)] by (auto simp: host_def plain_value_def list_all_iff)
    then have ok: "header_ok (?h, host)" by (intro plain_header names_plain)
    have "length host \<le> length ?ip + 6" using port(1) by (simp add: host_def)
    then have H2: "ci.ordered H2" "list_all header_ok H2" "headers_size H2 \<le> headers_size ?H + 115 + length ?ip"
      using ci.set_ordered [OF H1(1)] omap_set_all [OF H1(2) ok] omap_set_size [of CaseInsensitiveLess ?h host H1] H1(3)
      by (simp_all add: H2_def)
    have find2: "omap_find CaseInsensitiveLess x H2 = (if stricmp x ?h then Some host else omap_find CaseInsensitiveLess x H1)" for x
      unfolding H2_def by (simp add: ci.find_set [OF H1(1)] ci_same_key del: str_simps)
    have names2: "list_all (\<lambda>x. omap_find CaseInsensitiveLess x H2 = None) ?names"
      using names1 by (simp add: find2 names_differ_key del: str_simps)
    have "c2 = c\<lparr>ws_handshake_headers := H2\<rparr>"
      using False c2 by (simp add: setHandshakeHeader_def H1_def H2_def del: str_simps)
    then show ?thesis
      using H2 names2 key(1) find1 [of ?k] find2 [of ?k] find2 [of ?h] names_differ_key
      by (intro exI [of _ H2] exI [of _ key]) (simp del: str_simps)
  qed
qed

lemma upgrade_checks:
  "headerContain r (str ''Upgrade'') (str ''websocket'')" if "getHeader r (str ''Upgrade'') = str ''websocket''"
  for r :: "'a http_message_scheme"
proof -
  have "find_from (toLower (str ''websocket'')) (toLower (str ''websocket'')) 0 \<noteq> None" by code_simp
  then show ?thesis using that by (simp add: headerContain_def del: str_simps)
qed

lemma connection_checks:
  "headerContain r (str ''Connection'') (str ''Upgrade'')" if "getHeader r (str ''Connection'') = str ''Upgrade''"
  for r :: "'a http_message_scheme"
proof -
  have "find_from (toLower (str ''Upgrade'')) (toLower (str ''Upgrade'')) 0 \<noteq> None" by code_simp
  then show ?thesis using that by (simp add: headerContain_def del: str_simps)
qed

text \<open>The request is valid, and so is the response to its key.\<close>

lemma handshake_request_ok:
  assumes "ci.ordered hs" and "list_all header_ok hs" and "omap_find CaseInsensitiveLess (str ''Sec-WebSocket-Key'') hs = Some key"
    and "length key = 24" and "omap_find CaseInsensitiveLess (str ''Host'') hs \<noteq> None"
    and "list_all (\<lambda>x. omap_find CaseInsensitiveLess x hs = None)
      (map str [''Upgrade'', ''Connection'', ''Sec-WebSocket-Version'', ''Content-Length'', ''Transfer-Encoding''])"
    and "plain_value uri" and "length uri + headers_size hs \<le> 802"
  defines "req \<equiv> set_headers_of hs (base_request uri)"
  shows "message_ok (Request req)" and "sendMessage (Request req) = message_text (Request req)"
    and "checkHandshakeRequestValid req" and "getHeader req (str ''Sec-WebSocket-Key'') = key"
proof -
  have ordered: "headers_ordered (base_request uri)" using sendable_base_request by (simp add: sendable_def)
  have get: "getHeader req x = (case omap_find CaseInsensitiveLess x hs of Some v \<Rightarrow> v | None \<Rightarrow> getHeader (base_request uri) x)" for x
    unfolding req_def by (rule getHeader_fold [OF ordered assms(1)])
  have base: "hm_type (base_request uri) = REQUEST" "hm_version (base_request uri) = HTTP_1_1"
    "hr_method (base_request uri) = GET" "hr_request_uri (base_request uri) = uri"
    by (simp_all add: base_request_def setHeader_def setRequestUri_def setMethod_def setVersion_def HttpRequest_def)
  have send: "sendable (152 + headers_size hs) req"
    unfolding req_def by (rule sendable_all [OF sendable_base_request assms(2)])
  have start: "start_ok (Request req)"
    using assms(7) by (auto simp: start_ok_def req_def set_headers_fields set_headers_request base plain_text_def
        plain_value_def list_all_iff)
  have fields: "getHeader req (str ''Upgrade'') = str ''websocket''" "getHeader req (str ''Connection'') = str ''Upgrade''"
    "getHeader req (str ''Sec-WebSocket-Version'') = str ''13''" "getHeader req (str ''Content-Length'') = []"
    "getHeader req (str ''Transfer-Encoding'') = []"
    using assms(6) by (simp_all add: get base_request_headers del: str_simps)
  have size: "length (hr_request_uri req) + (152 + headers_size hs) + 70 \<le> 1024"
    using assms(8) by (simp add: req_def set_headers_request base)
  show "message_ok (Request req)" "sendMessage (Request req) = message_text (Request req)"
    using request_sendable [OF send start fields(4,5) size] by simp_all
  show key: "getHeader req (str ''Sec-WebSocket-Key'') = key" using assms(3) by (simp add: get del: str_simps)
  have "hasHeader req (str ''Host'')"
    unfolding req_def hasHeader_fold [OF ordered assms(1)] using assms(5) by blast
  then show "checkHandshakeRequestValid req"
    using key assms(4) fields upgrade_checks [OF fields(1)] connection_checks [OF fields(2)]
    by (simp add: checkHandshakeRequestValid_def headerEqual_def del: str_simps)
qed

lemma handshake_response_ok:
  fixes req :: http_request
  assumes "user_headers_ok hs" and "headers_size hs \<le> 750" and "length (env_block env) = 64" and "length block = 64"
  defines "resp \<equiv> handshake_response env hs req"
  shows "message_ok (Response resp)" and "sendMessage (Response resp) = message_text (Response resp)"
    and "checkHandshakeResponseValid block resp (getHeader req (str ''Sec-WebSocket-Key''))"
proof -
  let ?key = "getHeader req (str ''Sec-WebSocket-Key'')"
  let ?base = "base_response (env_block env) ?key"
  have hs: "ci.ordered hs" "list_all header_ok hs" and absent: "x \<in> set reserved \<Longrightarrow> omap_find CaseInsensitiveLess x hs = None" for x
    using assms(1) by (auto simp: user_headers_ok_def list_all_iff)
  note base_send = sendable_base_response [OF assms(3), of ?key]
  have ordered: "headers_ordered ?base" using base_send by (simp add: sendable_def)
  have "\<not> hasHeader (set_headers_of hs ?base) (str ''Date'')"
    using absent by (simp add: hasHeader_fold [OF ordered hs(1)] base_response_headers reserved_def del: str_simps)
  then have resp: "resp = set_headers_of hs ?base" by (simp add: resp_def handshake_response_def Let_def del: str_simps)
  have get: "getHeader resp x = (case omap_find CaseInsensitiveLess x hs of Some v \<Rightarrow> v | None \<Rightarrow> getHeader ?base x)" for x
    unfolding resp by (rule getHeader_fold [OF ordered hs(1)])
  have base: "hm_type ?base = RESPONSE" "hm_version ?base = HTTP_1_1" "hp_status_code ?base = 101"
    "hp_reason_phrase ?base = str ''Switching Protocols''"
    by (simp_all add: base_response_def setHeader_def setReasonPhrase_def setStatusCode_def setVersion_def HttpResponse_def
        del: str_simps)
  have send: "sendable (177 + headers_size hs) resp"
    unfolding resp by (rule sendable_all [OF base_send hs(2)])
  have plain: "plain_text (str ''Switching Protocols'')" by code_simp
  have start: "start_ok (Response resp)"
    by (simp add: start_ok_def resp set_headers_fields set_headers_response base plain del: str_simps)
  have fields: "getHeader resp (str ''Upgrade'') = str ''websocket''" "getHeader resp (str ''Connection'') = str ''Upgrade''"
    "getHeader resp (str ''Sec-WebSocket-Accept'') = accept_of (env_block env) ?key" "getHeader resp (str ''Content-Length'') = []"
    "getHeader resp (str ''Transfer-Encoding'') = []"
    using absent by (simp_all add: get base_response_headers reserved_def del: str_simps)
  have size: "length (hp_reason_phrase resp) + (177 + headers_size hs) + 70 \<le> 1024"
    using assms(2) by (simp add: resp set_headers_response base del: str_simps)
  show "message_ok (Response resp)" "sendMessage (Response resp) = message_text (Response resp)"
    using response_sendable [OF send start fields(4,5) size] by simp_all
  have "accept_of (env_block env) ?key = accept_of block ?key"
    by (simp add: accept_of_def sha1Binary_spec(1) [OF assms(3)] sha1Binary_spec(1) [OF assms(4)] del: str_simps)
  then show "checkHandshakeResponseValid block resp ?key"
    using fields upgrade_checks [OF fields(1)] connection_checks [OF fields(2)]
    by (simp add: checkHandshakeResponseValid_def headerEqual_def resp set_headers_response base del: str_simps)
qed

section \<open>Properties\<close>

definition ready_end :: "web_socket \<Rightarrow> bool" where
  "ready_end ws \<longleftrightarrow> ws_status ws = WS_DETACHED \<and> ws_http ws = HttpProtocol \<and> ws_output_cb ws \<and>
     ws_message ws = [] \<and> \<not> ws_close_frame_sent ws \<and> user_headers_ok (ws_handshake_headers ws)"

definition open_end :: "bool \<Rightarrow> web_socket \<Rightarrow> bool" where
  "open_end is_client ws \<longleftrightarrow> ws_status ws = WS_CONNECTED \<and> ws_output_cb ws \<and> ws_message ws = [] \<and>
     \<not> ws_close_frame_sent ws \<and> ws_is_client ws = is_client"

text \<open>C33. A handshake completes: the request a client sends establishes the connection at a server,
  and the response that server sends establishes it at the client, whatever headers the users of both
  ends add, while each message fits into a new buffer. Bytes behind the request and the response stay
  for the connection, and both ends are ready to send and receive messages.\<close>

theorem handshake_completes:
  assumes "ready_end c" and "ready_end s"
    and "plain_value uri" and "plain_value (fst (getIp ntop6 peer))"
    and "length uri + length (fst (getIp ntop6 peer)) + headers_size (ws_handshake_headers c) \<le> 680"
    and "headers_size (ws_handshake_headers s) \<le> 750"
    and "length (env_block env_c) = 64" and "length (env_block env_s) = 64"
    and "startAsClient ntop6 peer rnd uri c = (ok_c, c1, rnd1)" and "startAsServer s = (ok_s, s1)"
  shows "ok_c \<and> ok_s \<and> (\<exists>req resp c2 s2. ws_output c1 = ws_output c @ [req] \<and>
    ws_recv env_s slack s1 (req @ ys) = (s2, ys, WS_CONNECTION_ESTABLISHED) \<and>
    ws_output s2 = ws_output s @ [resp] \<and>
    ws_recv env_c slack c1 (resp @ zs) = (c2, zs, WS_CONNECTION_ESTABLISHED) \<and>
    open_end True c2 \<and> open_end False s2)"
proof -
  let ?c0 = "c\<lparr>ws_status := WS_WAITING_HANDSHAKE_RESPONSE, ws_is_client := True\<rparr>"
  obtain c2 rnd2 where provided: "provide_headers ntop6 peer rnd ?c0 = (c2, rnd2)" by fastforce
  have "user_headers_ok (ws_handshake_headers ?c0)" using assms(1) by (simp add: ready_end_def)
  from provided_headers [OF this assms(4) provided] obtain hs key where
    hs: "c2 = ?c0\<lparr>ws_handshake_headers := hs\<rparr>" "ci.ordered hs" "list_all header_ok hs"
    "headers_size hs \<le> headers_size (ws_handshake_headers c) + 115 + length (fst (getIp ntop6 peer))"
    "omap_find CaseInsensitiveLess (str ''Sec-WebSocket-Key'') hs = Some key" "length key = 24"
    "omap_find CaseInsensitiveLess (str ''Host'') hs \<noteq> None"
    "list_all (\<lambda>x. omap_find CaseInsensitiveLess x hs = None)
      (map str [''Upgrade'', ''Connection'', ''Sec-WebSocket-Version'', ''Content-Length'', ''Transfer-Encoding''])"
    by auto
  let ?req = "set_headers_of hs (base_request uri)"
  have "length uri + headers_size hs \<le> 802" using hs(4) assms(5) by linarith
  note req = handshake_request_ok [OF hs(2,3,5,6,7,8) assms(3) this]
  have c1: "ok_c" "c1 = c2\<lparr>ws_output := ws_output c @ [message_text (Request ?req)]\<rparr>"
    using assms(1,9) provided hs(1) req(2)
    by (auto simp: startAsClient_def ready_end_def ws_emit_def split: if_splits)
  have s1: "ok_s" "s1 = s\<lparr>ws_status := WS_WAITING_HANDSHAKE_REQUEST, ws_is_client := False\<rparr>"
    using assms(2,10) by (auto simp: startAsServer_def ready_end_def split: if_splits)
  have server: "ws_recv env_s slack s1 (message_text (Request ?req) @ ys) =
      ((sendHandshakeSuccessResponse env_s ?req s1)\<lparr>ws_status := WS_CONNECTED, ws_ret_code := WS_CONNECTION_ESTABLISHED\<rparr>,
       ys, WS_CONNECTION_ESTABLISHED)"
    using assms(2) s1 by (intro server_accepts req) (simp_all add: ready_end_def)
  let ?resp = "handshake_response env_s (ws_handshake_headers s) ?req"
  have resp: "message_ok (Response ?resp)" "sendMessage (Response ?resp) = message_text (Response ?resp)"
    "checkHandshakeResponseValid (env_block env_c) ?resp key"
    using handshake_response_ok [OF _ assms(6,8,7), of ?req] assms(2) req(4) by (simp_all add: ready_end_def del: str_simps)
  have client: "ws_recv env_c slack c1 (message_text (Response ?resp) @ zs) =
      (c1\<lparr>ws_status := WS_CONNECTED, ws_ret_code := WS_CONNECTION_ESTABLISHED\<rparr>, zs, WS_CONNECTION_ESTABLISHED)"
    using assms(1) c1 hs(1,5) by (intro client_accepts [OF _ _ resp(1) _ resp(3)]) (simp_all add: ready_end_def del: str_simps)
  show ?thesis
    using c1 s1 server client resp(2) hs(1) assms(1,2)
    by (auto simp: sendHandshakeSuccessResponse_def ws_emit_def ready_end_def open_end_def simp del: str_simps
        intro!: exI [of _ "message_text (Request ?req)"] exI [of _ "message_text (Response ?resp)"])
qed

definition new_end :: "header_map \<Rightarrow> web_socket" where
  "new_end hs = WebSocketProtocol\<lparr>ws_output_cb := True, ws_handshake_headers := hs\<rparr>"

lemma new_end_ready:
  "ready_end (new_end [])" "ready_end (new_end [(str ''Host'', str ''me''), (str ''Server'', str ''brick red'')])"
proof -
  have "user_headers_ok []" "user_headers_ok [(str ''Host'', str ''me''), (str ''Server'', str ''brick red'')]"
    by code_simp+
  then show "ready_end (new_end [])" "ready_end (new_end [(str ''Host'', str ''me''), (str ''Server'', str ''brick red'')])"
    by (simp_all add: ready_end_def new_end_def WebSocketProtocol_def del: str_simps)
qed

theorem handshake_completes_witness:
  "\<exists>req. ws_output (fst (snd (startAsClient (\<lambda>a. []) (SocketAddress_of (str ''10.0.0.1'') 80) (Random [] 1)
      (str ''/'') (new_end [])))) = [req] \<and>
    (let (s2, rest, r) = ws_recv (no_env\<lparr>env_block := replicate 64 0\<rparr>) []
       (snd (startAsServer (new_end [(str ''Host'', str ''me''), (str ''Server'', str ''brick red'')]))) req
     in rest = [] \<and> r = WS_CONNECTION_ESTABLISHED \<and> open_end False s2)"
proof -
  let ?peer = "SocketAddress_of (str ''10.0.0.1'') 80"
  obtain ok_c c1 rnd1 where c: "startAsClient (\<lambda>a. []) ?peer (Random [] 1) (str ''/'') (new_end []) = (ok_c, c1, rnd1)"
    by (cases "startAsClient (\<lambda>a. []) ?peer (Random [] 1) (str ''/'') (new_end [])") auto
  let ?s = "new_end [(str ''Host'', str ''me''), (str ''Server'', str ''brick red'')]"
  obtain ok_s s1 where s: "startAsServer ?s = (ok_s, s1)" by (cases "startAsServer ?s") auto
  have ip: "fst (getIp (\<lambda>a. []) ?peer) = str ''10.0.0.1''" by code_simp
  have plain: "plain_value (str ''/'')" "plain_value (str ''10.0.0.1'')" by code_simp+
  have out: "ws_output (new_end hs) = []" "ws_handshake_headers (new_end hs) = hs" for hs
    by (simp_all add: new_end_def WebSocketProtocol_def)
  have size: "headers_size [(str ''Host'', str ''me''), (str ''Server'', str ''brick red'')] \<le> 750" by (simp add: headers_size_def)
  show ?thesis
    using handshake_completes [OF new_end_ready plain(1), of "\<lambda>a. []" ?peer "no_env\<lparr>env_block := replicate 64 0\<rparr>"
        "no_env\<lparr>env_block := replicate 64 0\<rparr>" "Random [] 1" ok_c c1 rnd1 ok_s s1 "[]" "[]" "[]"] c s ip plain(2) size
    by (auto simp: out headers_size_def simp del: str_simps)
qed

end
