(* ===== verification/IODevice.thy ===== *)
theory IODevice
  imports TimerHeap SocketAddress
begin

text \<open>
  \<^verbatim>\<open>src/src/brickred/io_device.{h,cc}\<close> and the part of \<^verbatim>\<open>src/src/brickred/io_service.cc\<close> a device
  calls. The kernel is a parameter: a function from the calls made so far, with their answers, and
  the next call to its answer; \<open>kernel_ok\<close> names what the code relies on. A device is an object
  in a store; its pointer is its address there. Using a pointer to a deleted object sets
  \<open>w_fault\<close>, so that "no object is used after it was deleted" is a statement about this field.
  Addresses are not reused. The messages given to \<open>BASE_ERROR\<close> are not modelled.
\<close>

section \<open>The kernel\<close>

datatype fcntl_command = F_GETFL | F_SETFL | F_GETFD | F_SETFD

datatype shutdown_direction = SHUT_RD | SHUT_WR | SHUT_RDWR

datatype socket_option = SO_REUSEADDR | TCP_NODELAY

datatype kcall =
  K_epoll_create1
| K_epoll_add int int u32 nat
| K_epoll_mod int int u32 nat
| K_epoll_del int int
| K_epoll_wait int nat int
| K_gettime
| K_dup int
| K_close int
| K_read int nat
| K_write int bytes
| K_fcntl int fcntl_command int
| K_socket sa_protocol
| K_connect int sockaddr nat
| K_bind int sockaddr nat
| K_listen int int
| K_accept int
| K_getsockname int
| K_getpeername int
| K_fionread int
| K_recv int nat
| K_send int bytes
| K_shutdown int shutdown_direction
| K_getsockopt_error int
| K_setsockopt int socket_option int
| K_pipe
| K_socket_dgram sa_protocol
| K_recvfrom int nat
| K_sendto int bytes "sockaddr option" nat

text \<open>The return value, the \<open>errno\<close> of a call that returned -1, and what the call writes through
  its pointers: bytes read, the time, an address, one or two integers, the reported events.\<close>

record answer =
  a_ret :: int
  a_errno :: int
  a_bytes :: bytes
  a_time :: timestamp
  a_addr :: sockaddr
  a_value :: int
  a_value2 :: int
  a_events :: "(nat \<times> u32) list"

type_synonym history = "(kcall \<times> answer) list"
type_synonym kernel = "history \<Rightarrow> kcall \<Rightarrow> answer"

text \<open>What \<open>recv\<close>, \<open>send\<close> and \<open>epoll_wait\<close> are documented to return, and that \<open>FIONREAD\<close> stores
  an \<open>int\<close>. Linux moves at most \<open>0x7ffff000\<close> bytes in one call.\<close>

definition io_max :: int where
  "io_max = 0x7ffff000"

definition kernel_ok :: "kernel \<Rightarrow> bool" where
  "kernel_ok k \<longleftrightarrow>
     (\<forall>h fd n. let a = k h (K_recv fd n) in -1 \<le> a_ret a \<and> a_ret a \<le> io_max \<and>
        a_ret a \<le> int n \<and> int (length (a_bytes a)) = max 0 (a_ret a)) \<and>
     (\<forall>h fd xs. let a = k h (K_send fd xs) in -1 \<le> a_ret a \<and> a_ret a \<le> io_max \<and>
        a_ret a \<le> int (length xs)) \<and>
     (\<forall>h ep n ms. let a = k h (K_epoll_wait ep n ms) in -1 \<le> a_ret a \<and> a_ret a \<le> int n \<and>
        int (length (a_events a)) = max 0 (a_ret a)) \<and>
     (\<forall>h fd. - (2 ^ 31) \<le> a_value (k h (K_fionread fd)) \<and> a_value (k h (K_fionread fd)) < 2 ^ 31)"

definition EAGAIN :: int where "EAGAIN = 11"
definition EINTR :: int where "EINTR = 4"
definition EAFNOSUPPORT :: int where "EAFNOSUPPORT = 97"
definition ECONNABORTED :: int where "ECONNABORTED = 103"
definition ENOBUFS :: int where "ENOBUFS = 105"
definition ETIMEDOUT :: int where "ETIMEDOUT = 110"
definition EINPROGRESS :: int where "EINPROGRESS = 115"

definition EPOLLIN :: u32 where "EPOLLIN = 1"
definition EPOLLPRI :: u32 where "EPOLLPRI = 2"
definition EPOLLOUT :: u32 where "EPOLLOUT = 4"
definition EPOLLERR :: u32 where "EPOLLERR = 8"
definition EPOLLHUP :: u32 where "EPOLLHUP = 16"
definition EPOLLRDHUP :: u32 where "EPOLLRDHUP = 0x2000"

definition O_NONBLOCK :: int where "O_NONBLOCK = 2048"
definition FD_CLOEXEC :: int where "FD_CLOEXEC = 1"

lemmas errno_defs = EAGAIN_def EINTR_def EAFNOSUPPORT_def ECONNABORTED_def ENOBUFS_def
  ETIMEDOUT_def EINPROGRESS_def

section \<open>State\<close>

text \<open>\<open>'h\<close> are the values of the device callbacks, \<open>'cb\<close> those of the timer callbacks.\<close>

record 'h io_device =
  dev_attached :: bool
  dev_id :: int
  dev_fd :: int
  dev_read_cb :: "'h option"
  dev_write_cb :: "'h option"
  dev_error_cb :: "'h option"

text \<open>One \<open>IOService\<close> (its members \<open>quit_\<close>, \<open>epoll_fd_\<close>, \<open>removed_io_devices_\<close>, the size of
  \<open>events_\<close>, \<open>timer_heap_\<close>), the store of devices, and the history of kernel calls.\<close>

record ('h, 'cb) io_world =
  w_history :: history
  w_errno :: int
  w_quit :: bool
  w_epoll_fd :: int
  w_event_slots :: nat
  w_removed :: "nat set"
  w_timers :: "'cb timer_heap"
  w_devices :: "nat \<rightharpoonup> 'h io_device"
  w_next :: nat
  w_fault :: bool

definition sys :: "kernel \<Rightarrow> kcall \<Rightarrow> ('h, 'cb) io_world \<Rightarrow> answer \<times> ('h, 'cb) io_world" where
  "sys k c w =
     (let a = k (w_history w) c
      in (a, w\<lparr>w_history := w_history w @ [(c, a)],
               w_errno := (if a_ret a = -1 then a_errno a else w_errno w)\<rparr>))"

definition fault :: "('h, 'cb) io_world \<Rightarrow> ('h, 'cb) io_world" where
  "fault w = w\<lparr>w_fault := True\<rparr>"

text \<open>\<open>IODevice::IODevice\<close>; \<open>new\<close> puts the object at the next address.\<close>

definition IODevice :: "'h io_device" where
  "IODevice = \<lparr>dev_attached = False, dev_id = 0, dev_fd = -1,
     dev_read_cb = None, dev_write_cb = None, dev_error_cb = None\<rparr>"

definition new_device :: "('h, 'cb) io_world \<Rightarrow> nat \<times> ('h, 'cb) io_world" where
  "new_device w = (w_next w, w\<lparr>w_devices := (w_devices w)(w_next w \<mapsto> IODevice), w_next := w_next w + 1\<rparr>)"

definition set_device ::
    "nat \<Rightarrow> ('h io_device \<Rightarrow> 'h io_device) \<Rightarrow> ('h, 'cb) io_world \<Rightarrow> ('h, 'cb) io_world" where
  "set_device p f w =
     (case w_devices w p of
        None \<Rightarrow> fault w
      | Some d \<Rightarrow> w\<lparr>w_devices := (w_devices w)(p \<mapsto> f d)\<rparr>)"

text \<open>Reading members: of a deleted object they are arbitrary, and the fault is recorded.\<close>

definition dev :: "('h, 'cb) io_world \<Rightarrow> nat \<Rightarrow> 'h io_device" where
  "dev w p = (case w_devices w p of None \<Rightarrow> IODevice | Some d \<Rightarrow> d)"

definition touch :: "nat \<Rightarrow> ('h, 'cb) io_world \<Rightarrow> ('h, 'cb) io_world" where
  "touch p w = (if w_devices w p = None then fault w else w)"

section \<open>Registration with the service\<close>

definition interest :: "'h io_device \<Rightarrow> u32" where
  "interest d =
     (if dev_read_cb d \<noteq> None then EPOLLIN OR EPOLLPRI else 0) OR
     (if dev_write_cb d \<noteq> None then EPOLLOUT else 0)"

definition addIODevice :: "kernel \<Rightarrow> nat \<Rightarrow> ('h, 'cb) io_world \<Rightarrow> bool \<times> ('h, 'cb) io_world" where
  "addIODevice k p w =
     (let w1 = touch p w;
          (a, w2) = sys k (K_epoll_add (w_epoll_fd w1) (dev_fd (dev w1 p)) (interest (dev w1 p)) p) w1
      in (a_ret a = 0, w2))"

definition removeIODevice :: "kernel \<Rightarrow> nat \<Rightarrow> ('h, 'cb) io_world \<Rightarrow> bool \<times> ('h, 'cb) io_world" where
  "removeIODevice k p w =
     (let w1 = touch p w;
          (a, w2) = sys k (K_epoll_del (w_epoll_fd w1) (dev_fd (dev w1 p))) w1
      in if a_ret a \<noteq> 0 then (False, w2) else (True, w2\<lparr>w_removed := insert p (w_removed w2)\<rparr>))"

definition updateIODevice :: "kernel \<Rightarrow> nat \<Rightarrow> ('h, 'cb) io_world \<Rightarrow> bool \<times> ('h, 'cb) io_world" where
  "updateIODevice k p w =
     (let w1 = touch p w;
          (a, w2) = sys k (K_epoll_mod (w_epoll_fd w1) (dev_fd (dev w1 p)) (interest (dev w1 p)) p) w1
      in (a_ret a = 0, w2))"

definition checkIODeviceExist :: "nat \<Rightarrow> ('h, 'cb) io_world \<Rightarrow> bool" where
  "checkIODeviceExist p w = (p \<notin> w_removed w)"

section \<open>The operations of a device\<close>

definition detachIOService :: "kernel \<Rightarrow> nat \<Rightarrow> ('h, 'cb) io_world \<Rightarrow> ('h, 'cb) io_world" where
  "detachIOService k p w =
     (let w1 = touch p w
      in if \<not> dev_attached (dev w1 p) then w1
         else set_device p (\<lambda>d. d\<lparr>dev_attached := False\<rparr>) (snd (removeIODevice k p w1)))"

definition attachIOService :: "kernel \<Rightarrow> nat \<Rightarrow> ('h, 'cb) io_world \<Rightarrow> bool \<times> ('h, 'cb) io_world" where
  "attachIOService k p w =
     (let w1 = touch p w;
          w2 = (if dev_attached (dev w1 p) then detachIOService k p w1 else w1);
          (ok, w3) = addIODevice k p w2
      in if \<not> ok then (False, w3)
         else (True, set_device p (\<lambda>d. d\<lparr>dev_attached := True\<rparr>) w3))"

definition setId :: "nat \<Rightarrow> int \<Rightarrow> ('h, 'cb) io_world \<Rightarrow> ('h, 'cb) io_world" where
  "setId p i w = set_device p (\<lambda>d. d\<lparr>dev_id := i\<rparr>) w"

definition setDescriptor :: "nat \<Rightarrow> int \<Rightarrow> ('h, 'cb) io_world \<Rightarrow> ('h, 'cb) io_world" where
  "setDescriptor p fd w = set_device p (\<lambda>d. d\<lparr>dev_fd := fd\<rparr>) w"

definition dupDescriptor :: "kernel \<Rightarrow> nat \<Rightarrow> int \<Rightarrow> ('h, 'cb) io_world \<Rightarrow> bool \<times> ('h, 'cb) io_world" where
  "dupDescriptor k p fd w =
     (let (a, w1) = sys k (K_dup fd) w
      in if a_ret a = -1 then (False, w1) else (True, setDescriptor p (a_ret a) w1))"

definition setReadCallback ::
    "kernel \<Rightarrow> nat \<Rightarrow> 'h option \<Rightarrow> ('h, 'cb) io_world \<Rightarrow> ('h, 'cb) io_world" where
  "setReadCallback k p read_cb w =
     (let w1 = set_device p (\<lambda>d. d\<lparr>dev_read_cb := read_cb\<rparr>) w
      in if dev_attached (dev w1 p) then snd (updateIODevice k p w1) else w1)"

definition setWriteCallback ::
    "kernel \<Rightarrow> nat \<Rightarrow> 'h option \<Rightarrow> ('h, 'cb) io_world \<Rightarrow> ('h, 'cb) io_world" where
  "setWriteCallback k p write_cb w =
     (let w1 = set_device p (\<lambda>d. d\<lparr>dev_write_cb := write_cb\<rparr>) w
      in if dev_attached (dev w1 p) then snd (updateIODevice k p w1) else w1)"

definition setErrorCallback :: "nat \<Rightarrow> 'h option \<Rightarrow> ('h, 'cb) io_world \<Rightarrow> ('h, 'cb) io_world" where
  "setErrorCallback p error_cb w = set_device p (\<lambda>d. d\<lparr>dev_error_cb := error_cb\<rparr>) w"

definition io_read :: "kernel \<Rightarrow> nat \<Rightarrow> nat \<Rightarrow> ('h, 'cb) io_world \<Rightarrow> (int \<times> bytes) \<times> ('h, 'cb) io_world" where
  "io_read k p sz w =
     (let (a, w1) = sys k (K_read (dev_fd (dev w p)) sz) (touch p w)
      in ((to_int32 (a_ret a), a_bytes a), w1))"

definition io_write :: "kernel \<Rightarrow> nat \<Rightarrow> bytes \<Rightarrow> ('h, 'cb) io_world \<Rightarrow> int \<times> ('h, 'cb) io_world" where
  "io_write k p buffer w =
     (let (a, w1) = sys k (K_write (dev_fd (dev w p)) buffer) (touch p w)
      in (to_int32 (a_ret a), w1))"

definition setNonblock :: "kernel \<Rightarrow> nat \<Rightarrow> ('h, 'cb) io_world \<Rightarrow> bool \<times> ('h, 'cb) io_world" where
  "setNonblock k p w =
     (let (flags, w1) = sys k (K_fcntl (dev_fd (dev w p)) F_GETFL 0) (touch p w);
          (a, w2) = sys k (K_fcntl (dev_fd (dev w p)) F_SETFL (a_ret flags OR O_NONBLOCK)) w1
      in (a_ret a = 0, w2))"

definition setCloseOnExec :: "kernel \<Rightarrow> nat \<Rightarrow> ('h, 'cb) io_world \<Rightarrow> bool \<times> ('h, 'cb) io_world" where
  "setCloseOnExec k p w =
     (let (flags, w1) = sys k (K_fcntl (dev_fd (dev w p)) F_GETFD 0) (touch p w);
          (a, w2) = sys k (K_fcntl (dev_fd (dev w p)) F_SETFD (a_ret flags OR FD_CLOEXEC)) w1
      in (a_ret a = 0, w2))"

section \<open>Timers of the service\<close>

definition startTimer ::
    "kernel \<Rightarrow> int \<Rightarrow> 'cb \<Rightarrow> int \<Rightarrow> ('h, 'cb) io_world \<Rightarrow> int \<times> ('h, 'cb) io_world" where
  "startTimer k timeout_ms timer_cb call_times w =
     (let (now, w1) = sys k K_gettime w;
          (timer_id, timers) = addTimer (w_timers w1) (a_time now) timeout_ms timer_cb call_times
      in (timer_id, w1\<lparr>w_timers := timers\<rparr>))"

definition stopTimer :: "int \<Rightarrow> ('h, 'cb) io_world \<Rightarrow> ('h, 'cb) io_world" where
  "stopTimer timer_id w = w\<lparr>w_timers := removeTimer (w_timers w) timer_id\<rparr>"

definition quit :: "('h, 'cb) io_world \<Rightarrow> ('h, 'cb) io_world" where
  "quit w = w\<lparr>w_quit := True\<rparr>"

text \<open>The constructor of the service; None is the exception it throws.\<close>

definition IOService :: "kernel \<Rightarrow> ('h, 'cb) io_world option" where
  "IOService k =
     (let w = \<lparr>w_history = [], w_errno = 0, w_quit = False, w_epoll_fd = -1, w_event_slots = 32,
               w_removed = {}, w_timers = TimerHeap, w_devices = Map.empty, w_next = 0,
               w_fault = False\<rparr>;
          (a, w1) = sys k K_epoll_create1 w
      in if a_ret a = -1 then None else Some (w1\<lparr>w_epoll_fd := a_ret a\<rparr>))"

end
