(* ===== verification/TcpSocket.thy ===== *)
theory TcpSocket
  imports IODevice
begin

text \<open>
  \<^verbatim>\<open>src/src/brickred/tcp_socket.{h,cc}\<close>: a TCP socket is a device; each member function is the
  kernel calls it makes, in order, with its early returns. The address arguments are \<open>const\<close>
  references; the members an address caches behind them do not show
  (\<open>queries_do_not_change_address\<close>), so an address is passed by value. \<open>pton6\<close> is the C
  library's parser of IPv6 text.
\<close>

definition new_TcpSocket :: "('h, 'cb) io_world \<Rightarrow> nat \<times> ('h, 'cb) io_world" where
  "new_TcpSocket w = new_device w"

definition sock_close :: "kernel \<Rightarrow> nat \<Rightarrow> ('h, 'cb) io_world \<Rightarrow> ('h, 'cb) io_world" where
  "sock_close k p w =
     (let w1 = detachIOService k p w
      in if dev_fd (dev w1 p) \<noteq> -1
         then setDescriptor p (-1) (snd (sys k (K_close (dev_fd (dev w1 p))) w1))
         else w1)"

text \<open>\<open>delete\<close>: the destructor closes, then the one of \<open>IODevice\<close> detaches, then the object is
  gone.\<close>

definition delete_TcpSocket :: "kernel \<Rightarrow> nat \<Rightarrow> ('h, 'cb) io_world \<Rightarrow> ('h, 'cb) io_world" where
  "delete_TcpSocket k p w =
     (let w1 = detachIOService k p (sock_close k p w)
      in w1\<lparr>w_devices := (w_devices w1)(p := None)\<rparr>)"

definition sock_open ::
    "kernel \<Rightarrow> nat \<Rightarrow> sa_protocol \<Rightarrow> ('h, 'cb) io_world \<Rightarrow> bool \<times> ('h, 'cb) io_world" where
  "sock_open k p protocol w =
     (let w1 = (if dev_fd (dev w p) \<noteq> -1 then sock_close k p w else touch p w)
      in if protocol = IP_V4 \<or> protocol = IP_V6 then
           let (a, w2) = sys k (K_socket protocol) w1;
               w3 = setDescriptor p (a_ret a) w2
           in if a_ret a = -1 then (False, w3)
              else let (ok, w4) = setCloseOnExec k p w3
                   in if \<not> ok then (False, sock_close k p w4) else (True, w4)
         else (False, w1\<lparr>w_errno := EAFNOSUPPORT\<rparr>))"

definition sock_connect ::
    "(bytes \<Rightarrow> bytes option) \<Rightarrow> kernel \<Rightarrow> nat \<Rightarrow> socket_address \<Rightarrow> ('h, 'cb) io_world \<Rightarrow>
     bool \<times> ('h, 'cb) io_world" where
  "sock_connect pton6 k p addr w =
     (case fst (getNativeAddress pton6 addr) of
        None \<Rightarrow> (False, w\<lparr>w_errno := EAFNOSUPPORT\<rparr>)
      | Some native \<Rightarrow>
          let (a, w1) = sys k (K_connect (dev_fd (dev w p)) native
                                 (fst (getNativeAddressSize pton6 addr))) (touch p w)
          in (a_ret a = 0, w1))"

definition sock_bind ::
    "(bytes \<Rightarrow> bytes option) \<Rightarrow> kernel \<Rightarrow> nat \<Rightarrow> socket_address \<Rightarrow> ('h, 'cb) io_world \<Rightarrow>
     bool \<times> ('h, 'cb) io_world" where
  "sock_bind pton6 k p addr w =
     (case fst (getNativeAddress pton6 addr) of
        None \<Rightarrow> (False, w\<lparr>w_errno := EAFNOSUPPORT\<rparr>)
      | Some native \<Rightarrow>
          let (a, w1) = sys k (K_bind (dev_fd (dev w p)) native
                                 (fst (getNativeAddressSize pton6 addr))) (touch p w)
          in (a_ret a = 0, w1))"

definition sock_listen :: "kernel \<Rightarrow> nat \<Rightarrow> int \<Rightarrow> ('h, 'cb) io_world \<Rightarrow> bool \<times> ('h, 'cb) io_world" where
  "sock_listen k p backlog w =
     (let (a, w1) = sys k (K_listen (dev_fd (dev w p)) backlog) (touch p w) in (a_ret a = 0, w1))"

definition sock_accept :: "kernel \<Rightarrow> nat \<Rightarrow> nat \<Rightarrow> ('h, 'cb) io_world \<Rightarrow> bool \<times> ('h, 'cb) io_world" where
  "sock_accept k p peer w =
     (let (a, w1) = sys k (K_accept (dev_fd (dev w p))) (touch p w)
      in if a_ret a = -1 then (False, w1)
         else let w2 = setDescriptor peer (a_ret a) w1;
                  (ok, w3) = setCloseOnExec k peer w2
              in if \<not> ok then (False, sock_close k peer w3) else (True, w3))"

text \<open>The two queries: the address is stored on success only; the result is
  \<open>addr->setNativeAddress(..)\<close>.\<close>

definition sock_getLocalAddress ::
    "kernel \<Rightarrow> nat \<Rightarrow> socket_address \<Rightarrow> ('h, 'cb) io_world \<Rightarrow>
     (bool \<times> socket_address) \<times> ('h, 'cb) io_world" where
  "sock_getLocalAddress k p addr w =
     (let (a, w1) = sys k (K_getsockname (dev_fd (dev w p))) (touch p w)
      in if a_ret a \<noteq> 0 then ((False, addr), w1) else (setNativeAddress (a_addr a) addr, w1))"

definition sock_getPeerAddress ::
    "kernel \<Rightarrow> nat \<Rightarrow> socket_address \<Rightarrow> ('h, 'cb) io_world \<Rightarrow>
     (bool \<times> socket_address) \<times> ('h, 'cb) io_world" where
  "sock_getPeerAddress k p addr w =
     (let (a, w1) = sys k (K_getpeername (dev_fd (dev w p))) (touch p w)
      in if a_ret a \<noteq> 0 then ((False, addr), w1) else (setNativeAddress (a_addr a) addr, w1))"

definition sock_readableBytes :: "kernel \<Rightarrow> nat \<Rightarrow> ('h, 'cb) io_world \<Rightarrow> int \<times> ('h, 'cb) io_world" where
  "sock_readableBytes k p w =
     (let (a, w1) = sys k (K_fionread (dev_fd (dev w p))) (touch p w)
      in (if a_ret a = -1 then -1 else a_value a, w1))"

text \<open>\<open>recv\<close> gives the result and the bytes it stored.\<close>

definition sock_recv ::
    "kernel \<Rightarrow> nat \<Rightarrow> nat \<Rightarrow> ('h, 'cb) io_world \<Rightarrow> (int \<times> bytes) \<times> ('h, 'cb) io_world" where
  "sock_recv k p sz w =
     (let (a, w1) = sys k (K_recv (dev_fd (dev w p)) sz) (touch p w)
      in ((to_int32 (a_ret a), a_bytes a), w1))"

definition sock_send :: "kernel \<Rightarrow> nat \<Rightarrow> bytes \<Rightarrow> ('h, 'cb) io_world \<Rightarrow> int \<times> ('h, 'cb) io_world" where
  "sock_send k p buffer w =
     (let (a, w1) = sys k (K_send (dev_fd (dev w p)) buffer) (touch p w)
      in (to_int32 (a_ret a), w1))"

definition shutdownRead :: "kernel \<Rightarrow> nat \<Rightarrow> ('h, 'cb) io_world \<Rightarrow> bool \<times> ('h, 'cb) io_world" where
  "shutdownRead k p w =
     (let (a, w1) = sys k (K_shutdown (dev_fd (dev w p)) SHUT_RD) (touch p w) in (a_ret a = 0, w1))"

definition shutdownWrite :: "kernel \<Rightarrow> nat \<Rightarrow> ('h, 'cb) io_world \<Rightarrow> bool \<times> ('h, 'cb) io_world" where
  "shutdownWrite k p w =
     (let (a, w1) = sys k (K_shutdown (dev_fd (dev w p)) SHUT_WR) (touch p w) in (a_ret a = 0, w1))"

definition shutdownBoth :: "kernel \<Rightarrow> nat \<Rightarrow> ('h, 'cb) io_world \<Rightarrow> bool \<times> ('h, 'cb) io_world" where
  "shutdownBoth k p w =
     (let (a, w1) = sys k (K_shutdown (dev_fd (dev w p)) SHUT_RDWR) (touch p w) in (a_ret a = 0, w1))"

definition getSocketError :: "kernel \<Rightarrow> nat \<Rightarrow> ('h, 'cb) io_world \<Rightarrow> int \<times> ('h, 'cb) io_world" where
  "getSocketError k p w =
     (let (a, w1) = sys k (K_getsockopt_error (dev_fd (dev w p))) (touch p w)
      in (if a_ret a \<noteq> 0 then w_errno w1 else a_value a, w1))"

definition setReuseAddr :: "kernel \<Rightarrow> nat \<Rightarrow> ('h, 'cb) io_world \<Rightarrow> bool \<times> ('h, 'cb) io_world" where
  "setReuseAddr k p w =
     (let (a, w1) = sys k (K_setsockopt (dev_fd (dev w p)) SO_REUSEADDR 1) (touch p w)
      in (a_ret a = 0, w1))"

definition setTcpNoDelay :: "kernel \<Rightarrow> nat \<Rightarrow> ('h, 'cb) io_world \<Rightarrow> bool \<times> ('h, 'cb) io_world" where
  "setTcpNoDelay k p w =
     (let (a, w1) = sys k (K_setsockopt (dev_fd (dev w p)) TCP_NODELAY 1) (touch p w)
      in (a_ret a = 0, w1))"

section \<open>Opening and accepting\<close>

text \<open>\<open>if (f() == false || g() == false ..) { .. }\<close>: the calls up to the first that fails.\<close>

fun all_calls ::
    "(('h, 'cb) io_world \<Rightarrow> bool \<times> ('h, 'cb) io_world) list \<Rightarrow> ('h, 'cb) io_world \<Rightarrow>
     bool \<times> ('h, 'cb) io_world" where
  "all_calls [] w = (True, w)"
| "all_calls (f # fs) w = (let (ok, w1) = f w in if \<not> ok then (False, w1) else all_calls fs w1)"

definition activeOpen ::
    "(bytes \<Rightarrow> bytes option) \<Rightarrow> kernel \<Rightarrow> nat \<Rightarrow> socket_address \<Rightarrow> ('h, 'cb) io_world \<Rightarrow>
     bool \<times> ('h, 'cb) io_world" where
  "activeOpen pton6 k p remote_addr w =
     (let (opened, w1) = sock_open k p (fst (getProtocol pton6 remote_addr)) w
      in if \<not> opened then (False, w1)
         else let (ok, w2) = all_calls [setReuseAddr k p, setTcpNoDelay k p,
                                        sock_connect pton6 k p remote_addr] w1
              in if \<not> ok then (False, sock_close k p w2) else (True, w2))"

definition activeOpenNonblock ::
    "(bytes \<Rightarrow> bytes option) \<Rightarrow> kernel \<Rightarrow> nat \<Rightarrow> socket_address \<Rightarrow> ('h, 'cb) io_world \<Rightarrow>
     bool \<times> ('h, 'cb) io_world" where
  "activeOpenNonblock pton6 k p remote_addr w =
     (let (opened, w1) = activeOpen pton6 k p remote_addr w
      in if \<not> opened then (False, w1)
         else let (ok, w2) = setNonblock k p w1
              in if \<not> ok then (False, sock_close k p w2) else (True, w2))"

definition passiveOpen ::
    "(bytes \<Rightarrow> bytes option) \<Rightarrow> kernel \<Rightarrow> nat \<Rightarrow> socket_address \<Rightarrow> ('h, 'cb) io_world \<Rightarrow>
     bool \<times> ('h, 'cb) io_world" where
  "passiveOpen pton6 k p local_addr w =
     (let (opened, w1) = sock_open k p (fst (getProtocol pton6 local_addr)) w
      in if \<not> opened then (False, w1)
         else let (ok, w2) = all_calls [setReuseAddr k p, setTcpNoDelay k p,
                                        sock_bind pton6 k p local_addr, sock_listen k p 128] w1
              in if \<not> ok then (False, sock_close k p w2) else (True, w2))"

definition passiveOpenNonblock ::
    "(bytes \<Rightarrow> bytes option) \<Rightarrow> kernel \<Rightarrow> nat \<Rightarrow> socket_address \<Rightarrow> ('h, 'cb) io_world \<Rightarrow>
     bool \<times> ('h, 'cb) io_world" where
  "passiveOpenNonblock pton6 k p local_addr w =
     (let (opened, w1) = passiveOpen pton6 k p local_addr w
      in if \<not> opened then (False, w1)
         else let (ok, w2) = setNonblock k p w1
              in if \<not> ok then (False, sock_close k p w2) else (True, w2))"

definition acceptNonblock :: "kernel \<Rightarrow> nat \<Rightarrow> nat \<Rightarrow> ('h, 'cb) io_world \<Rightarrow> bool \<times> ('h, 'cb) io_world" where
  "acceptNonblock k p peer w =
     (let (accepted, w1) = sock_accept k p peer w
      in if \<not> accepted then (False, w1)
         else let (ok, w2) = all_calls [setTcpNoDelay k peer, setNonblock k peer] w1
              in if \<not> ok then (False, sock_close k peer w2) else (True, w2))"

end
