(* ===== verification/TcpService.thy ===== *)
theory TcpService
  imports TcpSocket DynamicBuffer "HOL-Library.While_Combinator"
begin

text \<open>
  \<^verbatim>\<open>src/src/brickred/tcp_service.{h,cc}\<close>: the listening, connecting and connected sockets of one
  \<open>IOService\<close>. Sockets and connections are objects in stores (\<open>w_devices\<close>, \<open>ts_conns\<close>) and the
  maps of the class hold their addresses, as in the code. The user's callbacks are values; what
  running one does is the parameter \<open>app\<close>, an arbitrary function on the service's state, so a
  callback may call the service again, close sockets and send. A step that would read a deleted
  object, or divide by a zero expand size, sets \<open>w_fault\<close>. \<open>UniquePtr\<close>s are explicit: what an
  early return destroys is deleted there.
\<close>

section \<open>State\<close>

text \<open>The member functions bound as device and timer callbacks; \<open>OnDevice\<close> and \<open>UserTimer\<close> are
  callbacks other clients of the \<open>IOService\<close> registered.\<close>

datatype io_handler =
  OnListenSocketRead | OnAsyncConnectSocketWrite | OnSocketRead | OnSocketWrite | OnSocketError
| OnDevice nat

datatype tcp_timer = OnAsyncConnectTimeout | OnSendMessageError | UserTimer nat

datatype send_callback = SendCompleteCloseCallback | UserSendComplete nat

datatype tcp_status = NONE | CONNECTING | CONNECTED | PEER_CLOSED | PENDING_ERROR

record tcp_connection =
  tc_socket :: nat
  tc_status :: tcp_status
  tc_error_code :: int
  tc_read_buffer :: dynamic_buffer
  tc_write_buffer :: dynamic_buffer
  tc_send_complete_cb :: "send_callback option"

type_synonym tcp_io = "(io_handler, tcp_timer) io_world"

record tcp_service =
  ts_io :: tcp_io
  ts_value :: u32
  ts_sockets :: "int \<rightharpoonup> nat"
  ts_connections :: "int \<rightharpoonup> nat"
  ts_contexts :: "int \<rightharpoonup> nat"
  ts_socket_to_timer :: "int \<rightharpoonup> int"
  ts_timer_to_socket :: "int \<rightharpoonup> int"
  ts_new_conn_cb :: "nat option"
  ts_recv_message_cb :: "nat option"
  ts_peer_close_cb :: "nat option"
  ts_error_cb :: "nat option"
  ts_read_init_size :: nat
  ts_read_expand_size :: nat
  ts_read_max_size :: nat
  ts_write_init_size :: nat
  ts_write_expand_size :: nat
  ts_write_max_size :: nat
  ts_conns :: "nat \<rightharpoonup> tcp_connection"
  ts_next_conn :: nat
  ts_deleted_contexts :: "nat list"

text \<open>The calls the service makes to the application.\<close>

datatype app_call =
  NewConnection nat int int
| RecvMessage nat int
| PeerClose nat int
| SocketError nat int int
| SendComplete nat int
| TimerFired nat int
| DeviceEvent nat nat

type_synonym app = "app_call \<Rightarrow> tcp_service \<Rightarrow> tcp_service"

section \<open>Socket ids and connections\<close>

text \<open>\<open>SocketIdAllocator::getId\<close>: the \<open>int32_t\<close> counter restarts at 0 when it turns negative.\<close>

definition socketId :: "int \<Rightarrow> u32 \<Rightarrow> int \<times> u32" where
  "socketId fd value =
     (let v = value + 1;
          v = (if sint v < 0 then 0 else v)
      in (sint (push_bit 32 (ucast v :: u64) + word_of_int fd), v))"

definition TcpConnection :: "nat \<Rightarrow> nat \<Rightarrow> nat \<Rightarrow> nat \<Rightarrow> nat \<Rightarrow> tcp_connection" where
  "TcpConnection socket read_init read_expand write_init write_expand =
     \<lparr>tc_socket = socket, tc_status = NONE, tc_error_code = 0,
      tc_read_buffer = DynamicBuffer read_init read_expand,
      tc_write_buffer = DynamicBuffer write_init write_expand,
      tc_send_complete_cb = None\<rparr>"

definition tc_setError :: "int \<Rightarrow> tcp_connection \<Rightarrow> tcp_connection" where
  "tc_setError error_code c = c\<lparr>tc_status := PENDING_ERROR, tc_error_code := error_code\<rparr>"

definition ts_fault :: "tcp_service \<Rightarrow> tcp_service" where
  "ts_fault s = s\<lparr>ts_io := fault (ts_io s)\<rparr>"

text \<open>Reading and changing a connection through its pointer.\<close>

definition conn :: "tcp_service \<Rightarrow> nat \<Rightarrow> tcp_connection" where
  "conn s c = (case ts_conns s c of None \<Rightarrow> TcpConnection 0 0 0 0 0 | Some n \<Rightarrow> n)"

definition touch_conn :: "nat \<Rightarrow> tcp_service \<Rightarrow> tcp_service" where
  "touch_conn c s = (if ts_conns s c = None then ts_fault s else s)"

definition set_conn :: "nat \<Rightarrow> (tcp_connection \<Rightarrow> tcp_connection) \<Rightarrow> tcp_service \<Rightarrow> tcp_service" where
  "set_conn c f s =
     (case ts_conns s c of
        None \<Rightarrow> ts_fault s
      | Some n \<Rightarrow> s\<lparr>ts_conns := (ts_conns s)(c \<mapsto> f n)\<rparr>)"

definition new_conn :: "nat \<Rightarrow> tcp_service \<Rightarrow> nat \<times> tcp_service" where
  "new_conn p s =
     (let c = ts_next_conn s
      in (c, s\<lparr>ts_conns := (ts_conns s)(c \<mapsto> TcpConnection p (ts_read_init_size s)
                 (ts_read_expand_size s) (ts_write_init_size s) (ts_write_expand_size s)),
               ts_next_conn := c + 1\<rparr>))"

definition delete_conn :: "nat \<Rightarrow> tcp_service \<Rightarrow> tcp_service" where
  "delete_conn c s = (touch_conn c s)\<lparr>ts_conns := (ts_conns s)(c := None)\<rparr>"

text \<open>The operations of the sockets and of the service below, on \<open>ts_io\<close>.\<close>

definition on_io :: "(tcp_io \<Rightarrow> tcp_io) \<Rightarrow> tcp_service \<Rightarrow> tcp_service" where
  "on_io f s = s\<lparr>ts_io := f (ts_io s)\<rparr>"

definition call_io :: "(tcp_io \<Rightarrow> 'r \<times> tcp_io) \<Rightarrow> tcp_service \<Rightarrow> 'r \<times> tcp_service" where
  "call_io f s = (let (r, w) = f (ts_io s) in (r, s\<lparr>ts_io := w\<rparr>))"

text \<open>\<open>socket->getId()\<close>: reading the id of a socket touches the object.\<close>

definition getSocketId :: "nat \<Rightarrow> tcp_service \<Rightarrow> int \<times> tcp_service" where
  "getSocketId p s = (dev_id (dev (ts_io s) p), on_io (touch p) s)"

text \<open>\<open>if (cb) { cb(..); }\<close>.\<close>

definition call_app :: "app \<Rightarrow> (nat \<Rightarrow> app_call) \<Rightarrow> nat option \<Rightarrow> tcp_service \<Rightarrow> tcp_service" where
  "call_app app mk cb s = (case cb of None \<Rightarrow> s | Some f \<Rightarrow> app (mk f) s)"

section \<open>Timers of sockets\<close>

definition addSocketTimer :: "kernel \<Rightarrow> int \<Rightarrow> int \<Rightarrow> tcp_timer \<Rightarrow> tcp_service \<Rightarrow> tcp_service" where
  "addSocketTimer k socket_id timeout_ms timer_cb s =
     (let (timer_id, s1) = call_io (startTimer k timeout_ms timer_cb 1) s
      in s1\<lparr>ts_socket_to_timer := (ts_socket_to_timer s1)(socket_id \<mapsto> timer_id),
            ts_timer_to_socket := (ts_timer_to_socket s1)(timer_id \<mapsto> socket_id)\<rparr>)"

definition removeSocketTimer :: "int \<Rightarrow> tcp_service \<Rightarrow> tcp_service" where
  "removeSocketTimer socket_id s =
     (case ts_socket_to_timer s socket_id of
        None \<Rightarrow> s
      | Some timer_id \<Rightarrow>
          on_io (stopTimer timer_id)
            (s\<lparr>ts_socket_to_timer := (ts_socket_to_timer s)(socket_id := None),
               ts_timer_to_socket := (ts_timer_to_socket s)(timer_id := None)\<rparr>))"

section \<open>Building sockets\<close>

text \<open>The three builders get the socket through a reference to a \<open>UniquePtr\<close>; the second result
  says whether they released it (an early return leaves it to the caller, who destroys it).\<close>

definition buildListenSocket :: "kernel \<Rightarrow> nat \<Rightarrow> tcp_service \<Rightarrow> (int \<times> bool) \<times> tcp_service" where
  "buildListenSocket k p s =
     (let (socket_id, v) = socketId (dev_fd (dev (ts_io s) p)) (ts_value s);
          s1 = on_io (setId p socket_id) (s\<lparr>ts_value := v\<rparr>);
          s2 = on_io (setReadCallback k p (Some OnListenSocketRead)) s1;
          s3 = on_io (setErrorCallback p (Some OnSocketError)) s2;
          s4 = on_io (\<lambda>w. snd (attachIOService k p w)) s3
      in if ts_sockets s4 socket_id \<noteq> None then ((-1, False), s4)
         else ((socket_id, True), s4\<lparr>ts_sockets := (ts_sockets s4)(socket_id \<mapsto> p)\<rparr>))"

definition buildConnectedSocket :: "kernel \<Rightarrow> nat \<Rightarrow> tcp_service \<Rightarrow> (int \<times> bool) \<times> tcp_service" where
  "buildConnectedSocket k p s =
     (let (socket_id, v) = socketId (dev_fd (dev (ts_io s) p)) (ts_value s);
          s1 = on_io (setId p socket_id) (s\<lparr>ts_value := v\<rparr>);
          s2 = on_io (setReadCallback k p (Some OnSocketRead)) s1;
          s3 = on_io (setErrorCallback p (Some OnSocketError)) s2;
          s4 = on_io (\<lambda>w. snd (attachIOService k p w)) s3;
          (c, s5) = new_conn p s4;
          s6 = set_conn c (\<lambda>n. n\<lparr>tc_status := CONNECTED\<rparr>) s5
      in if ts_sockets s6 socket_id \<noteq> None then ((-1, False), delete_conn c s6)
         else if ts_connections s6 socket_id \<noteq> None then ((-1, False), delete_conn c s6)
         else ((socket_id, True),
               s6\<lparr>ts_sockets := (ts_sockets s6)(socket_id \<mapsto> p),
                  ts_connections := (ts_connections s6)(socket_id \<mapsto> c)\<rparr>))"

definition buildAsyncConnectSocket ::
    "kernel \<Rightarrow> nat \<Rightarrow> int \<Rightarrow> tcp_service \<Rightarrow> (int \<times> bool) \<times> tcp_service" where
  "buildAsyncConnectSocket k p timeout_ms s =
     (let (socket_id, v) = socketId (dev_fd (dev (ts_io s) p)) (ts_value s);
          s1 = on_io (setId p socket_id) (s\<lparr>ts_value := v\<rparr>);
          s2 = on_io (setWriteCallback k p (Some OnAsyncConnectSocketWrite)) s1;
          s3 = on_io (setErrorCallback p (Some OnSocketError)) s2;
          s4 = on_io (\<lambda>w. snd (attachIOService k p w)) s3;
          (c, s5) = new_conn p s4;
          s6 = set_conn c (\<lambda>n. n\<lparr>tc_status := CONNECTING\<rparr>) s5
      in if ts_sockets s6 socket_id \<noteq> None then ((-1, False), delete_conn c s6)
         else if ts_connections s6 socket_id \<noteq> None then ((-1, False), delete_conn c s6)
         else let s7 = (if timeout_ms > 0
                        then addSocketTimer k socket_id timeout_ms OnAsyncConnectTimeout s6 else s6)
              in ((socket_id, True),
                  s7\<lparr>ts_sockets := (ts_sockets s7)(socket_id \<mapsto> p),
                     ts_connections := (ts_connections s7)(socket_id \<mapsto> c)\<rparr>))"

section \<open>Closing\<close>

definition closeSocket :: "kernel \<Rightarrow> int \<Rightarrow> tcp_service \<Rightarrow> tcp_service" where
  "closeSocket k socket_id s =
     (let s1 = (case ts_connections s socket_id of
                  None \<Rightarrow> s
                | Some c \<Rightarrow>
                    (delete_conn c s)\<lparr>ts_connections := (ts_connections s)(socket_id := None)\<rparr>);
          s2 = (case ts_sockets s1 socket_id of
                  None \<Rightarrow> s1
                | Some p \<Rightarrow> (on_io (delete_TcpSocket k p) s1)
                              \<lparr>ts_sockets := (ts_sockets s1)(socket_id := None)\<rparr>)
      in case ts_contexts s2 socket_id of
           None \<Rightarrow> s2
         | Some x \<Rightarrow> s2\<lparr>ts_deleted_contexts := ts_deleted_contexts s2 @ [x],
                         ts_contexts := (ts_contexts s2)(socket_id := None)\<rparr>)"

section \<open>Sending\<close>

text \<open>\<open>send_complete_cb(thiz_, id)\<close>: the service's own callback closes the socket.\<close>

definition run_send_complete ::
    "kernel \<Rightarrow> app \<Rightarrow> send_callback \<Rightarrow> int \<Rightarrow> tcp_service \<Rightarrow> tcp_service" where
  "run_send_complete k app cb socket_id s =
     (case cb of
        SendCompleteCloseCallback \<Rightarrow> closeSocket k socket_id s
      | UserSendComplete f \<Rightarrow> app (SendComplete f socket_id) s)"

definition run_send_complete_if ::
    "kernel \<Rightarrow> app \<Rightarrow> send_callback option \<Rightarrow> nat \<Rightarrow> tcp_service \<Rightarrow> tcp_service" where
  "run_send_complete_if k app cb p s =
     (case cb of
        None \<Rightarrow> s
      | Some f \<Rightarrow> let (socket_id, s1) = getSocketId p s in run_send_complete k app f socket_id s1)"

text \<open>\<open>connection->setError(e)\<close> and the timer of 0 ms that will report it.\<close>

definition send_failed :: "kernel \<Rightarrow> nat \<Rightarrow> int \<Rightarrow> tcp_service \<Rightarrow> tcp_service" where
  "send_failed k c error_code s =
     (let s1 = set_conn c (tc_setError error_code) s;
          (socket_id, s2) = getSocketId (tc_socket (conn s1 c)) s1
      in addSocketTimer k socket_id 0 OnSendMessageError s2)"

text \<open>The write into the buffer of a connection: reserve (which divides by the expand size),
  copy from the beginning of the caller's buffer, and advance.\<close>

definition buffer_message ::
    "kernel \<Rightarrow> nat \<Rightarrow> bytes \<Rightarrow> nat \<Rightarrow> send_callback option \<Rightarrow> tcp_service \<Rightarrow> tcp_service" where
  "buffer_message k c buffer remain_size send_complete_cb s =
     (let s1 = (if reserve_traps (tc_write_buffer (conn s c)) remain_size then ts_fault s else s);
          s2 = set_conn c (\<lambda>n. n\<lparr>tc_write_buffer :=
                 db_write (db_store (reserveWritableBytes (tc_write_buffer n) remain_size)
                             (take remain_size buffer)) remain_size\<rparr>) s1;
          s3 = set_conn c (\<lambda>n. n\<lparr>tc_send_complete_cb := send_complete_cb\<rparr>) s2
      in on_io (setWriteCallback k (tc_socket (conn s3 c)) (Some OnSocketWrite)) s3)"

text \<open>\<open>sendMessage\<close> from \<open>if (remain_size > 0)\<close> on, then the whole.\<close>

definition send_remain ::
    "kernel \<Rightarrow> app \<Rightarrow> nat \<Rightarrow> bytes \<Rightarrow> nat \<Rightarrow> send_callback option \<Rightarrow> tcp_service \<Rightarrow>
     bool \<times> tcp_service" where
  "send_remain k app c buffer remain_size send_complete_cb s =
     (if remain_size > 0 then
        if ts_write_max_size s > 0 \<and>
           sz_add remain_size (readableBytes (tc_write_buffer (conn s c))) > ts_write_max_size s
        then (False, send_failed k c ENOBUFS s)
        else (True, buffer_message k c buffer remain_size send_complete_cb s)
      else (True, run_send_complete_if k app send_complete_cb (tc_socket (conn s c)) s))"

definition sendMessage_on ::
    "kernel \<Rightarrow> app \<Rightarrow> nat \<Rightarrow> bytes \<Rightarrow> send_callback option \<Rightarrow> tcp_service \<Rightarrow> bool \<times> tcp_service" where
  "sendMessage_on k app c buffer send_complete_cb s =
     (let s = touch_conn c s
      in if tc_status (conn s c) \<noteq> CONNECTED then (False, s)
         else if readableBytes (tc_write_buffer (conn s c)) = 0 then
           let (write_size, s1) = call_io (sock_send k (tc_socket (conn s c)) buffer) s
           in if write_size < 0 then
                if w_errno (ts_io s1) \<noteq> EAGAIN
                then (False, send_failed k c (w_errno (ts_io s1)) s1)
                else send_remain k app c buffer (length buffer) send_complete_cb s1
              else send_remain k app c buffer (length buffer - nat write_size) send_complete_cb s1
         else send_remain k app c buffer (length buffer) send_complete_cb s)"

definition tcp_sendMessage ::
    "kernel \<Rightarrow> app \<Rightarrow> int \<Rightarrow> bytes \<Rightarrow> send_callback option \<Rightarrow> tcp_service \<Rightarrow> bool \<times> tcp_service" where
  "tcp_sendMessage k app socket_id buffer send_complete_cb s =
     (case ts_connections s socket_id of
        None \<Rightarrow> (False, s)
      | Some c \<Rightarrow> sendMessage_on k app c buffer send_complete_cb s)"

definition sendMessageThenClose ::
    "kernel \<Rightarrow> app \<Rightarrow> int \<Rightarrow> bytes \<Rightarrow> tcp_service \<Rightarrow> bool \<times> tcp_service" where
  "sendMessageThenClose k app socket_id buffer s =
     tcp_sendMessage k app socket_id buffer (Some SendCompleteCloseCallback) s"

text \<open>The order in which the hash map is walked is the argument \<open>ids\<close>.\<close>

definition broadcastMessage :: "kernel \<Rightarrow> app \<Rightarrow> int list \<Rightarrow> bytes \<Rightarrow> tcp_service \<Rightarrow> tcp_service" where
  "broadcastMessage k app ids buffer s =
     fold (\<lambda>i s. case ts_connections s i of
                   None \<Rightarrow> s
                 | Some c \<Rightarrow> snd (sendMessage_on k app c buffer None s)) ids s"

section \<open>Events of sockets\<close>

text \<open>One pass of the loop of \<open>onListenSocketRead\<close>; the first result says whether the loop goes
  on. An accepted socket that was not taken over is destroyed at the end of the pass.\<close>

definition accept_round :: "kernel \<Rightarrow> app \<Rightarrow> nat \<Rightarrow> tcp_service \<Rightarrow> bool \<times> tcp_service" where
  "accept_round k app p s =
     (let (q, s1) = call_io new_TcpSocket s;
          (ok, s2) = call_io (acceptNonblock k p q) s1
      in if \<not> ok then
           if w_errno (ts_io s2) = EAGAIN then (False, on_io (delete_TcpSocket k q) s2)
           else if w_errno (ts_io s2) = ECONNABORTED then (True, on_io (delete_TcpSocket k q) s2)
           else (False, on_io (delete_TcpSocket k q) (snd (getSocketId p s2)))
         else let ((socket_id, released), s3) = buildConnectedSocket k q s2
              in if socket_id = -1
                 then (False, if released then s3 else on_io (delete_TcpSocket k q) s3)
                 else (True,
                   case ts_new_conn_cb s3 of
                     None \<Rightarrow> s3
                   | Some f \<Rightarrow> let (listen_id, s4) = getSocketId p s3
                               in app (NewConnection f listen_id socket_id) s4))"

text \<open>None: the loop does not end.\<close>

definition onListenSocketRead :: "kernel \<Rightarrow> app \<Rightarrow> nat \<Rightarrow> tcp_service \<Rightarrow> tcp_service option" where
  "onListenSocketRead k app p s =
     map_option snd (while_option fst (\<lambda>gs. accept_round k app p (snd gs)) (True, s))"

text \<open>\<open>connection->setError(e); if (error_cb_) { error_cb_(..) }\<close>.\<close>

definition report_error :: "app \<Rightarrow> nat \<Rightarrow> int \<Rightarrow> int \<Rightarrow> tcp_service \<Rightarrow> tcp_service" where
  "report_error app c socket_id error_code s =
     (let s1 = set_conn c (tc_setError error_code) s
      in call_app app (\<lambda>f. SocketError f socket_id (tc_error_code (conn s1 c))) (ts_error_cb s1) s1)"

definition onAsyncConnectSocketWrite :: "kernel \<Rightarrow> app \<Rightarrow> nat \<Rightarrow> tcp_service \<Rightarrow> tcp_service" where
  "onAsyncConnectSocketWrite k app p s =
     (let (socket_id, s1) = getSocketId p s;
          s2 = removeSocketTimer socket_id s1
      in case ts_connections s2 socket_id of
           None \<Rightarrow> s2
         | Some c \<Rightarrow>
             let (socket_error, s3) = call_io (getSocketError k p) s2
             in if socket_error \<noteq> 0 then report_error app c socket_id socket_error s3
                else let s4 = on_io (setReadCallback k p (Some OnSocketRead)) s3;
                         s5 = on_io (setWriteCallback k p None) s4;
                         s6 = set_conn c (\<lambda>n. n\<lparr>tc_status := CONNECTED\<rparr>) s5
                     in call_app app (\<lambda>f. NewConnection f socket_id socket_id) (ts_new_conn_cb s6) s6)"

text \<open>The head of the two timer functions: the socket of the timer, forgetting the timer.\<close>

definition take_socket_timer :: "int \<Rightarrow> tcp_service \<Rightarrow> (int \<times> nat \<times> nat) option \<times> tcp_service" where
  "take_socket_timer timer_id s =
     (case ts_timer_to_socket s timer_id of
        None \<Rightarrow> (None, s)
      | Some socket_id \<Rightarrow>
          let s1 = s\<lparr>ts_timer_to_socket := (ts_timer_to_socket s)(timer_id := None),
                     ts_socket_to_timer := (ts_socket_to_timer s)(socket_id := None)\<rparr>
          in case (ts_sockets s1 socket_id, ts_connections s1 socket_id) of
               (Some p, Some c) \<Rightarrow> (Some (socket_id, p, c), s1)
             | _ \<Rightarrow> (None, s1))"

definition onAsyncConnectTimeout :: "kernel \<Rightarrow> app \<Rightarrow> int \<Rightarrow> tcp_service \<Rightarrow> tcp_service" where
  "onAsyncConnectTimeout k app timer_id s =
     (case take_socket_timer timer_id s of
        (None, s1) \<Rightarrow> s1
      | (Some (socket_id, p, c), s1) \<Rightarrow>
          let s2 = on_io (sock_close k p) s1
          in report_error app c (dev_id (dev (ts_io s2) p)) ETIMEDOUT s2)"

definition onSendMessageError :: "app \<Rightarrow> int \<Rightarrow> tcp_service \<Rightarrow> tcp_service" where
  "onSendMessageError app timer_id s =
     (case take_socket_timer timer_id s of
        (None, s1) \<Rightarrow> s1
      | (Some (socket_id, p, c), s1) \<Rightarrow>
          (case ts_error_cb s1 of
             None \<Rightarrow> s1
           | Some f \<Rightarrow>
               let (socket_id, s2) = getSocketId p (touch_conn c s1)
               in app (SocketError f socket_id (tc_error_code (conn s2 c))) s2))"

text \<open>The loop of \<open>onSocketRead\<close>: how it was left, the two flags, the state. \<open>Returned\<close> is the
  early return after an error.\<close>

datatype recv_exit = Going | Broke | Returned

definition recv_round ::
    "kernel \<Rightarrow> app \<Rightarrow> nat \<Rightarrow> nat \<Rightarrow> int \<Rightarrow> recv_exit \<times> bool \<times> bool \<times> tcp_service \<Rightarrow>
     recv_exit \<times> bool \<times> bool \<times> tcp_service" where
  "recv_round k app p c socket_id st =
     (case st of (_, data_arrive, peer_close, s) \<Rightarrow>
        let (readable, s1) = call_io (sock_readableBytes k p) (touch_conn c s);
            bytes_to_read = nat (max 1 readable);
            read_buffer = tc_read_buffer (conn s1 c)
        in if ts_read_max_size s1 > 0 \<and>
              sz_add bytes_to_read (readableBytes read_buffer) > ts_read_max_size s1
           then (Broke, data_arrive, True, s1)
           else let s2 = (if reserve_traps read_buffer bytes_to_read then ts_fault s1 else s1);
                    s3 = set_conn c (\<lambda>n. n\<lparr>tc_read_buffer :=
                           reserveWritableBytes (tc_read_buffer n) bytes_to_read\<rparr>) s2;
                    ((ret, received), s4) = call_io (sock_recv k p bytes_to_read) s3
                in if ret > 0
                   then (Going, True, peer_close,
                         set_conn c (\<lambda>n. n\<lparr>tc_read_buffer :=
                           db_write (db_store (tc_read_buffer n) received) (nat ret)\<rparr>) s4)
                   else if ret < 0 then
                     if w_errno (ts_io s4) = EAGAIN then (Broke, data_arrive, peer_close, s4)
                     else (Returned, data_arrive, peer_close,
                           report_error app c socket_id (w_errno (ts_io s4)) s4)
                   else (Broke, data_arrive, True, s4))"

definition recv_loop ::
    "kernel \<Rightarrow> app \<Rightarrow> nat \<Rightarrow> nat \<Rightarrow> int \<Rightarrow> tcp_service \<Rightarrow>
     (recv_exit \<times> bool \<times> bool \<times> tcp_service) option" where
  "recv_loop k app p c socket_id s =
     while_option (\<lambda>st. fst st = Going) (recv_round k app p c socket_id) (Going, False, False, s)"

text \<open>What follows the loop.\<close>

definition recv_done ::
    "app \<Rightarrow> nat \<Rightarrow> int \<Rightarrow> bool \<Rightarrow> bool \<Rightarrow> tcp_service \<Rightarrow> tcp_service" where
  "recv_done app c socket_id data_arrive peer_close s =
     (let s1 = (if data_arrive
                then call_app app (\<lambda>f. RecvMessage f socket_id) (ts_recv_message_cb s) s else s)
      in if \<not> peer_close then s1
         else if data_arrive \<and> ts_connections s1 socket_id = None then s1
         else let s2 = set_conn c (\<lambda>n. n\<lparr>tc_status := PEER_CLOSED\<rparr>) s1
              in call_app app (\<lambda>f. PeerClose f socket_id) (ts_peer_close_cb s2) s2)"

definition onSocketRead :: "kernel \<Rightarrow> app \<Rightarrow> nat \<Rightarrow> tcp_service \<Rightarrow> tcp_service option" where
  "onSocketRead k app p s =
     (let (socket_id, s1) = getSocketId p s
      in case ts_connections s1 socket_id of
           None \<Rightarrow> Some s1
         | Some c \<Rightarrow>
             (case recv_loop k app p c socket_id s1 of
                None \<Rightarrow> None
              | Some (exit, data_arrive, peer_close, s2) \<Rightarrow>
                  Some (if exit = Returned then s2
                        else recv_done app c socket_id data_arrive peer_close s2)))"

definition onSocketWrite :: "kernel \<Rightarrow> app \<Rightarrow> nat \<Rightarrow> tcp_service \<Rightarrow> tcp_service" where
  "onSocketWrite k app p s =
     (let (socket_id, s1) = getSocketId p s
      in case ts_connections s1 socket_id of
           None \<Rightarrow> s1
         | Some c \<Rightarrow>
             let (write_size, s2) = call_io (sock_send k p (db_content (tc_write_buffer (conn s1 c)))) (touch_conn c s1)
             in if write_size < 0 then
                  if w_errno (ts_io s2) \<noteq> EAGAIN
                  then report_error app c socket_id (w_errno (ts_io s2)) s2 else s2
                else let s3 = set_conn c (\<lambda>n. n\<lparr>tc_write_buffer :=
                                db_read (tc_write_buffer n) (nat write_size)\<rparr>) s2
                     in if readableBytes (tc_write_buffer (conn s3 c)) = 0 then
                          let s4 = on_io (setWriteCallback k p None) s3;
                              send_complete_cb = tc_send_complete_cb (conn s4 c);
                              s5 = set_conn c (\<lambda>n. n\<lparr>tc_send_complete_cb := None\<rparr>) s4
                          in run_send_complete_if k app send_complete_cb p s5
                        else s3)"

definition onSocketError :: "kernel \<Rightarrow> app \<Rightarrow> nat \<Rightarrow> tcp_service \<Rightarrow> tcp_service" where
  "onSocketError k app p s =
     (let (socket_id, s1) = getSocketId p s
      in case ts_connections s1 socket_id of
           None \<Rightarrow> s1
         | Some c \<Rightarrow>
             let (socket_error, s2) = call_io (getSocketError k p) s1
             in report_error app c socket_id
                  (if socket_error = 0 then w_errno (ts_io s2) else socket_error) s2)"

text \<open>The dispatch of a device callback and of a timer callback.\<close>

definition run_handler :: "kernel \<Rightarrow> app \<Rightarrow> io_handler \<Rightarrow> nat \<Rightarrow> tcp_service \<Rightarrow> tcp_service option" where
  "run_handler k app h p s =
     (case h of
        OnListenSocketRead \<Rightarrow> onListenSocketRead k app p s
      | OnAsyncConnectSocketWrite \<Rightarrow> Some (onAsyncConnectSocketWrite k app p s)
      | OnSocketRead \<Rightarrow> onSocketRead k app p s
      | OnSocketWrite \<Rightarrow> Some (onSocketWrite k app p s)
      | OnSocketError \<Rightarrow> Some (onSocketError k app p s)
      | OnDevice f \<Rightarrow> Some (app (DeviceEvent f p) s))"

definition run_timer :: "kernel \<Rightarrow> app \<Rightarrow> tcp_timer \<Rightarrow> int \<Rightarrow> tcp_service \<Rightarrow> tcp_service" where
  "run_timer k app cb timer_id s =
     (case cb of
        OnAsyncConnectTimeout \<Rightarrow> onAsyncConnectTimeout k app timer_id s
      | OnSendMessageError \<Rightarrow> onSendMessageError app timer_id s
      | UserTimer f \<Rightarrow> app (TimerFired f timer_id) s)"

section \<open>The other calls of the interface\<close>

text \<open>The caller's \<open>UniquePtr\<close> deletes a socket the builder did not take over.\<close>

definition end_of_open :: "kernel \<Rightarrow> nat \<Rightarrow> (int \<times> bool) \<times> tcp_service \<Rightarrow> int \<times> tcp_service" where
  "end_of_open k p r =
     (case r of ((socket_id, released), s) \<Rightarrow>
        (socket_id, if released then s else on_io (delete_TcpSocket k p) s))"

definition tcp_listen ::
    "(bytes \<Rightarrow> bytes option) \<Rightarrow> kernel \<Rightarrow> socket_address \<Rightarrow> tcp_service \<Rightarrow> int \<times> tcp_service" where
  "tcp_listen pton6 k addr s =
     (let (p, s1) = call_io new_TcpSocket s;
          (ok, s2) = call_io (passiveOpenNonblock pton6 k p addr) s1
      in if \<not> ok then (-1, on_io (delete_TcpSocket k p) s2)
         else end_of_open k p (buildListenSocket k p s2))"

text \<open>The descriptor of the shared socket is all that is used of it.\<close>

definition shareListen :: "kernel \<Rightarrow> int \<Rightarrow> tcp_service \<Rightarrow> int \<times> tcp_service" where
  "shareListen k shared_fd s =
     (let (p, s1) = call_io new_TcpSocket s;
          (ok, s2) = call_io (dupDescriptor k p shared_fd) s1
      in if \<not> ok then (-1, on_io (delete_TcpSocket k p) s2)
         else end_of_open k p (buildListenSocket k p s2))"

definition tcp_connect ::
    "(bytes \<Rightarrow> bytes option) \<Rightarrow> kernel \<Rightarrow> socket_address \<Rightarrow> tcp_service \<Rightarrow> int \<times> tcp_service" where
  "tcp_connect pton6 k addr s =
     (let (p, s1) = call_io new_TcpSocket s;
          (ok, s2) = call_io (activeOpenNonblock pton6 k p addr) s1
      in if \<not> ok then (-1, on_io (delete_TcpSocket k p) s2)
         else end_of_open k p (buildConnectedSocket k p s2))"

text \<open>The second component of the result is what \<open>*complete\<close> is set to, if it is.\<close>

definition asyncConnect ::
    "(bytes \<Rightarrow> bytes option) \<Rightarrow> kernel \<Rightarrow> socket_address \<Rightarrow> int \<Rightarrow> tcp_service \<Rightarrow>
     (int \<times> bool option) \<times> tcp_service" where
  "asyncConnect pton6 k addr timeout_ms s =
     (let (p, s1) = call_io new_TcpSocket s;
          (opened, s2) = call_io (sock_open k p (fst (getProtocol pton6 addr))) s1;
          (ok, s3) = (if opened then call_io (all_calls [setReuseAddr k p, setTcpNoDelay k p, setNonblock k p]) s2
                      else (False, s2))
      in if \<not> ok then ((-1, None), on_io (delete_TcpSocket k p) s3)
         else let (connected, s4) = call_io (sock_connect pton6 k p addr) s3
              in if connected then
                   let (socket_id, s5) = end_of_open k p (buildConnectedSocket k p s4)
                   in ((socket_id, if socket_id = -1 then None else Some True), s5)
                 else if w_errno (ts_io s4) = EINPROGRESS then
                   let (socket_id, s5) = end_of_open k p (buildAsyncConnectSocket k p timeout_ms s4)
                   in ((socket_id, if socket_id = -1 then None else Some False), s5)
                 else ((-1, None), on_io (delete_TcpSocket k p) s4))"

definition isConnected :: "int \<Rightarrow> tcp_service \<Rightarrow> bool" where
  "isConnected socket_id s =
     (case ts_connections s socket_id of
        None \<Rightarrow> False
      | Some c \<Rightarrow> tc_status (conn s c) = CONNECTED)"

definition tcp_getLocalAddress ::
    "kernel \<Rightarrow> int \<Rightarrow> socket_address \<Rightarrow> tcp_service \<Rightarrow> (bool \<times> socket_address) \<times> tcp_service" where
  "tcp_getLocalAddress k socket_id addr s =
     (case ts_sockets s socket_id of
        None \<Rightarrow> ((False, addr), s)
      | Some p \<Rightarrow> call_io (sock_getLocalAddress k p addr) s)"

definition tcp_getPeerAddress ::
    "kernel \<Rightarrow> int \<Rightarrow> socket_address \<Rightarrow> tcp_service \<Rightarrow> (bool \<times> socket_address) \<times> tcp_service" where
  "tcp_getPeerAddress k socket_id addr s =
     (case ts_sockets s socket_id of
        None \<Rightarrow> ((False, addr), s)
      | Some p \<Rightarrow> call_io (sock_getPeerAddress k p addr) s)"

definition getContext :: "int \<Rightarrow> tcp_service \<Rightarrow> nat option" where
  "getContext socket_id s = ts_contexts s socket_id"

definition setContext :: "int \<Rightarrow> nat \<Rightarrow> tcp_service \<Rightarrow> bool \<times> tcp_service" where
  "setContext socket_id context s =
     (if ts_sockets s socket_id = None then (False, s)
      else let s1 = (case ts_contexts s socket_id of
                       None \<Rightarrow> s
                     | Some x \<Rightarrow> s\<lparr>ts_deleted_contexts := ts_deleted_contexts s @ [x],
                                    ts_contexts := (ts_contexts s)(socket_id := None)\<rparr>)
           in (True, s1\<lparr>ts_contexts := (ts_contexts s1)(socket_id \<mapsto> context)\<rparr>))"

definition setNewConnectionCallback :: "nat option \<Rightarrow> tcp_service \<Rightarrow> tcp_service" where
  "setNewConnectionCallback cb s = s\<lparr>ts_new_conn_cb := cb\<rparr>"

definition setRecvMessageCallback :: "nat option \<Rightarrow> tcp_service \<Rightarrow> tcp_service" where
  "setRecvMessageCallback cb s = s\<lparr>ts_recv_message_cb := cb\<rparr>"

definition setPeerCloseCallback :: "nat option \<Rightarrow> tcp_service \<Rightarrow> tcp_service" where
  "setPeerCloseCallback cb s = s\<lparr>ts_peer_close_cb := cb\<rparr>"

definition tcp_setErrorCallback :: "nat option \<Rightarrow> tcp_service \<Rightarrow> tcp_service" where
  "tcp_setErrorCallback cb s = s\<lparr>ts_error_cb := cb\<rparr>"

definition setRecvBufferInitSize :: "nat \<Rightarrow> tcp_service \<Rightarrow> tcp_service" where
  "setRecvBufferInitSize sz s = s\<lparr>ts_read_init_size := sz\<rparr>"

definition setRecvBufferExpandSize :: "nat \<Rightarrow> tcp_service \<Rightarrow> tcp_service" where
  "setRecvBufferExpandSize sz s = s\<lparr>ts_read_expand_size := sz\<rparr>"

definition setRecvBufferMaxSize :: "nat \<Rightarrow> tcp_service \<Rightarrow> tcp_service" where
  "setRecvBufferMaxSize sz s = s\<lparr>ts_read_max_size := sz\<rparr>"

definition setSendBufferInitSize :: "nat \<Rightarrow> tcp_service \<Rightarrow> tcp_service" where
  "setSendBufferInitSize sz s = s\<lparr>ts_write_init_size := sz\<rparr>"

definition setSendBufferExpandSize :: "nat \<Rightarrow> tcp_service \<Rightarrow> tcp_service" where
  "setSendBufferExpandSize sz s = s\<lparr>ts_write_expand_size := sz\<rparr>"

definition setSendBufferMaxSize :: "nat \<Rightarrow> tcp_service \<Rightarrow> tcp_service" where
  "setSendBufferMaxSize sz s = s\<lparr>ts_write_max_size := sz\<rparr>"

text \<open>The constructor, with the default sizes of the header, on a service \<open>w\<close>; the destructor
  deletes the connections, the sockets and the contexts, in the order of the hash maps.\<close>

definition TcpService :: "tcp_io \<Rightarrow> tcp_service" where
  "TcpService w =
     \<lparr>ts_io = w, ts_value = 0, ts_sockets = Map.empty, ts_connections = Map.empty,
      ts_contexts = Map.empty, ts_socket_to_timer = Map.empty, ts_timer_to_socket = Map.empty,
      ts_new_conn_cb = None, ts_recv_message_cb = None, ts_peer_close_cb = None, ts_error_cb = None,
      ts_read_init_size = 1024, ts_read_expand_size = 1024, ts_read_max_size = 0,
      ts_write_init_size = 1024, ts_write_expand_size = 1024, ts_write_max_size = 0,
      ts_conns = Map.empty, ts_next_conn = 0, ts_deleted_contexts = []\<rparr>"

definition destroy_TcpService ::
    "kernel \<Rightarrow> int list \<Rightarrow> int list \<Rightarrow> int list \<Rightarrow> tcp_service \<Rightarrow> tcp_service" where
  "destroy_TcpService k conn_ids socket_ids context_ids s =
     (let s1 = fold (\<lambda>i s. case ts_connections s i of None \<Rightarrow> s | Some c \<Rightarrow> delete_conn c s) conn_ids s;
          s2 = fold (\<lambda>i s. case ts_sockets s i of
                             None \<Rightarrow> s | Some p \<Rightarrow> on_io (delete_TcpSocket k p) s) socket_ids s1
      in fold (\<lambda>i s. case ts_contexts s i of
                       None \<Rightarrow> s
                     | Some x \<Rightarrow> s\<lparr>ts_deleted_contexts := ts_deleted_contexts s @ [x]\<rparr>)
           context_ids s2)"

section \<open>What the small steps leave alone\<close>

named_theorems tcp_sel

lemma set_conn_sel [tcp_sel]:
  "ts_connections (set_conn c f s) = ts_connections s" "ts_sockets (set_conn c f s) = ts_sockets s"
  "ts_write_max_size (set_conn c f s) = ts_write_max_size s"
  "ts_read_max_size (set_conn c f s) = ts_read_max_size s"
  "ts_error_cb (set_conn c f s) = ts_error_cb s"
  "ts_timer_to_socket (set_conn c f s) = ts_timer_to_socket s"
  "ts_socket_to_timer (set_conn c f s) = ts_socket_to_timer s"
  by (simp_all add: set_conn_def ts_fault_def split: option.split)

lemma touch_conn_sel [tcp_sel]:
  "ts_connections (touch_conn c s) = ts_connections s" "ts_conns (touch_conn c s) = ts_conns s"
  "ts_sockets (touch_conn c s) = ts_sockets s"
  by (simp_all add: touch_conn_def ts_fault_def)

lemma on_io_sel [tcp_sel]:
  "ts_connections (on_io f s) = ts_connections s" "ts_conns (on_io f s) = ts_conns s"
  "ts_sockets (on_io f s) = ts_sockets s" "ts_write_max_size (on_io f s) = ts_write_max_size s"
  "ts_read_max_size (on_io f s) = ts_read_max_size s"
  "conn (on_io f s) c = conn s c" "ts_io (on_io f s) = f (ts_io s)"
  by (simp_all add: on_io_def conn_def)

lemma call_io_sel [tcp_sel]:
  "ts_connections (snd (call_io f s)) = ts_connections s" "ts_conns (snd (call_io f s)) = ts_conns s"
  "ts_sockets (snd (call_io f s)) = ts_sockets s"
  "ts_write_max_size (snd (call_io f s)) = ts_write_max_size s"
  "ts_read_max_size (snd (call_io f s)) = ts_read_max_size s"
  "ts_recv_message_cb (snd (call_io f s)) = ts_recv_message_cb s"
  "conn (snd (call_io f s)) c = conn s c"
  "ts_io (snd (call_io f s)) = snd (f (ts_io s))" "fst (call_io f s) = fst (f (ts_io s))"
  by (simp_all add: call_io_def conn_def split: prod.split)

lemma addSocketTimer_sel [simp]:
  "ts_sockets (addSocketTimer k j ms cb s) = ts_sockets s"
  "ts_connections (addSocketTimer k j ms cb s) = ts_connections s"
  "ts_conns (addSocketTimer k j ms cb s) = ts_conns s"
  by (simp_all add: addSocketTimer_def call_io_def Let_def split: prod.splits)

lemma send_failed_sel [tcp_sel]: "ts_connections (send_failed k c e s) = ts_connections s"
  by (simp add: send_failed_def Let_def getSocketId_def tcp_sel)

lemma buffer_message_sel [tcp_sel]: "ts_connections (buffer_message k c buf n cb s) = ts_connections s"
  by (simp add: buffer_message_def Let_def tcp_sel ts_fault_def)

text \<open>Without a send-complete callback a send leaves the maps alone.\<close>

lemma send_remain_sel [tcp_sel]: "ts_connections (snd (send_remain k app c buf n None s)) = ts_connections s"
  by (simp add: send_remain_def run_send_complete_if_def tcp_sel)

lemma sendMessage_on_sel [tcp_sel]: "ts_connections (snd (sendMessage_on k app c buf None s)) = ts_connections s"
  by (simp add: sendMessage_on_def Let_def case_prod_beta tcp_sel)

lemma sendMessage_connections:
  "ts_connections (snd (tcp_sendMessage k app i buf None s)) = ts_connections s"
  by (simp add: tcp_sendMessage_def tcp_sel split: option.split)

text \<open>\<open>closeSocket\<close> leaves the timers of the socket, in the maps and in the heap.\<close>

lemma closeSocket_leaves_timers:
  "ts_socket_to_timer (closeSocket k i s) = ts_socket_to_timer s"
  "ts_timer_to_socket (closeSocket k i s) = ts_timer_to_socket s"
  by (simp_all add: closeSocket_def Let_def on_io_def delete_conn_def touch_conn_def ts_fault_def split: option.split)

text \<open>\<open>setContext\<close> with the context that is stored already deletes it and stores it.\<close>

lemma same_context_dangles:
  assumes "ts_sockets s i \<noteq> None" and "ts_contexts s i = Some x"
  shows "ts_contexts (snd (setContext i x s)) i = Some x" "x \<in> set (ts_deleted_contexts (snd (setContext i x s)))"
  using assms by (auto simp: setContext_def)

end
