(* ===== verification/IOService.thy ===== *)
theory IOService
  imports IODevice
begin

text \<open>
  The event loop of \<^verbatim>\<open>src/src/brickred/io_service.cc\<close>. The state is a pair: the service and its
  devices (\<open>io_world\<close>), and whatever the callbacks keep besides. \<open>handle\<close> runs a device callback
  (None when it does not return), \<open>run\<close> a timer callback. Calling a null callback, or the callback
  of a deleted device, sets \<open>w_fault\<close>.
\<close>

definition MAX_EPOLL_TIMEOUT_MSEC :: int where
  "MAX_EPOLL_TIMEOUT_MSEC = 35 * 60 * 1000"

type_synonym ('h, 'cb, 'x) io_state = "('h, 'cb) io_world \<times> 'x"
type_synonym ('h, 'cb, 'x) device_runner =
  "'h \<Rightarrow> nat \<Rightarrow> ('h, 'cb, 'x) io_state \<Rightarrow> ('h, 'cb, 'x) io_state option"
type_synonym ('h, 'cb, 'x) timer_runner =
  "'cb \<Rightarrow> int \<Rightarrow> ('h, 'cb, 'x) io_state \<Rightarrow> ('h, 'cb, 'x) io_state"

text \<open>\<open>(io_device->getReadCallback())(io_device)\<close> and the like.\<close>

definition call_device ::
    "('h, 'cb, 'x) device_runner \<Rightarrow> ('h io_device \<Rightarrow> 'h option) \<Rightarrow> nat \<Rightarrow>
     ('h, 'cb, 'x) io_state \<Rightarrow> ('h, 'cb, 'x) io_state option" where
  "call_device handle get_cb p s =
     (case w_devices (fst s) p of
        None \<Rightarrow> Some (fault (fst s), snd s)
      | Some d \<Rightarrow> (case get_cb d of
                     None \<Rightarrow> Some (fault (fst s), snd s)
                   | Some h \<Rightarrow> handle h p s))"

text \<open>One of the three tests of the loop body; the first component is False once the body has
  said \<open>continue\<close>.\<close>

definition on_flags ::
    "('h, 'cb, 'x) device_runner \<Rightarrow> u32 \<Rightarrow> ('h io_device \<Rightarrow> 'h option) \<Rightarrow> nat \<times> u32 \<Rightarrow>
     bool \<times> ('h, 'cb, 'x) io_state \<Rightarrow> (bool \<times> ('h, 'cb, 'x) io_state) option" where
  "on_flags handle flags get_cb ev gs =
     (if \<not> fst gs \<or> snd ev AND flags = 0 then Some gs
      else if \<not> checkIODeviceExist (fst ev) (fst (snd gs)) then Some (False, snd gs)
      else map_option (Pair True) (call_device handle get_cb (fst ev) (snd gs)))"

definition do_event ::
    "('h, 'cb, 'x) device_runner \<Rightarrow> nat \<times> u32 \<Rightarrow> ('h, 'cb, 'x) io_state \<Rightarrow>
     ('h, 'cb, 'x) io_state option" where
  "do_event handle ev s =
     map_option snd
       (Option.bind (Option.bind (on_flags handle EPOLLOUT dev_write_cb ev (True, s))
          (on_flags handle (EPOLLIN OR EPOLLPRI OR EPOLLRDHUP) dev_read_cb ev))
          (on_flags handle (EPOLLERR OR EPOLLHUP) dev_error_cb ev))"

fun do_events ::
    "('h, 'cb, 'x) device_runner \<Rightarrow> (nat \<times> u32) list \<Rightarrow> ('h, 'cb, 'x) io_state \<Rightarrow>
     ('h, 'cb, 'x) io_state option" where
  "do_events handle [] s = Some s"
| "do_events handle (ev # evs) s =
     (case do_event handle ev s of None \<Rightarrow> None | Some s1 \<Rightarrow> do_events handle evs s1)"

text \<open>\<open>timer_heap_.checkTimeout(now)\<close>: the heap is the one inside the service.\<close>

definition check_timers ::
    "('h, 'cb, 'x) timer_runner \<Rightarrow> timestamp \<Rightarrow> ('h, 'cb, 'x) io_state \<Rightarrow>
     ('h, 'cb, 'x) io_state option" where
  "check_timers run now s =
     map_option (\<lambda>(h, w, x). (w\<lparr>w_timers := h\<rparr>, x))
       (checkTimeout
          (\<lambda>cb timer_id (h, w, x). let (w1, x1) = run cb timer_id (w\<lparr>w_timers := h\<rparr>, x)
                                   in (w_timers w1, w1, x1))
          now (w_timers (fst s), s))"

text \<open>A pass of \<open>while (!quit_)\<close>: \<open>Again\<close> is the end of the body or \<open>continue\<close>, \<open>Leave\<close> is
  \<open>break\<close>.\<close>

datatype loop_exit = Again | Leave

definition loop_round ::
    "kernel \<Rightarrow> ('h, 'cb, 'x) device_runner \<Rightarrow> ('h, 'cb, 'x) timer_runner \<Rightarrow>
     ('h, 'cb, 'x) io_state \<Rightarrow> (loop_exit \<times> ('h, 'cb, 'x) io_state) option" where
  "loop_round k handle run s =
     (let (now, w1) = sys k K_gettime (fst s);
          timer_timeout = to_int32 (getNextTimeoutMillisecond (w_timers w1) (a_time now));
          (a, w2) = sys k (K_epoll_wait (w_epoll_fd w1) (w_event_slots w1)
                             (min timer_timeout MAX_EPOLL_TIMEOUT_MSEC)) w1;
          event_count = a_ret a
      in if event_count = -1 then Some (if w_errno w2 = EINTR then Again else Leave, (w2, snd s))
         else case do_events handle (take (nat event_count) (a_events a)) (w2, snd s) of
                None \<Rightarrow> None
              | Some s3 \<Rightarrow>
                  let (now, w4) = sys k K_gettime (fst s3)
                  in (case check_timers run (a_time now) (w4, snd s3) of
                        None \<Rightarrow> None
                      | Some s5 \<Rightarrow>
                          let w6 = (fst s5)\<lparr>w_removed := {}\<rparr>;
                              w7 = (if event_count \<ge> int (w_event_slots w6)
                                    then w6\<lparr>w_event_slots := w_event_slots w6 * 2\<rparr> else w6)
                          in Some (Again, (w7, snd s5))))"

partial_function (option) loop_while ::
    "kernel \<Rightarrow> ('h, 'cb, 'x) device_runner \<Rightarrow> ('h, 'cb, 'x) timer_runner \<Rightarrow>
     ('h, 'cb, 'x) io_state \<Rightarrow> ('h, 'cb, 'x) io_state option" where
  "loop_while k handle run s =
     (if w_quit (fst s) then Some s
      else case loop_round k handle run s of
             None \<Rightarrow> None
           | Some r \<Rightarrow> (case fst r of Leave \<Rightarrow> Some (snd r) | Again \<Rightarrow> loop_while k handle run (snd r)))"

definition io_loop ::
    "kernel \<Rightarrow> ('h, 'cb, 'x) device_runner \<Rightarrow> ('h, 'cb, 'x) timer_runner \<Rightarrow>
     ('h, 'cb, 'x) io_state \<Rightarrow> ('h, 'cb, 'x) io_state option" where
  "io_loop k handle run s = loop_while k handle run ((fst s)\<lparr>w_quit := False\<rparr>, snd s)"

definition destroy_IOService :: "kernel \<Rightarrow> ('h, 'cb) io_world \<Rightarrow> ('h, 'cb) io_world" where
  "destroy_IOService k w =
     (if w_epoll_fd w \<noteq> -1
      then (snd (sys k (K_close (w_epoll_fd w)) w))\<lparr>w_epoll_fd := -1\<rparr> else w)"

end
