(* ===== verification/DeviceSafety.thy ===== *)
theory DeviceSafety
  imports TcpSocket IOService
begin

text \<open>
  What the operations of devices and sockets do to the store of devices: \<open>dev_step p\<close> says that
  only the object at \<open>p\<close> changed, that its id and callbacks are as before, and that it is recorded
  as removed if it was detached. \<open>keeps\<close> is the weaker relation that holds across callbacks: an
  attached device stays attached, with its callbacks, or is recorded as removed.
\<close>

text \<open>Taking a registered descriptor out of the epoll set succeeds.\<close>

definition detach_ok :: "kernel \<Rightarrow> bool" where
  "detach_ok k \<longleftrightarrow> (\<forall>h ep fd. a_ret (k h (K_epoll_del ep fd)) = 0)"

definition live :: "('h, 'cb) io_world \<Rightarrow> nat \<Rightarrow> bool" where
  "live w p \<longleftrightarrow> (\<exists>d. w_devices w p = Some d)"

definition dev_kept :: "bool \<Rightarrow> 'h io_device \<Rightarrow> 'h io_device \<Rightarrow> bool" where
  "dev_kept removed d d' \<longleftrightarrow>
     dev_id d' = dev_id d \<and> dev_read_cb d' = dev_read_cb d \<and>
     dev_write_cb d' = dev_write_cb d \<and> dev_error_cb d' = dev_error_cb d \<and>
     (dev_attached d' \<longrightarrow> dev_attached d) \<and> (dev_attached d \<longrightarrow> dev_attached d' \<or> removed)"

definition dev_step :: "nat \<Rightarrow> ('h, 'cb) io_world \<Rightarrow> ('h, 'cb) io_world \<Rightarrow> bool" where
  "dev_step p w w' \<longleftrightarrow>
     (\<forall>q. q \<noteq> p \<longrightarrow> w_devices w' q = w_devices w q) \<and>
     (\<exists>d d'. w_devices w p = Some d \<and> w_devices w' p = Some d' \<and>
        dev_kept (p \<in> w_removed w') d d') \<and>
     w_next w' = w_next w \<and> w_removed w \<subseteq> w_removed w' \<and> w_fault w' = w_fault w \<and>
     w_timers w' = w_timers w"

lemma dev_step_refl: "live w p \<Longrightarrow> dev_step p w w"
  by (auto simp: dev_step_def live_def dev_kept_def)

lemma dev_step_trans:
  assumes a: "dev_step p w1 w2" and b: "dev_step p w2 w3"
  shows "dev_step p w1 w3"
proof -
  obtain d1 d2 d3 where d: "w_devices w1 p = Some d1" "w_devices w2 p = Some d2"
      "w_devices w3 p = Some d3" and kept: "dev_kept (p \<in> w_removed w2) d1 d2"
      "dev_kept (p \<in> w_removed w3) d2 d3" "w_removed w2 \<subseteq> w_removed w3"
    using a b by (auto simp: dev_step_def)
  have "dev_kept (p \<in> w_removed w3) d1 d3" using kept by (auto simp: dev_kept_def)
  then show ?thesis using a b d by (auto simp: dev_step_def)
qed

lemma dev_step_live: "dev_step p w w' \<Longrightarrow> live w p \<and> live w' p"
  by (auto simp: dev_step_def live_def)

lemma live_lookup: "live w p \<Longrightarrow> w_devices w p = Some (dev w p)"
  by (auto simp: live_def dev_def)

lemma touch_live [simp]: "live w p \<Longrightarrow> touch p w = w"
  by (auto simp: touch_def live_def)

lemma sys_fields [simp]:
  "w_devices (snd (sys k c w)) = w_devices w" "w_next (snd (sys k c w)) = w_next w"
  "w_removed (snd (sys k c w)) = w_removed w" "w_fault (snd (sys k c w)) = w_fault w"
  "w_timers (snd (sys k c w)) = w_timers w" "w_quit (snd (sys k c w)) = w_quit w"
  "w_event_slots (snd (sys k c w)) = w_event_slots w" "w_epoll_fd (snd (sys k c w)) = w_epoll_fd w"
  by (simp_all add: sys_def Let_def)

text \<open>Any step that leaves the store alone.\<close>

lemma dev_step_same:
  assumes "live w p" and "w_devices w' = w_devices w" and "w_next w' = w_next w"
    and "w_removed w' = w_removed w" and "w_fault w' = w_fault w" and "w_timers w' = w_timers w"
  shows "dev_step p w w'"
  using assms by (auto simp: dev_step_def live_def dev_kept_def)

lemma dev_step_sys: "live w p \<Longrightarrow> dev_step p w (snd (sys k c w))"
  by (rule dev_step_same) simp_all

lemma dev_step_descriptor: "live w p \<Longrightarrow> dev_step p w (setDescriptor p fd w)"
  by (auto simp: dev_step_def setDescriptor_def set_device_def live_def dev_kept_def)

lemma dev_step_detach:
  assumes "live w p" and "detach_ok k"
  shows "dev_step p w (detachIOService k p w)"
proof (cases "dev_attached (dev w p)")
  case True
  have "w_devices (snd (removeIODevice k p w)) = w_devices w"
    "w_removed (snd (removeIODevice k p w)) = insert p (w_removed w)"
    "w_next (snd (removeIODevice k p w)) = w_next w" "w_fault (snd (removeIODevice k p w)) = w_fault w"
    "w_timers (snd (removeIODevice k p w)) = w_timers w"
    using assms by (simp_all add: removeIODevice_def detach_ok_def sys_def Let_def)
  then show ?thesis using assms(1) live_lookup [OF assms(1)]
    by (simp add: detachIOService_def True set_device_def dev_step_def dev_kept_def subset_insertI)
next
  case False
  then show ?thesis using assms by (simp add: detachIOService_def dev_step_refl)
qed

lemma detached:
  assumes "live w p"
  shows "\<not> dev_attached (dev (detachIOService k p w) p)"
proof (cases "dev_attached (dev w p)")
  case True
  have "w_devices (snd (removeIODevice k p w)) = w_devices w"
    using assms by (simp add: removeIODevice_def sys_def Let_def)
  moreover obtain d where "w_devices w p = Some d" using assms by (auto simp: live_def)
  ultimately show ?thesis using assms
    by (simp add: detachIOService_def True set_device_def dev_def)
qed (use assms in \<open>simp add: detachIOService_def\<close>)

text \<open>Steps compose along the calls of an operation.\<close>

lemma dev_step_then:
  assumes "dev_step p w w1" and "live w1 p \<Longrightarrow> dev_step p w1 w2"
  shows "dev_step p w w2"
  using assms dev_step_live dev_step_trans by metis

named_theorems dev_steps

lemma dev_step_close [dev_steps]:
  assumes "live w p" and "detach_ok k"
  shows "dev_step p w (sock_close k p w)"
proof -
  have 1: "dev_step p w (detachIOService k p w)" by (rule dev_step_detach [OF assms])
  moreover have "dev_step p w1 (setDescriptor p (-1) (snd (sys k c w1)))" if "live w1 p" for w1 c
    by (rule dev_step_then [OF dev_step_sys [OF that] dev_step_descriptor])
  ultimately show ?thesis
    by (auto simp: sock_close_def Let_def intro: dev_step_then)
qed

lemma dev_step_calls [dev_steps]:
  assumes "live w p"
  shows "dev_step p w (snd (setNonblock k p w))" and "dev_step p w (snd (setCloseOnExec k p w))"
    and "dev_step p w (snd (setReuseAddr k p w))" and "dev_step p w (snd (setTcpNoDelay k p w))"
    and "dev_step p w (snd (sock_listen k p n w))" and "dev_step p w (snd (getSocketError k p w))"
    and "dev_step p w (snd (sock_readableBytes k p w))"
    and "dev_step p w (snd (sock_recv k p len w))" and "dev_step p w (snd (sock_send k p xs w))"
    and "dev_step p w (snd (sock_getLocalAddress k p a w))"
    and "dev_step p w (snd (sock_getPeerAddress k p a w))"
    and "dev_step p w (snd (sock_connect pton6 k p a w))"
    and "dev_step p w (snd (sock_bind pton6 k p a w))"
  using assms
  by (auto intro!: dev_step_same
        simp: setNonblock_def setCloseOnExec_def setReuseAddr_def setTcpNoDelay_def
        sock_listen_def getSocketError_def sock_readableBytes_def sock_recv_def sock_send_def
        sock_getLocalAddress_def sock_getPeerAddress_def sock_connect_def sock_bind_def
        sys_def Let_def split: option.splits)

lemma dev_step_all_calls:
  assumes "live w p" and "\<And>f w. f \<in> set fs \<Longrightarrow> live w p \<Longrightarrow> dev_step p w (snd (f w))"
  shows "dev_step p w (snd (all_calls fs w))"
  using assms
proof (induction fs arbitrary: w)
  case Nil
  then show ?case by (auto intro: dev_step_refl)
next
  case (Cons f fs)
  obtain ok w1 where f: "f w = (ok, w1)" by fastforce
  then have 1: "dev_step p w w1" using Cons.prems by (metis list.set_intros(1) snd_conv)
  moreover have "dev_step p w1 (snd (all_calls fs w1))"
    using Cons.IH Cons.prems(2) dev_step_live [OF 1] by auto
  ultimately show ?case using f dev_step_trans by auto
qed

text \<open>The shape of the opening functions: a call, then what depends on its result.\<close>

lemma dev_step_let:
  assumes "dev_step p w (snd (f w))" and "\<And>r w1. live w1 p \<Longrightarrow> dev_step p w1 (snd (g r w1))"
  shows "dev_step p w (snd (let (r, w1) = f w in g r w1))"
  using assms by (auto split: prod.splits intro: dev_step_then)

lemma dev_step_cloexec:
  assumes "live w p" and "detach_ok k"
  shows "dev_step p w (snd (let (ok, w4) = setCloseOnExec k p w
      in if \<not> ok then (False, sock_close k p w4) else (True, w4)))"
  by (rule dev_step_let) (use assms in \<open>auto intro: dev_steps dev_step_refl\<close>)

text \<open>A new descriptor, made close-on-exec: what \<open>open\<close> and \<open>accept\<close> end with.\<close>

lemma dev_step_take_descriptor:
  assumes "live w p" and "detach_ok k"
  shows "dev_step p w (snd (let (ok, w4) = setCloseOnExec k p (setDescriptor p fd w)
      in if \<not> ok then (False, sock_close k p w4) else (True, w4)))"
  by (rule dev_step_then [OF dev_step_descriptor dev_step_cloexec]) (use assms in simp_all)

lemma dev_step_open [dev_steps]:
  assumes "live w p" and ok: "detach_ok k"
  shows "dev_step p w (snd (sock_open k p protocol w))"
proof -
  define w1 where "w1 = (if dev_fd (dev w p) \<noteq> -1 then sock_close k p w else touch p w)"
  have w1: "dev_step p w w1" unfolding w1_def using assms by (auto intro: dev_steps dev_step_refl)
  have errno: "dev_step p w1 (w1\<lparr>w_errno := EAFNOSUPPORT\<rparr>)" if "live w1 p"
    by (rule dev_step_same [OF that]) simp_all
  have "dev_step p w1 (snd (let (a, w2) = sys k (K_socket protocol) w1
      in if a_ret a = -1 then (False, setDescriptor p (a_ret a) w2)
         else let (ok, w4) = setCloseOnExec k p (setDescriptor p (a_ret a) w2)
              in if \<not> ok then (False, sock_close k p w4) else (True, w4)))" if "live w1 p"
    by (rule dev_step_let)
       (use that ok dev_step_take_descriptor in \<open>auto intro: dev_step_sys dev_step_descriptor\<close>)
  then have "dev_step p w1 (snd (sock_open k p protocol w))" if "live w1 p"
    using that errno [OF that]
    by (cases "protocol = IP_V4 \<or> protocol = IP_V6")
       (simp_all only: sock_open_def w1_def [symmetric] Let_def simp_thms if_True if_False snd_conv)
  then show ?thesis by (rule dev_step_then [OF w1])
qed

lemma dev_step_accept [dev_steps]:
  assumes "live w p" and "live w q" and ok: "detach_ok k"
  shows "dev_step q w (snd (sock_accept k p q w))" and "dev_step q w (snd (acceptNonblock k p q w))"
proof -
  have "dev_step q w (snd (let (a, w1) = sys k (K_accept (dev_fd (dev w p))) w
      in if a_ret a = -1 then (False, w1)
         else let (ok, w3) = setCloseOnExec k q (setDescriptor q (a_ret a) w1)
              in if \<not> ok then (False, sock_close k q w3) else (True, w3)))"
    by (rule dev_step_let)
       (use assms(2) ok dev_step_take_descriptor in \<open>auto intro: dev_step_sys dev_step_refl\<close>)
  then show 1: "dev_step q w (snd (sock_accept k p q w))"
    using assms(1) by (simp only: sock_accept_def Let_def touch_live)
  have "dev_step q w1 (snd (let (ok, w2) = all_calls [setTcpNoDelay k q, setNonblock k q] w1
      in if \<not> ok then (False, sock_close k q w2) else (True, w2)))" if "live w1 q" for w1
    by (rule dev_step_let)
       (use that ok in \<open>auto simp del: all_calls.simps intro: dev_steps dev_step_refl
          intro!: dev_step_all_calls\<close>)
  then show "dev_step q w (snd (acceptNonblock k p q w))"
    unfolding acceptNonblock_def using 1
    by (intro dev_step_let) (auto simp del: all_calls.simps intro: dev_step_refl)
qed

lemma dev_step_calls_or_close:
  assumes "live w p" and ok: "detach_ok k"
    and "\<And>f w. f \<in> set fs \<Longrightarrow> live w p \<Longrightarrow> dev_step p w (snd (f w))"
  shows "dev_step p w (snd (let (ok, w2) = all_calls fs w
      in if \<not> ok then (False, sock_close k p w2) else (True, w2)))"
  by (rule dev_step_let) (use assms in \<open>auto intro: dev_steps dev_step_refl intro!: dev_step_all_calls\<close>)

lemma dev_step_opens [dev_steps]:
  assumes "live w p" and ok: "detach_ok k"
  shows "dev_step p w (snd (activeOpen pton6 k p a w))" and "dev_step p w (snd (passiveOpen pton6 k p a w))"
    and "dev_step p w (snd (activeOpenNonblock pton6 k p a w))"
    and "dev_step p w (snd (passiveOpenNonblock pton6 k p a w))"
proof -
  have nonblock: "dev_step p w1 (snd (let (ok, w2) = setNonblock k p w1
      in if \<not> ok then (False, sock_close k p w2) else (True, w2)))" if "live w1 p" for w1
    by (rule dev_step_let) (use that ok in \<open>auto intro: dev_steps dev_step_refl\<close>)
  have act: "dev_step p w (snd (activeOpen pton6 k p a w))" if "live w p" for w
    unfolding activeOpen_def
    by (rule dev_step_let)
       (use that ok in \<open>auto simp del: all_calls.simps intro: dev_steps dev_step_refl
          intro!: dev_step_calls_or_close [unfolded Let_def]\<close>)
  have pass: "dev_step p w (snd (passiveOpen pton6 k p a w))" if "live w p" for w
    unfolding passiveOpen_def
    by (rule dev_step_let)
       (use that ok in \<open>auto simp del: all_calls.simps intro: dev_steps dev_step_refl
          intro!: dev_step_calls_or_close [unfolded Let_def]\<close>)
  show "dev_step p w (snd (activeOpen pton6 k p a w))" "dev_step p w (snd (passiveOpen pton6 k p a w))"
    using act pass assms(1) by auto
  show "dev_step p w (snd (activeOpenNonblock pton6 k p a w))"
    unfolding activeOpenNonblock_def
    by (rule dev_step_let) (use act assms(1) nonblock in \<open>auto intro: dev_step_refl\<close>)
  show "dev_step p w (snd (passiveOpenNonblock pton6 k p a w))"
    unfolding passiveOpenNonblock_def
    by (rule dev_step_let) (use pass assms(1) nonblock in \<open>auto intro: dev_step_refl\<close>)
qed

section \<open>The store as a whole\<close>

text \<open>No fault so far, addresses in range, and every attached device can report an error.\<close>

definition world_ok :: "('h, 'cb) io_world \<Rightarrow> bool" where
  "world_ok w \<longleftrightarrow> \<not> w_fault w \<and>
     (\<forall>p d. w_devices w p = Some d \<longrightarrow>
        p < w_next w \<and> (dev_attached d \<longrightarrow> dev_error_cb d \<noteq> None))"

definition cbs_left :: "bool \<Rightarrow> 'h io_device \<Rightarrow> 'h io_device \<Rightarrow> bool" where
  "cbs_left cleared d d' \<longleftrightarrow>
     (dev_read_cb d \<noteq> None \<longrightarrow> dev_read_cb d' \<noteq> None) \<and>
     (dev_error_cb d \<noteq> None \<longrightarrow> dev_error_cb d' \<noteq> None) \<and>
     (cleared \<or> (dev_write_cb d \<noteq> None \<longrightarrow> dev_write_cb d' \<noteq> None))"

text \<open>The devices in \<open>X\<close> may lose their write callback.\<close>

definition keeps :: "nat set \<Rightarrow> ('h, 'cb) io_world \<Rightarrow> ('h, 'cb) io_world \<Rightarrow> bool" where
  "keeps X w w' \<longleftrightarrow> w_removed w \<subseteq> w_removed w' \<and> w_next w \<le> w_next w' \<and>
     (\<forall>p d. w_devices w p = Some d \<longrightarrow> dev_attached d \<longrightarrow> p \<in> w_removed w' \<or>
        (\<exists>d'. w_devices w' p = Some d' \<and> dev_attached d' \<and> cbs_left (p \<in> X) d d'))"

lemma keeps_refl [simp]: "keeps X w w"
  by (auto simp: keeps_def cbs_left_def)

lemma keepsD:
  "keeps X w w' \<Longrightarrow> w_devices w p = Some d \<Longrightarrow> dev_attached d \<Longrightarrow> p \<notin> w_removed w' \<Longrightarrow>
     \<exists>d'. w_devices w' p = Some d' \<and> dev_attached d' \<and> cbs_left (p \<in> X) d d'"
  unfolding keeps_def by blast

lemma keeps_trans:
  assumes a: "keeps X w1 w2" and b: "keeps X w2 w3"
  shows "keeps X w1 w3"
  unfolding keeps_def
proof (intro conjI allI impI)
  show "w_removed w1 \<subseteq> w_removed w3" "w_next w1 \<le> w_next w3"
    using a b by (auto simp: keeps_def)
  fix p d
  assume d: "w_devices w1 p = Some d" "dev_attached d"
  show "p \<in> w_removed w3 \<or>
      (\<exists>d'. w_devices w3 p = Some d' \<and> dev_attached d' \<and> cbs_left (p \<in> X) d d')"
  proof (cases "p \<in> w_removed w2")
    case True
    then show ?thesis using b by (auto simp: keeps_def)
  next
    case False
    then obtain d2 where d2: "w_devices w2 p = Some d2" "dev_attached d2" "cbs_left (p \<in> X) d d2"
      using keepsD [OF a d] by blast
    show ?thesis
    proof (cases "p \<in> w_removed w3")
      case False
      then obtain d3 where "w_devices w3 p = Some d3" "dev_attached d3" "cbs_left (p \<in> X) d2 d3"
        using keepsD [OF b d2(1,2)] by blast
      then show ?thesis using d2(3) by (auto simp: cbs_left_def)
    qed simp
  qed
qed

lemma cbs_left_mono: "cbs_left (p \<in> X) d d' \<Longrightarrow> X \<subseteq> Y \<Longrightarrow> cbs_left (p \<in> Y) d d'"
  by (auto simp: cbs_left_def)

lemma keeps_mono: "keeps X w w' \<Longrightarrow> X \<subseteq> Y \<Longrightarrow> keeps Y w w'"
  by (auto simp: keeps_def dest!: spec intro: cbs_left_mono)

lemma dev_step_keeps:
  assumes "dev_step p w w'"
  shows "keeps X w w'"
proof -
  obtain d d' where d: "w_devices w p = Some d" "w_devices w' p = Some d'"
      "dev_kept (p \<in> w_removed w') d d'" and other: "\<And>q. q \<noteq> p \<Longrightarrow> w_devices w' q = w_devices w q"
      and rest: "w_next w' = w_next w" "w_removed w \<subseteq> w_removed w'"
    using assms by (auto simp: dev_step_def)
  have "q \<in> w_removed w' \<or> (\<exists>e'. w_devices w' q = Some e' \<and> dev_attached e' \<and> cbs_left (q \<in> X) e e')"
    if "w_devices w q = Some e" "dev_attached e" for q e
    using that d other [of q] by (cases "q = p") (auto simp: dev_kept_def cbs_left_def)
  then show ?thesis using rest by (auto simp: keeps_def)
qed

lemma dev_step_ok:
  assumes "dev_step p w w'" and ok: "world_ok w"
  shows "world_ok w'"
proof -
  obtain d d' where d: "w_devices w p = Some d" "w_devices w' p = Some d'"
      "dev_kept (p \<in> w_removed w') d d'" and other: "\<And>q. q \<noteq> p \<Longrightarrow> w_devices w' q = w_devices w q"
      and rest: "w_next w' = w_next w" "w_fault w' = w_fault w"
    using assms(1) by (auto simp: dev_step_def)
  have "q < w_next w' \<and> (dev_attached e \<longrightarrow> dev_error_cb e \<noteq> None)" if "w_devices w' q = Some e" for q e
    using that d other [of q] ok rest by (cases "q = p") (auto simp: dev_kept_def world_ok_def)
  then show ?thesis using rest ok by (auto simp: world_ok_def)
qed

text \<open>Ids survive everything but \<open>setId\<close> and deletion.\<close>

definition has_id :: "('h, 'cb) io_world \<Rightarrow> nat \<Rightarrow> int \<Rightarrow> bool" where
  "has_id w p i \<longleftrightarrow> (\<exists>d. w_devices w p = Some d \<and> dev_id d = i)"

lemma dev_step_id: "dev_step p w w' \<Longrightarrow> has_id w' q i = has_id w q i"
  by (cases "q = p") (auto simp: dev_step_def dev_kept_def has_id_def)

section \<open>Creating, changing and deleting devices\<close>

lemma new_socket:
  assumes ok: "world_ok w" and new: "new_TcpSocket w = (p, w')"
  shows "world_ok w'" and "keeps X w w'" and "live w' p" and "p = w_next w"
    and "has_id w' q i \<longleftrightarrow> (if q = p then i = 0 else has_id w q i)"
    and "w_devices w' p = Some IODevice"
proof -
  have fresh: "w_devices w (w_next w) = None"
    using ok by (cases "w_devices w (w_next w)") (auto simp: world_ok_def)
  show "world_ok w'" "live w' p" "p = w_next w" "w_devices w' p = Some IODevice"
    "has_id w' q i \<longleftrightarrow> (if q = p then i = 0 else has_id w q i)"
    using ok new
    by (auto simp: new_TcpSocket_def new_device_def world_ok_def live_def has_id_def IODevice_def
          less_Suc_eq split: if_splits)
  have "w_devices w' q = Some d" if "w_devices w q = Some d" for q d
    using new fresh that by (cases "q = w_next w") (auto simp: new_TcpSocket_def new_device_def)
  moreover have "w_removed w' = w_removed w" "w_next w \<le> w_next w'"
    using new by (auto simp: new_TcpSocket_def new_device_def)
  ultimately show "keeps X w w'" by (auto simp: keeps_def cbs_left_def)
qed

lemma updateIODevice_devices [simp]:
  "live w p \<Longrightarrow> w_devices (snd (updateIODevice k p w)) = w_devices w"
  "live w p \<Longrightarrow> w_fault (snd (updateIODevice k p w)) = w_fault w"
  "live w p \<Longrightarrow> w_next (snd (updateIODevice k p w)) = w_next w"
  "live w p \<Longrightarrow> w_removed (snd (updateIODevice k p w)) = w_removed w"
  "live w p \<Longrightarrow> w_timers (snd (updateIODevice k p w)) = w_timers w"
  by (simp_all add: updateIODevice_def sys_def Let_def)

lemma addIODevice_devices [simp]:
  "live w p \<Longrightarrow> w_devices (snd (addIODevice k p w)) = w_devices w"
  "live w p \<Longrightarrow> w_fault (snd (addIODevice k p w)) = w_fault w"
  "live w p \<Longrightarrow> w_next (snd (addIODevice k p w)) = w_next w"
  "live w p \<Longrightarrow> w_removed (snd (addIODevice k p w)) = w_removed w"
  "live w p \<Longrightarrow> w_timers (snd (addIODevice k p w)) = w_timers w"
  by (simp_all add: addIODevice_def sys_def Let_def)

text \<open>What a change \<open>f\<close> of one object does to the store.\<close>

definition dev_update ::
    "nat \<Rightarrow> ('h io_device \<Rightarrow> 'h io_device) \<Rightarrow> ('h, 'cb) io_world \<Rightarrow> ('h, 'cb) io_world \<Rightarrow> bool" where
  "dev_update p f w w' \<longleftrightarrow> w_devices w' = (w_devices w)(p := map_option f (w_devices w p)) \<and>
     w_next w' = w_next w \<and> w_removed w' = w_removed w \<and> w_fault w' = w_fault w \<and>
     w_timers w' = w_timers w"

lemma live_set_device [simp]: "live w p \<Longrightarrow> live (set_device p f w) q = live w q"
  by (cases "q = p") (auto simp: live_def set_device_def)

lemma dev_update_set: "live w p \<Longrightarrow> dev_update p f w (set_device p f w)"
  by (auto simp: dev_update_def set_device_def live_def)

lemma dev_update_callbacks:
  assumes "live w p"
  shows "dev_update p (\<lambda>d. d\<lparr>dev_id := i\<rparr>) w (setId p i w)"
    and "dev_update p (\<lambda>d. d\<lparr>dev_read_cb := cb\<rparr>) w (setReadCallback k p cb w)"
    and "dev_update p (\<lambda>d. d\<lparr>dev_write_cb := cb\<rparr>) w (setWriteCallback k p cb w)"
    and "dev_update p (\<lambda>d. d\<lparr>dev_error_cb := cb\<rparr>) w (setErrorCallback p cb w)"
  using assms dev_update_set [OF assms]
  by (simp_all add: setId_def setReadCallback_def setWriteCallback_def setErrorCallback_def
        dev_update_def Let_def)

lemma dev_update_live: "dev_update p f w w' \<Longrightarrow> live w' q = live w q"
  by (auto simp: dev_update_def live_def split: if_splits)

lemma dev_update_ok:
  assumes "dev_update p f w w'" and "world_ok w"
    and "\<And>d. dev_attached (f d) \<Longrightarrow> dev_attached d" and "\<And>d. dev_error_cb d \<noteq> None \<Longrightarrow> dev_error_cb (f d) \<noteq> None"
  shows "world_ok w'"
  using assms by (fastforce simp: dev_update_def world_ok_def split: if_splits)

lemma dev_update_keeps:
  assumes "dev_update p f w w'" and "\<And>d. dev_attached (f d) = dev_attached d"
    and "\<And>d. cbs_left (p \<in> X) d (f d)"
  shows "keeps X w w'"
  using assms by (auto simp: dev_update_def keeps_def cbs_left_def)

lemma dev_update_id:
  assumes "dev_update p f w w'" and "\<And>d. dev_id (f d) = dev_id d"
  shows "has_id w' q i = has_id w q i"
  using assms by (auto simp: dev_update_def has_id_def)

lemma attach:
  assumes "world_ok w" and live: "live w p" and err: "dev_error_cb (dev w p) \<noteq> None"
    and k: "detach_ok k" and w': "w' = snd (attachIOService k p w)"
  shows "world_ok w'" and "keeps X w w'" and "has_id w' q i = has_id w q i" and "live w' p"
proof -
  define w2 where "w2 = (if dev_attached (dev w p) then detachIOService k p w else w)"
  have step: "dev_step p w w2"
    unfolding w2_def using dev_step_detach [OF live k] dev_step_refl [OF live] by simp
  then have live2: "live w2 p" and ok2: "world_ok w2" and keeps2: "keeps X w w2"
    using dev_step_live dev_step_ok dev_step_keeps assms(1) by blast+
  have err2: "dev_error_cb (dev w2 p) \<noteq> None"
    using step err live_lookup [OF live] live_lookup [OF live2] by (auto simp: dev_step_def dev_kept_def)
  obtain ok w3 where add: "addIODevice k p w2 = (ok, w3)" by fastforce
  have w3: "w_devices w3 = w_devices w2" "w_fault w3 = w_fault w2" "w_next w3 = w_next w2"
      "w_removed w3 = w_removed w2" "w_timers w3 = w_timers w2"
    using addIODevice_devices [OF live2, of k] by (simp_all add: add)
  have w'_eq: "w' = (if ok then set_device p (\<lambda>d. d\<lparr>dev_attached := True\<rparr>) w3 else w3)"
    using w' live add by (simp add: attachIOService_def w2_def Let_def)
  show ok': "world_ok w'" and "live w' p"
    using ok2 err2 live_lookup [OF live2]
    by (auto simp: w'_eq world_ok_def w3 set_device_def live_def)
  have "keeps X w2 w'"
    using live_lookup [OF live2] by (auto simp: w'_eq keeps_def w3 set_device_def cbs_left_def)
  then show "keeps X w w'" using keeps_trans [OF keeps2] by blast
  show "has_id w' q i = has_id w q i"
    using dev_step_id [OF step, of q i] live_lookup [OF live2]
    by (cases "q = p") (auto simp: w'_eq has_id_def w3 set_device_def)
qed

lemma delete_socket:
  assumes "world_ok w" and live: "live w p" and k: "detach_ok k" and w': "w' = delete_TcpSocket k p w"
  shows "world_ok w'" and "keeps X w w'" and "has_id w' q i \<longleftrightarrow> q \<noteq> p \<and> has_id w q i"
    and "w_timers w' = w_timers w"
proof -
  let ?w1 = "sock_close k p w"
  let ?w2 = "detachIOService k p ?w1"
  have close: "dev_step p w ?w1" by (rule dev_step_close [OF live k])
  then have step: "dev_step p w ?w2" using dev_step_detach k by (blast intro: dev_step_then)
  have ok2: "world_ok ?w2" using dev_step_ok [OF step] assms(1) by blast
  then show "world_ok w'" by (auto simp: w' delete_TcpSocket_def Let_def world_ok_def split: if_splits)
  show "has_id w' q i \<longleftrightarrow> q \<noteq> p \<and> has_id w q i"
    using dev_step_id [OF step, of q i] by (auto simp: w' delete_TcpSocket_def Let_def has_id_def)
  show "w_timers w' = w_timers w" using step by (simp add: w' delete_TcpSocket_def Let_def dev_step_def)
  have gone: "p \<in> w_removed ?w2" if "w_devices w p = Some d" "dev_attached d" for d
    using step that detached [of ?w1 p k] dev_step_live [OF close] live_lookup [of ?w2 p]
      dev_step_live [OF step]
    by (auto simp: dev_step_def dev_kept_def)
  show "keeps X w w'"
    using step gone by (auto simp: w' delete_TcpSocket_def Let_def keeps_def dev_step_def cbs_left_def)
qed

end
