(* ===== verification/TcpSafety.thy ===== *)
theory TcpSafety
  imports TcpService DeviceSafety
begin

text \<open>
  The invariant of \<open>TcpService\<close>, kept by every operation and every event whatever the callbacks
  do through the interface: the maps hold only live objects, a socket is stored under its own id,
  a connection belongs to the socket stored under the same id, no connection object is left over,
  and nothing deleted has been used.
\<close>

section \<open>The invariant\<close>

definition conn_ok :: "tcp_connection \<Rightarrow> bool" where
  "conn_ok n \<longleftrightarrow> 0 < db_expand_size (tc_read_buffer n) \<and> 0 < db_expand_size (tc_write_buffer n)"

definition tcp_inv :: "tcp_service \<Rightarrow> bool" where
  "tcp_inv s \<longleftrightarrow> world_ok (ts_io s) \<and>
     (\<forall>i p. ts_sockets s i = Some p \<longrightarrow> has_id (ts_io s) p i) \<and>
     (\<forall>i c. ts_connections s i = Some c \<longrightarrow>
        (\<exists>n. ts_conns s c = Some n \<and> ts_sockets s i = Some (tc_socket n))) \<and>
     (\<forall>c n. ts_conns s c = Some n \<longrightarrow>
        c < ts_next_conn s \<and> conn_ok n \<and> (\<exists>i. ts_connections s i = Some c)) \<and>
     0 < ts_read_expand_size s \<and> 0 < ts_write_expand_size s"

lemma tcp_invI:
  assumes "world_ok (ts_io s)" and "\<And>i p. ts_sockets s i = Some p \<Longrightarrow> has_id (ts_io s) p i"
    and "\<And>i c. ts_connections s i = Some c \<Longrightarrow>
        \<exists>n. ts_conns s c = Some n \<and> ts_sockets s i = Some (tc_socket n)"
    and "\<And>c n. ts_conns s c = Some n \<Longrightarrow> c < ts_next_conn s \<and> conn_ok n"
    and "\<And>c n. ts_conns s c = Some n \<Longrightarrow> \<exists>i. ts_connections s i = Some c"
    and "0 < ts_read_expand_size s" and "0 < ts_write_expand_size s"
  shows "tcp_inv s"
  using assms by (simp add: tcp_inv_def)

lemma tcp_invD:
  assumes "tcp_inv s"
  shows "world_ok (ts_io s)" and "ts_sockets s i = Some p \<Longrightarrow> has_id (ts_io s) p i"
    and "ts_connections s i = Some c \<Longrightarrow>
        \<exists>n. ts_conns s c = Some n \<and> ts_sockets s i = Some (tc_socket n)"
    and "ts_conns s c = Some n \<Longrightarrow> c < ts_next_conn s \<and> conn_ok n"
    and "ts_conns s c = Some n \<Longrightarrow> \<exists>i. ts_connections s i = Some c"
    and "0 < ts_read_expand_size s" and "0 < ts_write_expand_size s"
  using assms by (simp_all add: tcp_inv_def)

text \<open>A stored socket that is attached stays stored under its id, or is recorded as removed.\<close>

definition stored_kept :: "tcp_service \<Rightarrow> tcp_service \<Rightarrow> bool" where
  "stored_kept s s' \<longleftrightarrow>
     (\<forall>i p d. ts_sockets s i = Some p \<longrightarrow> w_devices (ts_io s) p = Some d \<longrightarrow> dev_attached d \<longrightarrow>
        p \<in> w_removed (ts_io s') \<or> ts_sockets s' i = Some p)"

lemma stored_kept_le: "ts_sockets s \<subseteq>\<^sub>m ts_sockets s' \<Longrightarrow> stored_kept s s'"
  unfolding stored_kept_def map_le_def by (metis domI)

lemma stored_kept_trans:
  assumes a: "stored_kept s1 s2" and b: "stored_kept s2 s3"
    and k1: "keeps X (ts_io s1) (ts_io s2)" and k2: "keeps X (ts_io s2) (ts_io s3)"
  shows "stored_kept s1 s3"
  unfolding stored_kept_def
proof (intro allI impI)
  fix i p d
  assume s1: "ts_sockets s1 i = Some p" and d: "w_devices (ts_io s1) p = Some d" "dev_attached d"
  show "p \<in> w_removed (ts_io s3) \<or> ts_sockets s3 i = Some p"
  proof (cases "p \<in> w_removed (ts_io s2)")
    case True
    then show ?thesis using k2 by (auto simp: keeps_def)
  next
    case False
    then obtain d2 where "w_devices (ts_io s2) p = Some d2" "dev_attached d2"
      using keepsD [OF k1 d] by blast
    moreover have "ts_sockets s2 i = Some p" using a s1 d False by (auto simp: stored_kept_def)
    ultimately show ?thesis using b by (auto simp: stored_kept_def)
  qed
qed

text \<open>A step that keeps the invariant and the attached devices.\<close>

definition safe :: "nat set \<Rightarrow> tcp_service \<Rightarrow> tcp_service \<Rightarrow> bool" where
  "safe X s s' \<longleftrightarrow> tcp_inv s' \<and> keeps X (ts_io s) (ts_io s') \<and> stored_kept s s'"

lemma safe_refl: "tcp_inv s \<Longrightarrow> safe X s s"
  by (simp add: safe_def stored_kept_le)

lemma safe_trans: "safe X s1 s2 \<Longrightarrow> safe X s2 s3 \<Longrightarrow> safe X s1 s3"
  unfolding safe_def by (meson keeps_trans stored_kept_trans)

lemma safe_le:
  "tcp_inv s' \<Longrightarrow> keeps X (ts_io s) (ts_io s') \<Longrightarrow> ts_sockets s \<subseteq>\<^sub>m ts_sockets s' \<Longrightarrow> safe X s s'"
  by (simp add: safe_def stored_kept_le)

lemma safe_mono: "safe X s s' \<Longrightarrow> X \<subseteq> Y \<Longrightarrow> safe Y s s'"
  by (auto simp: safe_def intro: keeps_mono)

lemma safe_inv: "safe X s s' \<Longrightarrow> tcp_inv s'"
  by (simp add: safe_def)

lemma has_id_live: "has_id w p i \<Longrightarrow> live w p"
  by (auto simp: has_id_def live_def)

lemma inv_socket: "tcp_inv s \<Longrightarrow> ts_sockets s i = Some p \<Longrightarrow> has_id (ts_io s) p i"
  by (simp add: tcp_inv_def)

lemma inv_socket_live: "tcp_inv s \<Longrightarrow> ts_sockets s i = Some p \<Longrightarrow> live (ts_io s) p"
  using inv_socket has_id_live by blast

lemma inv_connection:
  "tcp_inv s \<Longrightarrow> ts_connections s i = Some c \<Longrightarrow>
     \<exists>n. ts_conns s c = Some n \<and> ts_sockets s i = Some (tc_socket n) \<and> conn s c = n \<and> conn_ok n"
  by (fastforce simp: tcp_inv_def conn_def)

lemma has_id_unique: "has_id w p i \<Longrightarrow> has_id w p j \<Longrightarrow> i = j"
  by (auto simp: has_id_def)

lemma inv_connection_inj:
  "tcp_inv s \<Longrightarrow> ts_connections s i = Some c \<Longrightarrow> ts_connections s j = Some c \<Longrightarrow> i = j"
  by (metis inv_connection inv_socket has_id_unique option.inject)

text \<open>Changes below the service that keep the ids.\<close>

lemma inv_on_io:
  assumes "tcp_inv s" and "world_ok w'" and "\<And>q i. has_id w' q i = has_id (ts_io s) q i"
  shows "tcp_inv (s\<lparr>ts_io := w'\<rparr>)"
  using assms by (simp add: tcp_inv_def)

section \<open>One connection\<close>

text \<open>\<open>c\<close> is the connection and \<open>p\<close> the socket of id \<open>i\<close>.\<close>

definition conn_of :: "tcp_service \<Rightarrow> int \<Rightarrow> nat \<Rightarrow> nat \<Rightarrow> bool" where
  "conn_of s i c p \<longleftrightarrow> tcp_inv s \<and> ts_connections s i = Some c \<and> ts_sockets s i = Some p"

lemma conn_of_intro:
  "tcp_inv s \<Longrightarrow> ts_connections s i = Some c \<Longrightarrow> conn_of s i c (tc_socket (conn s c))"
  using inv_connection by (fastforce simp: conn_of_def)

lemma conn_of_facts:
  assumes "conn_of s i c p"
  shows "tcp_inv s" and "live (ts_io s) p" and "has_id (ts_io s) p i"
    and "ts_conns s c = Some (conn s c)" and "tc_socket (conn s c) = p" and "conn_ok (conn s c)"
    and "dev_id (dev (ts_io s) p) = i"
  using assms inv_connection [of s i c] inv_socket [of s i p] has_id_live
  by (auto simp: conn_of_def has_id_def dev_def)

text \<open>The steps a handler takes between callbacks.\<close>

definition conn_step :: "nat set \<Rightarrow> int \<Rightarrow> nat \<Rightarrow> nat \<Rightarrow> tcp_service \<Rightarrow> tcp_service \<Rightarrow> bool" where
  "conn_step X i c p s s' \<longleftrightarrow> conn_of s' i c p \<and> keeps X (ts_io s) (ts_io s') \<and>
     ts_sockets s' = ts_sockets s"

lemma conn_step_refl: "conn_of s i c p \<Longrightarrow> conn_step X i c p s s"
  by (simp add: conn_step_def)

lemma conn_step_trans:
  "conn_step X i c p s1 s2 \<Longrightarrow> (conn_of s2 i c p \<Longrightarrow> conn_step X i c p s2 s3) \<Longrightarrow>
     conn_step X i c p s1 s3"
  by (auto simp: conn_step_def intro: keeps_trans)

lemma conn_step_safe: "conn_step X i c p s s' \<Longrightarrow> safe X s s'"
  by (simp add: conn_step_def conn_of_def safe_le)

lemma conn_step_of: "conn_step X i c p s s' \<Longrightarrow> conn_of s' i c p"
  by (simp add: conn_step_def)

lemma conn_step_io:
  assumes of: "conn_of s i c p" and "world_ok w'" and "\<And>q i. has_id w' q i = has_id (ts_io s) q i"
    and "keeps X (ts_io s) w'"
  shows "conn_step X i c p s (s\<lparr>ts_io := w'\<rparr>)"
  using assms inv_on_io [of s w'] by (simp add: conn_step_def conn_of_def)

lemma conn_step_dev:
  assumes of: "conn_of s i c p" and step: "dev_step q (ts_io s) w'"
  shows "conn_step X i c p s (s\<lparr>ts_io := w'\<rparr>)"
proof -
  have "world_ok (ts_io s)" using of by (simp add: conn_of_def tcp_inv_def)
  then show ?thesis
    using conn_step_io [OF of] dev_step_ok [OF step] dev_step_id [OF step] dev_step_keeps [OF step]
    by blast
qed

lemma conn_step_call:
  assumes "conn_of s i c p" and "\<And>w. live w p \<Longrightarrow> dev_step p w (snd (f w))"
    and "call_io f s = (r, s')"
  shows "conn_step X i c p s s'"
  using conn_step_dev [OF assms(1) assms(2)] conn_of_facts(2) [OF assms(1)] assms(3)
  by (auto simp: call_io_def split: prod.splits)

lemma conn_step_set_conn:
  assumes of: "conn_of s i c p"
    and "tc_socket (f (conn s c)) = p" and "conn_ok (f (conn s c))"
  shows "conn_step X i c p s (set_conn c f s)"
proof -
  note facts = conn_of_facts [OF of]
  have inj: "j = i" if "ts_connections s j = Some c" for j
    using inv_connection_inj facts(1) that of by (auto simp: conn_of_def)
  have "tcp_inv (set_conn c f s)"
    using facts(1) assms inj by (auto simp: tcp_inv_def set_conn_def facts(4) conn_of_def)
  then show ?thesis using of by (simp add: conn_step_def conn_of_def set_conn_def facts(4))
qed

lemma conn_step_touch:
  assumes "conn_of s i c p"
  shows "touch_conn c s = s" and "getSocketId p s = (i, s)"
  using conn_of_facts [OF assms] by (simp_all add: touch_conn_def getSocketId_def on_io_def)

lemma conn_step_timers:
  assumes "conn_of s i c p"
  shows "conn_step X i c p s (addSocketTimer k j ms cb s)" and "conn_step X i c p s (removeSocketTimer j s)"
  using assms
  by (auto simp: conn_step_def conn_of_def tcp_inv_def addSocketTimer_def call_io_def startTimer_def
        removeSocketTimer_def on_io_def stopTimer_def sys_def Let_def world_ok_def has_id_def keeps_def
        cbs_left_def split: prod.splits option.splits)

lemma conn_step_update:
  assumes of: "conn_of s i c p" and up: "dev_update p f (ts_io s) w'"
    and f: "\<And>d. dev_attached (f d) = dev_attached d" "\<And>d. dev_id (f d) = dev_id d"
      "\<And>d. cbs_left (p \<in> X) d (f d)"
  shows "conn_step X i c p s (s\<lparr>ts_io := w'\<rparr>)"
proof (rule conn_step_io [OF of])
  have "world_ok (ts_io s)" using of by (simp add: conn_of_def tcp_inv_def)
  then show "world_ok w'" using dev_update_ok [OF up] f by (simp add: cbs_left_def)
  show "has_id w' q j = has_id (ts_io s) q j" for q j by (rule dev_update_id [OF up f(2)])
  show "keeps X (ts_io s) w'" by (rule dev_update_keeps [OF up f(1,3)])
qed

lemma conn_step_callbacks:
  assumes "conn_of s i c p"
  shows "conn_step X i c p s (on_io (setReadCallback k p (Some h)) s)"
    and "conn_step X i c p s (on_io (setWriteCallback k p (Some h)) s)"
    and "p \<in> X \<Longrightarrow> conn_step X i c p s (on_io (setWriteCallback k p None) s)"
  unfolding on_io_def
  by (rule conn_step_update [OF assms dev_update_callbacks(2) [OF conn_of_facts(2) [OF assms]]]
        conn_step_update [OF assms dev_update_callbacks(3) [OF conn_of_facts(2) [OF assms]]];
      simp add: cbs_left_def)+

section \<open>Sending and closing\<close>

text \<open>What the application may do to the service in a callback: anything that is safe.\<close>

definition app_safe :: "app \<Rightarrow> bool" where
  "app_safe app \<longleftrightarrow> (\<forall>call s. tcp_inv s \<longrightarrow> safe {} s (app call s))"

lemma app_safeD: "app_safe app \<Longrightarrow> tcp_inv s \<Longrightarrow> safe X s (app call s)"
  using safe_mono [of "{}" s "app call s" X] by (simp add: app_safe_def)

lemma call_app_safe: "app_safe app \<Longrightarrow> tcp_inv s \<Longrightarrow> safe X s (call_app app mk cb s)"
  by (auto simp: call_app_def intro: app_safeD safe_refl split: option.splits)

text \<open>Steps on a connection, then a callback.\<close>

lemma conn_step_then_safe:
  "conn_step X i c p s s1 \<Longrightarrow> (conn_of s1 i c p \<Longrightarrow> safe X s1 s2) \<Longrightarrow> safe X s s2"
  using conn_step_safe conn_step_of safe_trans by blast

lemma conn_of_inv: "conn_of s i c p \<Longrightarrow> tcp_inv s"
  by (simp add: conn_of_def)

lemma delete_socket_inv:
  assumes inv: "tcp_inv s" and live: "live (ts_io s) p" and free: "\<And>i. ts_sockets s i \<noteq> Some p"
    and k: "detach_ok k"
  shows "safe X s (on_io (delete_TcpSocket k p) s)"
proof -
  have "world_ok (ts_io s)" using inv by (simp add: tcp_inv_def)
  note del = delete_socket [OF this live k refl]
  show ?thesis
    by (rule safe_le) (use inv free del in \<open>auto simp: tcp_inv_def on_io_def\<close>)
qed

lemma closeSocket_safe:
  assumes inv: "tcp_inv s" and k: "detach_ok k"
  shows "safe X s (closeSocket k i s)"
proof -
  define s1 where "s1 = (case ts_connections s i of None \<Rightarrow> s
    | Some c \<Rightarrow> (delete_conn c s)\<lparr>ts_connections := (ts_connections s)(i := None)\<rparr>)"
  have same: "ts_io s1 = ts_io s" "ts_sockets s1 = ts_sockets s" "ts_contexts s1 = ts_contexts s"
    using inv_connection [OF inv, of i]
    by (auto simp: s1_def delete_conn_def touch_conn_def split: option.splits)
  have conn1: "ts_connections s1 i = None"
    by (auto simp: s1_def split: option.splits)
  have inv1: "tcp_inv s1"
  proof (cases "ts_connections s i")
    case None
    then show ?thesis using inv by (simp add: s1_def)
  next
    case (Some c)
    obtain n where here: "ts_conns s c = Some n" using inv_connection [OF inv Some] by auto
    have only: "j = i" if "ts_connections s j = Some c" for j
      using inv_connection_inj [OF inv that Some] .
    have s1: "ts_io s1 = ts_io s" "ts_sockets s1 = ts_sockets s"
        "ts_connections s1 = (ts_connections s)(i := None)" "ts_conns s1 = (ts_conns s)(c := None)"
        "ts_next_conn s1 = ts_next_conn s" "ts_read_expand_size s1 = ts_read_expand_size s"
        "ts_write_expand_size s1 = ts_write_expand_size s"
      using here by (simp_all add: s1_def Some delete_conn_def touch_conn_def)
    show ?thesis
    proof (rule tcp_invI)
      fix j d
      assume "ts_connections s1 j = Some d"
      then have j: "ts_connections s j = Some d" "j \<noteq> i" by (auto simp: s1 split: if_splits)
      then have "d \<noteq> c" using only by auto
      then show "\<exists>n. ts_conns s1 d = Some n \<and> ts_sockets s1 j = Some (tc_socket n)"
        using tcp_invD(3) [OF inv j(1)] by (simp add: s1)
    next
      fix d n
      assume "ts_conns s1 d = Some n"
      then have d: "ts_conns s d = Some n" "d \<noteq> c" by (auto simp: s1 split: if_splits)
      then obtain j where "ts_connections s j = Some d" using tcp_invD(5) [OF inv d(1)] by blast
      moreover from this have "j \<noteq> i" using Some d(2) by auto
      ultimately show "\<exists>j. ts_connections s1 j = Some d" by (auto simp: s1)
      show "d < ts_next_conn s1 \<and> conn_ok n" using tcp_invD(4) [OF inv d(1)] by (simp add: s1)
    qed (use tcp_invD [OF inv] in \<open>simp_all add: s1\<close>)
  qed
  define s2 where "s2 = (case ts_sockets s1 i of None \<Rightarrow> s1
    | Some p \<Rightarrow> (on_io (delete_TcpSocket k p) s1)\<lparr>ts_sockets := (ts_sockets s1)(i := None)\<rparr>)"
  have "safe X s1 s2"
  proof (cases "ts_sockets s1 i")
    case None
    then show ?thesis using inv1 by (simp add: s2_def safe_refl)
  next
    case (Some p)
    have w: "world_ok (ts_io s1)" using inv1 by (simp add: tcp_inv_def)
    have live: "live (ts_io s1) p" by (rule inv_socket_live [OF inv1 Some])
    note del = delete_socket [OF w live k refl]
    have other: "q \<noteq> p" if "ts_sockets s1 j = Some q" "j \<noteq> i" for j q
      using has_id_unique inv_socket [OF inv1] that Some by metis
    have s2: "ts_io s2 = delete_TcpSocket k p (ts_io s1)"
        "ts_sockets s2 = (ts_sockets s1)(i := None)" "ts_connections s2 = ts_connections s1"
        "ts_conns s2 = ts_conns s1" "ts_next_conn s2 = ts_next_conn s1"
        "ts_read_expand_size s2 = ts_read_expand_size s1"
        "ts_write_expand_size s2 = ts_write_expand_size s1"
      by (simp_all add: s2_def Some on_io_def)
    have "tcp_inv s2"
    proof (rule tcp_invI)
      fix j q
      assume "ts_sockets s2 j = Some q"
      then have "ts_sockets s1 j = Some q" "j \<noteq> i" by (auto simp: s2 split: if_splits)
      then show "has_id (ts_io s2) q j" using other del(3) inv_socket [OF inv1] by (simp add: s2)
    next
      fix j d
      assume "ts_connections s2 j = Some d"
      moreover from this have "j \<noteq> i" using conn1 by (auto simp: s2)
      ultimately show "\<exists>n. ts_conns s2 d = Some n \<and> ts_sockets s2 j = Some (tc_socket n)"
        using tcp_invD(3) [OF inv1] by (simp add: s2)
    qed (use tcp_invD [OF inv1] del(1) in \<open>simp_all add: s2\<close>)
    moreover have "p \<in> w_removed (ts_io s2)" if "w_devices (ts_io s1) p = Some d" "dev_attached d" for d
      using keepsD [OF del(2) that] by (auto simp: s2 delete_TcpSocket_def Let_def)
    then have "stored_kept s1 s2" using Some by (auto simp: stored_kept_def s2)
    ultimately show ?thesis using del(2) by (simp add: safe_def s2)
  qed
  moreover have "safe X s2 (closeSocket k i s)"
    using safe_inv [OF \<open>safe X s1 s2\<close>]
    by (intro safe_le) (auto simp: closeSocket_def Let_def s1_def [symmetric] s2_def [symmetric]
        tcp_inv_def split: option.splits)
  moreover have "safe X s s1" using inv1 by (simp add: safe_le same)
  ultimately show ?thesis using safe_trans by blast
qed

section \<open>New sockets\<close>

text \<open>A socket object the map does not hold yet (a \<open>UniquePtr\<close> owns it).\<close>

definition owned :: "tcp_service \<Rightarrow> nat \<Rightarrow> bool" where
  "owned s p \<longleftrightarrow> tcp_inv s \<and> live (ts_io s) p \<and> (\<forall>i. ts_sockets s i \<noteq> Some p)"

definition owned_step :: "nat set \<Rightarrow> nat \<Rightarrow> tcp_service \<Rightarrow> tcp_service \<Rightarrow> bool" where
  "owned_step X p s s' \<longleftrightarrow> owned s' p \<and> keeps X (ts_io s) (ts_io s') \<and> ts_sockets s' = ts_sockets s"

text \<open>A safe step that leaves the stored sockets where they are.\<close>

definition safe_open :: "nat set \<Rightarrow> tcp_service \<Rightarrow> tcp_service \<Rightarrow> bool" where
  "safe_open X s s' \<longleftrightarrow> safe X s s' \<and> ts_sockets s \<subseteq>\<^sub>m ts_sockets s'"

lemma safe_open_trans: "safe_open X s1 s2 \<Longrightarrow> safe_open X s2 s3 \<Longrightarrow> safe_open X s1 s3"
  by (auto simp: safe_open_def intro: safe_trans map_le_trans)

lemma owned_step_trans:
  "owned_step X p s1 s2 \<Longrightarrow> (owned s2 p \<Longrightarrow> owned_step X p s2 s3) \<Longrightarrow> owned_step X p s1 s3"
  by (auto simp: owned_step_def intro: keeps_trans)

lemma owned_then_open:
  "owned_step X p s1 s2 \<Longrightarrow> (owned s2 p \<Longrightarrow> safe_open X s2 s3) \<Longrightarrow> safe_open X s1 s3"
  unfolding owned_step_def safe_open_def
  by (auto simp: safe_def intro: keeps_trans stored_kept_le)

lemma owned_new:
  assumes inv: "tcp_inv s" and new: "call_io new_TcpSocket s = (p, s1)"
  shows "owned_step X p s s1" and "live (ts_io s) q \<Longrightarrow> live (ts_io s1) q"
proof -
  obtain w1 where w1: "new_TcpSocket (ts_io s) = (p, w1)" and s1: "s1 = s\<lparr>ts_io := w1\<rparr>"
    using new by (auto simp: call_io_def split: prod.splits)
  have ok: "world_ok (ts_io s)" using inv by (simp add: tcp_inv_def)
  note facts = new_socket [OF ok w1]
  have old: "has_id w1 q i" "q \<noteq> p" if "has_id (ts_io s) q i" for q i
  proof -
    show "q \<noteq> p" using that ok facts(4) by (auto simp: has_id_def world_ok_def)
    then show "has_id w1 q i" using that facts(5) by simp
  qed
  have "tcp_inv s1"
    using inv facts(1) old(1) by (simp add: s1 tcp_inv_def)
  moreover have "ts_sockets s i \<noteq> Some p" for i
    using old(2) inv_socket [OF inv, of i] by blast
  ultimately show "owned_step X p s s1"
    using facts(2,3) by (simp add: owned_step_def owned_def s1)
  show "live (ts_io s1) q" if "live (ts_io s) q"
    using that w1 by (auto simp: s1 new_TcpSocket_def new_device_def live_def)
qed

lemma owned_io:
  assumes own: "owned s p" and step: "dev_step p (ts_io s) w'"
  shows "owned_step X p s (s\<lparr>ts_io := w'\<rparr>)"
proof -
  have inv: "tcp_inv s" using own by (simp add: owned_def)
  have "tcp_inv (s\<lparr>ts_io := w'\<rparr>)"
    using inv_on_io [OF inv dev_step_ok [OF step] dev_step_id [OF step]] tcp_invD(1) [OF inv] by blast
  then show ?thesis
    using own dev_step_live [OF step] dev_step_keeps [OF step]
    by (simp add: owned_step_def owned_def)
qed

lemma owned_call:
  assumes "owned s p" and "dev_step p (ts_io s) (snd (f (ts_io s)))" and "call_io f s = (r, s1)"
  shows "owned_step X p s s1"
  using owned_io [OF assms(1,2)] assms(3) by (auto simp: call_io_def split: prod.splits)

lemma owned_delete:
  assumes "owned s p" and "detach_ok k"
  shows "safe_open X s (on_io (delete_TcpSocket k p) s)"
  using delete_socket_inv [of s p k X] assms
  by (simp add: safe_open_def owned_def) (simp add: on_io_def)

text \<open>The common part of the builders: an id, the callbacks, and the registration.\<close>

definition with_callback :: "kernel \<Rightarrow> nat \<Rightarrow> bool \<Rightarrow> io_handler \<Rightarrow> tcp_io \<Rightarrow> tcp_io" where
  "with_callback k p reads h =
     (if reads then setReadCallback k p (Some h) else setWriteCallback k p (Some h))"

lemma build_world:
  assumes ok: "world_ok w" and live: "live w p" and k: "detach_ok k"
    and w': "w' = snd (attachIOService k p (setErrorCallback p (Some e)
                  (with_callback k p reads h (setId p i w))))"
  shows "world_ok w'" and "keeps X w w'" and "live w' p"
    and "has_id w' q j \<longleftrightarrow> (if q = p then j = i else has_id w q j)"
proof -
  let ?w1 = "setId p i w"
  let ?w2 = "with_callback k p reads h ?w1"
  let ?w3 = "setErrorCallback p (Some e) ?w2"
  note up1 = dev_update_callbacks(1) [OF live, of i]
  have live1: "live ?w1 p" using dev_update_live [OF up1] live by simp
  have up2: "dev_update p (if reads then (\<lambda>d. d\<lparr>dev_read_cb := Some h\<rparr>)
      else (\<lambda>d. d\<lparr>dev_write_cb := Some h\<rparr>)) ?w1 ?w2"
    using dev_update_callbacks(2,3) [OF live1] by (simp add: with_callback_def)
  have live2: "live ?w2 p" using dev_update_live [OF up2] live1 by simp
  note up3 = dev_update_callbacks(4) [OF live2, of "Some e"]
  have live3: "live ?w3 p" using dev_update_live [OF up3] live2 by simp
  have "w_devices ?w3 p = Some ((dev ?w2 p)\<lparr>dev_error_cb := Some e\<rparr>)"
    using up3 by (simp add: dev_update_def live_lookup [OF live2])
  then have err: "dev_error_cb (dev ?w3 p) \<noteq> None" by (simp add: dev_def)
  have ok1: "world_ok ?w1" by (rule dev_update_ok [OF up1 ok]) simp_all
  have ok2: "world_ok ?w2" by (rule dev_update_ok [OF up2 ok1]) (auto split: if_splits)
  have ok3: "world_ok ?w3" by (rule dev_update_ok [OF up3 ok2]) simp_all
  have k1: "keeps X w ?w1" by (rule dev_update_keeps [OF up1]) (simp_all add: cbs_left_def)
  have k2: "keeps X ?w1 ?w2" by (rule dev_update_keeps [OF up2]) (auto simp: cbs_left_def)
  have k3: "keeps X ?w2 ?w3" by (rule dev_update_keeps [OF up3]) (simp_all add: cbs_left_def)
  note att = attach [OF ok3 live3 err k w']
  show "world_ok w'" "live w' p" using att(1,4) by blast+
  show "keeps X w w'" using k1 k2 k3 att(2) keeps_trans by blast
  have "has_id w' q j = has_id ?w3 q j" by (rule att(3))
  also have "\<dots> = has_id ?w2 q j" by (rule dev_update_id [OF up3]) simp
  also have "\<dots> = has_id ?w1 q j" by (rule dev_update_id [OF up2]) simp
  also have "\<dots> \<longleftrightarrow> (if q = p then j = i else has_id w q j)"
    using up1 live by (auto simp: dev_update_def has_id_def live_def)
  finally show "has_id w' q j \<longleftrightarrow> (if q = p then j = i else has_id w q j)" .
qed

text \<open>The state at the end of a builder, before the maps are changed.\<close>

definition built_io :: "kernel \<Rightarrow> nat \<Rightarrow> bool \<Rightarrow> io_handler \<Rightarrow> tcp_service \<Rightarrow> int \<times> tcp_service" where
  "built_io k p reads h s =
     (let (i, v) = socketId (dev_fd (dev (ts_io s) p)) (ts_value s)
      in (i, s\<lparr>ts_value := v, ts_io := snd (attachIOService k p (setErrorCallback p (Some OnSocketError)
                (with_callback k p reads h (setId p i (ts_io s)))))\<rparr>))"

lemma built_io:
  assumes own: "owned s p" and k: "detach_ok k" and b: "built_io k p reads h s = (i, s1)"
  shows "owned_step X p s s1" and "has_id (ts_io s1) p i"
    and "ts_connections s1 = ts_connections s" and "ts_conns s1 = ts_conns s"
    and "ts_next_conn s1 = ts_next_conn s" and "ts_write_max_size s1 = ts_write_max_size s"
proof -
  have inv: "tcp_inv s" and live: "live (ts_io s) p" and free: "\<And>j. ts_sockets s j \<noteq> Some p"
    using own by (auto simp: owned_def)
  obtain v where s1: "s1 = s\<lparr>ts_value := v, ts_io := snd (attachIOService k p
      (setErrorCallback p (Some OnSocketError) (with_callback k p reads h (setId p i (ts_io s)))))\<rparr>"
    using b by (auto simp: built_io_def split: prod.splits)
  note w = build_world [OF tcp_invD(1) [OF inv] live k refl, where e = OnSocketError and reads = reads and h = h and i = i]
  show "has_id (ts_io s1) p i" using w(4) by (simp add: s1)
  have "tcp_inv s1"
    using inv w(1,4) free unfolding s1 tcp_inv_def by auto
  then show "owned_step X p s s1"
    using w(2,3) free by (simp add: owned_step_def owned_def s1)
qed (use b in \<open>auto simp: built_io_def split: prod.splits\<close>)

lemma insert_socket:
  assumes own: "owned s p" and id: "has_id (ts_io s) p i" and new: "ts_sockets s i = None"
  shows "safe_open X s (s\<lparr>ts_sockets := (ts_sockets s)(i \<mapsto> p)\<rparr>)"
proof -
  have inv: "tcp_inv s" using own by (simp add: owned_def)
  have "tcp_inv (s\<lparr>ts_sockets := (ts_sockets s)(i \<mapsto> p)\<rparr>)"
  proof (rule tcp_invI)
    fix j c
    assume "ts_connections (s\<lparr>ts_sockets := (ts_sockets s)(i \<mapsto> p)\<rparr>) j = Some c"
    then show "\<exists>n. ts_conns (s\<lparr>ts_sockets := (ts_sockets s)(i \<mapsto> p)\<rparr>) c = Some n \<and>
        ts_sockets (s\<lparr>ts_sockets := (ts_sockets s)(i \<mapsto> p)\<rparr>) j = Some (tc_socket n)"
      using tcp_invD(3) [OF inv, of j c] new by auto
  qed (use tcp_invD [OF inv] id in \<open>auto split: if_splits\<close>)
  then show ?thesis using new by (auto simp: safe_open_def map_le_def intro!: safe_le)
qed

text \<open>A new connection object with the socket, both stored.\<close>

lemma insert_connection:
  assumes own: "owned s p" and id: "has_id (ts_io s) p i"
    and new: "ts_sockets s i = None" "ts_connections s i = None"
    and n: "conn_ok n" "tc_socket n = p"
    and s': "s' = s\<lparr>ts_conns := (ts_conns s)(ts_next_conn s \<mapsto> n), ts_next_conn := ts_next_conn s + 1,
        ts_sockets := (ts_sockets s)(i \<mapsto> p), ts_connections := (ts_connections s)(i \<mapsto> ts_next_conn s)\<rparr>"
  shows "safe_open X s s'" and "conn_of s' i (ts_next_conn s) p"
proof -
  have inv: "tcp_inv s" using own by (simp add: owned_def)
  have fresh: "ts_conns s (ts_next_conn s) = None"
    using tcp_invD(4) [OF inv, of "ts_next_conn s"] by (cases "ts_conns s (ts_next_conn s)") auto
  have "tcp_inv s'"
  proof (rule tcp_invI)
    fix j c
    assume j: "ts_connections s' j = Some c"
    show "\<exists>n. ts_conns s' c = Some n \<and> ts_sockets s' j = Some (tc_socket n)"
    proof (cases "j = i")
      case True
      then show ?thesis using j n(2) by (simp add: s')
    next
      case False
      then have j': "ts_connections s j = Some c" using j by (simp add: s')
      then obtain m where "ts_conns s c = Some m" "ts_sockets s j = Some (tc_socket m)"
        using tcp_invD(3) [OF inv j'] by blast
      then show ?thesis using fresh False by (auto simp: s')
    qed
  next
    fix c m
    assume "ts_conns s' c = Some m"
    then have c: "c = ts_next_conn s \<and> m = n \<or> ts_conns s c = Some m" by (auto simp: s' split: if_splits)
    then show "c < ts_next_conn s' \<and> conn_ok m" using tcp_invD(4) [OF inv] n(1) by (fastforce simp: s')
    show "\<exists>j. ts_connections s' j = Some c"
      using c
    proof
      assume "c = ts_next_conn s \<and> m = n"
      then show ?thesis by (auto simp: s')
    next
      assume "ts_conns s c = Some m"
      then obtain j where "ts_connections s j = Some c" using tcp_invD(5) [OF inv] by blast
      moreover from this have "j \<noteq> i" using new by auto
      ultimately show ?thesis by (auto simp: s')
    qed
  qed (use tcp_invD [OF inv] id in \<open>auto simp: s' split: if_splits\<close>)
  then show "safe_open X s s'" and "conn_of s' i (ts_next_conn s) p"
    using new by (auto simp: safe_open_def map_le_def s' conn_of_def intro!: safe_le)
qed

text \<open>What a builder ends with: either everything is stored, or the socket is still the caller's.\<close>

definition build_result :: "nat set \<Rightarrow> nat \<Rightarrow> tcp_service \<Rightarrow> (int \<times> bool) \<times> tcp_service \<Rightarrow> bool" where
  "build_result X p s r \<longleftrightarrow>
     (case r of ((i, released), s') \<Rightarrow>
        if released then safe_open X s s' \<and> ts_sockets s' i = Some p else owned_step X p s s')"

lemma end_of_open_safe:
  assumes "build_result X p s r" and "detach_ok k"
  shows "safe_open X s (snd (end_of_open k p r))"
  using assms owned_delete [of _ p k X]
  by (auto simp: build_result_def end_of_open_def split: prod.splits if_splits
      intro: owned_then_open)

lemma build_listen:
  assumes own: "owned s p" and k: "detach_ok k"
  shows "build_result X p s (buildListenSocket k p s)"
proof -
  obtain i s1 where b: "built_io k p True OnListenSocketRead s = (i, s1)" by fastforce
  have eq: "buildListenSocket k p s = (if ts_sockets s1 i \<noteq> None then ((-1, False), s1)
      else ((i, True), s1\<lparr>ts_sockets := (ts_sockets s1)(i \<mapsto> p)\<rparr>))"
    using b by (auto simp: buildListenSocket_def built_io_def with_callback_def on_io_def
        split: prod.splits)
  note step = built_io(1) [OF own k b, where X = X] built_io(2) [OF own k b]
  then have "owned s1 p" by (simp add: owned_step_def)
  then have "safe_open X s1 (s1\<lparr>ts_sockets := (ts_sockets s1)(i \<mapsto> p)\<rparr>)" if "ts_sockets s1 i = None"
    using insert_socket step(2) that by blast
  then show ?thesis
    using step(1) by (auto simp: eq build_result_def intro: owned_then_open)
qed

lemma new_conn_discarded:
  assumes own: "owned s p" and new: "new_conn p s = (c, s1)"
  shows "owned_step X p s (delete_conn c (set_conn c f s1))"
proof -
  have inv: "tcp_inv s" using own by (simp add: owned_def)
  have fresh: "ts_conns s (ts_next_conn s) = None"
    using tcp_invD(4) [OF inv, of "ts_next_conn s"] by (cases "ts_conns s (ts_next_conn s)") auto
  then have "(ts_conns s)(ts_next_conn s := None) = ts_conns s" by (auto simp: fun_eq_iff)
  then have "delete_conn c (set_conn c f s1) = s\<lparr>ts_next_conn := ts_next_conn s + 1\<rparr>"
    using new by (auto simp: new_conn_def Let_def delete_conn_def set_conn_def touch_conn_def)
  moreover have "tcp_inv (s\<lparr>ts_next_conn := ts_next_conn s + 1\<rparr>)"
    using inv by (fastforce simp: tcp_inv_def)
  ultimately show ?thesis using own by (simp add: owned_step_def owned_def)
qed

lemma new_conn_sel:
  assumes "new_conn p s = (c, s1)"
  shows "ts_sockets (set_conn c f s1) = ts_sockets s"
    and "ts_connections (set_conn c f s1) = ts_connections s"
  using assms by (auto simp: new_conn_def Let_def set_conn_def)

lemma build_connected:
  assumes own: "owned s p" and k: "detach_ok k"
  shows "build_result X p s (buildConnectedSocket k p s)"
proof -
  obtain i s1 where b: "built_io k p True OnSocketRead s = (i, s1)" by fastforce
  obtain c s2 where new: "new_conn p s1 = (c, s2)" by fastforce
  define s3 where "s3 = set_conn c (\<lambda>n. n\<lparr>tc_status := CONNECTED\<rparr>) s2"
  have eq: "buildConnectedSocket k p s =
      (if ts_sockets s1 i \<noteq> None \<or> ts_connections s1 i \<noteq> None then ((-1, False), delete_conn c s3)
       else ((i, True), s3\<lparr>ts_sockets := (ts_sockets s1)(i \<mapsto> p),
                           ts_connections := (ts_connections s1)(i \<mapsto> c)\<rparr>))"
    using b new new_conn_sel [OF new]
    by (auto simp: buildConnectedSocket_def built_io_def with_callback_def on_io_def s3_def Let_def
        split: prod.splits)
  note step = built_io(1) [OF own k b, where X = X] built_io(2) [OF own k b]
  have own1: "owned s1 p" using step by (simp add: owned_step_def)
  then have inv1: "tcp_inv s1" by (simp add: owned_def)
  have stored: "safe_open X s1 (s3\<lparr>ts_sockets := (ts_sockets s1)(i \<mapsto> p),
      ts_connections := (ts_connections s1)(i \<mapsto> c)\<rparr>)"
    if "ts_sockets s1 i = None" "ts_connections s1 i = None"
    by (rule insert_connection(1) [OF own1 step(2) that, where n = "(TcpConnection p (ts_read_init_size s1)
          (ts_read_expand_size s1) (ts_write_init_size s1) (ts_write_expand_size s1))\<lparr>tc_status := CONNECTED\<rparr>"])
       (use new tcp_invD(6,7) [OF inv1] in \<open>auto simp: s3_def new_conn_def set_conn_def Let_def
          conn_ok_def TcpConnection_def DynamicBuffer_def\<close>)
  have "owned_step X p s1 (delete_conn c s3)"
    unfolding s3_def by (rule new_conn_discarded [OF own1 new])
  then show ?thesis
    using step(1) stored by (auto simp: eq build_result_def intro: owned_then_open owned_step_trans)
qed

lemma addSocketTimer_safe_open:
  assumes "tcp_inv s"
  shows "safe_open X s (addSocketTimer k j ms cb s)"
proof -
  have "tcp_inv (addSocketTimer k j ms cb s)" "keeps X (ts_io s) (ts_io (addSocketTimer k j ms cb s))"
    using assms
    by (auto simp: tcp_inv_def addSocketTimer_def call_io_def startTimer_def sys_def Let_def
          world_ok_def has_id_def keeps_def cbs_left_def split: prod.splits)
  then show ?thesis
    by (simp add: safe_open_def safe_le)
qed

text \<open>Storing the socket and the connection commutes with starting the timer.\<close>

lemma addSocketTimer_stored:
  "(addSocketTimer k j ms cb s)\<lparr>ts_sockets := a, ts_connections := b\<rparr> =
     addSocketTimer k j ms cb (s\<lparr>ts_sockets := a, ts_connections := b\<rparr>)"
  by (simp add: addSocketTimer_def call_io_def Let_def split: prod.splits)

lemma build_async:
  assumes own: "owned s p" and k: "detach_ok k"
  shows "build_result X p s (buildAsyncConnectSocket k p ms s)"
proof -
  obtain i s1 where b: "built_io k p False OnAsyncConnectSocketWrite s = (i, s1)" by fastforce
  obtain c s2 where new: "new_conn p s1 = (c, s2)" by fastforce
  define s3 where "s3 = set_conn c (\<lambda>n. n\<lparr>tc_status := CONNECTING\<rparr>) s2"
  define s4 where "s4 = s3\<lparr>ts_sockets := (ts_sockets s1)(i \<mapsto> p),
      ts_connections := (ts_connections s1)(i \<mapsto> c)\<rparr>"
  define s5 where "s5 = (if ms > 0 then addSocketTimer k i ms OnAsyncConnectTimeout s4 else s4)"
  have eq: "buildAsyncConnectSocket k p ms s =
      (if ts_sockets s1 i \<noteq> None \<or> ts_connections s1 i \<noteq> None then ((-1, False), delete_conn c s3)
       else ((i, True), s5))"
    using b new new_conn_sel [OF new]
    by (auto simp: buildAsyncConnectSocket_def built_io_def with_callback_def on_io_def s3_def s4_def
        s5_def Let_def addSocketTimer_stored split: prod.splits)
  note step = built_io(1) [OF own k b, where X = X] built_io(2) [OF own k b]
  have own1: "owned s1 p" using step by (simp add: owned_step_def)
  then have inv1: "tcp_inv s1" by (simp add: owned_def)
  have stored: "safe_open X s1 s4" if "ts_sockets s1 i = None" "ts_connections s1 i = None"
    by (rule insert_connection(1) [OF own1 step(2) that, where n = "(TcpConnection p (ts_read_init_size s1)
          (ts_read_expand_size s1) (ts_write_init_size s1) (ts_write_expand_size s1))\<lparr>tc_status := CONNECTING\<rparr>"])
       (use new tcp_invD(6,7) [OF inv1] in \<open>auto simp: s3_def s4_def new_conn_def set_conn_def Let_def
          conn_ok_def TcpConnection_def DynamicBuffer_def\<close>)
  moreover have "safe_open X s4 s5" if "safe_open X s1 s4"
    using that addSocketTimer_safe_open [of s4] safe_inv [of X s1 s4] by (auto simp: s5_def safe_open_def intro: safe_refl safe_inv)
  ultimately have "safe_open X s1 s5" if "ts_sockets s1 i = None" "ts_connections s1 i = None"
    using that safe_open_trans by blast
  moreover have "ts_sockets s5 i = Some p" by (simp add: s5_def s4_def)
  moreover have "owned_step X p s1 (delete_conn c s3)"
    unfolding s3_def by (rule new_conn_discarded [OF own1 new])
  ultimately show ?thesis
    using step(1) by (auto simp: eq build_result_def intro: owned_then_open owned_step_trans)
qed

end
