(* ===== verification/TcpHandlers.thy ===== *)
theory TcpHandlers
  imports TcpSafety
begin

text \<open>
  Every handler of \<open>TcpService\<close> and every call of its interface keeps the invariant of
  \<open>TcpSafety\<close>. The application is any function that keeps it too (\<open>app_safe\<close>); the relation
  \<open>api\<close> describes the applications that only use the interface, and each of them is one.
\<close>

section \<open>Sending\<close>

lemma send_failed_step:
  assumes of: "conn_of s i c p"
  shows "conn_step X i c p s (send_failed k c e s)"
proof -
  have 1: "conn_step X i c p s (set_conn c (tc_setError e) s)"
    by (rule conn_step_set_conn [OF of])
       (use conn_of_facts [OF of] in \<open>simp_all add: tc_setError_def conn_ok_def\<close>)
  then have of1: "conn_of (set_conn c (tc_setError e) s) i c p" by (rule conn_step_of)
  have "send_failed k c e s = addSocketTimer k i 0 OnSendMessageError (set_conn c (tc_setError e) s)"
    using conn_step_touch(2) [OF of1] conn_of_facts(5) [OF of1] by (simp add: send_failed_def)
  then show ?thesis using conn_step_trans [OF 1 conn_step_timers(1)] by simp
qed

lemma expand_size_ops [simp]:
  "db_expand_size (db_write b n) = db_expand_size b" "db_expand_size (db_store b xs) = db_expand_size b"
  "db_expand_size (reserveWritableBytes b n) = db_expand_size b" "db_expand_size (db_read b n) = db_expand_size b"
  by (simp_all add: db_write_def db_store_def reserveWritableBytes_def db_read_def db_clear_def Let_def)

lemma conn_ok_traps [simp]:
  "conn_ok n \<Longrightarrow> \<not> reserve_traps (tc_write_buffer n) sz" "conn_ok n \<Longrightarrow> \<not> reserve_traps (tc_read_buffer n) sz"
  by (simp_all add: conn_ok_def reserve_traps_def)

text \<open>Updates of a connection that keep its socket and the expand sizes.\<close>

lemma conn_step_field:
  assumes "conn_of s i c p" and "\<And>n. tc_socket (f n) = tc_socket n" and "\<And>n. conn_ok n \<Longrightarrow> conn_ok (f n)"
  shows "conn_step X i c p s (set_conn c f s)"
  by (rule conn_step_set_conn [OF assms(1)]) (use conn_of_facts [OF assms(1)] assms in simp_all)

lemma buffer_message_step:
  assumes of: "conn_of s i c p"
  shows "conn_step X i c p s (buffer_message k c buf n cb s)"
proof -
  define s2 where "s2 = set_conn c (\<lambda>m. m\<lparr>tc_write_buffer :=
      db_write (db_store (reserveWritableBytes (tc_write_buffer m) n) (take n buf)) n\<rparr>) s"
  define s3 where "s3 = set_conn c (\<lambda>m. m\<lparr>tc_send_complete_cb := cb\<rparr>) s2"
  have 2: "conn_step X i c p s s2"
    unfolding s2_def by (rule conn_step_field [OF of]) (simp_all add: conn_ok_def)
  have 3: "conn_step X i c p s s3"
    by (rule conn_step_trans [OF 2]) (auto simp: s3_def conn_ok_def intro!: conn_step_field)
  have "buffer_message k c buf n cb s = on_io (setWriteCallback k p (Some OnSocketWrite)) s3"
    using conn_of_facts(5,6) [OF of] conn_of_facts(5) [OF conn_step_of [OF 3]]
    by (simp add: buffer_message_def s2_def [symmetric] s3_def [symmetric] Let_def)
  then show ?thesis using conn_step_trans [OF 3 conn_step_callbacks(2)] by simp
qed

lemma run_send_complete_safe:
  assumes "app_safe app" and "detach_ok k" and of: "conn_of s i c p"
  shows "safe X s (run_send_complete_if k app cb p s)"
proof -
  have inv: "tcp_inv s" using of by (rule conn_of_inv)
  show ?thesis
    using conn_step_touch(2) [OF of] app_safeD [OF assms(1) inv] closeSocket_safe [OF inv assms(2)]
      safe_refl [OF inv]
    by (auto simp: run_send_complete_if_def run_send_complete_def split: option.splits send_callback.splits)
qed

lemma send_remain_safe:
  assumes "app_safe app" and "detach_ok k" and of: "conn_of s i c p"
  shows "safe X s (snd (send_remain k app c buf n cb s))"
  using conn_step_safe [OF send_failed_step [OF of]] conn_step_safe [OF buffer_message_step [OF of]]
    run_send_complete_safe [OF assms] conn_of_facts(5) [OF of]
  by (simp add: send_remain_def)

lemma send_call_step:
  "conn_of s i c p \<Longrightarrow> call_io (sock_send k p buf) s = (r, s1) \<Longrightarrow> conn_step X i c p s s1"
  by (rule conn_step_call) (auto intro: dev_steps)

lemma sendMessage_on_safe:
  assumes app: "app_safe app" and k: "detach_ok k" and of: "conn_of s i c p"
  shows "safe X s (snd (sendMessage_on k app c buf cb s))"
proof -
  obtain n s1 where send: "call_io (sock_send k p buf) s = (n, s1)" by fastforce
  have 1: "conn_step X i c p s s1" by (rule send_call_step [OF of send])
  have fail: "safe X s (send_failed k c e s1)" for e
    by (rule conn_step_then_safe [OF 1]) (auto intro: conn_step_safe send_failed_step)
  have rest: "safe X s (snd (send_remain k app c buf m cb s1))" for m
    by (rule conn_step_then_safe [OF 1]) (rule send_remain_safe [OF app k])
  show ?thesis
    using fail rest send_remain_safe [OF app k of] safe_refl [OF conn_of_inv [OF of]]
      conn_step_touch(1) [OF of] conn_of_facts(5) [OF of]
    by (simp add: sendMessage_on_def send Let_def)
qed

lemma sendMessage_safe:
  assumes app: "app_safe app" and k: "detach_ok k" and inv: "tcp_inv s"
  shows "safe X s (snd (tcp_sendMessage k app i buf cb s))"
  using sendMessage_on_safe [OF app k conn_of_intro [OF inv]] safe_refl [OF inv]
  by (auto simp: tcp_sendMessage_def split: option.splits)

lemma broadcast_safe:
  assumes app: "app_safe app" and k: "detach_ok k" and inv: "tcp_inv s"
  shows "safe X s (broadcastMessage k app ids buf s)"
  using inv
proof (induction ids arbitrary: s)
  case Nil
  then show ?case by (simp add: broadcastMessage_def safe_refl)
next
  case (Cons i ids)
  define s1 where "s1 = (case ts_connections s i of None \<Rightarrow> s
    | Some c \<Rightarrow> snd (sendMessage_on k app c buf None s))"
  have 1: "safe X s s1"
    using sendMessage_safe [OF app k Cons.prems, of X i buf None] safe_refl [OF Cons.prems]
    by (auto simp: s1_def tcp_sendMessage_def split: option.splits)
  have "broadcastMessage k app (i # ids) buf s = broadcastMessage k app ids buf s1"
    by (simp add: broadcastMessage_def s1_def)
  then show ?case using safe_trans [OF 1 Cons.IH [OF safe_inv [OF 1]]] by simp
qed

section \<open>Events of a connection\<close>

lemma report_error_safe:
  assumes app: "app_safe app" and of: "conn_of s i c p"
  shows "safe X s (report_error app c i e s)"
proof -
  have "conn_step X i c p s (set_conn c (tc_setError e) s)"
    by (rule conn_step_field [OF of]) (simp_all add: tc_setError_def conn_ok_def)
  then show ?thesis
    unfolding report_error_def Let_def
    by (rule conn_step_then_safe) (auto intro: call_app_safe [OF app] conn_of_inv)
qed

lemma getSocketId_stored:
  assumes "tcp_inv s" and "ts_sockets s i = Some p"
  shows "getSocketId p s = (i, s)"
  using inv_socket [OF assms] has_id_live [OF inv_socket [OF assms]]
  by (auto simp: getSocketId_def on_io_def has_id_def dev_def)

lemma conn_of_stored:
  assumes "tcp_inv s" and "ts_sockets s i = Some p" and "ts_connections s i = Some c"
  shows "conn_of s i c p"
  using assms by (simp add: conn_of_def)

lemma onSocketWrite_safe:
  assumes app: "app_safe app" and k: "detach_ok k" and inv: "tcp_inv s" and p: "ts_sockets s i = Some p"
  shows "safe {p} s (onSocketWrite k app p s)"
proof (cases "ts_connections s i")
  case None
  then show ?thesis
    by (simp add: onSocketWrite_def getSocketId_stored [OF inv p] safe_refl [OF inv])
next
  case (Some c)
  have of: "conn_of s i c p" by (rule conn_of_stored [OF inv p Some])
  obtain n s2 where send: "call_io (sock_send k p (db_content (tc_write_buffer (conn s c)))) s = (n, s2)"
    by fastforce
  have 2: "conn_step {p} i c p s s2" by (rule send_call_step [OF of send])
  define s3 where "s3 = set_conn c (\<lambda>m. m\<lparr>tc_write_buffer := db_read (tc_write_buffer m) (nat n)\<rparr>) s2"
  have 3: "conn_step {p} i c p s s3"
    by (rule conn_step_trans [OF 2]) (auto simp: s3_def conn_ok_def intro!: conn_step_field)
  define s4 where "s4 = on_io (setWriteCallback k p None) s3"
  have 4: "conn_step {p} i c p s s4"
    by (rule conn_step_trans [OF 3]) (auto simp: s4_def intro: conn_step_callbacks)
  define s5 where "s5 = set_conn c (\<lambda>m. m\<lparr>tc_send_complete_cb := None\<rparr>) s4"
  have 5: "conn_step {p} i c p s s5"
    by (rule conn_step_trans [OF 4]) (auto simp: s5_def conn_ok_def intro!: conn_step_field)
  have "safe {p} s (report_error app c i e s2)" for e
    by (rule conn_step_then_safe [OF 2]) (rule report_error_safe [OF app])
  moreover have "safe {p} s (run_send_complete_if k app cb p s5)" for cb
    by (rule conn_step_then_safe [OF 5]) (rule run_send_complete_safe [OF app k])
  ultimately show ?thesis
    using conn_step_safe [OF 2] conn_step_safe [OF 3] conn_step_touch(1) [OF of]
    by (simp add: onSocketWrite_def getSocketId_stored [OF inv p] Some send Let_def
        s3_def [symmetric] s4_def [symmetric] s5_def [symmetric])
qed

lemma onSocketError_safe:
  assumes app: "app_safe app" and inv: "tcp_inv s" and p: "ts_sockets s i = Some p"
  shows "safe X s (onSocketError k app p s)"
proof (cases "ts_connections s i")
  case None
  then show ?thesis
    by (simp add: onSocketError_def getSocketId_stored [OF inv p] safe_refl [OF inv])
next
  case (Some c)
  have of: "conn_of s i c p" by (rule conn_of_stored [OF inv p Some])
  obtain e s2 where err: "call_io (getSocketError k p) s = (e, s2)" by fastforce
  have 2: "conn_step X i c p s s2" by (rule conn_step_call [OF of _ err]) (auto intro: dev_steps)
  have "safe X s (report_error app c i e s2)" for e
    by (rule conn_step_then_safe [OF 2]) (rule report_error_safe [OF app])
  then show ?thesis by (simp add: onSocketError_def getSocketId_stored [OF inv p] Some err)
qed

lemma removeSocketTimer_safe:
  assumes "tcp_inv s"
  shows "safe X s (removeSocketTimer j s)"
  by (rule safe_le)
     (use assms in \<open>auto simp: tcp_inv_def removeSocketTimer_def on_io_def stopTimer_def world_ok_def
        has_id_def keeps_def cbs_left_def split: option.splits\<close>)

lemma removeSocketTimer_sel [simp]:
  "ts_sockets (removeSocketTimer j s) = ts_sockets s"
  "ts_connections (removeSocketTimer j s) = ts_connections s"
  by (simp_all add: removeSocketTimer_def on_io_def split: option.splits)

lemma onAsyncConnectSocketWrite_safe:
  assumes app: "app_safe app" and inv: "tcp_inv s" and p: "ts_sockets s i = Some p"
  shows "safe {p} s (onAsyncConnectSocketWrite k app p s)"
proof -
  define s2 where "s2 = removeSocketTimer i s"
  have 2: "safe {p} s s2" unfolding s2_def by (rule removeSocketTimer_safe [OF inv])
  note inv2 = safe_inv [OF 2]
  show ?thesis
  proof (cases "ts_connections s2 i")
    case None
    then show ?thesis
      using 2 by (simp add: onAsyncConnectSocketWrite_def getSocketId_stored [OF inv p] Let_def s2_def)
  next
    case (Some c)
    have of: "conn_of s2 i c p" using conn_of_stored [OF inv2 _ Some] p by (simp add: s2_def)
    have here: "ts_connections s i = Some c" using Some by (simp add: s2_def)
    obtain e s3 where err: "call_io (getSocketError k p) s2 = (e, s3)" by fastforce
    have 3: "conn_step {p} i c p s2 s3" by (rule conn_step_call [OF of _ err]) (auto intro: dev_steps)
    define s4 where "s4 = on_io (setReadCallback k p (Some OnSocketRead)) s3"
    have 4: "conn_step {p} i c p s2 s4"
      by (rule conn_step_trans [OF 3]) (auto simp: s4_def intro: conn_step_callbacks)
    define s5 where "s5 = on_io (setWriteCallback k p None) s4"
    have 5: "conn_step {p} i c p s2 s5"
      by (rule conn_step_trans [OF 4]) (auto simp: s5_def intro: conn_step_callbacks)
    define s6 where "s6 = set_conn c (\<lambda>m. m\<lparr>tc_status := CONNECTED\<rparr>) s5"
    have 6: "conn_step {p} i c p s2 s6"
      by (rule conn_step_trans [OF 5]) (auto simp: s6_def conn_ok_def intro!: conn_step_field)
    have "safe {p} s2 (report_error app c i e s3)"
      by (rule conn_step_then_safe [OF 3]) (rule report_error_safe [OF app])
    moreover have "safe {p} s2 (call_app app mk cb s6)" for mk cb
      by (rule conn_step_then_safe [OF 6]) (auto intro: call_app_safe [OF app] conn_of_inv)
    ultimately show ?thesis
      using safe_trans [OF 2]
      by (simp add: onAsyncConnectSocketWrite_def getSocketId_stored [OF inv p] Let_def
          s2_def [symmetric] here err s4_def [symmetric] s5_def [symmetric] s6_def [symmetric])
  qed
qed

section \<open>Timers\<close>

lemma take_socket_timer_safe:
  assumes inv: "tcp_inv s" and take: "take_socket_timer t s = (r, s1)"
  shows "safe X s s1" and "r = Some (i, p, c) \<Longrightarrow> conn_of s1 i c p"
proof -
  have "tcp_inv (s\<lparr>ts_timer_to_socket := a, ts_socket_to_timer := b\<rparr>)" for a b
    using inv by (simp add: tcp_inv_def)
  then show "safe X s s1" and "r = Some (i, p, c) \<Longrightarrow> conn_of s1 i c p"
    using take inv safe_refl [OF inv]
    by (auto simp: take_socket_timer_def conn_of_def Let_def split: option.splits intro!: safe_le)
qed

lemma onAsyncConnectTimeout_safe:
  assumes app: "app_safe app" and k: "detach_ok k" and inv: "tcp_inv s"
  shows "safe X s (onAsyncConnectTimeout k app t s)"
proof -
  obtain r s1 where take: "take_socket_timer t s = (r, s1)" by fastforce
  note step = take_socket_timer_safe [OF inv take]
  show ?thesis
  proof (cases r)
    case None
    then show ?thesis using step(1) by (simp add: onAsyncConnectTimeout_def take)
  next
    case (Some x)
    then obtain i p c where r: "r = Some (i, p, c)" by (cases x) auto
    have of: "conn_of s1 i c p" by (rule step(2) [OF r])
    have 2: "conn_step X i c p s1 (on_io (sock_close k p) s1)"
      unfolding on_io_def
      by (rule conn_step_dev [OF of dev_step_close [OF conn_of_facts(2) [OF of] k]])
    have "safe X s1 (report_error app c i ETIMEDOUT (on_io (sock_close k p) s1))"
      by (rule conn_step_then_safe [OF 2]) (rule report_error_safe [OF app])
    then show ?thesis
      using safe_trans [OF step(1)] conn_of_facts(7) [OF conn_step_of [OF 2]]
      by (simp add: onAsyncConnectTimeout_def take r)
  qed
qed

lemma onSendMessageError_safe:
  assumes app: "app_safe app" and inv: "tcp_inv s"
  shows "safe X s (onSendMessageError app t s)"
proof -
  obtain r s1 where take: "take_socket_timer t s = (r, s1)" by fastforce
  note step = take_socket_timer_safe [OF inv take]
  have 1: "safe X s1 (app call s1)" for call by (rule app_safeD [OF app safe_inv [OF step(1)]])
  show ?thesis
  proof (cases r)
    case None
    then show ?thesis using step(1) by (simp add: onSendMessageError_def take)
  next
    case (Some x)
    then obtain i p c where r: "r = Some (i, p, c)" by (cases x) auto
    note of = step(2) [OF r]
    show ?thesis
      using step(1) safe_trans [OF step(1) 1] conn_step_touch [OF of]
      by (simp add: onSendMessageError_def take r split: option.splits)
  qed
qed

lemma run_timer_safe:
  assumes "app_safe app" and "detach_ok k" and "tcp_inv s"
  shows "safe X s (run_timer k app cb t s)"
  using onAsyncConnectTimeout_safe [OF assms] onSendMessageError_safe [OF assms(1,3)]
    app_safeD [OF assms(1,3)]
  by (simp add: run_timer_def split: tcp_timer.splits)

section \<open>Receiving\<close>

text \<open>After a message the application may close the connection, but its id does not name another
  connection before the callback returns (the allocator would have to hand out all its ids).\<close>

definition ids_not_reused :: "app \<Rightarrow> bool" where
  "ids_not_reused app \<longleftrightarrow>
     (\<forall>f i s. tcp_inv s \<longrightarrow> ts_connections (app (RecvMessage f i) s) i = None \<or>
        ts_connections (app (RecvMessage f i) s) i = ts_connections s i)"

lemma recv_round_step:
  assumes app: "app_safe app" and of: "conn_of s i c p"
    and round: "recv_round k app p c i (e, d, pc, s) = (e', d', pc', s')"
  shows "if e' = Returned then safe X s s' else conn_step X i c p s s'"
proof -
  obtain r s1 where r: "call_io (sock_readableBytes k p) s = (r, s1)" by fastforce
  have 1: "conn_step X i c p s s1" by (rule conn_step_call [OF of _ r]) (auto intro: dev_steps)
  note of1 = conn_step_of [OF 1]
  let ?n = "nat (max 1 r)"
  define s3 where "s3 = set_conn c (\<lambda>m. m\<lparr>tc_read_buffer := reserveWritableBytes (tc_read_buffer m) ?n\<rparr>) s1"
  have 3: "conn_step X i c p s s3"
    by (rule conn_step_trans [OF 1]) (auto simp: s3_def conn_ok_def intro!: conn_step_field)
  obtain ret got s4 where recv: "call_io (sock_recv k p ?n) s3 = ((ret, got), s4)" by (metis prod.exhaust)
  have 4: "conn_step X i c p s s4"
    by (rule conn_step_trans [OF 3]) (rule conn_step_call [OF _ _ recv], auto intro: dev_steps)
  have 5: "conn_step X i c p s (set_conn c (\<lambda>m. m\<lparr>tc_read_buffer :=
      db_write (db_store (tc_read_buffer m) got) (nat ret)\<rparr>) s4)"
    by (rule conn_step_trans [OF 4]) (auto simp: conn_ok_def intro!: conn_step_field)
  have 6: "safe X s (report_error app c i err s4)" for err
    by (rule conn_step_then_safe [OF 4]) (rule report_error_safe [OF app])
  show ?thesis
    using round 1 4 5 6 conn_of_facts(6) [OF of1] conn_step_touch(1) [OF of]
    by (auto simp: recv_round_def r recv Let_def s3_def [symmetric] split: if_splits)
qed

lemma recv_loop_step:
  assumes app: "app_safe app" and of: "conn_of s i c p"
    and loop: "recv_loop k app p c i s = Some (e, d, pc, s')"
  shows "if e = Returned then safe X s s' else conn_step X i c p s s'"
proof -
  let ?P = "\<lambda>st :: recv_exit \<times> bool \<times> bool \<times> tcp_service. case st of (e, d, pc, s') \<Rightarrow>
    if e = Returned then safe X s s' else conn_step X i c p s s'"
  have "?P (e, d, pc, s')"
  proof (rule while_option_rule [where P = ?P, OF _ loop [unfolded recv_loop_def]])
    fix st
    assume P: "?P st" and go: "fst st = Going"
    obtain d1 pc1 s1 where st: "st = (Going, d1, pc1, s1)" using go by (cases st) auto
    obtain e' d' pc' s' where r: "recv_round k app p c i st = (e', d', pc', s')" by (metis prod.exhaust)
    have 1: "conn_step X i c p s s1" using P by (simp add: st)
    show "?P (recv_round k app p c i st)"
      using recv_round_step [OF app conn_step_of [OF 1] r [unfolded st], of X]
        conn_step_trans [OF 1] conn_step_then_safe [OF 1] r
      by (auto split: if_splits)
  qed (simp add: conn_step_refl [OF of])
  then show ?thesis by simp
qed

lemma recv_done_safe:
  assumes app: "app_safe app" and ids: "ids_not_reused app" and of: "conn_of s i c p"
  shows "safe X s (recv_done app c i data_arrive peer_close s)"
proof -
  have inv: "tcp_inv s" by (rule conn_of_inv [OF of])
  define s1 where "s1 = (if data_arrive then call_app app (\<lambda>f. RecvMessage f i) (ts_recv_message_cb s) s else s)"
  have 1: "safe X s s1" unfolding s1_def using call_app_safe [OF app inv] safe_refl [OF inv] by simp
  have conn1: "ts_connections s1 i = None \<or> ts_connections s1 i = Some c"
    using ids inv of unfolding s1_def call_app_def ids_not_reused_def conn_of_def
    by (cases data_arrive; cases "ts_recv_message_cb s"; fastforce)
  have open1: "data_arrive \<or> ts_connections s1 i = Some c" using of by (auto simp: s1_def conn_of_def)
  define s2 where "s2 = set_conn c (\<lambda>n. n\<lparr>tc_status := PEER_CLOSED\<rparr>) s1"
  have "safe X s1 (call_app app mk cb s2)" if "ts_connections s1 i = Some c" for mk cb
  proof -
    have "conn_step X i c (tc_socket (conn s1 c)) s1 s2"
      unfolding s2_def
      by (rule conn_step_field [OF conn_of_intro [OF safe_inv [OF 1] that]]) (simp_all add: conn_ok_def)
    then show ?thesis
      by (rule conn_step_then_safe) (auto intro: call_app_safe [OF app] conn_of_inv)
  qed
  then show ?thesis
    using 1 safe_trans [OF 1] conn1 open1
    by (auto simp: recv_done_def s1_def [symmetric] s2_def [symmetric] Let_def)
qed

lemma onSocketRead_safe:
  assumes app: "app_safe app" and ids: "ids_not_reused app" and inv: "tcp_inv s"
    and p: "ts_sockets s i = Some p" and ret: "onSocketRead k app p s = Some s'"
  shows "safe X s s'"
proof (cases "ts_connections s i")
  case None
  then show ?thesis
    using ret inv by (simp add: onSocketRead_def getSocketId_stored [OF inv p] safe_refl)
next
  case (Some c)
  have of: "conn_of s i c p" by (rule conn_of_stored [OF inv p Some])
  obtain e d pc s2 where loop: "recv_loop k app p c i s = Some (e, d, pc, s2)"
      and s': "s' = (if e = Returned then s2 else recv_done app c i d pc s2)"
    using ret by (auto simp: onSocketRead_def getSocketId_stored [OF inv p] Some split: option.splits)
  show ?thesis
    using recv_loop_step [OF app of loop, of X] conn_step_then_safe recv_done_safe [OF app ids]
    by (auto simp: s' split: if_splits)
qed

section \<open>Accepting\<close>

text \<open>Told of an accepted connection, the application leaves the listening socket open.\<close>

definition listener_kept :: "app \<Rightarrow> bool" where
  "listener_kept app \<longleftrightarrow>
     (\<forall>f l i s. tcp_inv s \<longrightarrow> l \<noteq> i \<longrightarrow>
        ts_sockets (app (NewConnection f l i) s) l = ts_sockets s l)"

lemma map_le_lookup: "m \<subseteq>\<^sub>m m' \<Longrightarrow> m x = Some y \<Longrightarrow> m' x = Some y"
  by (metis map_le_def domI)

lemma accept_round_safe:
  assumes app: "app_safe app" and kept: "listener_kept app" and k: "detach_ok k" and inv: "tcp_inv s"
    and p: "ts_sockets s l = Some p" and round: "accept_round k app p s = (go, s')"
  shows "safe X s s' \<and> ts_sockets s' l = Some p"
proof -
  obtain q s1 where new: "call_io new_TcpSocket s = (q, s1)" by fastforce
  note own1 = owned_new(1) [OF inv new, where X = X]
  have live1: "live (ts_io s1) p" using owned_new(2) [OF inv new] inv_socket_live [OF inv p] by blast
  have o1: "owned s1 q" using own1 by (simp add: owned_step_def)
  obtain ok s2 where acc: "call_io (acceptNonblock k p q) s1 = (ok, s2)" by fastforce
  have "owned_step X q s1 s2"
    by (rule owned_call [OF o1 _ acc])
       (use o1 k live1 in \<open>auto simp: owned_def intro: dev_steps\<close>)
  then have own2: "owned_step X q s s2" using owned_step_trans [OF own1] by blast
  then have o2: "owned s2 q" and p2: "ts_sockets s2 l = Some p"
    using p by (simp_all add: owned_step_def)
  have deleted: "safe_open X s (on_io (delete_TcpSocket k q) s2)"
    using owned_then_open [OF own2 owned_delete [OF _ k]] .
  have id2: "getSocketId p s2 = (l, s2)" using getSocketId_stored [OF _ p2] o2 by (simp add: owned_def)
  obtain i rel s3 where build: "buildConnectedSocket k q s2 = ((i, rel), s3)" by (metis prod.exhaust)
  note built = build_connected [OF o2 k, of X, unfolded build_result_def build prod.case]
  have unreleased: "safe_open X s (on_io (delete_TcpSocket k q) s3)" if "\<not> rel"
  proof (rule owned_then_open)
    show "owned_step X q s s3" using built that owned_step_trans [OF own2] by simp
  qed (rule owned_delete [OF _ k])
  have released: "safe_open X s s3" "ts_sockets s3 i = Some q" if rel
    using built that owned_then_open [OF own2] by (auto split: if_splits)
  have after: "safe X s s'" "ts_sockets s' l = Some p" if "safe_open X s s'" for s'
    using that p by (auto simp: safe_open_def intro: map_le_lookup)
  have "q \<noteq> p" using o2 p2 by (auto simp: owned_def)
  then have other: "l \<noteq> i" if rel using released(2) after(2) [OF released(1)] that by auto
  have told: "safe X s (app (NewConnection f l i) s3)" "ts_sockets (app (NewConnection f l i) s3) l = Some p"
    if rel for f
  proof -
    have inv3: "tcp_inv s3" using after(1) [OF released(1) [OF that]] by (rule safe_inv)
    show "safe X s (app (NewConnection f l i) s3)"
      using safe_trans [OF after(1) [OF released(1) [OF that]] app_safeD [OF app inv3]] .
    show "ts_sockets (app (NewConnection f l i) s3) l = Some p"
      using kept inv3 other [OF that] after(2) [OF released(1) [OF that]] by (simp add: listener_kept_def)
  qed
  have id3: "getSocketId p s3 = (l, s3)" if rel
    using getSocketId_stored [OF safe_inv] after [OF released(1) [OF that]] by blast
  have minus: "rel \<or> i = -1"
    using build by (auto simp: buildConnectedSocket_def Let_def split: prod.splits if_splits)
  show ?thesis
    using round deleted after unreleased released told id2 id3 minus
    by (auto simp: accept_round_def new acc build Let_def split: if_splits option.splits)
qed

lemma onListenSocketRead_safe:
  assumes app: "app_safe app" and kept: "listener_kept app" and k: "detach_ok k" and inv: "tcp_inv s"
    and p: "ts_sockets s l = Some p" and ret: "onListenSocketRead k app p s = Some s'"
  shows "safe X s s'"
proof -
  let ?P = "\<lambda>gs :: bool \<times> tcp_service. safe X s (snd gs) \<and> ts_sockets (snd gs) l = Some p"
  obtain go where loop: "while_option fst (\<lambda>gs. accept_round k app p (snd gs)) (True, s) = Some (go, s')"
    using ret by (auto simp: onListenSocketRead_def)
  have "?P (go, s')"
  proof (rule while_option_rule [where P = ?P, OF _ loop])
    fix gs
    assume P: "?P gs"
    obtain go' s1 where r: "accept_round k app p (snd gs) = (go', s1)" by fastforce
    show "?P (accept_round k app p (snd gs))"
      using accept_round_safe [OF app kept k safe_inv _ r] P safe_trans by (auto simp: r)
  qed (simp add: safe_refl [OF inv] p)
  then show ?thesis by simp
qed

section \<open>Opening\<close>

text \<open>A new socket, steps of its own, and then a builder or the end of the object.\<close>

lemma open_safe:
  assumes inv: "tcp_inv s" and k: "detach_ok k" and new: "call_io new_TcpSocket s = (p, s1)"
    and step: "\<And>w. live w p \<Longrightarrow> dev_step p w (snd (f w))" and call: "call_io f s1 = (r, s2)"
  shows "owned_step X p s s2" and "safe X s (on_io (delete_TcpSocket k p) s2)"
    and "\<And>b. (owned s2 p \<Longrightarrow> build_result X p s2 b) \<Longrightarrow> safe X s (snd (end_of_open k p b))"
proof -
  note own1 = owned_new(1) [OF inv new, where X = X]
  have o1: "owned s1 p" using own1 by (simp add: owned_step_def)
  have "owned_step X p s1 s2"
    by (rule owned_call [OF o1 step call]) (use o1 in \<open>simp add: owned_def\<close>)
  then show own2: "owned_step X p s s2" using owned_step_trans [OF own1] by blast
  show "safe X s (on_io (delete_TcpSocket k p) s2)"
    using owned_then_open [OF own2 owned_delete [OF _ k]] by (simp add: safe_open_def)
  show "safe X s (snd (end_of_open k p b))" if "owned s2 p \<Longrightarrow> build_result X p s2 b" for b
  proof -
    have "safe_open X s2 (snd (end_of_open k p b))"
      using end_of_open_safe [OF that k] own2 by (simp add: owned_step_def)
    then show ?thesis using owned_then_open [OF own2] by (simp add: safe_open_def)
  qed
qed

lemma opens_safe:
  assumes inv: "tcp_inv s" and k: "detach_ok k"
  shows "safe X s (snd (tcp_listen pton6 k a s))" and "safe X s (snd (tcp_connect pton6 k a s))"
    and "safe X s (snd (shareListen k fd s))"
proof -
  obtain p s1 where new: "call_io new_TcpSocket s = (p, s1)" by fastforce
  obtain r2 s2 where l: "call_io (passiveOpenNonblock pton6 k p a) s1 = (r2, s2)" by fastforce
  obtain r3 s3 where c: "call_io (activeOpenNonblock pton6 k p a) s1 = (r3, s3)" by fastforce
  obtain r4 s4 where d: "call_io (dupDescriptor k p fd) s1 = (r4, s4)" by fastforce
  have dup: "dev_step p w (snd (dupDescriptor k p fd w))" if "live w p" for w
    unfolding dupDescriptor_def
    by (rule dev_step_let)
       (use that in \<open>auto intro: dev_step_sys dev_step_refl dev_step_descriptor\<close>)
  have pass: "dev_step p w (snd (passiveOpenNonblock pton6 k p a w))"
    and act: "dev_step p w (snd (activeOpenNonblock pton6 k p a w))" if "live w p" for w
    using that k by (auto intro: dev_steps)
  note listened = open_safe [OF inv k new pass l, where X = X]
    and connected = open_safe [OF inv k new act c, where X = X]
    and duped = open_safe [OF inv k new dup d, where X = X]
  show "safe X s (snd (tcp_listen pton6 k a s))"
    using listened(2,3) build_listen [OF _ k] by (auto simp: tcp_listen_def new l)
  show "safe X s (snd (tcp_connect pton6 k a s))"
    using connected(2,3) build_connected [OF _ k] by (auto simp: tcp_connect_def new c)
  show "safe X s (snd (shareListen k fd s))"
    using duped(2,3) build_listen [OF _ k] by (auto simp: shareListen_def new d)
qed

lemma asyncConnect_safe:
  assumes inv: "tcp_inv s" and k: "detach_ok k"
  shows "safe X s (snd (asyncConnect pton6 k a ms s))"
proof -
  let ?f = "\<lambda>p w. let (opened, w2) = sock_open k p (fst (getProtocol pton6 a)) w
    in if opened then all_calls [setReuseAddr k p, setTcpNoDelay k p, setNonblock k p] w2 else (False, w2)"
  obtain p s1 where new: "call_io new_TcpSocket s = (p, s1)" by fastforce
  obtain opened s2 where o: "call_io (sock_open k p (fst (getProtocol pton6 a))) s1 = (opened, s2)" by fastforce
  have step: "dev_step p w (snd (?f p w))" if "live w p" for w
    by (rule dev_step_let)
       (use that k in \<open>auto simp del: all_calls.simps intro: dev_steps dev_step_refl
          intro!: dev_step_all_calls\<close>)
  obtain ok s3 where ok: "(if opened then call_io (all_calls [setReuseAddr k p, setTcpNoDelay k p,
      setNonblock k p]) s2 else (False, s2)) = (ok, s3)" by fastforce
  have call3: "call_io (?f p) s1 = (ok, s3)"
    using o ok by (auto simp: call_io_def simp del: all_calls.simps split: prod.splits if_splits)
  note own3 = open_safe [OF inv k new step call3, where X = X]
  obtain connected s4 where c: "call_io (sock_connect pton6 k p a) s3 = (connected, s4)" by fastforce
  have "owned_step X p s3 s4" if "owned s3 p"
    by (rule owned_call [OF that _ c]) (use that in \<open>auto simp: owned_def intro: dev_steps\<close>)
  then have own4: "owned_step X p s s4" using owned_step_trans [OF own3(1)] by blast
  have deleted: "safe X s (on_io (delete_TcpSocket k p) s4)"
    using owned_then_open [OF own4 owned_delete [OF _ k]] by (simp add: safe_open_def)
  have ended: "safe X s s5" if "end_of_open k p b = (i, s5)" "build_result X p s4 b" for b i s5
    using owned_then_open [OF own4 end_of_open_safe [OF that(2) k]] that(1) by (simp add: safe_open_def)
  have o4: "owned s4 p" using own4 by (simp add: owned_step_def)
  show ?thesis
    using own3(2) deleted ended build_connected [OF o4 k] build_async [OF o4 k]
    by (auto simp: asyncConnect_def new o ok c Let_def split: prod.splits)
qed

section \<open>The application\<close>

text \<open>What an application can do to the service in one callback: any sequence of calls of the
  interface of \<open>TcpService\<close> and of the timers and \<open>quit\<close> of its \<open>IOService\<close>, and any use of the
  read buffer it was handed. A send may run a send-complete callback, which does the same.\<close>

inductive api :: "kernel \<Rightarrow> tcp_service \<Rightarrow> tcp_service \<Rightarrow> bool" for k :: kernel where
  api_done: "api k s s"
| api_then: "api k s1 s2 \<Longrightarrow> api k s2 s3 \<Longrightarrow> api k s1 s3"
| api_listen: "api k s (snd (tcp_listen pton6 k a s))"
| api_shareListen: "api k s (snd (shareListen k fd s))"
| api_connect: "api k s (snd (tcp_connect pton6 k a s))"
| api_asyncConnect: "api k s (snd (asyncConnect pton6 k a ms s))"
| api_sendMessage: "(\<And>call s. api k s (f call s)) \<Longrightarrow> api k s (snd (tcp_sendMessage k f i buf cb s))"
| api_broadcast: "(\<And>call s. api k s (f call s)) \<Longrightarrow> api k s (broadcastMessage k f ids buf s)"
| api_closeSocket: "api k s (closeSocket k i s)"
| api_setContext: "api k s (snd (setContext i x s))"
| api_callbacks: "api k s (setNewConnectionCallback a (setRecvMessageCallback b
     (setPeerCloseCallback c (tcp_setErrorCallback d s))))"
| api_read_sizes: "0 < e \<Longrightarrow> api k s (setRecvBufferInitSize n (setRecvBufferExpandSize e (setRecvBufferMaxSize m s)))"
| api_write_sizes: "0 < e \<Longrightarrow> api k s (setSendBufferInitSize n (setSendBufferExpandSize e (setSendBufferMaxSize m s)))"
| api_read_buffer: "ts_connections s i = Some c \<Longrightarrow> 0 < db_expand_size b \<Longrightarrow>
     api k s (set_conn c (\<lambda>n. n\<lparr>tc_read_buffer := b\<rparr>) s)"
| api_addresses: "api k s (snd (tcp_getLocalAddress k i a s))"
| api_peer: "api k s (snd (tcp_getPeerAddress k i a s))"
| api_startTimer: "api k s (snd (call_io (startTimer k ms (UserTimer t) n) s))"
| api_stopTimer: "api k s (on_io (stopTimer t) s)"
| api_quit: "api k s (on_io quit s)"

lemma setContext_safe: "tcp_inv s \<Longrightarrow> safe X s (snd (setContext i x s))"
  by (rule safe_le) (auto simp: setContext_def tcp_inv_def split: option.splits)

lemma timers_safe:
  assumes "tcp_inv s"
  shows "safe X s (snd (call_io (startTimer k ms cb n) s))" and "safe X s (on_io (stopTimer t) s)"
    and "safe X s (on_io quit s)"
  by (rule safe_le; use assms in \<open>auto simp: tcp_inv_def call_io_def startTimer_def on_io_def
        stopTimer_def quit_def sys_def Let_def world_ok_def has_id_def keeps_def cbs_left_def
        split: prod.splits\<close>)+

lemma addresses_safe:
  assumes inv: "tcp_inv s"
  shows "safe X s (snd (tcp_getLocalAddress k i a s))" and "safe X s (snd (tcp_getPeerAddress k i a s))"
proof -
  have call: "safe X s (snd (call_io f s))"
    if p: "ts_sockets s i = Some p" and f: "\<And>w. live w p \<Longrightarrow> dev_step p w (snd (f w))"
    for p and f :: "tcp_io \<Rightarrow> (bool \<times> socket_address) \<times> tcp_io"
  proof -
    have step: "dev_step p (ts_io s) (snd (f (ts_io s)))"
      by (rule f) (rule inv_socket_live [OF inv p])
    have "tcp_inv (s\<lparr>ts_io := snd (f (ts_io s))\<rparr>)"
      using inv_on_io [OF inv dev_step_ok [OF step] dev_step_id [OF step]] tcp_invD(1) [OF inv] by blast
    then show ?thesis
      using dev_step_keeps [OF step] by (intro safe_le) (auto simp: call_io_def split: prod.splits)
  qed
  show "safe X s (snd (tcp_getLocalAddress k i a s))"
    by (cases "ts_sockets s i")
       (auto simp: tcp_getLocalAddress_def safe_refl [OF inv] intro: call dev_steps)
  show "safe X s (snd (tcp_getPeerAddress k i a s))"
    by (cases "ts_sockets s i")
       (auto simp: tcp_getPeerAddress_def safe_refl [OF inv] intro: call dev_steps)
qed

lemma settings_safe:
  assumes inv: "tcp_inv s"
  shows "safe X s (setNewConnectionCallback a (setRecvMessageCallback b
      (setPeerCloseCallback c (tcp_setErrorCallback d s))))"
    and "0 < e \<Longrightarrow> safe X s (setRecvBufferInitSize n (setRecvBufferExpandSize e (setRecvBufferMaxSize m s)))"
    and "0 < e \<Longrightarrow> safe X s (setSendBufferInitSize n (setSendBufferExpandSize e (setSendBufferMaxSize m s)))"
  by (rule safe_le; use inv in \<open>simp add: tcp_inv_def setNewConnectionCallback_def
        setRecvMessageCallback_def setPeerCloseCallback_def tcp_setErrorCallback_def
        setRecvBufferInitSize_def setRecvBufferExpandSize_def setRecvBufferMaxSize_def
        setSendBufferInitSize_def setSendBufferExpandSize_def setSendBufferMaxSize_def\<close>)+

lemma api_safe:
  assumes "api k s s'" and k: "detach_ok k" and "tcp_inv s"
  shows "safe {} s s'"
  using assms(1,3)
proof (induction rule: api.induct)
  case (api_then s1 s2 s3)
  then show ?case using safe_trans safe_inv by blast
next
  case (api_sendMessage f s i buf cb)
  then show ?case using sendMessage_safe [OF _ k] by (simp add: app_safe_def)
next
  case (api_broadcast f s ids buf)
  then show ?case using broadcast_safe [OF _ k] by (simp add: app_safe_def)
next
  case (api_read_buffer s i c b)
  have "conn_step {} i c (tc_socket (conn s c)) s (set_conn c (\<lambda>n. n\<lparr>tc_read_buffer := b\<rparr>) s)"
    by (rule conn_step_field [OF conn_of_intro [OF api_read_buffer(3,1)]])
       (use api_read_buffer(2) in \<open>simp_all add: conn_ok_def\<close>)
  then show ?case by (rule conn_step_safe)
qed (simp_all add: safe_refl opens_safe asyncConnect_safe closeSocket_safe setContext_safe
    settings_safe timers_safe addresses_safe k)

lemma api_app_safe: "(\<And>call s. api k s (app call s)) \<Longrightarrow> detach_ok k \<Longrightarrow> app_safe app"
  unfolding app_safe_def using api_safe by blast

end
