(* ===== verification/TcpLoop.thy ===== *)
theory TcpLoop
  imports TcpHandlers
begin

text \<open>
  \<open>TcpService\<close> under the event loop of its \<open>IOService\<close>: the two are put together by running the
  service's handlers as the loop's callbacks, and a round of the loop uses no deleted object.
\<close>

text \<open>The service's callbacks on the state of the loop, a pair of the \<open>IOService\<close> and the rest.\<close>

definition tcp_handle :: "kernel \<Rightarrow> app \<Rightarrow> (io_handler, tcp_timer, tcp_service) device_runner" where
  "tcp_handle k app h p st =
     map_option (\<lambda>s. (ts_io s, s)) (run_handler k app h p ((snd st)\<lparr>ts_io := fst st\<rparr>))"

definition tcp_timeout :: "kernel \<Rightarrow> app \<Rightarrow> (io_handler, tcp_timer, tcp_service) timer_runner" where
  "tcp_timeout k app cb timer_id st =
     (let s = run_timer k app cb timer_id ((snd st)\<lparr>ts_io := fst st\<rparr>) in (ts_io s, s))"

text \<open>The state as one record.\<close>

definition joined :: "tcp_io \<times> tcp_service \<Rightarrow> tcp_service" where
  "joined st = (snd st)\<lparr>ts_io := fst st\<rparr>"

lemma joined_io [simp]: "ts_io (joined st) = fst st"
  by (simp add: joined_def)

lemma joined_pair [simp]: "joined (ts_io s, s) = s"
  by (simp add: joined_def)

section \<open>Handlers of stored sockets\<close>

lemma run_handler_safe:
  assumes app: "app_safe app" "ids_not_reused app" "listener_kept app" and k: "detach_ok k"
    and inv: "tcp_inv s" and p: "ts_sockets s i = Some p" and run: "run_handler k app h p s = Some s'"
  shows "safe {p} s s'"
  using run onListenSocketRead_safe [OF app(1,3) k inv p] onSocketRead_safe [OF app(1,2) inv p]
    onAsyncConnectSocketWrite_safe [OF app(1) inv p] onSocketWrite_safe [OF app(1) k inv p]
    onSocketError_safe [OF app(1) inv p] app_safeD [OF app(1) inv]
  by (auto simp: run_handler_def split: io_handler.splits)

text \<open>What the kernel may report: a registered device, readable or writable only where a callback
  asked for it. \<open>w\<close> says whether the write callback is still asked for.\<close>

definition event_ok :: "bool \<Rightarrow> tcp_service \<Rightarrow> nat \<times> u32 \<Rightarrow> bool" where
  "event_ok w s ev \<longleftrightarrow>
     fst ev \<in> w_removed (ts_io s) \<or>
     (\<exists>i d. ts_sockets s i = Some (fst ev) \<and> w_devices (ts_io s) (fst ev) = Some d \<and> dev_attached d \<and>
        (snd ev AND (EPOLLIN OR EPOLLPRI OR EPOLLRDHUP) \<noteq> 0 \<longrightarrow> dev_read_cb d \<noteq> None) \<and>
        (w \<and> snd ev AND EPOLLOUT \<noteq> 0 \<longrightarrow> dev_write_cb d \<noteq> None))"

lemma event_okD:
  assumes "event_ok w s ev" and "w_devices (ts_io s) (fst ev) = Some d"
    and "fst ev \<notin> w_removed (ts_io s)"
  shows "snd ev AND (EPOLLIN OR EPOLLPRI OR EPOLLRDHUP) \<noteq> 0 \<Longrightarrow> dev_read_cb d \<noteq> None"
    and "w \<Longrightarrow> snd ev AND EPOLLOUT \<noteq> 0 \<Longrightarrow> dev_write_cb d \<noteq> None"
  using assms by (auto simp: event_ok_def)

lemma event_ok_kept:
  assumes "event_ok w s ev" and safe: "safe X s s'" and "w' \<longrightarrow> w \<and> fst ev \<notin> X"
  shows "event_ok w' s' ev"
proof (cases "fst ev \<in> w_removed (ts_io s')")
  case False
  have keeps: "keeps X (ts_io s) (ts_io s')" and stored: "stored_kept s s'"
    using safe by (simp_all add: safe_def)
  then have "fst ev \<notin> w_removed (ts_io s)" using False by (auto simp: keeps_def)
  then obtain i d where d: "ts_sockets s i = Some (fst ev)" "w_devices (ts_io s) (fst ev) = Some d"
      "dev_attached d"
    and cbs: "snd ev AND (EPOLLIN OR EPOLLPRI OR EPOLLRDHUP) \<noteq> 0 \<longrightarrow> dev_read_cb d \<noteq> None"
      "w \<and> snd ev AND EPOLLOUT \<noteq> 0 \<longrightarrow> dev_write_cb d \<noteq> None"
    using assms(1) by (auto simp: event_ok_def)
  obtain d' where d': "w_devices (ts_io s') (fst ev) = Some d'" "dev_attached d'"
      "cbs_left (fst ev \<in> X) d d'"
    using keepsD [OF keeps d(2,3) False] by blast
  have "ts_sockets s' i = Some (fst ev)" using stored d False by (auto simp: stored_kept_def)
  moreover have "snd ev AND (EPOLLIN OR EPOLLPRI OR EPOLLRDHUP) \<noteq> 0 \<longrightarrow> dev_read_cb d' \<noteq> None"
    using cbs(1) d'(3) by (simp add: cbs_left_def)
  moreover have "w' \<and> snd ev AND EPOLLOUT \<noteq> 0 \<longrightarrow> dev_write_cb d' \<noteq> None"
    using cbs(2) d'(3) assms(3) by (auto simp: cbs_left_def)
  ultimately show ?thesis unfolding event_ok_def using d' by blast
qed (simp add: event_ok_def)

lemma on_flags_safe:
  assumes app: "app_safe app" "ids_not_reused app" "listener_kept app" and k: "detach_ok k"
    and inv: "tcp_inv (joined st)" and ev: "event_ok w (joined st) ev"
    and cb: "\<And>d. w_devices (fst st) (fst ev) = Some d \<Longrightarrow> dev_attached d \<Longrightarrow>
        fst ev \<notin> w_removed (fst st) \<Longrightarrow> snd ev AND flags \<noteq> 0 \<Longrightarrow> get_cb d \<noteq> None"
    and run: "on_flags (tcp_handle k app) flags get_cb ev (go, st) = Some (go', st')"
  shows "safe {fst ev} (joined st) (joined st')"
proof (cases "go \<and> snd ev AND flags \<noteq> 0 \<and> fst ev \<notin> w_removed (fst st)")
  case False
  then show ?thesis
    using run safe_refl [OF inv] by (auto simp: on_flags_def checkIODeviceExist_def split: if_splits)
next
  case True
  then obtain i d where d: "ts_sockets (joined st) i = Some (fst ev)"
      "w_devices (fst st) (fst ev) = Some d" "dev_attached d"
    using ev by (auto simp: event_ok_def)
  then obtain h where h: "get_cb d = Some h" using cb [OF d(2,3)] True by blast
  have "map_option (Pair True) (tcp_handle k app h (fst ev) st) = Some (go', st')"
    using run True by (simp add: on_flags_def checkIODeviceExist_def call_device_def d h)
  then obtain s' where "run_handler k app h (fst ev) (joined st) = Some s'" "st' = (ts_io s', s')"
    by (auto simp: tcp_handle_def joined_def)
  then show ?thesis using run_handler_safe [OF app k inv d(1)] by simp
qed

lemma do_event_safe:
  assumes app: "app_safe app" "ids_not_reused app" "listener_kept app" and k: "detach_ok k"
    and inv: "tcp_inv (joined st)" and ev: "event_ok True (joined st) ev"
    and run: "do_event (tcp_handle k app) ev st = Some st'"
  shows "safe {fst ev} (joined st) (joined st')"
proof -
  let ?H = "tcp_handle k app"
  obtain g1 t1 where r1: "on_flags ?H EPOLLOUT dev_write_cb ev (True, st) = Some (g1, t1)"
    using run by (cases "on_flags ?H EPOLLOUT dev_write_cb ev (True, st)") (auto simp: do_event_def)
  obtain g2 t2 where r2: "on_flags ?H (EPOLLIN OR EPOLLPRI OR EPOLLRDHUP) dev_read_cb ev (g1, t1) = Some (g2, t2)"
    using run by (cases "on_flags ?H (EPOLLIN OR EPOLLPRI OR EPOLLRDHUP) dev_read_cb ev (g1, t1)")
      (auto simp: do_event_def r1)
  obtain g3 where r3: "on_flags ?H (EPOLLERR OR EPOLLHUP) dev_error_cb ev (g2, t2) = Some (g3, st')"
    using run by (auto simp: do_event_def r1 r2)
  have s1: "safe {fst ev} (joined st) (joined t1)"
    by (rule on_flags_safe [OF app k inv ev _ r1]) (use event_okD(2) [OF ev] in simp)
  have ev1: "event_ok False (joined t1) ev" by (rule event_ok_kept [OF ev s1]) simp
  have s2: "safe {fst ev} (joined t1) (joined t2)"
    by (rule on_flags_safe [OF app k safe_inv [OF s1] ev1 _ r2]) (use event_okD(1) [OF ev1] in simp)
  have ev2: "event_ok False (joined t2) ev" by (rule event_ok_kept [OF ev1 s2]) simp
  have "world_ok (fst t2)" using tcp_invD(1) [OF safe_inv [OF s2]] by simp
  then have "safe {fst ev} (joined t2) (joined st')"
    by (intro on_flags_safe [OF app k safe_inv [OF s2] ev2 _ r3]) (auto simp: world_ok_def)
  then show ?thesis using safe_trans [OF s1 safe_trans [OF s2]] by blast
qed

lemma do_events_safe:
  assumes app: "app_safe app" "ids_not_reused app" "listener_kept app" and k: "detach_ok k"
    and "tcp_inv (joined st)" and "\<forall>ev \<in> set evs. event_ok True (joined st) ev"
    and "distinct (map fst evs)" and "do_events (tcp_handle k app) evs st = Some st'"
  shows "tcp_inv (joined st')"
  using assms(5-)
proof (induction evs arbitrary: st)
  case (Cons ev evs)
  obtain t1 where t1: "do_event (tcp_handle k app) ev st = Some t1"
      and rest: "do_events (tcp_handle k app) evs t1 = Some st'"
    using Cons.prems(4) by (auto split: option.splits)
  have s1: "safe {fst ev} (joined st) (joined t1)"
    using do_event_safe [OF app k Cons.prems(1) _ t1] Cons.prems(2) by simp
  have "event_ok True (joined t1) e" if e: "e \<in> set evs" for e
  proof (rule event_ok_kept [OF _ s1])
    show "event_ok True (joined st) e" using Cons.prems(2) e by simp
    have "fst e \<in> set (map fst evs)" using e by simp
    moreover have "fst ev \<notin> set (map fst evs)" using Cons.prems(3) by simp
    ultimately have "fst e \<noteq> fst ev" by metis
    then show "True \<longrightarrow> True \<and> fst e \<notin> {fst ev}" by simp
  qed
  then show ?case using Cons.IH [OF safe_inv [OF s1]] Cons.prems(3) rest by simp
qed auto

section \<open>Timers\<close>

lemma checkTimeout_safe:
  assumes app: "app_safe app" and k: "detach_ok k"
    and run: "checkTimeout (\<lambda>cb timer_id (h, w, x). let (w1, x1) = tcp_timeout k app cb timer_id
        (w\<lparr>w_timers := h\<rparr>, x) in (w_timers w1, w1, x1)) now (h, w, s) = Some (h', w', s')"
    and inv: "tcp_inv (joined (w, s))"
  shows "tcp_inv (joined (w', s'))"
proof -
  let ?run = "\<lambda>cb timer_id (h, w, x). let (w1, x1) = tcp_timeout k app cb timer_id
        (w\<lparr>w_timers := h\<rparr>, x) in (w_timers w1, w1, x1)"
  have timers: "tcp_inv (s\<lparr>ts_io := w\<lparr>w_timers := h\<rparr>\<rparr>)" if "tcp_inv (s\<lparr>ts_io := w\<rparr>)" for s w h
    using that by (simp add: tcp_inv_def world_ok_def has_id_def)
  have "tcp_inv (joined (snd (h', w', s')))"
  proof (rule checkTimeout_rule [OF run, of "\<lambda>st. tcp_inv (joined (snd st))", THEN conjunct1])
    fix timer_id cb h and st :: "tcp_timer timer_heap \<times> tcp_io \<times> tcp_service"
    assume pre: "tcp_inv (joined (snd st))"
    obtain h0 w0 s0 where st: "st = (h0, w0, s0)" by (cases st) auto
    define s1 where "s1 = run_timer k app cb timer_id (s0\<lparr>ts_io := w0\<lparr>w_timers := h\<rparr>\<rparr>)"
    have "tcp_inv (s0\<lparr>ts_io := w0\<lparr>w_timers := h\<rparr>\<rparr>)"
      using timers pre by (simp add: st joined_def)
    then have "tcp_inv s1" unfolding s1_def using run_timer_safe [OF app k] safe_inv by blast
    then show "tcp_inv (joined (snd (?run cb timer_id (h, snd st))))"
      by (simp add: st tcp_timeout_def s1_def [symmetric] Let_def)
  qed (use inv in simp)
  then show ?thesis by simp
qed

section \<open>A round of the loop\<close>

text \<open>The events the kernel reports in a round that starts in \<open>st\<close>.\<close>

definition reported :: "kernel \<Rightarrow> tcp_io \<Rightarrow> (nat \<times> u32) list" where
  "reported k w =
     (let (now, w1) = sys k K_gettime w;
          timer_timeout = to_int32 (getNextTimeoutMillisecond (w_timers w1) (a_time now));
          (a, w2) = sys k (K_epoll_wait (w_epoll_fd w1) (w_event_slots w1)
                             (min timer_timeout MAX_EPOLL_TIMEOUT_MSEC)) w1
      in take (nat (a_ret a)) (a_events a))"

text \<open>Kernel calls that belong to no device.\<close>

lemma joined_sys:
  assumes "tcp_inv (joined st)"
  shows "tcp_inv (joined (snd (sys k c (fst st)), snd st))"
    and "event_ok w (joined (snd (sys k c (fst st)), snd st)) ev = event_ok w (joined st) ev"
  using assms by (simp_all add: joined_def tcp_inv_def world_ok_def has_id_def event_ok_def)

lemma joined_fields:
  assumes "tcp_inv (joined (w, x))" and "w_devices w' = w_devices w" and "w_next w' = w_next w"
    and "w_fault w' = w_fault w"
  shows "tcp_inv (joined (w', x))"
  using assms by (simp add: joined_def tcp_inv_def world_ok_def has_id_def)

lemma check_timers_safe:
  assumes app: "app_safe app" and k: "detach_ok k" and inv: "tcp_inv (joined st)"
    and run: "check_timers (tcp_timeout k app) now st = Some st'"
  shows "tcp_inv (joined st')"
proof -
  obtain w s where st: "st = (w, s)" by (cases st)
  obtain h' w' s' where out: "checkTimeout (\<lambda>cb timer_id (h, w, x). let (w1, x1) = tcp_timeout k app cb timer_id
        (w\<lparr>w_timers := h\<rparr>, x) in (w_timers w1, w1, x1)) now (w_timers w, w, s) = Some (h', w', s')"
      and st': "st' = (w'\<lparr>w_timers := h'\<rparr>, s')"
    using run by (auto simp: check_timers_def st)
  have "tcp_inv (joined (w', s'))"
    by (rule checkTimeout_safe [OF app k out]) (use inv in \<open>simp add: st\<close>)
  then show ?thesis unfolding st' by (rule joined_fields) simp_all
qed

lemma loop_round_safe:
  assumes app: "app_safe app" "ids_not_reused app" "listener_kept app" and k: "detach_ok k"
    and inv: "tcp_inv (joined st)" and evs: "\<forall>ev \<in> set (reported k (fst st)). event_ok True (joined st) ev"
    and dist: "distinct (map fst (reported k (fst st)))"
    and run: "loop_round k (tcp_handle k app) (tcp_timeout k app) st = Some (e, st')"
  shows "tcp_inv (joined st')"
proof -
  obtain now w1 where 1: "sys k K_gettime (fst st) = (now, w1)" by fastforce
  define ms where "ms = min (to_int32 (getNextTimeoutMillisecond (w_timers w1) (a_time now))) MAX_EPOLL_TIMEOUT_MSEC"
  obtain a w2 where 2: "sys k (K_epoll_wait (w_epoll_fd w1) (w_event_slots w1) ms) w1 = (a, w2)" by fastforce
  have inv1: "tcp_inv (joined (w1, snd st))" using joined_sys(1) [OF inv, where k = k and c = K_gettime] 1 by simp
  have inv2: "tcp_inv (joined (w2, snd st))" using joined_sys(1) [OF inv1, where k = k] 2 by (metis fst_conv snd_conv)
  have rep: "reported k (fst st) = take (nat (a_ret a)) (a_events a)"
    using 1 2 by (simp add: reported_def ms_def [symmetric])
  have "event_ok True (joined (w2, snd st)) ev = event_ok True (joined st) ev" for ev
    using joined_sys(2) [OF inv, where k = k and c = K_gettime and w = True and ev = ev] 1
      joined_sys(2) [OF inv1, where k = k and w = True and ev = ev] 2
    by (metis fst_conv snd_conv)
  then have evs2: "\<forall>ev \<in> set (reported k (fst st)). event_ok True (joined (w2, snd st)) ev"
    using evs by simp
  show ?thesis
  proof (cases "a_ret a = -1")
    case True
    then show ?thesis using run inv2 by (simp add: loop_round_def 1 2 ms_def [symmetric] Let_def)
  next
    case False
    then obtain s3 where 3: "do_events (tcp_handle k app) (reported k (fst st)) (w2, snd st) = Some s3"
      using run by (auto simp: loop_round_def 1 2 ms_def [symmetric] rep Let_def split: option.splits)
    have inv3: "tcp_inv (joined s3)" by (rule do_events_safe [OF app k inv2 evs2 dist 3])
    obtain now4 w4 where 4: "sys k K_gettime (fst s3) = (now4, w4)" by fastforce
    have inv4: "tcp_inv (joined (w4, snd s3))" using joined_sys(1) [OF inv3, where k = k and c = K_gettime] 4 by simp
    obtain s5 where 5: "check_timers (tcp_timeout k app) (a_time now4) (w4, snd s3) = Some s5"
      using run False 3 4 by (auto simp: loop_round_def 1 2 ms_def [symmetric] rep Let_def split: option.splits)
    have inv5: "tcp_inv (joined s5)" by (rule check_timers_safe [OF app(1) k inv4 5])
    show ?thesis
      using run False 3 4 5 joined_fields [of "fst s5" "snd s5"] inv5
      by (auto simp: loop_round_def 1 2 ms_def [symmetric] rep Let_def)
  qed
qed

section \<open>Reachable states\<close>

text \<open>The program: it creates the two services, calls the interface in any order, and runs rounds
  of the loop in which the kernel reports each registered device at most once, for what it asked.\<close>

inductive tcp_reach :: "kernel \<Rightarrow> app \<Rightarrow> tcp_io \<times> tcp_service \<Rightarrow> bool" for k app where
  started: "IOService k = Some w \<Longrightarrow> tcp_reach k app (w, TcpService w)"
| called: "tcp_reach k app st \<Longrightarrow> api k (joined st) s \<Longrightarrow> tcp_reach k app (ts_io s, s)"
| looped: "tcp_reach k app st \<Longrightarrow> \<forall>ev \<in> set (reported k (fst st)). event_ok True (joined st) ev \<Longrightarrow>
    distinct (map fst (reported k (fst st))) \<Longrightarrow>
    loop_round k (tcp_handle k app) (tcp_timeout k app) st = Some (e, st') \<Longrightarrow> tcp_reach k app st'"

lemma started_inv: "IOService k = Some w \<Longrightarrow> tcp_inv (TcpService w)"
  by (auto simp: IOService_def sys_def Let_def TcpService_def tcp_inv_def world_ok_def split: if_splits)

lemma joined_started: "joined (w, TcpService w) = TcpService w"
  by (simp add: joined_def TcpService_def)

lemma app_reach_inv:
  assumes "tcp_reach k app st" and app: "app_safe app"
    and "listener_kept app" and "ids_not_reused app" and k: "detach_ok k"
  shows "tcp_inv (joined st)"
  using assms(1)
proof (induction rule: tcp_reach.induct)
  case (started w)
  then show ?case by (simp add: joined_started started_inv)
next
  case (called st s)
  then show ?case using api_safe [OF called(2) k] by (simp add: safe_def)
next
  case (looped st e st')
  then show ?case using loop_round_safe [OF app assms(4,3) k] by blast
qed

lemma tcp_reach_inv:
  assumes "tcp_reach k app st" and "\<And>call s. api k s (app call s)"
    and "listener_kept app" and "ids_not_reused app" and "detach_ok k"
  shows "tcp_inv (joined st)"
  by (rule app_reach_inv [OF assms(1) api_app_safe [OF assms(2,5)] assms(3-5)])

text \<open>An echo server used in the witnesses: it answers every message with the bytes in its read
  buffer and closes a connection the peer closed. The kernel grants everything, has one connection
  waiting, and reports the first device readable.\<close>

definition ok_answer :: "int \<Rightarrow> answer" where
  "ok_answer r = \<lparr>a_ret = r, a_errno = 0, a_bytes = [], a_time = Timestamp 0 0,
     a_addr = Sockaddr_zero, a_value = 0, a_value2 = 0, a_events = []\<rparr>"

fun is_accept :: "kcall \<Rightarrow> bool" where
  "is_accept (K_accept fd) = True"
| "is_accept _ = False"

definition echo_kernel :: kernel where
  "echo_kernel h c =
     (case c of
        K_epoll_create1 \<Rightarrow> ok_answer 3
      | K_dup fd \<Rightarrow> ok_answer 4
      | K_accept fd \<Rightarrow> (if list_ex (\<lambda>e. is_accept (fst e)) h
                       then (ok_answer (-1))\<lparr>a_errno := EAGAIN\<rparr> else ok_answer 5)
      | K_epoll_wait ep n ms \<Rightarrow> (ok_answer 1)\<lparr>a_events := [(0, EPOLLIN)]\<rparr>
      | _ \<Rightarrow> ok_answer 0)"

definition echo_app :: app where
  "echo_app call s =
     (case call of
        RecvMessage f i \<Rightarrow>
          (case ts_connections s i of
             None \<Rightarrow> s
           | Some c \<Rightarrow> snd (tcp_sendMessage echo_kernel (\<lambda>call s. s) i
                              (db_content (tc_read_buffer (conn s c))) None s))
      | PeerClose f i \<Rightarrow> closeSocket echo_kernel i s
      | _ \<Rightarrow> s)"

lemma echo_app_api: "api echo_kernel s (echo_app call s)"
  by (auto simp: echo_app_def split: app_call.splits option.splits
      intro: api_done api_sendMessage api_closeSocket)

lemma echo_app_ok: "listener_kept echo_app" "ids_not_reused echo_app" "detach_ok echo_kernel"
  by (auto simp: listener_kept_def ids_not_reused_def detach_ok_def echo_app_def echo_kernel_def
      ok_answer_def sendMessage_connections split: option.splits)

definition echo_start :: tcp_service where
  "echo_start = snd (shareListen echo_kernel 9 (setNewConnectionCallback (Some 0)
     (setRecvMessageCallback (Some 0) (setPeerCloseCallback (Some 0) (tcp_setErrorCallback None
        (TcpService (the (IOService echo_kernel))))))))"

lemma echo_start_reach: "tcp_reach echo_kernel echo_app (ts_io echo_start, echo_start)"
proof -
  have "IOService echo_kernel \<noteq> None" by code_simp
  then have "tcp_reach echo_kernel echo_app (the (IOService echo_kernel), TcpService (the (IOService echo_kernel)))"
    by (intro started) (rule option.collapse [symmetric])
  then show ?thesis
    by (rule called) (simp only: echo_start_def joined_started, rule api_then [OF api_callbacks api_shareListen])
qed

text \<open>Running the model on the demonstration: the definitions, unfolded one call at a time (an
  argument is a value before the body of its \<open>let\<close> is entered).\<close>

lemmas tcp_eval =
  io_max_def EAGAIN_def EINTR_def EAFNOSUPPORT_def ECONNABORTED_def ENOBUFS_def ETIMEDOUT_def
  EINPROGRESS_def EPOLLIN_def EPOLLPRI_def EPOLLOUT_def EPOLLERR_def EPOLLHUP_def EPOLLRDHUP_def
  O_NONBLOCK_def FD_CLOEXEC_def sys_def fault_def IODevice_def new_device_def set_device_def
  dev_def touch_def interest_def addIODevice_def removeIODevice_def updateIODevice_def
  checkIODeviceExist_def detachIOService_def attachIOService_def setId_def setDescriptor_def
  dupDescriptor_def setReadCallback_def setWriteCallback_def setErrorCallback_def io_read_def
  io_write_def setNonblock_def setCloseOnExec_def startTimer_def stopTimer_def quit_def
  IOService_def new_TcpSocket_def sock_close_def delete_TcpSocket_def sock_open_def
  sock_connect_def sock_bind_def sock_listen_def sock_accept_def sock_getLocalAddress_def
  sock_getPeerAddress_def sock_readableBytes_def sock_recv_def sock_send_def shutdownRead_def
  shutdownWrite_def shutdownBoth_def getSocketError_def setReuseAddr_def setTcpNoDelay_def
  activeOpen_def activeOpenNonblock_def passiveOpen_def passiveOpenNonblock_def
  acceptNonblock_def MAX_EPOLL_TIMEOUT_MSEC_def call_device_def on_flags_def do_event_def
  check_timers_def loop_round_def io_loop_def destroy_IOService_def TcpConnection_def
  tc_setError_def ts_fault_def conn_def touch_conn_def set_conn_def new_conn_def delete_conn_def
  on_io_def call_io_def getSocketId_def call_app_def addSocketTimer_def removeSocketTimer_def
  buildListenSocket_def buildConnectedSocket_def buildAsyncConnectSocket_def closeSocket_def
  run_send_complete_def run_send_complete_if_def send_failed_def buffer_message_def
  send_remain_def sendMessage_on_def tcp_sendMessage_def sendMessageThenClose_def
  broadcastMessage_def accept_round_def onListenSocketRead_def report_error_def
  onAsyncConnectSocketWrite_def take_socket_timer_def onAsyncConnectTimeout_def
  onSendMessageError_def recv_round_def recv_loop_def recv_done_def onSocketRead_def
  onSocketWrite_def onSocketError_def run_handler_def run_timer_def end_of_open_def
  tcp_listen_def shareListen_def tcp_connect_def asyncConnect_def isConnected_def
  tcp_getLocalAddress_def tcp_getPeerAddress_def getContext_def setContext_def
  setNewConnectionCallback_def setRecvMessageCallback_def setPeerCloseCallback_def
  tcp_setErrorCallback_def setRecvBufferInitSize_def setRecvBufferExpandSize_def
  setRecvBufferMaxSize_def setSendBufferInitSize_def setSendBufferExpandSize_def
  setSendBufferMaxSize_def TcpService_def destroy_TcpService_def null_timer_def TimerHeap_def
  getId_def Timer_def deref_def update_timer_def setHeapPos_def heap_key_def swap_nodes_def
  minHeapInsert_def minHeapTop_def getNextTimeoutMillisecond_def addTimer_def removeTimer_def
  check_due_def echo_kernel_def ok_answer_def echo_app_def tcp_handle_def tcp_timeout_def
  reported_def
  Let_def

lemmas eval_cong = let_weak_cong prod.case_cong_weak option.case_cong_weak

lemma echo_ids [simp]: "socketId 4 0 = (4294967300, 1)" "socketId 5 1 = (8589934597, 2)"
  by code_simp+

section \<open>Properties\<close>

text \<open>C1. For an application that keeps two conditions: whatever it does through the interface, in callbacks or
  between them, no round of the event loop uses a deleted socket or connection, calls a null callback or
  divides by a zero expand size; and the maps stay consistent: a socket is stored under its own id, and every
  connection is a live object of the socket stored under the same id. The conditions are that the application
  does not close the listening socket while it is told of an accepted connection (\<open>listener_kept\<close>; the
  code goes on accepting on it, see \<open>closed_listener_is_used\<close>), and that the id of a connection is not given
  out again while the callback for its message runs (\<open>ids_not_reused\<close>). The kernel may answer anything, except
  that \<open>epoll\<close> reports a registered device at most once in a round and only for what was asked, and
  that taking a registered descriptor out of \<open>epoll\<close> succeeds (\<open>detach_ok\<close>).\<close>

theorem no_deleted_object_is_used:
  assumes reach: "tcp_reach k app st" and app: "\<And>call s. api k s (app call s)"
    and polite: "listener_kept app" "ids_not_reused app" and k: "detach_ok k"
  shows "\<not> w_fault (fst st) \<and>
    (\<forall>i p. ts_sockets (snd st) i = Some p \<longrightarrow>
       (\<exists>d. w_devices (fst st) p = Some d \<and> dev_id d = i)) \<and>
    (\<forall>i c. ts_connections (snd st) i = Some c \<longrightarrow>
       (\<exists>n. ts_conns (snd st) c = Some n \<and> ts_sockets (snd st) i = Some (tc_socket n))) \<and>
    (\<forall>c. ts_conns (snd st) c \<noteq> None \<longrightarrow> (\<exists>i. ts_connections (snd st) i = Some c))"
proof -
  have "tcp_inv (joined st)" by (rule tcp_reach_inv [OF reach app polite k])
  then show ?thesis by (auto simp: tcp_inv_def joined_def world_ok_def has_id_def)
qed

lemma echo_round:
  "\<exists>st. loop_round echo_kernel (tcp_handle echo_kernel echo_app) (tcp_timeout echo_kernel echo_app)
       (ts_io echo_start, echo_start) = Some (Again, st) \<and>
     tcp_reach echo_kernel echo_app st \<and> ts_connections (snd st) = [8589934597 \<mapsto> 0]"
proof -
  have rep: "reported echo_kernel (ts_io echo_start) = [(0, EPOLLIN)]"
    by (simp add: echo_start_def tcp_eval cong: eval_cong)
  have ev: "event_ok True echo_start (0, EPOLLIN)"
    unfolding event_ok_def
    by (rule disjI2, rule exI [of _ 4294967300])
       (simp add: echo_start_def tcp_eval cong: eval_cong)
  obtain st where st: "loop_round echo_kernel (tcp_handle echo_kernel echo_app)
      (tcp_timeout echo_kernel echo_app) (ts_io echo_start, echo_start) = Some (Again, st)"
    and conn: "ts_connections (snd st) = [8589934597 \<mapsto> 0]"
    by (simp add: echo_start_def tcp_eval while_option_unfold checkTimeout.simps cong: eval_cong)
  have "tcp_reach echo_kernel echo_app st"
    by (rule looped [OF echo_start_reach _ _ st]) (simp_all add: rep ev)
  then show ?thesis using st conn by blast
qed

theorem no_deleted_object_is_used_witness:
  "\<exists>st. loop_round echo_kernel (tcp_handle echo_kernel echo_app) (tcp_timeout echo_kernel echo_app)
       (ts_io echo_start, echo_start) = Some (Again, st) \<and>
     ts_connections (snd st) = [8589934597 \<mapsto> 0] \<and> \<not> w_fault (fst st)"
  using echo_round no_deleted_object_is_used [OF _ echo_app_api echo_app_ok] by blast

text \<open>The condition on the listening socket is needed: \<open>onListenSocketRead\<close> goes on accepting on it
  after the callback.\<close>

definition closing_app :: app where
  "closing_app call s =
     (case call of NewConnection f l i \<Rightarrow> closeSocket echo_kernel l s | _ \<Rightarrow> s)"

lemma closed_listener_is_used:
  "\<exists>s. onListenSocketRead echo_kernel closing_app 0 echo_start = Some s \<and> w_fault (ts_io s)"
  by (simp add: echo_start_def tcp_eval closing_app_def while_option_unfold cong: eval_cong)

end
