(* ===== verification/TcpStream.thy ===== *)
theory TcpStream
  imports TcpLoop
begin

text \<open>
  The bytes of a connection. \<open>wire_out\<close> and \<open>wire_in\<close> are the bytes the kernel has taken from and
  given to the code on a descriptor, read off the history of calls; with the two buffers of the
  connection they are its outgoing and its incoming stream. The theorems say what \<open>sendMessage\<close>
  adds to the outgoing stream, that the write events drain the buffer in order and then report
  once, and that a read event ends and appends exactly what arrived.
\<close>

section \<open>Bytes on the wire\<close>

definition sent_by :: "int \<Rightarrow> kcall \<times> answer \<Rightarrow> bytes" where
  "sent_by fd ca =
     (case fst ca of K_send fd' xs \<Rightarrow> if fd' = fd then take (nat (a_ret (snd ca))) xs else [] | _ \<Rightarrow> [])"

definition received_by :: "int \<Rightarrow> kcall \<times> answer \<Rightarrow> bytes" where
  "received_by fd ca =
     (case fst ca of K_recv fd' n \<Rightarrow> if fd' = fd then a_bytes (snd ca) else [] | _ \<Rightarrow> [])"

definition wire_out :: "int \<Rightarrow> history \<Rightarrow> bytes" where
  "wire_out fd h = concat (map (sent_by fd) h)"

definition wire_in :: "int \<Rightarrow> history \<Rightarrow> bytes" where
  "wire_in fd h = concat (map (received_by fd) h)"

lemma wire_append [simp]:
  "wire_out fd (h @ h') = wire_out fd h @ wire_out fd h'" "wire_out fd [] = []"
  "wire_out fd [ca] = sent_by fd ca"
  "wire_in fd (h @ h') = wire_in fd h @ wire_in fd h'" "wire_in fd [] = []"
  "wire_in fd [ca] = received_by fd ca"
  by (simp_all add: wire_out_def wire_in_def)

lemma other_calls [simp]:
  "sent_by fd (K_epoll_mod a b c d, x) = []" "sent_by fd (K_gettime, x) = []"
  "sent_by fd (K_recv a n, x) = []" "sent_by fd (K_fionread a, x) = []"
  "sent_by fd (K_send fd xs, x) = take (nat (a_ret x)) xs"
  "received_by fd (K_epoll_mod a b c d, x) = []" "received_by fd (K_gettime, x) = []"
  "received_by fd (K_send a xs, x) = []" "received_by fd (K_fionread a, x) = []"
  "received_by fd (K_recv fd n, x) = a_bytes x"
  by (simp_all add: sent_by_def received_by_def)

text \<open>The descriptor of a socket, and what the kernel and the buffer hold of the outgoing stream.\<close>

definition fd_of :: "tcp_service \<Rightarrow> nat \<Rightarrow> int" where
  "fd_of s p = dev_fd (dev (ts_io s) p)"

definition wire_sent :: "tcp_service \<Rightarrow> nat \<Rightarrow> bytes" where
  "wire_sent s p = wire_out (fd_of s p) (w_history (ts_io s))"

definition unsent :: "tcp_service \<Rightarrow> nat \<Rightarrow> bytes" where
  "unsent s c = db_content (tc_write_buffer (conn s c))"

definition out_stream :: "tcp_service \<Rightarrow> nat \<Rightarrow> nat \<Rightarrow> bytes" where
  "out_stream s c p = wire_sent s p @ unsent s c"

section \<open>Steps that send nothing\<close>

lemma send_call:
  fixes xs :: bytes
  assumes "kernel_ok k" and "live w p"
  defines "a \<equiv> k (w_history w) (K_send (dev_fd (dev w p)) (xs :: bytes))"
  shows "sock_send k p xs w = (a_ret a, snd (sys k (K_send (dev_fd (dev w p)) xs) w))"
    and "-1 \<le> a_ret a" and "a_ret a \<le> int (length xs)"
proof -
  have a: "-1 \<le> a_ret a" "a_ret a \<le> io_max" "a_ret a \<le> int (length xs)"
    using assms(1) by (simp_all add: kernel_ok_def a_def Let_def)
  have "to_int32 (a_ret a) = a_ret a"
    using a by (simp add: to_int32_def io_max_def signed_take_bit_int_eq_self)
  then show "sock_send k p xs w = (a_ret a, snd (sys k (K_send (dev_fd (dev w p)) xs) w))"
    using assms(2) by (simp add: sock_send_def sys_def a_def Let_def)
  show "-1 \<le> a_ret a" "a_ret a \<le> int (length xs)" using a by simp_all
qed

lemma sys_history [simp]: "w_history (snd (sys k c w)) = w_history w @ [(c, k (w_history w) c)]"
  "w_errno (snd (sys k c w)) = (let a = k (w_history w) c in if a_ret a = -1 then a_errno a else w_errno w)"
  by (simp_all add: sys_def Let_def)

lemma setWriteCallback_wire:
  assumes "live w p"
  shows "wire_out fd (w_history (setWriteCallback k p cb w)) = wire_out fd (w_history w)"
    and "dev (setWriteCallback k p cb w) p = (dev w p)\<lparr>dev_write_cb := cb\<rparr>"
  using assms
  by (auto simp: setWriteCallback_def updateIODevice_def set_device_def live_def dev_def touch_def sys_def Let_def)

lemma addSocketTimer_wire:
  "wire_out fd (w_history (ts_io (addSocketTimer k j ms cb s))) = wire_out fd (w_history (ts_io s))"
  "w_devices (ts_io (addSocketTimer k j ms cb s)) = w_devices (ts_io s)"
  "ts_conns (addSocketTimer k j ms cb s) = ts_conns s"
  by (simp_all add: addSocketTimer_def call_io_def startTimer_def sys_def Let_def split: prod.splits)

lemma set_conn_stored: "ts_conns s c = Some n \<Longrightarrow> set_conn c f s = s\<lparr>ts_conns := (ts_conns s)(c \<mapsto> f n)\<rparr>"
  by (simp add: set_conn_def)

lemma conn_stored: "ts_conns s c = Some n \<Longrightarrow> conn s c = n"
  by (simp add: conn_def)

section \<open>The parts of \<open>sendMessage\<close>\<close>

lemma buffer_message_stream:
  assumes of: "conn_of s i c p" and inv: "db_inv (tc_write_buffer (conn s c))"
    and room: "length (unsent s c) + n < db_limit" and n: "n \<le> length buf"
    and s'_def: "s' = buffer_message k c buf n cb s"
  shows "unsent s' c = unsent s c @ take n buf" and "wire_sent s' p = wire_sent s p"
    and "db_inv (tc_write_buffer (conn s' c))" and "tc_status (conn s' c) = tc_status (conn s c)"
    and "tc_send_complete_cb (conn s' c) = cb"
    and "dev (ts_io s') p = (dev (ts_io s) p)\<lparr>dev_write_cb := Some OnSocketWrite\<rparr>"
proof -
  let ?W = "db_write (db_store (reserveWritableBytes (tc_write_buffer (conn s c)) n) (take n buf)) n"
  have W: "?W = db_append (tc_write_buffer (conn s c)) (take n buf)"
    using n by (simp add: db_append_def min_def)
  have room': "length (db_content (tc_write_buffer (conn s c))) + length (take n buf) < db_limit"
    using room n by (simp add: unsent_def)
  obtain m where m: "ts_conns s c = Some m" and cm: "conn s c = m"
    using conn_of_facts(4) [OF of] conn_stored by metis
  note facts = conn_of_facts [OF of, unfolded cm]
  have s': "s' = on_io (setWriteCallback k p (Some OnSocketWrite))
      (set_conn c (\<lambda>m. m\<lparr>tc_send_complete_cb := cb\<rparr>)
        (set_conn c (\<lambda>m. m\<lparr>tc_write_buffer :=
           db_write (db_store (reserveWritableBytes (tc_write_buffer m) n) (take n buf)) n\<rparr>) s))"
    using facts(5,6) by (simp add: s'_def buffer_message_def Let_def set_conn_stored [OF m] set_conn_stored conn_stored m)
  have c: "conn s' c = (conn s c)\<lparr>tc_write_buffer := ?W, tc_send_complete_cb := cb\<rparr>"
    by (simp add: s' tcp_sel set_conn_stored m conn_stored)
  have io: "ts_io s' = setWriteCallback k p (Some OnSocketWrite) (ts_io s)"
    by (simp add: s' tcp_sel set_conn_stored m)
  show "unsent s' c = unsent s c @ take n buf"
    using append_content [OF inv room'] by (simp add: unsent_def c W)
  show "db_inv (tc_write_buffer (conn s' c))"
    using append_inv [OF inv room'] by (simp add: c W)
  show "tc_status (conn s' c) = tc_status (conn s c)" "tc_send_complete_cb (conn s' c) = cb"
    by (simp_all add: c)
  show d: "dev (ts_io s') p = (dev (ts_io s) p)\<lparr>dev_write_cb := Some OnSocketWrite\<rparr>"
    by (simp add: io setWriteCallback_wire [OF facts(2)])
  show "wire_sent s' p = wire_sent s p"
    by (simp add: wire_sent_def fd_of_def d) (simp add: io setWriteCallback_wire [OF facts(2)])
qed

lemma send_failed_stream:
  assumes of: "conn_of s i c p"
    and s'_def: "s' = send_failed k c e s"
  shows "conn s' c = tc_setError e (conn s c)" and "wire_sent s' p = wire_sent s p"
proof -
  obtain m where m: "ts_conns s c = Some m" using conn_of_facts(4) [OF of] by blast
  define s1 where "s1 = set_conn c (tc_setError e) s"
  have of1: "conn_of s1 i c p"
    unfolding s1_def by (rule conn_step_of, rule conn_step_field [OF of])
      (simp_all add: tc_setError_def conn_ok_def)
  have s': "s' = addSocketTimer k i 0 OnSendMessageError s1"
    using conn_step_touch(2) [OF of1] conn_of_facts(5) [OF of1] by (simp add: s'_def send_failed_def s1_def)
  show "conn s' c = tc_setError e (conn s c)"
    by (simp add: s' conn_def addSocketTimer_wire s1_def set_conn_stored m)
  have io: "ts_io s1 = ts_io s" by (simp add: s1_def set_conn_stored m)
  show "wire_sent s' p = wire_sent s p"
    by (simp add: wire_sent_def fd_of_def dev_def s' addSocketTimer_wire io)
qed

text \<open>One \<open>send\<close> of the kernel.\<close>

lemma sock_send_stream:
  assumes k: "kernel_ok k" and of: "conn_of s i c p"
  obtains n s1 where "call_io (sock_send k p xs) s = (n, s1)" and "conn_of s1 i c p" and "-1 \<le> n"
    and "n \<le> int (length xs)" and "wire_sent s1 p = wire_sent s p @ take (nat n) xs"
    and "s1 = s\<lparr>ts_io := ts_io s1\<rparr>" and "dev (ts_io s1) = dev (ts_io s)"
    and "n = a_ret (k (w_history (ts_io s)) (K_send (fd_of s p) xs))"
    and "n < 0 \<longrightarrow> w_errno (ts_io s1) = a_errno (k (w_history (ts_io s)) (K_send (fd_of s p) xs))"
proof -
  define fd where "fd = dev_fd (dev (ts_io s) p)"
  define w1 where "w1 = snd (sys k (K_send fd xs) (ts_io s))"
  define n where "n = a_ret (k (w_history (ts_io s)) (K_send fd xs))"
  note send = send_call [OF k conn_of_facts(2) [OF of], of xs, folded fd_def, folded n_def w1_def]
  have call: "call_io (sock_send k p xs) s = (n, s\<lparr>ts_io := w1\<rparr>)"
    by (simp add: call_io_def send(1))
  have dev: "dev w1 = dev (ts_io s)" by (rule ext) (simp add: dev_def w1_def)
  have errno: "n < 0 \<longrightarrow> w_errno w1 = a_errno (k (w_history (ts_io s)) (K_send fd xs))"
    using send(2) by (auto simp: w1_def n_def Let_def)
  have wire: "wire_sent (s\<lparr>ts_io := w1\<rparr>) p = wire_sent s p @ take (nat n) xs"
    by (simp add: wire_sent_def fd_of_def dev) (simp add: w1_def n_def fd_def)
  show thesis
    by (rule that [OF call conn_step_of [OF send_call_step [OF of call]] send(2,3) wire])
       (use errno in \<open>simp_all add: dev n_def fd_def fd_of_def\<close>)
qed

text \<open>The receiving side of the service is left alone by sending: the bytes received, the read buffers and the
  settings.\<close>

definition receiving ::
    "tcp_service \<Rightarrow> (int \<Rightarrow> bytes) \<times> (nat \<Rightarrow> dynamic_buffer) \<times> (nat \<Rightarrow> int) \<times> nat option \<times> nat \<times> nat" where
  "receiving s = (\<lambda>fd. wire_in fd (w_history (ts_io s)), \<lambda>c. tc_read_buffer (conn s c),
     \<lambda>q. dev_fd (dev (ts_io s) q), ts_recv_message_cb s, ts_read_max_size s, ts_write_max_size s)"

named_theorems frame_simps

lemma receiving_set_conn:
  "(\<And>n. tc_read_buffer (f n) = tc_read_buffer n) \<Longrightarrow> receiving (set_conn c f s) = receiving s"
  by (auto simp: receiving_def set_conn_def conn_def ts_fault_def fault_def dev_def fun_eq_iff split: option.split)

lemma receiving_steps [frame_simps]:
  "receiving (ts_fault s) = receiving s" "receiving (touch_conn c s) = receiving s"
  "receiving (snd (getSocketId p s)) = receiving s"
  "receiving (addSocketTimer k j ms cb s) = receiving s"
  by (auto simp: receiving_def conn_def ts_fault_def touch_conn_def getSocketId_def on_io_def touch_def fault_def
      dev_def addSocketTimer_def call_io_def startTimer_def sys_def Let_def received_by_def split: prod.splits)

lemma receiving_io [frame_simps]:
  "receiving (on_io (setWriteCallback k p cb) s) = receiving s"
  "receiving (snd (call_io (sock_send k p xs) s)) = receiving s"
  by (auto simp: receiving_def conn_def on_io_def setWriteCallback_def updateIODevice_def set_device_def touch_def
      fault_def dev_def sys_def Let_def received_by_def call_io_def sock_send_def fun_eq_iff split: prod.splits option.splits)

lemma receiving_send_failed [frame_simps]: "receiving (send_failed k c e s) = receiving s"
  by (simp add: send_failed_def Let_def case_prod_beta frame_simps receiving_set_conn tc_setError_def)

lemma receiving_buffer_message [frame_simps]: "receiving (buffer_message k c buf n cb s) = receiving s"
  by (simp add: buffer_message_def Let_def frame_simps receiving_set_conn)

lemma receiving_send_remain [frame_simps]: "receiving (snd (send_remain k app c buf n None s)) = receiving s"
  by (simp add: send_remain_def run_send_complete_if_def frame_simps)

lemma receiving_sendMessage [frame_simps]: "receiving (snd (tcp_sendMessage k app i buf None s)) = receiving s"
  by (simp add: tcp_sendMessage_def sendMessage_on_def Let_def case_prod_beta frame_simps split: option.split)

text \<open>What a call of \<open>sendMessage\<close> that found the connection did, with \<open>n\<close> bytes of the message taken
  by the kernel at once. \<open>Completed\<close>: all of it, and the completion callback is run next;
  \<open>Queued\<close>: the buffer got as many bytes as remain, but from the beginning of the message;
  \<open>Failed\<close>: the kernel refused, or the buffer is full.\<close>

datatype send_outcome = Completed | Queued | Failed

definition send_result ::
    "kernel \<Rightarrow> send_outcome \<Rightarrow> nat \<Rightarrow> bytes \<Rightarrow> send_callback option \<Rightarrow> nat \<Rightarrow> nat \<Rightarrow>
     tcp_service \<Rightarrow> tcp_service \<Rightarrow> bool" where
  "send_result k res n msg cb c p s s' \<longleftrightarrow>
     n = (if unsent s c = [] then nat (a_ret (k (w_history (ts_io s)) (K_send (fd_of s p) msg))) else 0) \<and>
     n \<le> length msg \<and> wire_sent s' p = wire_sent s p @ take n msg \<and>
     db_inv (tc_write_buffer (conn s' c)) \<and>
     (case res of
        Completed \<Rightarrow> n = length msg \<and> unsent s' c = unsent s c \<and> conn s' c = conn s c
      | Queued \<Rightarrow> n < length msg \<and> unsent s' c = unsent s c @ take (length msg - n) msg \<and>
          tc_status (conn s' c) = CONNECTED \<and> tc_send_complete_cb (conn s' c) = cb \<and>
          dev_write_cb (dev (ts_io s') p) = Some OnSocketWrite \<and>
          (0 < ts_write_max_size s \<longrightarrow> length (unsent s' c) \<le> ts_write_max_size s)
      | Failed \<Rightarrow> unsent s' c = unsent s c \<and> tc_status (conn s' c) = PENDING_ERROR \<and>
          (n = 0 \<and> unsent s c = [] \<and> a_ret (k (w_history (ts_io s)) (K_send (fd_of s p) msg)) = -1 \<and>
             a_errno (k (w_history (ts_io s)) (K_send (fd_of s p) msg)) = tc_error_code (conn s' c) \<and>
             tc_error_code (conn s' c) \<noteq> EAGAIN \<or>
           tc_error_code (conn s' c) = ENOBUFS \<and> 0 < ts_write_max_size s \<and>
           ts_write_max_size s < length (unsent s c) + (length msg - n)))"

lemma send_remain_cases:
  assumes of: "conn_of s i c p" and inv: "db_inv (tc_write_buffer (conn s c))"
    and room: "length (unsent s c) + length msg < db_limit" and n: "n \<le> length msg"
  obtains (Completed) "n = length msg"
      "send_remain k app c msg (length msg - n) cb s = (True, run_send_complete_if k app cb p s)"
    | (Queued) "n < length msg"
      "send_remain k app c msg (length msg - n) cb s = (True, buffer_message k c msg (length msg - n) cb s)"
      "0 < ts_write_max_size s \<longrightarrow> length (unsent s c) + (length msg - n) \<le> ts_write_max_size s"
    | (Failed) "send_remain k app c msg (length msg - n) cb s = (False, send_failed k c ENOBUFS s)"
      "0 < ts_write_max_size s" "ts_write_max_size s < length (unsent s c) + (length msg - n)"
proof -
  let ?m = "length msg - n"
  have len: "readableBytes (tc_write_buffer (conn s c)) = length (unsent s c)"
    using inv by (simp add: unsent_def)
  have sum: "sz_add ?m (length (unsent s c)) = length (unsent s c) + ?m"
    using room by (simp add: sz_add_small db_limit_def)
  show thesis
  proof (cases "?m = 0")
    case True
    with n have "n = length msg" by simp
    then show thesis using Completed conn_of_facts(5) [OF of] by (simp add: send_remain_def)
  next
    case False
    then have m: "n < length msg" "0 < ?m" using n by simp_all
    show thesis
    proof (cases "0 < ts_write_max_size s \<and> ts_write_max_size s < length (unsent s c) + ?m")
      case True
      then have "send_remain k app c msg ?m cb s = (False, send_failed k c ENOBUFS s)"
        using m by (simp add: send_remain_def len sum)
      then show thesis by (rule Failed) (use True in simp_all)
    next
      case False
      then have "send_remain k app c msg ?m cb s = (True, buffer_message k c msg ?m cb s)"
        using m by (simp add: send_remain_def len sum)
      then show thesis using Queued m False by (meson not_le)
    qed
  qed
qed

lemma send_remain_result:
  assumes of: "conn_of s1 i c p" and inv: "db_inv (tc_write_buffer (conn s1 c))"
    and st: "tc_status (conn s1 c) = CONNECTED" and room: "length (unsent s1 c) + length msg < db_limit"
    and n: "n \<le> length msg"
      "n = (if unsent s c = [] then nat (a_ret (k (w_history (ts_io s)) (K_send (fd_of s p) msg))) else 0)"
    and sent: "wire_sent s1 p = wire_sent s p @ take n msg" and same: "conn s1 c = conn s c"
      "ts_write_max_size s1 = ts_write_max_size s"
  shows "\<exists>res s'. send_remain k app c msg (length msg - n) cb s1 =
       (res \<noteq> Failed, if res = Completed then run_send_complete_if k app cb p s' else s') \<and>
     conn_of s' i c p \<and> send_result k res n msg cb c p s s'"
proof -
  have unsent: "unsent s1 c = unsent s c" by (simp add: unsent_def same)
  show ?thesis
  proof (rule send_remain_cases [OF of inv room n(1), of k app cb])
    assume "n = length msg" and eq: "send_remain k app c msg (length msg - n) cb s1 =
        (True, run_send_complete_if k app cb p s1)"
    then have "send_result k Completed n msg cb c p s s1"
      using n sent unsent same inv by (simp add: send_result_def)
    then show ?thesis using eq of by (intro exI [of _ Completed] exI [of _ s1]) simp
  next
    assume lt: "n < length msg" and eq: "send_remain k app c msg (length msg - n) cb s1 =
        (True, buffer_message k c msg (length msg - n) cb s1)"
      and max: "0 < ts_write_max_size s1 \<longrightarrow>
        length (unsent s1 c) + (length msg - n) \<le> ts_write_max_size s1"
    define s' where "s' = buffer_message k c msg (length msg - n) cb s1"
    have "length (unsent s1 c) + (length msg - n) < db_limit" using room by linarith
    note queued = buffer_message_stream [OF of inv this _ s'_def]
    have "conn_of s' i c p"
      unfolding s'_def by (rule conn_step_of [OF buffer_message_step [OF of]])
    moreover have "send_result k Queued n msg cb c p s s'"
      using queued lt n sent st max same unsent by (simp add: send_result_def)
    ultimately show ?thesis
      using eq by (intro exI [of _ Queued] exI [of _ s']) (simp add: s'_def)
  next
    assume eq: "send_remain k app c msg (length msg - n) cb s1 = (False, send_failed k c ENOBUFS s1)"
      and full: "0 < ts_write_max_size s1" "ts_write_max_size s1 < length (unsent s1 c) + (length msg - n)"
    define s' where "s' = send_failed k c ENOBUFS s1"
    note failed = send_failed_stream [OF of s'_def]
    have "conn_of s' i c p"
      unfolding s'_def by (rule conn_step_of [OF send_failed_step [OF of]])
    moreover have "send_result k Failed n msg cb c p s s'"
      using failed n sent full same unsent inv by (simp add: send_result_def unsent_def tc_setError_def)
    ultimately show ?thesis
      using eq by (intro exI [of _ Failed] exI [of _ s']) (simp add: s'_def)
  qed
qed

lemma sendMessage_steps:
  assumes k: "kernel_ok k" and of: "conn_of s i c p" and inv: "db_inv (tc_write_buffer (conn s c))"
    and st: "tc_status (conn s c) = CONNECTED" and room: "length (unsent s c) + length msg < db_limit"
  shows "\<exists>n res s'. tcp_sendMessage k app i msg cb s =
       (res \<noteq> Failed, if res = Completed then run_send_complete_if k app cb p s' else s') \<and>
     conn_of s' i c p \<and> send_result k res n msg cb c p s s'"
proof (cases "unsent s c = []")
  case False
  then have eq: "tcp_sendMessage k app i msg cb s = send_remain k app c msg (length msg - 0) cb s"
    using of st inv conn_step_touch(1) [OF of]
    by (simp add: tcp_sendMessage_def conn_of_def sendMessage_on_def unsent_def flip: length_db_content)
  show ?thesis
    unfolding eq by (intro exI [of _ 0] send_remain_result [OF of inv st room]) (simp_all add: False)
next
  case True
  obtain r s1 where call: "call_io (sock_send k p msg) s = (r, s1)" and of1: "conn_of s1 i c p"
    and r: "-1 \<le> r" "r \<le> int (length msg)" and wire: "wire_sent s1 p = wire_sent s p @ take (nat r) msg"
    and s1: "s1 = s\<lparr>ts_io := ts_io s1\<rparr>"
    and ret: "r = a_ret (k (w_history (ts_io s)) (K_send (fd_of s p) msg))"
    and errno: "r < 0 \<longrightarrow> w_errno (ts_io s1) = a_errno (k (w_history (ts_io s)) (K_send (fd_of s p) msg))"
    by (rule sock_send_stream [OF k of])
  have same: "conn s1 c = conn s c" "ts_write_max_size s1 = ts_write_max_size s"
    by (subst s1, simp add: conn_def)+
  define n where "n = nat r"
  have n: "n \<le> length msg" "r < 0 \<longrightarrow> n = 0" using r by (simp_all add: n_def)
  have eq: "tcp_sendMessage k app i msg cb s =
      (if r < 0 \<and> w_errno (ts_io s1) \<noteq> EAGAIN then (False, send_failed k c (w_errno (ts_io s1)) s1)
       else send_remain k app c msg (length msg - n) cb s1)"
    using of st inv conn_step_touch(1) [OF of] True call conn_of_facts(5) [OF of] n(2)
    by (simp add: tcp_sendMessage_def conn_of_def sendMessage_on_def unsent_def n_def flip: length_db_content)
  note inv1 = inv [folded same(1)] and st1 = st [folded same(1)]
  have room1: "length (unsent s1 c) + length msg < db_limit" using room by (simp add: unsent_def same)
  show ?thesis
  proof (cases "r < 0 \<and> w_errno (ts_io s1) \<noteq> EAGAIN")
    case refused: True
    define s' where "s' = send_failed k c (w_errno (ts_io s1)) s1"
    note failed = send_failed_stream [OF of1 s'_def]
    have "conn_of s' i c p"
      unfolding s'_def by (rule conn_step_of [OF send_failed_step [OF of1]])
    moreover have "send_result k Failed 0 msg cb c p s s'"
      using failed refused n wire same inv True errno r
      by (simp add: send_result_def unsent_def tc_setError_def n_def ret [symmetric])
    ultimately show ?thesis
      using eq refused by (intro exI [of _ 0] exI [of _ Failed] exI [of _ s']) (simp add: s'_def)
  next
    case False
    then have eq: "tcp_sendMessage k app i msg cb s = send_remain k app c msg (length msg - n) cb s1"
      using eq if_not_P by metis
    show ?thesis
      unfolding eq
      by (intro exI [of _ n] send_remain_result [OF of1 inv1 st1 room1 n(1) _ wire [folded n_def] same])
         (simp add: True n_def ret)
  qed
qed

section \<open>Draining the write buffer\<close>

text \<open>A kernel that reports a socket as writable takes at least a byte.\<close>

definition takes_some :: "kernel \<Rightarrow> bool" where
  "takes_some k \<longleftrightarrow> (\<forall>h fd xs. xs \<noteq> [] \<longrightarrow> 1 \<le> a_ret (k h (K_send fd xs)))"

text \<open>One write event: a first part of the buffer goes to the kernel; the last part ends the
  interest in writing and takes the completion callback out of the connection to run it.\<close>

lemma write_event_some:
  assumes k: "kernel_ok k" and takes: "1 \<le> a_ret (k (w_history (ts_io s)) (K_send (fd_of s p) (unsent s c)))" and of: "conn_of s i c p"
    and inv: "db_inv (tc_write_buffer (conn s c))" and some: "unsent s c \<noteq> []"
  obtains n s' where "0 < n" and "n \<le> length (unsent s c)" and "conn_of s' i c p"
    and "wire_sent s' p = wire_sent s p @ take n (unsent s c)" and "unsent s' c = drop n (unsent s c)"
    and "db_inv (tc_write_buffer (conn s' c))"
    and "unsent s' c \<noteq> [] \<Longrightarrow> onSocketWrite k app p s = s' \<and>
        dev_write_cb (dev (ts_io s') p) = dev_write_cb (dev (ts_io s) p) \<and>
        tc_send_complete_cb (conn s' c) = tc_send_complete_cb (conn s c)"
    and "unsent s' c = [] \<Longrightarrow>
        onSocketWrite k app p s = run_send_complete_if k app (tc_send_complete_cb (conn s c)) p s' \<and>
        dev_write_cb (dev (ts_io s') p) = None \<and> tc_send_complete_cb (conn s' c) = None"
    and "int n = a_ret (k (w_history (ts_io s)) (K_send (fd_of s p) (unsent s c)))"
    and "receiving s' = receiving s" and "tc_status (conn s' c) = tc_status (conn s c)"
proof -
  define xs where "xs = unsent s c"
  obtain r s2 where call: "call_io (sock_send k p xs) s = (r, s2)" and of2: "conn_of s2 i c p"
    and r: "-1 \<le> r" "r \<le> int (length xs)" and wire: "wire_sent s2 p = wire_sent s p @ take (nat r) xs"
    and s2: "s2 = s\<lparr>ts_io := ts_io s2\<rparr>" and dev2: "dev (ts_io s2) = dev (ts_io s)"
    by (rule sock_send_stream [OF k of])
  have "r = a_ret (k (w_history (ts_io s)) (K_send (dev_fd (dev (ts_io s) p)) xs))"
    using call send_call(1) [OF k conn_of_facts(2) [OF of], of xs] by (simp add: call_io_def)
  then have ret: "r = a_ret (k (w_history (ts_io s)) (K_send (fd_of s p) (unsent s c)))" by (simp add: fd_of_def xs_def)
  then have pos: "1 \<le> r" using takes by simp
  have same: "conn s2 c = conn s c" by (subst s2) (simp add: conn_def)
  define rest :: "tcp_connection \<Rightarrow> tcp_connection"
    where "rest n = n\<lparr>tc_write_buffer := db_read (tc_write_buffer n) (nat r)\<rparr>" for n
  have m: "ts_conns s2 c = Some (conn s c)" using conn_of_facts(4) [OF of2] by (simp add: same)
  define s3 where "s3 = set_conn c rest s2"
  have s3: "s3 = s2\<lparr>ts_conns := (ts_conns s2)(c \<mapsto> rest (conn s c))\<rparr>"
    by (simp add: s3_def set_conn_stored [OF m])
  have of3: "conn_of s3 i c p"
    unfolding s3_def by (rule conn_step_of, rule conn_step_field [OF of2])
      (simp_all add: rest_def conn_ok_def)
  have conn3: "conn s3 c = rest (conn s c)" and io3: "ts_io s3 = ts_io s2"
    by (simp_all add: s3 conn_def)
  have unsent3: "unsent s3 c = drop (nat r) xs" and inv3: "db_inv (tc_write_buffer (conn s3 c))"
    using read_content [OF inv] read_inv [OF inv] by (simp_all add: unsent_def conn3 rest_def xs_def)
  have wire3: "wire_sent s3 p = wire_sent s p @ take (nat r) xs"
    using wire by (simp add: wire_sent_def fd_of_def io3)
  have "receiving s2 = receiving s" using receiving_io(2) [of k p xs s] by (simp add: call)
  then have recv3: "receiving s3 = receiving s" by (simp add: s3_def receiving_set_conn rest_def)
  define s4 where "s4 = on_io (setWriteCallback k p None) s3"
  define s5 where "s5 = set_conn c (\<lambda>n. n\<lparr>tc_send_complete_cb := None\<rparr>) s4"
  have id: "getSocketId p s = (i, s)" "touch_conn c s = s"
    using conn_step_touch [OF of] by simp_all
  have c: "ts_connections s i = Some c" using of by (simp add: conn_of_def)
  have empty: "readableBytes (tc_write_buffer (conn s3 c)) = 0 \<longleftrightarrow> unsent s3 c = []"
    using length_db_content [OF inv3] by (simp add: unsent_def flip: length_0_conv)
  have run: "onSocketWrite k app p s =
      (if unsent s3 c = [] then run_send_complete_if k app (tc_send_complete_cb (conn s4 c)) p s5 else s3)"
    using pos call empty
    by (simp add: onSocketWrite_def id c xs_def unsent_def Let_def s3_def s4_def s5_def rest_def [abs_def])
  have pos': "0 < nat r" "nat r \<le> length (unsent s c)" using pos r by (simp_all add: xs_def)
  show thesis
  proof (cases "unsent s3 c = []")
    case False
    show thesis
      by (rule that [OF pos' of3])
         (use False wire3 unsent3 inv3 run ret pos recv3 in \<open>simp_all add: io3 dev2 conn3 rest_def xs_def\<close>)
  next
    case True
    have m4: "ts_conns s4 c = Some (rest (conn s c))"
      by (simp add: s4_def tcp_sel s3)
    have s5: "s5 = s4\<lparr>ts_conns := (ts_conns s4)(c \<mapsto> (rest (conn s c))\<lparr>tc_send_complete_cb := None\<rparr>)\<rparr>"
      by (simp add: s5_def set_conn_stored [OF m4])
    have conn5: "conn s5 c = (rest (conn s c))\<lparr>tc_send_complete_cb := None\<rparr>"
      and conn4: "conn s4 c = rest (conn s c)" and io5: "ts_io s5 = setWriteCallback k p None (ts_io s3)"
      using m4 by (simp_all add: s5 conn_def) (simp add: s4_def tcp_sel)
    have of4: "conn_of s4 i c p"
      unfolding s4_def by (rule conn_step_of, rule conn_step_callbacks(3) [OF of3, of "{p}"]) simp
    have of5: "conn_of s5 i c p"
      unfolding s5_def by (rule conn_step_of, rule conn_step_field [OF of4]) (simp_all add: conn_ok_def)
    have recv5: "receiving s5 = receiving s"
      using recv3 by (simp add: s5_def s4_def receiving_set_conn frame_simps)
    note wcb = setWriteCallback_wire [OF conn_of_facts(2) [OF of3]]
    have "wire_sent s5 p = wire_sent s3 p" "unsent s5 c = unsent s3 c"
      by (simp_all add: wire_sent_def fd_of_def io5 wcb unsent_def conn5 conn3)
    then show thesis
      using wire3 unsent3 inv3 run True ret pos recv5
      by (intro that [OF pos' of5])
         (simp_all add: io5 wcb conn5 conn3 conn4, simp_all add: rest_def xs_def)
  qed
qed

lemma write_event:
  assumes k: "kernel_ok k" "takes_some k" and of: "conn_of s i c p"
    and inv: "db_inv (tc_write_buffer (conn s c))" and some: "unsent s c \<noteq> []"
  obtains n s' where "0 < n" and "n \<le> length (unsent s c)" and "conn_of s' i c p"
    and "wire_sent s' p = wire_sent s p @ take n (unsent s c)" and "unsent s' c = drop n (unsent s c)"
    and "db_inv (tc_write_buffer (conn s' c))"
    and "unsent s' c \<noteq> [] \<Longrightarrow> onSocketWrite k app p s = s' \<and>
        dev_write_cb (dev (ts_io s') p) = dev_write_cb (dev (ts_io s) p) \<and>
        tc_send_complete_cb (conn s' c) = tc_send_complete_cb (conn s c)"
    and "unsent s' c = [] \<Longrightarrow>
        onSocketWrite k app p s = run_send_complete_if k app (tc_send_complete_cb (conn s c)) p s' \<and>
        dev_write_cb (dev (ts_io s') p) = None \<and> tc_send_complete_cb (conn s' c) = None"
proof -
  have "1 \<le> a_ret (k (w_history (ts_io s)) (K_send (fd_of s p) (unsent s c)))"
    using k(2) some by (simp add: takes_some_def)
  from write_event_some [OF k(1) this of inv some] that show thesis by blast
qed

section \<open>A connection in the middle of its life\<close>

text \<open>An application whose callbacks do nothing.\<close>

definition quiet_app :: app where
  "quiet_app call s = s"

text \<open>Used in the witnesses: one connection of id 7 on descriptor 5, with \<open>xs\<close> in its write buffer,
  and a kernel that takes one byte at a time and has the bytes \<open>input\<close> to give, two at a time.\<close>

definition byte_kernel :: "bytes \<Rightarrow> kernel" where
  "byte_kernel input h call =
     (case call of
        K_send fd xs \<Rightarrow> ok_answer (min 1 (int (length xs)))
      | K_fionread fd \<Rightarrow> (ok_answer 0)\<lparr>a_value := min 2 (int (length (drop (length (wire_in fd h)) input)))\<rparr>
      | K_recv fd n \<Rightarrow>
          (let xs = take (min n 2) (drop (length (wire_in fd h)) input)
           in if xs = [] then (ok_answer (-1))\<lparr>a_errno := EAGAIN\<rparr>
              else (ok_answer (int (length xs)))\<lparr>a_bytes := xs\<rparr>)
      | _ \<Rightarrow> ok_answer 0)"

lemma byte_kernel_ok: "kernel_ok (byte_kernel input)" "takes_some (byte_kernel input)"
  by (auto simp: kernel_ok_def takes_some_def byte_kernel_def ok_answer_def io_max_def Let_def min_def
      Suc_le_eq)

definition one_connection :: "bytes \<Rightarrow> tcp_service" where
  "one_connection xs =
     (TcpService \<lparr>w_history = [], w_errno = 0, w_quit = False, w_epoll_fd = 3, w_event_slots = 32,
        w_removed = {}, w_timers = TimerHeap,
        w_devices = [0 \<mapsto> \<lparr>dev_attached = True, dev_id = 7, dev_fd = 5, dev_read_cb = Some OnSocketRead,
                        dev_write_cb = (if xs = [] then None else Some OnSocketWrite),
                        dev_error_cb = Some OnSocketError\<rparr>],
        w_next = 1, w_fault = False\<rparr>)
     \<lparr>ts_sockets := [7 \<mapsto> 0], ts_connections := [7 \<mapsto> 0], ts_next_conn := 1,
      ts_conns := [0 \<mapsto> (TcpConnection 0 8 8 8 8)
        \<lparr>tc_status := CONNECTED, tc_write_buffer := db_append (DynamicBuffer 8 8) xs\<rparr>]\<rparr>"

lemma one_connection_ok:
  assumes "length xs < db_limit"
  shows "conn_of (one_connection xs) 7 0 0" and "tc_status (conn (one_connection xs) 0) = CONNECTED"
    and "unsent (one_connection xs) 0 = xs" and "db_inv (tc_write_buffer (conn (one_connection xs) 0))"
    and "wire_sent (one_connection xs) 0 = []"
proof -
  have inv: "db_inv (DynamicBuffer 8 8)" by (rule DynamicBuffer_inv) simp_all
  have c: "conn (one_connection xs) 0 = (TcpConnection 0 8 8 8 8)
      \<lparr>tc_status := CONNECTED, tc_write_buffer := db_append (DynamicBuffer 8 8) xs\<rparr>"
    by (simp add: one_connection_def conn_def)
  show "unsent (one_connection xs) 0 = xs" "db_inv (tc_write_buffer (conn (one_connection xs) 0))"
    using append_content [OF inv, of xs] append_inv [OF inv, of xs] assms by (simp_all add: unsent_def c)
  show "tc_status (conn (one_connection xs) 0) = CONNECTED" by (simp add: c)
  have "conn_ok (conn (one_connection xs) 0)"
    by (simp add: c conn_ok_def TcpConnection_def db_append_def) (simp add: DynamicBuffer_def)
  then show "conn_of (one_connection xs) 7 0 0"
    by (auto simp: conn_of_def tcp_inv_def one_connection_def TcpService_def world_ok_def has_id_def conn_def
        TcpConnection_def split: if_splits)
  show "wire_sent (one_connection xs) 0 = []"
    by (simp add: wire_sent_def one_connection_def TcpService_def)
qed

lemmas buffer_eval = DynamicBuffer_def db_append_def db_store_def db_write_def db_read_def db_clear_def
  reserveWritableBytes_def reserve_new_size_def reserve_traps_def discardableBytes_def
  readableBytes_def writableBytes_def readBegin_def writeBegin_def db_content_def
  sz_add_def sz_sub_def sz_mul_def to_int32_def

section \<open>Properties\<close>

text \<open>C2. What \<open>sendMessage\<close> does with a message on a connected socket. The kernel is offered the
  message only if nothing waits in the write buffer, and takes \<open>n\<close> of its bytes. If that is all of
  them the completion callback is run; otherwise the buffer is extended by as many bytes as remain,
  the socket waits to be writable and the callback is kept, unless the buffer would grow beyond its
  configured size; a refused or oversized message leaves the buffer as it was and the connection in
  the error state. Nothing that was sent or queued before is lost or reordered.\<close>

theorem sendMessage_stream:
  assumes k: "kernel_ok k" and of: "conn_of s i c p" and inv: "db_inv (tc_write_buffer (conn s c))"
    and st: "tc_status (conn s c) = CONNECTED" and room: "length (unsent s c) + length msg < db_limit"
  shows "\<exists>n res s'. tcp_sendMessage k app i msg cb s =
       (res \<noteq> Failed, if res = Completed then run_send_complete_if k app cb p s' else s') \<and>
     conn_of s' i c p \<and> send_result k res n msg cb c p s s'"
  by (rule sendMessage_steps [OF assms])

theorem sendMessage_stream_witness:
  "\<exists>n res s'. tcp_sendMessage (byte_kernel []) quiet_app 7 [1, 2, 3] None (one_connection [4]) =
       (res \<noteq> Failed, if res = Completed then run_send_complete_if (byte_kernel []) quiet_app None 0 s' else s') \<and>
     conn_of s' 7 0 0 \<and> send_result (byte_kernel []) res n [1, 2, 3] None 0 0 (one_connection [4]) s'"
  by (rule sendMessage_stream [OF byte_kernel_ok(1)])
     (simp_all add: one_connection_ok db_limit_def)

text \<open>After a partial direct send the rest is copied from the beginning of the message: of 1, 2, 3
  the peer gets 1, 1, 2.\<close>

lemma partial_send_repeats:
  "let s = snd (tcp_sendMessage (byte_kernel []) app 7 [1, 2, 3] None (one_connection []))
   in wire_sent s 0 = [1] \<and> unsent s 0 = [1, 2]"
proof -
  have max: "ts_write_max_size (one_connection []) = 0" by (simp add: one_connection_def TcpService_def)
  note of = one_connection_ok(1) [of "[]"] and start = one_connection_ok(2-5) [of "[]"]
  obtain n res s' where eq: "tcp_sendMessage (byte_kernel []) app 7 [1, 2, 3] None (one_connection []) =
      (res \<noteq> Failed, if res = Completed then run_send_complete_if (byte_kernel []) app None 0 s' else s')"
    and res: "send_result (byte_kernel []) res n [1, 2, 3] None 0 0 (one_connection []) s'"
    using sendMessage_steps [OF byte_kernel_ok(1) of start(3,1),
        where input1 = "[]" and msg = "[1, 2, 3]" and app = app and cb = None]
    by (auto simp: start db_limit_def)
  have n: "n = 1" using res by (simp add: send_result_def start db_limit_def byte_kernel_def ok_answer_def)
  have "res = Queued" using res n max by (cases res) (simp_all add: send_result_def start db_limit_def)
  then show ?thesis using eq res n by (simp add: send_result_def start db_limit_def numeral_2_eq_2)
qed

text \<open>C3. A connection whose write buffer is not empty is drained: if the kernel takes at least a
  byte of every send, then after at most as many write events as the buffer has bytes everything
  that was queued has gone to the kernel, in order; up to then the socket keeps its interest in
  writing, and then it is given up and the completion callback is taken out of the connection and
  run, once.\<close>

theorem write_buffer_drains:
  assumes k: "kernel_ok k" "takes_some k" and of: "conn_of s i c p"
    and inv: "db_inv (tc_write_buffer (conn s c))" and some: "unsent s c \<noteq> []"
  shows "\<exists>m s'. 0 < m \<and> m \<le> length (unsent s c) \<and>
     (onSocketWrite k app p ^^ m) s = run_send_complete_if k app (tc_send_complete_cb (conn s c)) p s' \<and>
     conn_of s' i c p \<and> wire_sent s' p = out_stream s c p \<and> unsent s' c = [] \<and>
     dev_write_cb (dev (ts_io s') p) = None \<and> tc_send_complete_cb (conn s' c) = None \<and>
     (\<forall>j<m. dev_write_cb (dev (ts_io ((onSocketWrite k app p ^^ j) s)) p) = dev_write_cb (dev (ts_io s) p))"
  using of inv some
proof (induction "length (unsent s c)" arbitrary: s rule: less_induct)
  case less
  obtain n s1 where n: "0 < n" "n \<le> length (unsent s c)" and of1: "conn_of s1 i c p"
    and wire: "wire_sent s1 p = wire_sent s p @ take n (unsent s c)" and unsent: "unsent s1 c = drop n (unsent s c)"
    and inv1: "db_inv (tc_write_buffer (conn s1 c))"
    and going: "unsent s1 c \<noteq> [] \<Longrightarrow> onSocketWrite k app p s = s1 \<and>
        dev_write_cb (dev (ts_io s1) p) = dev_write_cb (dev (ts_io s) p) \<and>
        tc_send_complete_cb (conn s1 c) = tc_send_complete_cb (conn s c)"
    and ended: "unsent s1 c = [] \<Longrightarrow>
        onSocketWrite k app p s = run_send_complete_if k app (tc_send_complete_cb (conn s c)) p s1 \<and>
        dev_write_cb (dev (ts_io s1) p) = None \<and> tc_send_complete_cb (conn s1 c) = None"
    using write_event [OF k less.prems] by metis
  show ?case
  proof (cases "unsent s1 c = []")
    case True
    then show ?thesis
      using n ended of1 wire unsent by (intro exI [of _ 1] exI [of _ s1]) (simp add: out_stream_def)
  next
    case False
    have shorter: "length (unsent s1 c) < length (unsent s c)" using n by (simp add: unsent)
    have out: "out_stream s1 c p = out_stream s c p" by (simp add: out_stream_def wire unsent)
    note step = going [OF False]
    obtain m s' where IH: "0 < m" "m \<le> length (unsent s1 c)"
      "(onSocketWrite k app p ^^ m) s1 = run_send_complete_if k app (tc_send_complete_cb (conn s1 c)) p s'"
      "conn_of s' i c p" "wire_sent s' p = out_stream s1 c p" "unsent s' c = []"
      "dev_write_cb (dev (ts_io s') p) = None" "tc_send_complete_cb (conn s' c) = None"
      "\<forall>j<m. dev_write_cb (dev (ts_io ((onSocketWrite k app p ^^ j) s1)) p) = dev_write_cb (dev (ts_io s1) p)"
      using less.hyps [OF shorter of1 inv1 False] by blast
    have shift: "(onSocketWrite k app p ^^ Suc j) s = (onSocketWrite k app p ^^ j) s1" for j
      using step by (simp add: funpow_swap1)
    have "\<forall>j<Suc m. dev_write_cb (dev (ts_io ((onSocketWrite k app p ^^ j) s)) p) = dev_write_cb (dev (ts_io s) p)"
    proof (intro allI impI)
      fix j assume "j < Suc m"
      then show "dev_write_cb (dev (ts_io ((onSocketWrite k app p ^^ j) s)) p) = dev_write_cb (dev (ts_io s) p)"
        using IH(9) step shift by (cases j) (simp_all del: funpow.simps(2))
    qed
    then show ?thesis
      using IH step shorter out shift [of m]
      by (intro exI [of _ "Suc m"] exI [of _ s']) (simp del: funpow.simps(2))
  qed
qed

theorem write_buffer_drains_witness:
  "\<exists>m s'. 0 < m \<and> m \<le> length [1, 2, 3 :: byte] \<and>
     (onSocketWrite (byte_kernel []) quiet_app 0 ^^ m) (one_connection [1, 2, 3]) =
       run_send_complete_if (byte_kernel []) quiet_app (tc_send_complete_cb (conn (one_connection [1, 2, 3]) 0)) 0 s' \<and>
     conn_of s' 7 0 0 \<and> wire_sent s' 0 = [1, 2, 3] \<and> unsent s' 0 = []"
  using write_buffer_drains [OF byte_kernel_ok one_connection_ok(1,4), of "[1, 2, 3]"]
  by (simp add: one_connection_ok db_limit_def out_stream_def) blast

end
