(* ===== verification/TcpReceive.thy ===== *)
theory TcpReceive
  imports TcpStream
begin

text \<open>
  The incoming stream of a connection: a read event of \<open>TcpService\<close> ends and appends to the read
  buffer exactly the bytes the kernel gave, in order, within the configured maximal size.
\<close>

definition wire_received :: "tcp_service \<Rightarrow> nat \<Rightarrow> bytes" where
  "wire_received s p = wire_in (fd_of s p) (w_history (ts_io s))"

definition unread :: "tcp_service \<Rightarrow> nat \<Rightarrow> bytes" where
  "unread s c = db_content (tc_read_buffer (conn s c))"

text \<open>From \<open>s\<close> to \<open>s'\<close> the bytes \<open>xs\<close> moved from the kernel to the read buffer of connection \<open>c\<close>, and
  nothing else changed but the capacity of the buffer and the state of the \<open>IOService\<close> below,
  which kept its devices.\<close>

definition moved :: "nat \<Rightarrow> nat \<Rightarrow> bytes \<Rightarrow> tcp_service \<Rightarrow> tcp_service \<Rightarrow> bool" where
  "moved c p xs s s' \<longleftrightarrow>
     (\<exists>w b. s' = s\<lparr>ts_io := w, ts_conns := (ts_conns s)(c \<mapsto> (conn s c)\<lparr>tc_read_buffer := b\<rparr>)\<rparr> \<and>
        w_devices w = w_devices (ts_io s) \<and> wire_in (fd_of s p) (w_history w) = wire_received s p @ xs \<and>
        db_inv b \<and> db_content b = unread s c @ xs)"

lemma movedI:
  assumes "s' = s\<lparr>ts_io := w, ts_conns := (ts_conns s)(c \<mapsto> (conn s c)\<lparr>tc_read_buffer := b\<rparr>)\<rparr>"
    and "w_devices w = w_devices (ts_io s)" and "wire_in (fd_of s p) (w_history w) = wire_received s p @ xs"
    and "db_inv b" and "db_content b = unread s c @ xs"
  shows "moved c p xs s s'"
  using assms unfolding moved_def by blast

lemma moved_facts:
  assumes "moved c p xs s s'"
  shows "wire_received s' p = wire_received s p @ xs" and "unread s' c = unread s c @ xs"
    and "db_inv (tc_read_buffer (conn s' c))" and "ts_read_max_size s' = ts_read_max_size s"
    and "fd_of s' p = fd_of s p" and "ts_conns s' c = Some (conn s' c)"
  using assms by (auto simp: moved_def wire_received_def fd_of_def dev_def unread_def conn_def)

lemma moved_refl:
  assumes "conn_of s i c p" and "db_inv (tc_read_buffer (conn s c))"
  shows "moved c p [] s s"
  by (rule movedI [where w = "ts_io s" and b = "tc_read_buffer (conn s c)"])
     (use assms(2) conn_of_facts(4) [OF assms(1)] in
       \<open>simp_all add: fun_upd_idem wire_received_def unread_def\<close>)

lemma moved_trans:
  assumes a: "moved c p xs s1 s2" and b: "moved c p ys s2 s3"
  shows "moved c p (xs @ ys) s1 s3"
proof -
  obtain w2 b2 where 2: "s2 = s1\<lparr>ts_io := w2, ts_conns := (ts_conns s1)
      (c \<mapsto> (conn s1 c)\<lparr>tc_read_buffer := b2\<rparr>)\<rparr>" and w2: "w_devices w2 = w_devices (ts_io s1)"
    using a unfolding moved_def by blast
  obtain w3 b3 where 3: "s3 = s2\<lparr>ts_io := w3, ts_conns := (ts_conns s2)
      (c \<mapsto> (conn s2 c)\<lparr>tc_read_buffer := b3\<rparr>)\<rparr>" and w3: "w_devices w3 = w_devices (ts_io s2)"
    and more3: "wire_in (fd_of s2 p) (w_history w3) = wire_received s2 p @ ys" "db_inv b3"
      "db_content b3 = unread s2 c @ ys"
    using b unfolding moved_def by blast
  show ?thesis
    by (rule movedI [where w = w3 and b = b3])
       (use w2 w3 more3 moved_facts [OF a] in \<open>simp_all add: 3, simp_all add: 2 conn_def\<close>)
qed

lemma readableBytes_call:
  assumes k: "kernel_ok k" and of: "conn_of s i c p"
  obtains r s1 where "call_io (sock_readableBytes k p) s = (r, s1)" and "conn_of s1 i c p"
    and "r < 2 ^ 31" and "s1 = s\<lparr>ts_io := ts_io s1\<rparr>" and "w_devices (ts_io s1) = w_devices (ts_io s)"
    and "wire_received s1 p = wire_received s p"
proof -
  define fd where "fd = fd_of s p"
  define w1 where "w1 = snd (sys k (K_fionread fd) (ts_io s))"
  define a where "a = k (w_history (ts_io s)) (K_fionread fd)"
  note live = conn_of_facts(2) [OF of]
  have call: "call_io (sock_readableBytes k p) s = (if a_ret a = -1 then -1 else a_value a, s\<lparr>ts_io := w1\<rparr>)"
    using live by (simp add: call_io_def sock_readableBytes_def sys_def w1_def a_def fd_def fd_of_def Let_def)
  have "a_value a < 2 ^ 31" using k by (simp add: kernel_ok_def a_def)
  moreover have "wire_received (s\<lparr>ts_io := w1\<rparr>) p = wire_received s p"
    by (simp add: wire_received_def fd_of_def dev_def w1_def)
  moreover have "conn_of (s\<lparr>ts_io := w1\<rparr>) i c p"
    by (rule conn_step_of [OF conn_step_call [OF of _ call, of UNIV]]) (auto intro: dev_steps)
  ultimately show thesis by (intro that [OF call]) (simp_all add: w1_def)
qed

lemma recv_call:
  assumes k: "kernel_ok k" and of: "conn_of s i c p"
  obtains r xs s1 where "call_io (sock_recv k p n) s = ((r, xs), s1)" and "conn_of s1 i c p"
    and "-1 \<le> r" and "length xs = nat r" and "r \<le> int n"
    and "s1 = s\<lparr>ts_io := ts_io s1\<rparr>" and "w_devices (ts_io s1) = w_devices (ts_io s)"
    and "wire_received s1 p = wire_received s p @ xs"
    and "r = a_ret (k (w_history (ts_io s)) (K_recv (fd_of s p) n))"
proof -
  define fd where "fd = fd_of s p"
  define w1 where "w1 = snd (sys k (K_recv fd n) (ts_io s))"
  define a where "a = k (w_history (ts_io s)) (K_recv fd n)"
  have a: "-1 \<le> a_ret a" "a_ret a \<le> io_max" "a_ret a \<le> int n" "int (length (a_bytes a)) = max 0 (a_ret a)"
    using k by (simp_all add: kernel_ok_def a_def Let_def)
  have "to_int32 (a_ret a) = a_ret a"
    using a(1,2) by (simp add: to_int32_def io_max_def signed_take_bit_int_eq_self)
  then have call: "call_io (sock_recv k p n) s = ((a_ret a, a_bytes a), s\<lparr>ts_io := w1\<rparr>)"
    using conn_of_facts(2) [OF of]
    by (simp add: call_io_def sock_recv_def sys_def w1_def a_def fd_def fd_of_def Let_def)
  have "wire_received (s\<lparr>ts_io := w1\<rparr>) p = wire_received s p @ a_bytes a"
    by (simp add: wire_received_def fd_of_def dev_def w1_def a_def fd_def)
  moreover have "conn_of (s\<lparr>ts_io := w1\<rparr>) i c p"
    by (rule conn_step_of [OF conn_step_call [OF of _ call, of UNIV]]) (auto intro: dev_steps)
  ultimately show thesis using a by (intro that [OF call]) (simp_all add: w1_def a_def fd_def)
qed

text \<open>One pass of the read loop.\<close>

lemma recv_round_moved:
  assumes k: "kernel_ok k" and of: "conn_of s i c p" and inv: "db_inv (tc_read_buffer (conn s c))"
    and room: "length (unread s c) \<le> 2 ^ 61 + 2 ^ 31"
  obtains xs e pc s' where "moved c p xs s s'" and "conn_of s' i c p"
    and "recv_round k app p c i (Going, arrived, False, s) =
      (e, arrived \<or> xs \<noteq> [], pc,
       if e = Returned then report_error app c i (w_errno (ts_io s')) s' else s')"
    and "e = Going \<longleftrightarrow> xs \<noteq> []" and "e = Going \<longrightarrow> \<not> pc" and "length xs \<le> 2 ^ 31"
    and "xs \<noteq> [] \<longrightarrow> (\<exists>h n. wire_in (fd_of s p) h = wire_received s p \<and> 0 < a_ret (k h (K_recv (fd_of s p) n)))"
    and "xs \<noteq> [] \<and> 0 < ts_read_max_size s \<longrightarrow> length (unread s' c) \<le> ts_read_max_size s"
proof -
  obtain r s1 where fion: "call_io (sock_readableBytes k p) s = (r, s1)" and of1: "conn_of s1 i c p"
    and r: "r < 2 ^ 31" and s1: "s1 = s\<lparr>ts_io := ts_io s1\<rparr>"
    and dev1: "w_devices (ts_io s1) = w_devices (ts_io s)" and wire1: "wire_received s1 p = wire_received s p"
    by (rule readableBytes_call [OF k of])
  define m where "m = nat (max 1 r)"
  have m: "0 < m" "m \<le> 2 ^ 31" using r by (simp_all add: m_def)
  have same1: "conn s1 c = conn s c" "ts_conns s1 = ts_conns s" "ts_read_max_size s1 = ts_read_max_size s"
    "fd_of s1 p = fd_of s p"
    by (subst s1, simp add: conn_def fd_of_def dev_def dev1)+
  let ?b = "tc_read_buffer (conn s c)"
  have len: "readableBytes ?b = length (unread s c)" using inv by (simp add: unread_def)
  have sum: "sz_add m (length (unread s c)) = length (unread s c) + m"
    using room m by (simp add: sz_add_small)
  have touched: "touch_conn c s = s" using conn_step_touch(1) [OF of] .
  have traps: "\<not> reserve_traps ?b m" using inv by simp
  show thesis
  proof (cases "0 < ts_read_max_size s \<and> ts_read_max_size s < length (unread s c) + m")
    case True
    then have "recv_round k app p c i (Going, arrived, False, s) = (Broke, arrived, True, s1)"
      by (simp add: recv_round_def touched fion Let_def m_def [symmetric] same1 len sum)
    moreover have "moved c p [] s s1"
      by (rule movedI [where w = "ts_io s1" and b = ?b])
         (use inv dev1 wire1 conn_of_facts(4) [OF of] same1 s1 in
           \<open>simp_all add: wire_received_def unread_def fun_upd_idem\<close>)
    ultimately show thesis using of1 by (intro that [of "[]" s1 Broke True]) simp_all
  next
    case False
    define R :: "tcp_connection \<Rightarrow> tcp_connection"
      where "R n = n\<lparr>tc_read_buffer := reserveWritableBytes (tc_read_buffer n) m\<rparr>" for n
    define s3 where "s3 = set_conn c R s1"
    have stored1: "ts_conns s1 c = Some (conn s c)" using conn_of_facts(4) [OF of] by (simp add: same1)
    have s3: "s3 = s1\<lparr>ts_conns := (ts_conns s)(c \<mapsto> R (conn s c))\<rparr>"
      by (simp add: s3_def set_conn_stored [OF stored1] same1)
    have of3: "conn_of s3 i c p"
      unfolding s3_def by (rule conn_step_of, rule conn_step_field [OF of1]) (simp_all add: R_def conn_ok_def)
    have fd3: "fd_of s3 p = fd_of s p" using same1(4) by (simp add: s3 fd_of_def)
    obtain ret xs s4 where recv: "call_io (sock_recv k p m) s3 = ((ret, xs), s4)" and of4: "conn_of s4 i c p"
      and ret: "-1 \<le> ret" "length xs = nat ret" "ret \<le> int m"
      and s4: "s4 = s3\<lparr>ts_io := ts_io s4\<rparr>" and dev4: "w_devices (ts_io s4) = w_devices (ts_io s3)"
      and wire4: "wire_received s4 p = wire_received s3 p @ xs"
      and reti: "ret = a_ret (k (w_history (ts_io s3)) (K_recv (fd_of s3 p) m))"
      by (rule recv_call [OF k of3])
    have wire3: "wire_received s3 p = wire_received s p"
      using wire1 by (simp add: wire_received_def fd_of_def s3)
    have fd4: "fd_of s4 p = fd_of s p" using fd3 dev4 by (simp add: fd_of_def dev_def)
    let ?b3 = "reserveWritableBytes ?b m"
    have room': "readableBytes ?b + m < db_limit" and m62: "m < 2 ^ 62"
      using room m len by (simp_all add: db_limit_def)
    note inv3 = reserve_inv [OF inv room'] and cont3 = reserve_content [OF inv m62]
      and room3 = reserve_writable [OF inv m62]
    have stored4: "ts_conns s4 c = Some (R (conn s c))" by (subst s4) (simp add: s3)
    define S :: "tcp_connection \<Rightarrow> tcp_connection"
      where "S n = n\<lparr>tc_read_buffer := db_write (db_store (tc_read_buffer n) xs) (nat ret)\<rparr>" for n
    define s5 where "s5 = set_conn c S s4"
    have notfull: "(0 < ts_read_max_size s \<and> ts_read_max_size s < length (unread s c) + m) = False"
      using False by simp
    have round: "recv_round k app p c i (Going, arrived, False, s) =
        (if ret > 0 then (Going, True, False, s5)
         else if ret < 0 then
           if w_errno (ts_io s4) = EAGAIN then (Broke, arrived, False, s4)
           else (Returned, arrived, False, report_error app c i (w_errno (ts_io s4)) s4)
         else (Broke, arrived, True, s4))"
      using traps recv
      by (simp add: recv_round_def touched fion Let_def m_def [symmetric] same1 len sum notfull
            s3_def R_def [abs_def] s5_def S_def [abs_def])
    have s4': "s4 = s\<lparr>ts_io := ts_io s4, ts_conns := (ts_conns s)(c \<mapsto> (conn s c)\<lparr>tc_read_buffer := ?b3\<rparr>)\<rparr>"
      by (subst s4, simp add: s3 R_def, subst s1, simp)
    have conns4: "ts_conns s4 = (ts_conns s)(c \<mapsto> (conn s c)\<lparr>tc_read_buffer := ?b3\<rparr>)"
      by (subst s4') simp
    have upd4: "s4\<lparr>ts_conns := m\<rparr> = s\<lparr>ts_io := ts_io s4, ts_conns := m\<rparr>" for m
      by (subst (1) s4') simp
    show thesis
    proof (cases "0 < ret")
      case False
      then have xs: "xs = []" using ret by simp
      then have moved: "moved c p [] s s4"
        by (intro movedI [OF s4'])
           (use dev1 dev4 wire3 wire4 inv3 cont3 fd4 in \<open>simp_all add: s3 wire_received_def unread_def\<close>)
      consider "ret = 0" | "ret < 0" "w_errno (ts_io s4) = EAGAIN" | "ret < 0" "w_errno (ts_io s4) \<noteq> EAGAIN"
        using False by linarith
      then show thesis
      proof cases
        case 1
        then show thesis by (intro that [OF moved of4, of Broke True]) (use round in simp_all)
      next
        case 2
        then show thesis by (intro that [OF moved of4, of Broke False]) (use round in simp_all)
      next
        case 3
        then show thesis by (intro that [OF moved of4, of Returned False]) (use round in simp_all)
      qed
    next
      case True
      then have xs: "xs \<noteq> []" "length xs \<le> m" "nat ret = length xs" using ret by auto
      let ?b5 = "db_write (db_store ?b3 xs) (length xs)"
      have "length xs \<le> writableBytes ?b3" using xs room3 by linarith
      note stored = store_write_content [OF inv3 this]
      have s5: "s5 = s\<lparr>ts_io := ts_io s4, ts_conns := (ts_conns s)(c \<mapsto> (conn s c)\<lparr>tc_read_buffer := ?b5\<rparr>)\<rparr>"
        using conns4 by (simp add: s5_def set_conn_stored [OF stored4] upd4 S_def R_def xs)
      have moved: "moved c p xs s s5"
        by (rule movedI [OF s5])
           (use dev1 dev4 wire3 wire4 stored cont3 fd4 in \<open>simp_all add: s3 wire_received_def unread_def\<close>)
      have of5: "conn_of s5 i c p"
        unfolding s5_def by (rule conn_step_of, rule conn_step_field [OF of4]) (simp_all add: S_def conn_ok_def)
      have "wire_in (fd_of s p) (w_history (ts_io s3)) = wire_received s p"
        using wire3 by (simp add: wire_received_def fd3)
      then have more: "\<exists>h n. wire_in (fd_of s p) h = wire_received s p \<and> 0 < a_ret (k h (K_recv (fd_of s p) n))"
        using True reti fd3 by metis
      have "length (unread s5 c) \<le> length (unread s c) + m"
        using xs moved_facts(2) [OF moved] by simp
      then have fits: "0 < ts_read_max_size s \<longrightarrow> length (unread s5 c) \<le> ts_read_max_size s"
        using notfull by auto
      show thesis
        by (intro that [OF moved of5, of Going False])
           (use True round xs more m fits in simp_all)
    qed
  qed
qed

section \<open>The whole event\<close>

text \<open>A peer that sends at most \<open>B\<close> bytes on a descriptor.\<close>

definition arrives_at_most :: "kernel \<Rightarrow> int \<Rightarrow> nat \<Rightarrow> bool" where
  "arrives_at_most k fd B \<longleftrightarrow>
     (\<forall>h n. B \<le> length (wire_in fd h) \<longrightarrow> a_ret (k h (K_recv fd n)) \<le> 0)"

text \<open>While the loop receives, the buffer is shorter than \<open>L\<close>.\<close>

definition read_limit :: "kernel \<Rightarrow> nat \<Rightarrow> nat \<Rightarrow> tcp_service \<Rightarrow> nat \<Rightarrow> bool" where
  "read_limit k c p s L \<longleftrightarrow>
     (\<forall>xs h n. wire_in (fd_of s p) h = wire_received s p @ xs \<and>
        0 < a_ret (k h (K_recv (fd_of s p) n)) \<longrightarrow> length (unread s c) + length xs < L) \<or>
     0 < ts_read_max_size s \<and> ts_read_max_size s = L"

lemma read_limit_exists:
  assumes "length (unread s c) \<le> 2 ^ 60"
    and "0 < ts_read_max_size s \<and> ts_read_max_size s \<le> 2 ^ 60 \<or>
      (\<exists>B \<le> 2 ^ 60. arrives_at_most k (fd_of s p) B)"
  obtains L where "read_limit k c p s L" and "L \<le> 2 ^ 61"
  using assms(2)
proof
  assume "0 < ts_read_max_size s \<and> ts_read_max_size s \<le> 2 ^ 60"
  then show thesis by (intro that [of "ts_read_max_size s"]) (simp_all add: read_limit_def)
next
  assume "\<exists>B \<le> 2 ^ 60. arrives_at_most k (fd_of s p) B"
  then obtain B where B: "B \<le> 2 ^ 60" and most: "arrives_at_most k (fd_of s p) B" by blast
  have "length (unread s c) + length xs < length (unread s c) + B"
    if "wire_in (fd_of s p) h = wire_received s p @ xs" "0 < a_ret (k h (K_recv (fd_of s p) n))" for xs h n
  proof -
    have "\<not> B \<le> length (wire_in (fd_of s p) h)"
      using most that(2) unfolding arrives_at_most_def by (meson not_less)
    then show ?thesis using that(1) by simp
  qed
  then show thesis using B assms(1)
    by (intro that [of "length (unread s c) + B"]) (auto simp: read_limit_def)
qed

text \<open>What holds before and after each pass, with \<open>s\<close> the state before the loop.\<close>

definition recv_inv ::
    "app \<Rightarrow> nat \<Rightarrow> nat \<Rightarrow> int \<Rightarrow> tcp_service \<Rightarrow> recv_exit \<times> bool \<times> bool \<times> tcp_service \<Rightarrow> bool" where
  "recv_inv app p c i s st \<longleftrightarrow>
     (\<exists>e pc xs s'. st = (e, xs \<noteq> [], pc,
          if e = Returned then report_error app c i (w_errno (ts_io s')) s' else s') \<and>
        moved c p xs s s' \<and> conn_of s' i c p \<and> (e = Going \<longrightarrow> \<not> pc) \<and>
        length (unread s' c) \<le> 2 ^ 61 + 2 ^ 31 \<and>
        (0 < ts_read_max_size s \<longrightarrow>
           length (unread s' c) \<le> max (ts_read_max_size s) (length (unread s c))))"

lemma recv_inv_step:
  assumes k: "kernel_ok k" and L: "read_limit k c p s L" "L \<le> 2 ^ 61"
    and inv: "recv_inv app p c i s st" and going: "fst st = Going"
  shows "recv_inv app p c i s (recv_round k app p c i st)"
    and "fst (recv_round k app p c i st) = Going \<Longrightarrow>
      L - length (unread (snd (snd (snd (recv_round k app p c i st)))) c)
        < L - length (unread (snd (snd (snd st))) c)"
proof -
  obtain xs s1 where st: "st = (Going, xs \<noteq> [], False, s1)" and m1: "moved c p xs s s1"
    and of1: "conn_of s1 i c p" and small: "length (unread s1 c) \<le> 2 ^ 61 + 2 ^ 31"
    and max1: "0 < ts_read_max_size s \<longrightarrow>
      length (unread s1 c) \<le> max (ts_read_max_size s) (length (unread s c))"
    using inv going by (auto simp: recv_inv_def)
  note facts1 = moved_facts [OF m1]
  obtain ys e pc s2 where m2: "moved c p ys s1 s2" and of2: "conn_of s2 i c p"
    and round: "recv_round k app p c i (Going, xs \<noteq> [], False, s1) =
      (e, xs \<noteq> [] \<or> ys \<noteq> [], pc,
       if e = Returned then report_error app c i (w_errno (ts_io s2)) s2 else s2)"
    and e: "e = Going \<longleftrightarrow> ys \<noteq> []" and pc: "e = Going \<longrightarrow> \<not> pc" and ys: "length ys \<le> 2 ^ 31"
    and got: "ys \<noteq> [] \<longrightarrow> (\<exists>h n. wire_in (fd_of s1 p) h = wire_received s1 p \<and> 0 < a_ret (k h (K_recv (fd_of s1 p) n)))"
    and max2: "ys \<noteq> [] \<and> 0 < ts_read_max_size s1 \<longrightarrow> length (unread s2 c) \<le> ts_read_max_size s1"
    by (rule recv_round_moved [OF k of1 facts1(3) small, of app "xs \<noteq> []"])
  note facts2 = moved_facts [OF m2]
  have below: "length (unread s1 c) < L" if ne: "ys \<noteq> []"
  proof (cases "0 < ts_read_max_size s \<and> ts_read_max_size s = L")
    case True
    then have "length (unread s1 c) + length ys \<le> L" using max2 ne facts1(4) facts2(2) by simp
    then show ?thesis using ne by (cases ys) simp_all
  next
    case False
    moreover obtain h n where "wire_in (fd_of s p) h = wire_received s p @ xs"
        "0 < a_ret (k h (K_recv (fd_of s p) n))"
      using got ne facts1(1,5) by auto
    ultimately have "length (unread s c) + length xs < L" using L(1) unfolding read_limit_def by blast
    then show ?thesis by (simp add: facts1(2))
  qed
  have small2: "length (unread s2 c) \<le> 2 ^ 61 + 2 ^ 31"
    using below ys L(2) small facts2(2) by (cases "ys = []") auto
  have max2': "0 < ts_read_max_size s \<longrightarrow>
      length (unread s2 c) \<le> max (ts_read_max_size s) (length (unread s c))"
    using max1 max2 facts1(4) facts2(2) by (cases "ys = []") auto
  show "recv_inv app p c i s (recv_round k app p c i st)"
    unfolding recv_inv_def st round
    by (rule exI [of _ e], rule exI [of _ pc], rule exI [of _ "xs @ ys"], rule exI [of _ s2])
       (use moved_trans [OF m1 m2] of2 pc small2 max2' in simp)
  show "L - length (unread (snd (snd (snd (recv_round k app p c i st)))) c)
      < L - length (unread (snd (snd (snd st))) c)" if "fst (recv_round k app p c i st) = Going"
  proof -
    have g: "e = Going" "ys \<noteq> []" using that e by (simp_all add: st round)
    have "length (unread s1 c) < length (unread s2 c)" using g facts2(2) by simp
    then show ?thesis using below [OF g(2)] g(1) by (simp add: st round diff_less_mono2)
  qed
qed

lemma recv_loop_moved:
  assumes k: "kernel_ok k" and of: "conn_of s i c p" and inv: "db_inv (tc_read_buffer (conn s c))"
    and small: "length (unread s c) \<le> 2 ^ 60"
    and bounded: "0 < ts_read_max_size s \<and> ts_read_max_size s \<le> 2 ^ 60 \<or>
      (\<exists>B \<le> 2 ^ 60. arrives_at_most k (fd_of s p) B)"
  shows "\<exists>st. recv_loop k app p c i s = Some st \<and> fst st \<noteq> Going \<and> recv_inv app p c i s st"
proof -
  obtain L where L: "read_limit k c p s L" "L \<le> 2 ^ 61"
    by (rule read_limit_exists [OF small bounded])
  have start: "recv_inv app p c i s (Going, False, False, s)"
    unfolding recv_inv_def
    by (rule exI [of _ Going], rule exI [of _ False], rule exI [of _ "[]"], rule exI [of _ s])
       (use moved_refl [OF of inv] of small in simp)
  note step = recv_inv_step [OF k L]
  define f where "f st = (if fst st = Going then Suc (L - length (unread (snd (snd (snd st))) c)) else 0)"
    for st :: "recv_exit \<times> bool \<times> bool \<times> tcp_service"
  have "\<exists>st. recv_loop k app p c i s = Some st"
    unfolding recv_loop_def
  proof (rule measure_while_option_Some [where P = "recv_inv app p c i s" and f = f])
    fix st assume "recv_inv app p c i s st" "fst st = Going"
    then show "recv_inv app p c i s (recv_round k app p c i st) \<and> f (recv_round k app p c i st) < f st"
      using step [where st = st] by (simp add: f_def)
  qed (rule start)
  then obtain st where st: "recv_loop k app p c i s = Some st" by blast
  have "recv_inv app p c i s st"
    by (rule while_option_rule [where P = "recv_inv app p c i s", OF _ st [unfolded recv_loop_def] start])
       (rule step(1))
  moreover have "fst st \<noteq> Going" using while_option_stop [OF st [unfolded recv_loop_def]] by simp
  ultimately show ?thesis using st by blast
qed

text \<open>A kernel whose only error of \<open>recv\<close> is that nothing is there yet.\<close>

definition patient :: "kernel \<Rightarrow> bool" where
  "patient k \<longleftrightarrow> (\<forall>h fd n. a_ret (k h (K_recv fd n)) < 0 \<longrightarrow> a_errno (k h (K_recv fd n)) = EAGAIN)"

lemma recv_answer:
  assumes "kernel_ok k" and "call_io (sock_recv k p n) s = ((ret, xs), s')"
  obtains h fd where "ret = a_ret (k h (K_recv fd n))" and "ret < 0 \<longrightarrow> w_errno (ts_io s') = a_errno (k h (K_recv fd n))"
proof -
  define a where "a = k (w_history (touch p (ts_io s))) (K_recv (dev_fd (dev (ts_io s) p)) n)"
  have a: "-1 \<le> a_ret a" "a_ret a \<le> io_max" using assms(1) by (simp_all add: kernel_ok_def a_def Let_def)
  then have "to_int32 (a_ret a) = a_ret a"
    by (simp add: to_int32_def io_max_def signed_take_bit_int_eq_self)
  then have "ret = a_ret a" "w_errno (ts_io s') = (if a_ret a = -1 then a_errno a else w_errno (touch p (ts_io s)))"
    using assms(2) by (auto simp: call_io_def sock_recv_def sys_def Let_def a_def)
  then show thesis using a by (intro that) (auto simp: a_def)
qed

lemma patient_round:
  assumes "kernel_ok k" and "patient k"
  shows "fst (recv_round k app p c i st) \<noteq> Returned"
proof -
  have "w_errno (ts_io s') = EAGAIN" if call: "call_io (sock_recv k p n) s = ((ret, xs), s')" "ret < 0" for s s' n ret xs
    by (rule recv_answer [OF assms(1) call(1)]) (use call(2) assms(2) in \<open>auto simp: patient_def\<close>)
  then show ?thesis
    by (cases st) (auto simp: recv_round_def Let_def split: prod.splits)
qed

lemma patient_loop:
  assumes "kernel_ok k" and "patient k" and loop: "recv_loop k app p c i s = Some st"
  shows "fst st \<noteq> Returned"
  by (rule while_option_rule [where P = "\<lambda>st. fst st \<noteq> Returned", OF _ loop [unfolded recv_loop_def]])
     (simp_all add: patient_round [OF assms(1,2)])

section \<open>What receiving leaves alone\<close>

definition sending ::
    "tcp_service \<Rightarrow> (int \<Rightarrow> bytes) \<times> (nat \<Rightarrow> dynamic_buffer \<times> tcp_status \<times> send_callback option) \<times>
      (nat \<Rightarrow> io_handler io_device) \<times> nat" where
  "sending s = (\<lambda>fd. wire_out fd (w_history (ts_io s)),
     \<lambda>c. (tc_write_buffer (conn s c), tc_status (conn s c), tc_send_complete_cb (conn s c)),
     dev (ts_io s), ts_write_max_size s)"

lemma sending_set_conn:
  "(\<And>n. tc_write_buffer (f n) = tc_write_buffer n) \<Longrightarrow> (\<And>n. tc_status (f n) = tc_status n) \<Longrightarrow>
     (\<And>n. tc_send_complete_cb (f n) = tc_send_complete_cb n) \<Longrightarrow> sending (set_conn c f s) = sending s"
  by (auto simp: sending_def set_conn_def conn_def ts_fault_def fault_def dev_def fun_eq_iff split: option.split)

lemma sending_steps [frame_simps]:
  "sending (ts_fault s) = sending s" "sending (touch_conn c s) = sending s"
  "sending (snd (call_io (sock_readableBytes k p) s)) = sending s"
  "sending (snd (call_io (sock_recv k p n) s)) = sending s"
  by (auto simp: sending_def conn_def ts_fault_def touch_conn_def touch_def fault_def dev_def call_io_def
      sock_readableBytes_def sock_recv_def sys_def Let_def sent_by_def fun_eq_iff split: prod.splits)

lemma sending_round:
  assumes "fst (recv_round k app p c i st) \<noteq> Returned"
  shows "sending (snd (snd (snd (recv_round k app p c i st)))) = sending (snd (snd (snd st)))"
proof -
  obtain e da pc s where st: "st = (e, da, pc, s)" by (cases st) blast
  obtain r s1 where c1: "call_io (sock_readableBytes k p) (touch_conn c s) = (r, s1)"
    by (cases "call_io (sock_readableBytes k p) (touch_conn c s)") blast
  have 1: "sending s1 = sending s"
    using sending_steps(3) [of k p "touch_conn c s"] by (simp add: c1 frame_simps)
  let ?m = "nat (max 1 r)"
  define s2 where "s2 = (if reserve_traps (tc_read_buffer (conn s1 c)) ?m then ts_fault s1 else s1)"
  define s3 where "s3 = set_conn c (\<lambda>n. n\<lparr>tc_read_buffer := reserveWritableBytes (tc_read_buffer n) ?m\<rparr>) s2"
  obtain ret xs s4 where c4: "call_io (sock_recv k p ?m) s3 = ((ret, xs), s4)"
    by (cases "call_io (sock_recv k p ?m) s3") (metis surj_pair)
  have 3: "sending s3 = sending s" by (simp add: s3_def s2_def sending_set_conn frame_simps 1)
  have 4: "sending s4 = sending s" using sending_steps(4) [of k p ?m s3] by (simp add: c4 3)
  show ?thesis
    using assms c4 1 4
    unfolding st recv_round_def prod.case c1 Let_def s2_def [symmetric] s3_def [symmetric]
    by (simp add: c4 sending_set_conn split: if_splits)
qed

section \<open>Properties\<close>

text \<open>C4. A read event of a connection returns, if a maximal size of the read buffer is configured or
  the peer sends boundedly many bytes, and it appends to the read buffer exactly the bytes the
  kernel gave meanwhile, in their order, and within the maximal size; nothing else of the service
  changes before the callbacks run. Then either the error is reported that ended the reading, or
  the message callback is called if and only if bytes arrived.\<close>

theorem onSocketRead_appends:
  assumes k: "kernel_ok k" and of: "conn_of s i c p" and inv: "db_inv (tc_read_buffer (conn s c))"
    and small: "length (unread s c) \<le> 2 ^ 60"
    and bounded: "0 < ts_read_max_size s \<and> ts_read_max_size s \<le> 2 ^ 60 \<or>
      (\<exists>B \<le> 2 ^ 60. arrives_at_most k (fd_of s p) B)"
  shows "\<exists>failed peer_close xs s'. onSocketRead k app p s =
      Some (if failed then report_error app c i (w_errno (ts_io s')) s'
            else recv_done app c i (xs \<noteq> []) peer_close s') \<and>
    moved c p xs s s' \<and> conn_of s' i c p \<and>
    (0 < ts_read_max_size s \<longrightarrow>
       length (unread s' c) \<le> max (ts_read_max_size s) (length (unread s c)))"
proof -
  obtain st where loop: "recv_loop k app p c i s = Some st" and ended: "fst st \<noteq> Going"
    and rinv: "recv_inv app p c i s st"
    using recv_loop_moved [OF assms] by blast
  obtain e pc xs s' where st: "st = (e, xs \<noteq> [], pc,
      if e = Returned then report_error app c i (w_errno (ts_io s')) s' else s')"
    and "moved c p xs s s'" "conn_of s' i c p" "0 < ts_read_max_size s \<longrightarrow>
       length (unread s' c) \<le> max (ts_read_max_size s) (length (unread s c))"
    using rinv by (auto simp: recv_inv_def)
  moreover have "onSocketRead k app p s =
      Some (if e = Returned then report_error app c i (w_errno (ts_io s')) s'
            else recv_done app c i (xs \<noteq> []) pc s')"
    using conn_step_touch(2) [OF of] of loop by (simp add: onSocketRead_def conn_of_def st)
  ultimately show ?thesis
    by (intro exI [of _ "e = Returned"] exI [of _ pc] exI [of _ xs] exI [of _ s']) simp
qed

theorem onSocketRead_appends_witness:
  "\<exists>failed peer_close xs s'. onSocketRead (byte_kernel [1, 2, 3]) quiet_app 0 (one_connection []) =
      Some (if failed then report_error quiet_app 0 7 (w_errno (ts_io s')) s'
            else recv_done quiet_app 0 7 (xs \<noteq> []) peer_close s') \<and>
    moved 0 0 xs (one_connection []) s' \<and> conn_of s' 7 0 0 \<and>
    (0 < ts_read_max_size (one_connection []) \<longrightarrow> length (unread s' 0) \<le>
       max (ts_read_max_size (one_connection [])) (length (unread (one_connection []) 0)))"
proof (rule onSocketRead_appends [OF byte_kernel_ok(1)])
  have "arrives_at_most (byte_kernel [1, 2, 3]) fd 3" for fd
    by (auto simp: arrives_at_most_def byte_kernel_def ok_answer_def Let_def)
  then show "0 < ts_read_max_size (one_connection []) \<and> ts_read_max_size (one_connection []) \<le> 2 ^ 60 \<or>
      (\<exists>B \<le> 2 ^ 60. arrives_at_most (byte_kernel [1, 2, 3]) (fd_of (one_connection []) 0) B)"
    by (intro disjI2 exI [of _ 3]) simp
  show "db_inv (tc_read_buffer (conn (one_connection []) 0))" "length (unread (one_connection []) 0) \<le> 2 ^ 60"
    using DynamicBuffer_inv [of 8 8]
    by (simp_all add: one_connection_def conn_def TcpConnection_def unread_def)
  show "conn_of (one_connection []) 7 0 0" by (rule one_connection_ok(1)) (simp add: db_limit_def)
qed

text \<open>A read buffer that is exactly full is taken for the end of the connection: the loop asks for
  room for one more byte than the kernel has, and reports the peer as closed.\<close>

lemma full_buffer_is_peer_close:
  assumes k: "kernel_ok k" and of: "conn_of s i c p" and inv: "db_inv (tc_read_buffer (conn s c))"
    and full: "0 < ts_read_max_size s" "length (unread s c) = ts_read_max_size s" "ts_read_max_size s \<le> 2 ^ 61"
  shows "\<exists>s'. recv_round k app p c i (Going, arrived, False, s) = (Broke, arrived, True, s') \<and> moved c p [] s s'"
proof -
  have room: "length (unread s c) \<le> 2 ^ 61 + 2 ^ 31" using full by simp
  obtain xs e pc s' where moved: "moved c p xs s s'"
    and round: "recv_round k app p c i (Going, arrived, False, s) =
      (e, arrived \<or> xs \<noteq> [], pc, if e = Returned then report_error app c i (w_errno (ts_io s')) s' else s')"
    and max: "xs \<noteq> [] \<and> 0 < ts_read_max_size s \<longrightarrow> length (unread s' c) \<le> ts_read_max_size s"
    by (rule recv_round_moved [OF k of inv room, of app arrived])
  have "xs = []" using max moved_facts(2) [OF moved] full by auto
  obtain r s1 where fion: "call_io (sock_readableBytes k p) s = (r, s1)" and r: "r < 2 ^ 31"
    and s1: "s1 = s\<lparr>ts_io := ts_io s1\<rparr>"
    by (rule readableBytes_call [OF k of])
  have "conn s1 c = conn s c" "ts_read_max_size s1 = ts_read_max_size s"
    by (subst s1, simp add: conn_def)+
  moreover have "readableBytes (tc_read_buffer (conn s c)) = length (unread s c)"
    using inv by (simp add: unread_def)
  moreover have "sz_add (nat (max 1 r)) (ts_read_max_size s) = nat (max 1 r) + ts_read_max_size s"
    using full r by (simp add: sz_add_small)
  ultimately have "\<exists>s'. recv_round k app p c i (Going, arrived, False, s) = (Broke, arrived, True, s')"
    using full by (simp add: less_max_iff_disj recv_round_def conn_step_touch(1) [OF of] fion Let_def)
  then show ?thesis using round moved \<open>xs = []\<close> by auto
qed

text \<open>After a failed connect the write callback stays: if the application does not close the socket, the next
  write event finds no error any more and makes it a connection.\<close>

definition refusing_kernel :: kernel where
  "refusing_kernel h call =
     (case call of
        K_getsockopt_error fd \<Rightarrow> (ok_answer 0)\<lparr>a_value := (if h = [] then 111 else 0)\<rparr>
      | _ \<Rightarrow> ok_answer 0)"

definition connecting :: tcp_service where
  "connecting =
     on_io (setWriteCallback refusing_kernel 0 (Some OnAsyncConnectSocketWrite))
       (set_conn 0 (\<lambda>n. n\<lparr>tc_status := CONNECTING\<rparr>) (one_connection []))"

lemma failed_connect_comes_back:
  "let s1 = onAsyncConnectSocketWrite refusing_kernel quiet_app 0 (connecting\<lparr>ts_io := (ts_io connecting)\<lparr>w_history := []\<rparr>\<rparr>);
       s2 = onAsyncConnectSocketWrite refusing_kernel quiet_app 0 s1
   in tc_status (conn s1 0) = PENDING_ERROR \<and> dev_write_cb (dev (ts_io s1) 0) = Some OnAsyncConnectSocketWrite \<and>
      tc_status (conn s2 0) = CONNECTED"
  by (simp add: connecting_def one_connection_def refusing_kernel_def quiet_app_def tcp_eval cong: eval_cong)

end
