(* ===== verification/HttpConnection.thy ===== *)
theory HttpConnection
  imports HttpRoundtrip TcpReceive "HOL-Library.Sublist"
begin

text \<open>
  HTTP over a connection of \<open>TcpService\<close>, composed the way the clients of the library do it: the message
  callback gives the read buffer of the connection to \<open>HttpProtocol::recvMessage\<close>. However the kernel
  cuts the stream into reads and the loop into events, the parser gets the message that was written.
\<close>

section \<open>The composition\<close>

text \<open>The bytes of a buffer behind its readable ones, which the parser may compare.\<close>

definition behind_content :: "dynamic_buffer \<Rightarrow> bytes" where
  "behind_content b = drop (db_write_index b) (db_buffer b)"

text \<open>\<open>recvMessage\<close> on the read buffer of connection \<open>c\<close>, by the parser \<open>hp\<close> of its application.\<close>

definition recvMessage_from :: "nat \<Rightarrow> http_protocol \<Rightarrow> tcp_service \<Rightarrow> ret_code \<times> http_protocol \<times> tcp_service" where
  "recvMessage_from c hp s =
     (let b = tc_read_buffer (conn s c);
          (hp', rest, r) = http_recv (behind_content b) hp (db_content b)
      in (r, hp', set_conn c (\<lambda>n. n\<lparr>tc_read_buffer := db_read (tc_read_buffer n) (readableBytes b - length rest)\<rparr>) s))"

definition http_app :: "nat \<Rightarrow> http_protocol \<Rightarrow> app" where
  "http_app c hp call s = (case call of RecvMessage f i \<Rightarrow> snd (snd (recvMessage_from c hp s)) | _ \<Rightarrow> s)"

text \<open>A read event; the parser is kept outside the service, in the state in which the message callback
  left it. The result is \<open>WAITING_MORE_DATA\<close> where the callback was not called.\<close>

definition http_event ::
    "kernel \<Rightarrow> nat \<Rightarrow> nat \<Rightarrow> int \<Rightarrow> http_protocol \<Rightarrow> tcp_service \<Rightarrow>
     (ret_code \<times> http_protocol \<times> tcp_service) option" where
  "http_event k p c i hp s =
     (case recv_loop k (http_app c hp) p c i s of
        None \<Rightarrow> None
      | Some (exit, data_arrive, peer_close, s1) \<Rightarrow>
          (case onSocketRead k (http_app c hp) p s of
             None \<Rightarrow> None
           | Some s2 \<Rightarrow>
               if exit = Returned \<or> \<not> data_arrive \<or> ts_recv_message_cb s1 = None
               then Some (WAITING_MORE_DATA, hp, s2)
               else let (r, hp', _) = recvMessage_from c hp s1 in Some (r, hp', s2)))"

text \<open>Read events until there is a message or an error, at most \<open>n\<close>.\<close>

fun http_events ::
    "kernel \<Rightarrow> nat \<Rightarrow> nat \<Rightarrow> int \<Rightarrow> nat \<Rightarrow> http_protocol \<Rightarrow> tcp_service \<Rightarrow>
     (ret_code \<times> http_protocol \<times> tcp_service) option" where
  "http_events k p c i 0 hp s = Some (WAITING_MORE_DATA, hp, s)"
| "http_events k p c i (Suc n) hp s =
     (case http_event k p c i hp s of
        None \<Rightarrow> None
      | Some (r, hp', s') \<Rightarrow>
          if r = WAITING_MORE_DATA then http_events k p c i n hp' s' else Some (r, hp', s'))"

section \<open>One event\<close>

lemma http_recv_rest: "http_recv slack hp b = (hp', rest, r) \<Longrightarrow> \<exists>n. rest = drop n b"
proof (induction slack hp b rule: http_recv.induct)
  case (1 slack hp b)
  obtain hp1 rest1 ret where h: "http_handle slack hp b = (hp1, rest1, ret)" by (cases "http_handle slack hp b") blast
  have all: "\<exists>n. b = drop n b" by (metis drop0)
  obtain n where n: "rest1 = drop n b" using http_handle_rest [OF h] all by (auto simp: takes_from_def)
  have "\<exists>n. rest = drop n b" if ih: "\<exists>j. rest = drop j rest1" using ih by (auto simp: n)
  then show ?case
    using 1 h all n http_recv.simps [of slack hp b] by (simp split: if_splits) blast+
qed

text \<open>What all events keep.\<close>

definition http_ready :: "int \<Rightarrow> nat \<Rightarrow> nat \<Rightarrow> tcp_service \<Rightarrow> bool" where
  "http_ready i c p s \<longleftrightarrow>
     conn_of s i c p \<and> db_inv (tc_read_buffer (conn s c)) \<and> ts_recv_message_cb s \<noteq> None \<and>
     0 < ts_read_max_size s \<and> ts_read_max_size s \<le> 2 ^ 60 \<and> length (unread s c) \<le> ts_read_max_size s"

lemma ready_set_conn:
  assumes "http_ready i c p s" and "\<And>n. tc_socket (f n) = tc_socket n" and "\<And>n. conn_ok n \<Longrightarrow> conn_ok (f n)"
    and "db_inv (tc_read_buffer (f (conn s c)))"
    and "length (db_content (tc_read_buffer (f (conn s c)))) \<le> ts_read_max_size s"
  shows "http_ready i c p (set_conn c f s)" and "unread (set_conn c f s) c = db_content (tc_read_buffer (f (conn s c)))"
    and "wire_received (set_conn c f s) p = wire_received s p"
proof -
  have of: "conn_of s i c p" using assms(1) by (simp add: http_ready_def)
  define n where "n = conn s c"
  have stored: "ts_conns s c = Some n" using conn_of_facts(4) [OF of] by (simp add: n_def)
  have new: "set_conn c f s = s\<lparr>ts_conns := (ts_conns s)(c \<mapsto> f n)\<rparr>" by (rule set_conn_stored [OF stored])
  have conn: "conn (set_conn c f s) c = f n" by (simp add: new conn_def)
  have "conn_of (set_conn c f s) i c p" by (rule conn_step_of, rule conn_step_field [OF of]) (use assms in simp_all)
  moreover have "ts_recv_message_cb (set_conn c f s) = ts_recv_message_cb s"
    "ts_read_max_size (set_conn c f s) = ts_read_max_size s" by (simp_all add: new)
  ultimately show "http_ready i c p (set_conn c f s)"
    using assms(1,4,5) by (simp add: http_ready_def conn unread_def flip: n_def)
  show "unread (set_conn c f s) c = db_content (tc_read_buffer (f (conn s c)))"
    by (simp add: unread_def conn n_def)
  show "wire_received (set_conn c f s) p = wire_received s p"
    by (simp add: new wire_received_def fd_of_def)
qed

lemma recvMessage_from_ready:
  assumes ready: "http_ready i c p s" and "http_recv (behind_content (tc_read_buffer (conn s c))) hp (unread s c) = (hp', rest, r)"
  obtains s' where "recvMessage_from c hp s = (r, hp', s')" and "http_ready i c p s'" and "unread s' c = rest"
    and "wire_received s' p = wire_received s p"
proof -
  let ?b = "tc_read_buffer (conn s c)"
  let ?f = "\<lambda>n. n\<lparr>tc_read_buffer := db_read (tc_read_buffer n) (readableBytes ?b - length rest)\<rparr>"
  have inv: "db_inv ?b" using ready by (simp add: http_ready_def)
  obtain n where n: "rest = drop n (unread s c)" using http_recv_rest [OF assms(2)] by blast
  have "drop (readableBytes ?b - length rest) (unread s c) = rest"
    using inv by (cases "n \<le> length (unread s c)") (simp_all add: n unread_def)
  then have rest: "db_content (db_read ?b (readableBytes ?b - length rest)) = rest"
    using read_content [OF inv] by (simp add: unread_def)
  have "length rest \<le> ts_read_max_size s" using ready by (auto simp: n http_ready_def)
  then have "http_ready i c p (set_conn c ?f s)" "unread (set_conn c ?f s) c = rest"
    "wire_received (set_conn c ?f s) p = wire_received s p"
    using ready_set_conn [OF ready, of ?f] read_inv [OF inv] by (simp_all add: rest conn_ok_def)
  moreover have "recvMessage_from c hp s = (r, hp', set_conn c ?f s)"
    using assms(2) by (simp add: recvMessage_from_def Let_def unread_def)
  ultimately show thesis by (rule that [rotated])
qed

lemma recv_done_ready:
  assumes ready: "http_ready i c p s"
    and parsed: "http_recv (behind_content (tc_read_buffer (conn s c))) hp (unread s c) = (hp', rest, r)"
    and s': "s' = recv_done (http_app c hp) c i (xs \<noteq> []) pc s"
  shows "http_ready i c p s'" and "unread s' c = (if xs = [] then unread s c else rest)"
    and "wire_received s' p = wire_received s p"
proof -
  obtain s1 where given: "recvMessage_from c hp s = (r, hp', s1)" and s1: "http_ready i c p s1" "unread s1 c = rest"
      "wire_received s1 p = wire_received s p"
    by (rule recvMessage_from_ready [OF ready parsed])
  define s2 where "s2 = (if xs = [] then s else s1)"
  have s2: "http_ready i c p s2" "unread s2 c = (if xs = [] then unread s c else rest)"
    "wire_received s2 p = wire_received s p"
    using ready s1 by (simp_all add: s2_def)
  have conn: "ts_connections s2 i = Some c" using s2(1) by (simp add: http_ready_def conn_of_def)
  let ?f = "\<lambda>n. n\<lparr>tc_status := PEER_CLOSED\<rparr>"
  have "s' = (if pc then set_conn c ?f s2 else s2)"
    using ready given conn
    by (auto simp: s' recv_done_def s2_def http_app_def http_ready_def call_app_def Let_def split: option.splits)
  moreover have "http_ready i c p (set_conn c ?f s2)" "unread (set_conn c ?f s2) c = unread s2 c"
    "wire_received (set_conn c ?f s2) p = wire_received s2 p"
    using ready_set_conn [OF s2(1), of ?f] s2(1) by (simp_all add: http_ready_def conn_ok_def flip: unread_def)
  ultimately show "http_ready i c p s'" "unread s' c = (if xs = [] then unread s c else rest)"
    "wire_received s' p = wire_received s p"
    using s2 by simp_all
qed

lemma http_event_result:
  assumes k: "kernel_ok k" "patient k" and ready: "http_ready i c p s"
  obtains r hp' rest s' xs slack where "http_event k p c i hp s = Some (r, hp', s')"
    and "http_ready i c p s'" and "unread s' c = rest" and "wire_received s' p = wire_received s p @ xs"
    and "if xs = [] then (hp', rest, r) = (hp, unread s c, WAITING_MORE_DATA)
      else http_recv slack hp (unread s c @ xs) = (hp', rest, r)"
proof -
  have of: "conn_of s i c p" using ready by (simp add: http_ready_def)
  obtain st where loop: "recv_loop k (http_app c hp) p c i s = Some st" and inv: "recv_inv (http_app c hp) p c i s st"
    using recv_loop_moved [OF k(1) of, of "http_app c hp"] ready by (auto simp: http_ready_def)
  obtain e pc xs s1 where st: "st = (e, xs \<noteq> [], pc, s1)" and e: "e \<noteq> Returned" and moved: "moved c p xs s s1"
    and of1: "conn_of s1 i c p" and small: "length (unread s1 c) \<le> max (ts_read_max_size s) (length (unread s c))"
    using inv patient_loop [OF k loop] ready by (auto simp: recv_inv_def http_ready_def)
  note facts = moved_facts [OF moved]
  have cb: "ts_recv_message_cb s1 = ts_recv_message_cb s" using moved by (auto simp: moved_def)
  have ready1: "http_ready i c p s1" using ready of1 facts small cb by (simp add: http_ready_def)
  let ?slack = "behind_content (tc_read_buffer (conn s1 c))"
  obtain hp' rest r where parsed: "http_recv ?slack hp (unread s1 c) = (hp', rest, r)"
    by (cases "http_recv ?slack hp (unread s1 c)") blast
  note after = recv_done_ready [OF ready1 parsed refl, of xs pc]
  define s2 where "s2 = recv_done (http_app c hp) c i (xs \<noteq> []) pc s1"
  have read: "onSocketRead k (http_app c hp) p s = Some s2"
    using conn_step_touch(2) [OF of] of loop e by (simp add: onSocketRead_def conn_of_def st s2_def)
  obtain s3 where "recvMessage_from c hp s1 = (r, hp', s3)" by (rule recvMessage_from_ready [OF ready1 parsed])
  then have event: "http_event k p c i hp s =
      Some (if xs = [] then (WAITING_MORE_DATA, hp, s2) else (r, hp', s2))"
    using read loop e ready cb by (auto simp: http_event_def st http_ready_def)
  show thesis
    by (rule that [of "if xs = [] then WAITING_MORE_DATA else r" "if xs = [] then hp else hp'" s2
          "if xs = [] then unread s c else rest" xs ?slack])
       (use event after parsed facts in \<open>simp_all add: s2_def\<close>)
qed

section \<open>Any number of events\<close>

text \<open>A parser that waits has kept what it needs: it is where parsing everything would be.\<close>

lemma chunks_in_bounds_resume:
  "read_chunks slack c b = (c', rest, 0) \<Longrightarrow> chunks_in_bounds b \<Longrightarrow> chunks_in_bounds (b @ ys) \<Longrightarrow>
    chunks_in_bounds (rest @ ys)"
proof (induction c b rule: read_chunks_induct [where slack = slack])
  case (chunk c b n s)
  have "take n (b @ ys) = take n b" using find_bound [OF chunk(1)] by simp
  moreover have "take 2 (drop (n + 2 + s) (b @ ys)) = crlf" using chunk(4,5) by (simp add: take_drop_append)
  ultimately have "chunks_in_bounds (drop (n + s + 4) (b @ ys))"
    using chunk_bounds(2) [OF chunk(9) find_append [OF chunk(1)], of s] chunk(2-4) by (simp add: chunk_total_def)
  moreover have "chunks_in_bounds (drop (n + s + 4) b)"
    using chunk_bounds(2) [OF chunk(8,1,2)] chunk(3-5) by (simp add: chunk_total_def)
  moreover have "read_chunks slack (c @ take s (drop (n + 2) b)) (drop (n + s + 4) b) = (c', rest, 0)"
    using chunk by (simp add: read_chunks_cases(6))
  ultimately show ?case using chunk(4,6) by simp
qed (auto simp: read_chunks_cases)

lemma body_in_bounds_resume:
  assumes h: "http_handle slack hp b = (hp', rest, 0)" and alive: "\<not> http_dead hp"
    and now: "body_in_bounds hp b" and later: "body_in_bounds hp (b @ ys)"
  shows "body_in_bounds hp' (rest @ ys) \<and> \<not> http_dead hp'"
proof (cases "hp_status hp = READING_BODY \<and> chunked hp")
  case True
  have same: "the_message (hp\<lparr>hp_chunk_buffer := x\<rparr>) = the_message hp" for x by (simp add: the_message_def)
  obtain c r j where c: "read_chunks slack (case hp_chunk_buffer hp of None \<Rightarrow> [] | Some c \<Rightarrow> c) b = (c, r, j)"
    by (cases "read_chunks slack (case hp_chunk_buffer hp of None \<Rightarrow> [] | Some c \<Rightarrow> c) b") blast
  have "hp' = hp\<lparr>hp_chunk_buffer := Some c\<rparr>" "rest = r" "j = 0"
    using h True c by (auto simp: http_handle_def readBody_def chunked_def Let_def split: if_splits)
  then show ?thesis
    using chunks_in_bounds_resume [of slack _ b c r ys] c True now later
    by (auto simp: body_in_bounds_def chunked_def same http_dead_def)
next
  case False
  then have "hp' = hp \<and> rest = b"
    using h alive
    by (auto simp: http_handle_def http_dead_def readStartLine_def readHeader_def readBody_def chunked_def Let_def
        split: http_status.splits option.splits if_splits prod.splits)
  then show ?thesis using later alive by simp
qed

lemma http_in_bounds_resume:
  "http_recv slack hp b = (hp', rest, WAITING_MORE_DATA) \<Longrightarrow> http_in_bounds hp b \<Longrightarrow> http_in_bounds hp (b @ ys) \<Longrightarrow>
    http_in_bounds hp' (rest @ ys)"
proof (induction slack hp b rule: http_recv.induct)
  case (1 slack hp b)
  have alive: "\<not> http_dead hp" using 1(2) http_recv.simps [of slack hp b] by auto
  obtain hp1 rest1 ret where h: "http_handle slack hp b = (hp1, rest1, ret)" by (cases "http_handle slack hp b") blast
  note now = http_in_bounds_step [OF 1(3) alive h]
  show ?case
  proof (cases "ret = 0")
    case True
    then have same: "hp' = hp1" "rest = rest1" using 1(2) alive h http_recv.simps [of slack hp b] by auto
    have "body_in_bounds hp (b @ ys)" using 1(4) alive http_in_bounds.simps [of hp "b @ ys"] by simp
    then have "body_in_bounds hp1 (rest1 @ ys) \<and> \<not> http_dead hp1"
      using body_in_bounds_resume [of slack hp b hp1 rest1 ys] h True alive now(1) by simp
    moreover have "http_handle [] hp (b @ ys) = http_handle [] hp1 (rest1 @ ys)"
      using http.handle_wait [OF 1(3) alive, of "[]" hp1 rest1 ys] h http_handle_slack [OF now(1), of slack] True by simp
    ultimately show ?thesis
      using 1(4) alive http_in_bounds.simps [of hp "b @ ys"] http_in_bounds.simps [of hp1 "rest1 @ ys"]
      by (simp add: same)
  next
    case False
    then have going: "ret \<noteq> -1" "hp_status hp1 \<noteq> FINISHED" "http_recv slack hp1 rest1 = (hp', rest, WAITING_MORE_DATA)"
      using 1(2) alive h http_recv.simps [of slack hp b] by (auto split: if_splits)
    have "http_handle slack hp (b @ ys) = (hp1, rest1 @ ys, ret)"
      using http.handle_done [OF 1(3) alive h False] .
    then have "http_in_bounds hp1 (rest1 @ ys)"
      using http_in_bounds_step(2) [OF 1(4) alive] False going by blast
    then show ?thesis using 1(1) [OF alive h [symmetric] refl False going(1,2,3)] now(2) False going by blast
  qed
qed

lemma http_events_result:
  assumes k: "kernel_ok k" "patient k"
  shows "http_ready i c p s \<Longrightarrow>
    ((\<forall>ys. prefix ys acc \<longrightarrow> http_in_bounds hp0 ys) \<longrightarrow>
       http_recv [] hp0 acc = (hp, unread s c, WAITING_MORE_DATA)) \<Longrightarrow>
    \<exists>r hp' s' xs. http_events k p c i n hp s = Some (r, hp', s') \<and>
      http_ready i c p s' \<and> wire_received s' p = wire_received s p @ xs \<and>
      ((\<forall>ys. prefix ys (acc @ xs) \<longrightarrow> http_in_bounds hp0 ys) \<longrightarrow>
         http_recv [] hp0 (acc @ xs) = (hp', unread s' c, r))"
proof (induction n arbitrary: hp s acc)
  case 0
  then show ?case by (intro exI [of _ WAITING_MORE_DATA] exI [of _ hp] exI [of _ s] exI [of _ "[]"]) simp
next
  case (Suc n)
  obtain r1 hp1 rest1 s1 xs1 slack where event: "http_event k p c i hp s = Some (r1, hp1, s1)"
    and ready1: "http_ready i c p s1" and rest1: "unread s1 c = rest1"
    and wire1: "wire_received s1 p = wire_received s p @ xs1"
    and got: "if xs1 = [] then (hp1, rest1, r1) = (hp, unread s c, WAITING_MORE_DATA)
      else http_recv slack hp (unread s c @ xs1) = (hp1, rest1, r1)"
    by (rule http_event_result [OF k Suc.prems(1)])
  have parsed: "http_recv [] hp0 (acc @ xs1) = (hp1, rest1, r1)"
    if bounds: "\<forall>ys. prefix ys (acc @ xs1) \<longrightarrow> http_in_bounds hp0 ys"
  proof -
    have before: "http_recv [] hp0 acc = (hp, unread s c, WAITING_MORE_DATA)" and acc: "http_in_bounds hp0 acc"
      using Suc.prems(2) bounds by auto
    show ?thesis
    proof (cases "xs1 = []")
      case True
      then show ?thesis using before got by simp
    next
      case False
      have "http_in_bounds hp (unread s c @ xs1)"
        using http_in_bounds_resume [OF before acc] bounds by blast
      then have "http_recv [] hp (unread s c @ xs1) = (hp1, rest1, r1)"
        using got False http_recv_slack [of hp "unread s c @ xs1" slack] by simp
      then show ?thesis using http.recv_resume [OF acc before] by simp
    qed
  qed
  show ?case
  proof (cases "r1 = WAITING_MORE_DATA")
    case False
    then show ?thesis
      using event ready1 wire1 parsed rest1
      by (intro exI [of _ r1] exI [of _ hp1] exI [of _ s1] exI [of _ xs1]) simp
  next
    case True
    have "(\<forall>ys. prefix ys (acc @ xs1) \<longrightarrow> http_in_bounds hp0 ys) \<longrightarrow>
        http_recv [] hp0 (acc @ xs1) = (hp1, unread s1 c, WAITING_MORE_DATA)"
      using parsed rest1 True by blast
    from Suc.IH [OF ready1 this] obtain r2 hp2 s2 xs2 where "http_events k p c i n hp1 s1 = Some (r2, hp2, s2)" "http_ready i c p s2"
      "wire_received s2 p = wire_received s1 p @ xs2"
      "(\<forall>ys. prefix ys ((acc @ xs1) @ xs2) \<longrightarrow> http_in_bounds hp0 ys) \<longrightarrow>
         http_recv [] hp0 ((acc @ xs1) @ xs2) = (hp2, unread s2 c, r2)"
      by blast
    then show ?thesis
      using event True wire1
      by (intro exI [of _ r2] exI [of _ hp2] exI [of _ s2] exI [of _ "xs1 @ xs2"]) simp
  qed
qed

section \<open>Messages\<close>

text \<open>The text of a message may be cut anywhere.\<close>

lemma text_not_chunked:
  assumes "body_ok m" and "msg_headers m' = msg_headers m" and "hp_message hp = Some m'"
  shows "\<not> chunked hp"
  using assms(1) getHeader_headers [OF assms(2)]
  by (auto simp: chunked_def the_message_def assms(3) body_ok_def split: if_splits)

lemma not_chunked_in_bounds:
  assumes "\<not> chunked hp" and "hp_status hp = READING_BODY"
  shows "http_in_bounds hp b"
proof -
  obtain hp' rest ret where h: "http_handle [] hp b = (hp', rest, ret)" by (cases "http_handle [] hp b") blast
  then have "ret = 0 \<or> hp_status hp' = FINISHED"
    using assms by (auto simp: http_handle_def readBody_def chunked_def Let_def split: if_splits)
  then show ?thesis
    using assms h http_in_bounds.simps [of hp b] by (auto simp: body_in_bounds_def)
qed

lemma text_in_bounds:
  assumes m: "message_ok m" and cut: "xs @ zs = message_text m @ ys"
  shows "http_in_bounds HttpProtocol xs"
proof -
  have ok: "start_ok m" "ci.ordered (msg_headers m)" "list_all header_ok (msg_headers m)" "body_ok m"
    using m by (auto simp: message_ok_def)
  let ?hs = "msg_headers m"
  let ?hp1 = "HttpProtocol\<lparr>hp_message := Some (start_message m), hp_status := READING_HEADER\<rparr>"
  let ?rest1 = "concat (map header_line ?hs) @ crlf @ c_string (msg_body m) @ ys"
  have body0: "body_in_bounds HttpProtocol xs" "body_in_bounds ?hp1 b" for b
    by (simp_all add: body_in_bounds_def HttpProtocol_def)
  have second: "http_in_bounds ?hp1 b" if b: "b @ zs = ?rest1" for b
  proof -
    obtain hp2 rest2 ret where h: "readHeader ?hp1 b = (hp2, rest2, ret)" by (cases "readHeader ?hp1 b") blast
    have "hp_status hp2 = READING_BODY \<and> \<not> chunked hp2 \<or> hp_status hp2 = FINISHED" if ret: "ret \<noteq> 0" "ret \<noteq> -1"
    proof -
      have full: "readHeader ?hp1 ?rest1 = (hp2, rest2 @ zs, ret)"
        using readHeader_append [OF h ret(1), of zs] b by simp
      show ?thesis
      proof (cases "?hs = []")
        case True
        then show ?thesis using full by (auto simp: readHeader_def crlf_def)
      next
        case False
        have "hp2 = ?hp1\<lparr>hp_message := Some (put_headers ?hs (start_message m)), hp_status := READING_BODY\<rparr>"
          using full read_headers [OF ok(3,2) False, of ?hp1 "start_message m"] by (simp add: start_message_parts)
        then show ?thesis
          using text_not_chunked [OF ok(4) put_headers_body(2), of hp2] by simp
      qed
    qed
    then show ?thesis
      using h body0(2) not_chunked_in_bounds [of hp2 rest2] http_in_bounds.simps [of ?hp1 b]
      by (auto simp: http_handle_def)
  qed
  obtain hp1 rest1 ret where h: "readStartLine HttpProtocol xs = (hp1, rest1, ret)"
    by (cases "readStartLine HttpProtocol xs") blast
  have "hp1 = ?hp1 \<and> rest1 @ zs = ?rest1" if "ret \<noteq> 0"
    using readStartLine_append [OF h that, of zs] read_start_line [OF ok(1), of ?rest1] cut
    by (simp add: message_text_def)
  then show ?thesis
    using h body0(1) second http_in_bounds.simps [of HttpProtocol xs]
    by (auto simp: http_handle_def HttpProtocol_def)
qed

text \<open>What the parser makes of a stream that begins with the text of a message.\<close>

lemma parsed_text:
  assumes m: "message_ok m" and parsed: "http_recv [] HttpProtocol xs = (hp, rest, r)"
    and cut: "xs @ zs = message_text m @ ys"
  shows "if prefix (message_text m) xs
    then r = MESSAGE_READY \<and> hp_message hp = Some m \<and> xs = message_text m @ rest
    else r = WAITING_MORE_DATA"
proof (cases "prefix (message_text m) xs")
  case True
  then obtain t where "xs = message_text m @ t" by (auto elim: prefixE)
  then show ?thesis using recv_message_text [OF m, of "[]" t] parsed by auto
next
  case False
  note bounds = text_in_bounds [OF m cut]
  have "r = WAITING_MORE_DATA"
  proof (rule ccontr)
    assume r: "r \<noteq> WAITING_MORE_DATA"
    have "http_recv [] HttpProtocol (xs @ zs) = (hp, rest @ zs, r)" by (rule http.recv_complete [OF bounds parsed r])
    then have rest: "rest @ zs = ys" using recv_message_text [OF m, of "[]" ys] cut by auto
    obtain k where "rest = drop k xs" using http_recv_rest [OF parsed] by blast
    then have "xs = take k xs @ rest" by simp
    then have "(take k xs @ rest) @ zs = message_text m @ ys" using cut by simp
    then have "take k xs = message_text m" using rest by simp
    then show False using False by (metis take_is_prefix)
  qed
  then show ?thesis using False by simp
qed

section \<open>Properties\<close>

text \<open>C5. A message crosses a connection. Any number of read events return; what they read is
  appended in order, and if it is the beginning of the text of a message and of what follows it,
  however it was cut, then the parser waits until the whole text is there, and then it has the message
  and has left what follows in the read buffer.\<close>

theorem http_over_tcp:
  assumes k: "kernel_ok k" "patient k" and ready: "http_ready i c p s" and empty: "unread s c = []"
    and m: "message_ok m"
  shows "\<exists>r hp s' xs. http_events k p c i n HttpProtocol s = Some (r, hp, s') \<and>
    wire_received s' p = wire_received s p @ xs \<and>
    (\<forall>zs ys. xs @ zs = message_text m @ ys \<longrightarrow>
       (if prefix (message_text m) xs
        then r = MESSAGE_READY \<and> hp_message hp = Some m \<and> xs = message_text m @ unread s' c
        else r = WAITING_MORE_DATA))"
proof -
  have "http_recv [] HttpProtocol [] = (HttpProtocol, unread s c, WAITING_MORE_DATA)"
    unfolding empty by code_simp
  with http_events_result [OF k ready, of "[]" HttpProtocol HttpProtocol n] obtain r hp s' xs where run: "http_events k p c i n HttpProtocol s = Some (r, hp, s')"
    and wire: "wire_received s' p = wire_received s p @ xs"
    and parsed: "(\<forall>ys. prefix ys xs \<longrightarrow> http_in_bounds HttpProtocol ys) \<longrightarrow>
      http_recv [] HttpProtocol xs = (hp, unread s' c, r)"
    by (simp only: append_Nil) blast
  have "if prefix (message_text m) xs
      then r = MESSAGE_READY \<and> hp_message hp = Some m \<and> xs = message_text m @ unread s' c
      else r = WAITING_MORE_DATA" if cut: "xs @ zs = message_text m @ ys" for zs ys
  proof -
    have "http_in_bounds HttpProtocol b" if pre: "prefix b xs" for b
    proof -
      obtain t where "xs = b @ t" using pre by (auto elim: prefixE)
      then show ?thesis using cut by (intro text_in_bounds [OF m, of b "t @ zs" ys]) simp
    qed
    then show ?thesis using parsed_text [OF m _ cut] parsed by blast
  qed
  then show ?thesis using run wire by blast
qed

text \<open>The kernel gives the sample request two bytes at a time.\<close>

definition http_sample :: tcp_service where
  "http_sample = (one_connection [])\<lparr>ts_recv_message_cb := Some 0, ts_read_max_size := 1000\<rparr>"

theorem http_over_tcp_witness:
  "\<exists>r hp s' xs. http_events (byte_kernel (message_text sample_request)) 0 0 7 9 HttpProtocol http_sample = Some (r, hp, s') \<and>
    wire_received s' 0 = wire_received http_sample 0 @ xs \<and>
    (\<forall>zs ys. xs @ zs = message_text sample_request @ ys \<longrightarrow>
       (if prefix (message_text sample_request) xs
        then r = MESSAGE_READY \<and> hp_message hp = Some sample_request \<and> xs = message_text sample_request @ unread s' 0
        else r = WAITING_MORE_DATA))"
proof (rule http_over_tcp [OF byte_kernel_ok(1) _ _ _ sample_request_ok])
  show "patient (byte_kernel (message_text sample_request))"
    by (auto simp: patient_def byte_kernel_def ok_answer_def Let_def)
  have "conn_of (one_connection []) 7 0 0" by (rule one_connection_ok(1)) (simp add: db_limit_def)
  then have "conn_of http_sample 7 0 0" by (simp add: http_sample_def conn_of_def tcp_inv_def conn_def)
  then show "http_ready 7 0 0 http_sample" "unread http_sample 0 = []"
    using DynamicBuffer_inv [of 8 8]
    by (simp_all add: http_ready_def http_sample_def one_connection_def conn_def TcpConnection_def unread_def)
qed

end
