(* ===== verification/EchoServer.thy ===== *)
theory EchoServer
  imports TcpReceive
begin

text \<open>
  \<^verbatim>\<open>src/src/test/echo_server.cc\<close>: a server that sends back what it receives, as an application of
  \<open>TcpService\<close>. It shows the two directions of a connection together: over any sequence of read and write
  events everything received goes out again, in order, while the connection stays open and the kernel takes no
  message that it is given directly in part.
\<close>

section \<open>The application\<close>

text \<open>The callbacks; what they print is left out. The send callback of \<open>sendMessage\<close> is the default one.\<close>

definition es_onRecvMessage :: "kernel \<Rightarrow> int \<Rightarrow> tcp_service \<Rightarrow> tcp_service" where
  "es_onRecvMessage k socket_id s =
     (case ts_connections s socket_id of
        None \<Rightarrow> s
      | Some c \<Rightarrow>
          let buffer_string = db_content (tc_read_buffer (conn s c));
              s1 = set_conn c (\<lambda>n. n\<lparr>tc_read_buffer := db_read (tc_read_buffer n) (readableBytes (tc_read_buffer n))\<rparr>) s;
              (ok, s2) = tcp_sendMessage k quiet_app socket_id buffer_string None s1
          in if ok then s2 else closeSocket k socket_id s2)"

definition es_onPeerClose :: "kernel \<Rightarrow> int \<Rightarrow> tcp_service \<Rightarrow> tcp_service" where
  "es_onPeerClose k socket_id s = closeSocket k socket_id s"

definition es_onError :: "kernel \<Rightarrow> int \<Rightarrow> tcp_service \<Rightarrow> tcp_service" where
  "es_onError k socket_id s = closeSocket k socket_id s"

definition echo_server :: "kernel \<Rightarrow> app" where
  "echo_server k call s =
     (case call of
        RecvMessage f i \<Rightarrow> es_onRecvMessage k i s
      | PeerClose f i \<Rightarrow> es_onPeerClose k i s
      | SocketError f i e \<Rightarrow> es_onError k i s
      | _ \<Rightarrow> s)"

definition es_construct :: "kernel \<Rightarrow> tcp_service option" where
  "es_construct k =
     map_option (\<lambda>w. tcp_setErrorCallback (Some 3) (setPeerCloseCallback (Some 2)
       (setRecvMessageCallback (Some 1) (setNewConnectionCallback (Some 0) (TcpService w))))) (IOService k)"

text \<open>\<open>run\<close>: None where the loop does not return.\<close>

definition es_run :: "(bytes \<Rightarrow> bytes option) \<Rightarrow> kernel \<Rightarrow> socket_address \<Rightarrow> tcp_service \<Rightarrow> (bool \<times> tcp_service) option" where
  "es_run pton6 k addr s =
     (let (listen_id, s1) = tcp_listen pton6 k addr s
      in if listen_id < 0 then Some (False, s1)
         else map_option (\<lambda>st. (True, joined st)) (io_loop k (tcp_handle k (echo_server k)) (tcp_timeout k (echo_server k)) (ts_io s1, s1)))"

text \<open>The server uses the service through its interface only.\<close>

lemma echo_server_api: "tcp_inv s \<Longrightarrow> api k s (echo_server k call s)"
proof -
  assume inv: "tcp_inv s"
  have "api k s (es_onRecvMessage k i s)" for i
  proof (cases "ts_connections s i")
    case None
    then show ?thesis by (simp add: es_onRecvMessage_def api_done)
  next
    case (Some c)
    obtain n where n: "ts_conns s c = Some n" and ok: "conn_ok n" using inv_connection [OF inv Some] by auto
    let ?b = "db_read (tc_read_buffer n) (readableBytes (tc_read_buffer n))"
    let ?s1 = "set_conn c (\<lambda>n. n\<lparr>tc_read_buffer := db_read (tc_read_buffer n) (readableBytes (tc_read_buffer n))\<rparr>) s"
    have "?s1 = set_conn c (\<lambda>n. n\<lparr>tc_read_buffer := ?b\<rparr>) s" by (simp add: set_conn_def n)
    then have one: "api k s ?s1" using api_read_buffer [OF Some, of ?b k] ok by (simp add: conn_ok_def)
    obtain sent s2 where send: "tcp_sendMessage k quiet_app i (db_content (tc_read_buffer (conn s c))) None ?s1 = (sent, s2)"
      by (cases "tcp_sendMessage k quiet_app i (db_content (tc_read_buffer (conn s c))) None ?s1") blast
    have "api k ?s1 (snd (tcp_sendMessage k quiet_app i (db_content (tc_read_buffer (conn s c))) None ?s1))"
      by (rule api_sendMessage) (simp add: quiet_app_def api_done)
    then have two: "api k s s2" using api_then [OF one] by (simp add: send)
    show ?thesis
      using two api_then [OF two api_closeSocket] by (simp add: es_onRecvMessage_def Some Let_def send)
  qed
  then show ?thesis
    by (auto simp: echo_server_def es_onPeerClose_def es_onError_def split: app_call.split intro: api_done api_closeSocket)
qed

text \<open>It keeps the two conditions on an application, so no run of it uses a deleted socket or connection.\<close>

lemma echo_server_polite: "listener_kept (echo_server k)" "ids_not_reused (echo_server k)"
proof -
  have closed: "ts_connections (closeSocket k i s) i = None" for i s
    by (auto simp: closeSocket_def Let_def on_io_def delete_conn_def touch_conn_def ts_fault_def split: option.split)
  have "ts_connections (es_onRecvMessage k i s) i = None \<or> ts_connections (es_onRecvMessage k i s) i = ts_connections s i" for i s
  proof (cases "ts_connections s i")
    case None
    then show ?thesis by (simp add: es_onRecvMessage_def)
  next
    case (Some c)
    let ?s1 = "set_conn c (\<lambda>n. n\<lparr>tc_read_buffer := db_read (tc_read_buffer n) (readableBytes (tc_read_buffer n))\<rparr>) s"
    have "ts_connections ?s1 = ts_connections s" by (simp add: tcp_sel)
    then show ?thesis
      using Some sendMessage_connections [of k quiet_app i "db_content (tc_read_buffer (conn s c))" ?s1]
      by (simp add: es_onRecvMessage_def Let_def closed case_prod_unfold)
  qed
  then show "listener_kept (echo_server k)" "ids_not_reused (echo_server k)"
    by (simp_all add: listener_kept_def ids_not_reused_def echo_server_def)
qed

lemma echo_server_is_safe:
  assumes "tcp_reach k (echo_server k) st" and k: "detach_ok k"
  shows "\<not> w_fault (fst st)"
proof -
  have "app_safe (echo_server k)"
    using api_safe [OF echo_server_api k] by (simp add: app_safe_def)
  from app_reach_inv [OF assms(1) this echo_server_polite k] show ?thesis
    by (simp add: tcp_inv_def world_ok_def)
qed

section \<open>A connection of the server\<close>

text \<open>A connection that stays open: \<open>send\<close> takes some bytes or says that there is no room now, and the peer keeps
  its side open.\<close>

definition sends_alive :: "kernel \<Rightarrow> bool" where
  "sends_alive k \<longleftrightarrow> (\<forall>h fd xs. xs \<noteq> [] \<longrightarrow> 1 \<le> a_ret (k h (K_send fd xs)) \<or>
     a_ret (k h (K_send fd xs)) = -1 \<and> a_errno (k h (K_send fd xs)) = EAGAIN)"

definition peer_open :: "kernel \<Rightarrow> bool" where
  "peer_open k \<longleftrightarrow> (\<forall>h fd n. a_ret (k h (K_recv fd n)) \<noteq> 0)"

definition echo_ready :: "int \<Rightarrow> nat \<Rightarrow> nat \<Rightarrow> tcp_service \<Rightarrow> bool" where
  "echo_ready i c p s \<longleftrightarrow>
     conn_of s i c p \<and> db_inv (tc_read_buffer (conn s c)) \<and> db_inv (tc_write_buffer (conn s c)) \<and>
     tc_status (conn s c) = CONNECTED \<and> tc_send_complete_cb (conn s c) = None \<and>
     ts_recv_message_cb s \<noteq> None \<and> ts_read_max_size s = 0 \<and> ts_write_max_size s = 0 \<and> unread s c = []"

text \<open>The message callback finds the service in state \<open>s\<close>. If nothing waits in the write buffer, \<open>sendMessage\<close>
  gives the message to the kernel directly; \<open>whole_direct\<close>: the kernel then takes all of it or nothing. After a
  part of it the code would send bytes twice (\<open>partial_send_repeats\<close>).\<close>

definition whole_direct :: "kernel \<Rightarrow> nat \<Rightarrow> nat \<Rightarrow> tcp_service \<Rightarrow> bool" where
  "whole_direct k c p s \<longleftrightarrow> (unsent s c = [] \<longrightarrow> unread s c \<noteq> [] \<longrightarrow>
     a_ret (k (w_history (ts_io s)) (K_send (fd_of s p) (unread s c))) \<in> {-1, int (length (unread s c))})"

lemma peer_open_round:
  assumes "kernel_ok k" and "peer_open k" and "ts_read_max_size (snd (snd (snd st))) = 0" and "\<not> fst (snd (snd st))"
    and "fst (recv_round k app p c i st) \<noteq> Returned"
  shows "\<not> fst (snd (snd (recv_round k app p c i st)))"
    and "ts_read_max_size (snd (snd (snd (recv_round k app p c i st)))) = 0"
proof -
  have ret: "ret \<noteq> 0" if "call_io (sock_recv k p n) s = ((ret, xs), s')" for s s' n ret xs
    by (rule recv_answer [OF assms(1) that]) (use assms(2) in \<open>auto simp: peer_open_def\<close>)
  have size: "ts_read_max_size s' = ts_read_max_size s" if "call_io f s = (r, s')"
    for s s' and f :: "tcp_io \<Rightarrow> 'r \<times> tcp_io" and r
    using that by (auto simp: call_io_def split: prod.splits)
  have sizes: "ts_read_max_size (set_conn c f s) = ts_read_max_size s" "ts_read_max_size (touch_conn c s) = ts_read_max_size s"
    "ts_read_max_size (ts_fault s) = ts_read_max_size s" for f s
    by (auto simp: set_conn_def touch_conn_def ts_fault_def split: option.split)
  obtain e da pc s where st: "st = (e, da, pc, s)" by (cases st) blast
  obtain r s1 where c1: "call_io (sock_readableBytes k p) (touch_conn c s) = (r, s1)"
    by (cases "call_io (sock_readableBytes k p) (touch_conn c s)") blast
  have 1: "ts_read_max_size s1 = 0" using assms(3) size [OF c1] sizes by (simp add: st)
  let ?m = "nat (max 1 r)"
  define s2 where "s2 = (if reserve_traps (tc_read_buffer (conn s1 c)) ?m then ts_fault s1 else s1)"
  define s3 where "s3 = set_conn c (\<lambda>n. n\<lparr>tc_read_buffer := reserveWritableBytes (tc_read_buffer n) ?m\<rparr>) s2"
  obtain ret xs s4 where c4: "call_io (sock_recv k p ?m) s3 = ((ret, xs), s4)"
    by (cases "call_io (sock_recv k p ?m) s3") (metis surj_pair)
  have 4: "ts_read_max_size s4 = 0" using size [OF c4] sizes 1 by (simp add: s3_def s2_def)
  have round: "recv_round k app p c i st =
      (if ret > 0 then (Going, True, pc, set_conn c (\<lambda>n. n\<lparr>tc_read_buffer := db_write (db_store (tc_read_buffer n) xs) (nat ret)\<rparr>) s4)
       else if w_errno (ts_io s4) = EAGAIN then (Broke, da, pc, s4)
       else (Returned, da, pc, report_error app c i (w_errno (ts_io s4)) s4))"
    using c4 1 ret [OF c4]
    unfolding st recv_round_def prod.case c1 Let_def s2_def [symmetric] s3_def [symmetric] by (simp add: c4)
  show "\<not> fst (snd (snd (recv_round k app p c i st)))"
    "ts_read_max_size (snd (snd (snd (recv_round k app p c i st)))) = 0"
    using assms(4,5) 4 unfolding round by (simp_all add: st sizes split: if_splits)
qed

lemma echo_loop:
  assumes k: "kernel_ok k" "patient k" "peer_open k" and max: "ts_read_max_size s = 0"
    and loop: "recv_loop k app p c i s = Some st"
  shows "fst st \<noteq> Returned \<and> \<not> fst (snd (snd st)) \<and> sending (snd (snd (snd st))) = sending s"
proof -
  let ?P = "\<lambda>st. fst st \<noteq> Returned \<and> \<not> fst (snd (snd st)) \<and> ts_read_max_size (snd (snd (snd st))) = 0 \<and>
    sending (snd (snd (snd st))) = sending s"
  have "?P st"
  proof (rule while_option_rule [where P = ?P, OF _ loop [unfolded recv_loop_def]])
    fix st :: "recv_exit \<times> bool \<times> bool \<times> tcp_service"
    assume "?P st"
    then show "?P (recv_round k app p c i st)"
      using patient_round [OF k(1,2), of app p c i st] peer_open_round [OF k(1,3), of st app p c i] sending_round [of k app p c i st]
      by simp
  qed (use max in simp)
  then show ?thesis by simp
qed

text \<open>When the peer has sent all, a read event brings nothing.\<close>

lemma recv_loop_nothing:
  assumes k: "kernel_ok k" and of: "conn_of s i c p" and inv: "db_inv (tc_read_buffer (conn s c))"
    and room: "length (unread s c) \<le> 2 ^ 61 + 2 ^ 31" and most: "arrives_at_most k (fd_of s p) B"
    and all: "B \<le> length (wire_received s p)" and loop: "recv_loop k app p c i s = Some st"
  shows "\<not> fst (snd st)"
proof -
  obtain xs e pc s' where "moved c p xs s s'" and "conn_of s' i c p"
    and round: "recv_round k app p c i (Going, False, False, s) =
      (e, False \<or> xs \<noteq> [], pc, if e = Returned then report_error app c i (w_errno (ts_io s')) s' else s')"
    and e: "e = Going \<longleftrightarrow> xs \<noteq> []" and "e = Going \<longrightarrow> \<not> pc" and "length xs \<le> 2 ^ 31"
    and got: "xs \<noteq> [] \<longrightarrow> (\<exists>h n. wire_in (fd_of s p) h = wire_received s p \<and> 0 < a_ret (k h (K_recv (fd_of s p) n)))"
    and "xs \<noteq> [] \<and> 0 < ts_read_max_size s \<longrightarrow> length (unread s' c) \<le> ts_read_max_size s"
    by (rule recv_round_moved [OF k of inv room, of app False])
  have "xs = []"
  proof (rule ccontr)
    assume "xs \<noteq> []"
    then obtain h n where "wire_in (fd_of s p) h = wire_received s p" "0 < a_ret (k h (K_recv (fd_of s p) n))"
      using got by blast
    moreover have "a_ret (k h (K_recv (fd_of s p) n)) \<le> 0"
      using most all calculation(1) by (simp add: arrives_at_most_def)
    ultimately show False by simp
  qed
  then have "fst (recv_round k app p c i (Going, False, False, s)) \<noteq> Going" "\<not> fst (snd (recv_round k app p c i (Going, False, False, s)))"
    using e round by simp_all
  then show ?thesis
    using loop by (simp add: recv_loop_def while_option_unfold)
qed


text \<open>The message callback sends the bytes that were read and empties the read buffer.\<close>

lemma echo_message:
  assumes k: "kernel_ok k" "sends_alive k" and direct: "whole_direct k c p s"
    and of: "conn_of s i c p" and inv: "db_inv (tc_read_buffer (conn s c))"
    "db_inv (tc_write_buffer (conn s c))" and st: "tc_status (conn s c) = CONNECTED" "tc_send_complete_cb (conn s c) = None"
    and some: "ts_recv_message_cb s \<noteq> None" "ts_read_max_size s = 0" "ts_write_max_size s = 0" "unread s c \<noteq> []"
    and room: "length (unsent s c) + length (unread s c) < db_limit"
  defines "s' \<equiv> es_onRecvMessage k i s"
  shows "echo_ready i c p s'" and "out_stream s' c p = out_stream s c p @ unread s c"
    and "wire_received s' p = wire_received s p" and "fd_of s' p = fd_of s p"
    and "\<exists>t. wire_sent s' p = wire_sent s p @ t"
proof -
  define msg where "msg = unread s c"
  let ?f = "\<lambda>n. n\<lparr>tc_read_buffer := db_read (tc_read_buffer n) (readableBytes (tc_read_buffer n))\<rparr>"
  define n where "n = conn s c"
  define s1 where "s1 = set_conn c ?f s"
  have stored: "ts_conns s c = Some n" using conn_of_facts(4) [OF of] by (simp add: n_def)
  have s1: "s1 = s\<lparr>ts_conns := (ts_conns s)(c \<mapsto> ?f n)\<rparr>" unfolding s1_def by (rule set_conn_stored [OF stored])
  have of1: "conn_of s1 i c p"
    unfolding s1_def by (rule conn_step_of, rule conn_step_field [OF of]) (simp_all add: conn_ok_def)
  have c1: "conn s1 c = ?f n" by (simp add: s1 conn_def)
  have b1: "db_inv (tc_read_buffer (conn s1 c))" "unread s1 c = []"
    using read_inv [OF inv(1)] read_content [OF inv(1)] inv(1) by (simp_all add: c1 unread_def flip: n_def)
  have same1: "unsent s1 c = unsent s c" "wire_sent s1 p = wire_sent s p" "wire_received s1 p = wire_received s p"
    "fd_of s1 p = fd_of s p" "ts_io s1 = ts_io s"
    by (simp add: unsent_def c1 flip: n_def) (simp_all add: wire_sent_def wire_received_def fd_of_def s1)
  have inv1: "db_inv (tc_write_buffer (conn s1 c))" "tc_status (conn s1 c) = CONNECTED"
    and room1: "length (unsent s1 c) + length msg < db_limit"
    using inv st room by (simp_all add: c1 same1 msg_def flip: n_def)
  have none: "run_send_complete_if k quiet_app None p s' = s'" for s' by (simp add: run_send_complete_if_def)
  obtain m res s2 where send: "tcp_sendMessage k quiet_app i msg None s1 = (res \<noteq> Failed, s2)"
    and of2: "conn_of s2 i c p" and result: "send_result k res m msg None c p s1 s2"
    using sendMessage_steps [OF k(1) of1 inv1 room1, of quiet_app None] unfolding none if_cancel by blast
  let ?a = "k (w_history (ts_io s1)) (K_send (fd_of s1 p) msg)"
  have max1: "ts_write_max_size s1 = 0" using some by (simp add: s1)
  have msg: "msg \<noteq> []" using some by (simp add: msg_def)
  have again: "a_errno ?a = EAGAIN" if "a_ret ?a = -1"
    using k(2) msg that unfolding sends_alive_def by (metis not_one_le_zero order_trans zero_le_one neg_0_le_iff_le)
  have whole: "unsent s1 c = [] \<longrightarrow> a_ret ?a = -1 \<or> a_ret ?a = int (length msg)"
    using direct msg by (simp add: whole_direct_def same1 msg_def)
  have "res \<noteq> Failed \<and> wire_sent s2 p @ unsent s2 c = wire_sent s1 p @ unsent s1 c @ msg \<and>
      db_inv (tc_write_buffer (conn s2 c)) \<and> tc_status (conn s2 c) = CONNECTED \<and> tc_send_complete_cb (conn s2 c) = None"
    using result whole again max1 msg inv1 st
    by (cases res) (auto simp: send_result_def c1 n_def split: if_splits)
  then have sent: "res \<noteq> Failed" "wire_sent s2 p @ unsent s2 c = wire_sent s1 p @ unsent s1 c @ msg"
    "db_inv (tc_write_buffer (conn s2 c))" "tc_status (conn s2 c) = CONNECTED" "tc_send_complete_cb (conn s2 c) = None" by simp_all
  have "receiving s2 = receiving s1" using receiving_sendMessage [of k quiet_app i msg s1] by (simp add: send)
  then have view: "tc_read_buffer (conn s2 c) = tc_read_buffer (conn s1 c)" "fd_of s2 p = fd_of s1 p"
    "ts_recv_message_cb s2 = ts_recv_message_cb s" "ts_read_max_size s2 = 0" "ts_write_max_size s2 = 0"
    "wire_in fd (w_history (ts_io s2)) = wire_in fd (w_history (ts_io s1))" for fd
    using some by (simp_all add: receiving_def fun_eq_iff fd_of_def s1)
  have s': "s' = s2"
    using of sent(1) send by (simp add: s'_def es_onRecvMessage_def conn_of_def msg_def unread_def s1_def)
  show "echo_ready i c p s'"
    using of2 sent b1 some view by (simp add: s' echo_ready_def unread_def)
  show "out_stream s' c p = out_stream s c p @ unread s c"
    using sent(2) by (simp add: s' out_stream_def same1 msg_def)
  show "wire_received s' p = wire_received s p" "fd_of s' p = fd_of s p"
    using view same1 by (simp_all add: s' wire_received_def)
  show "\<exists>t. wire_sent s' p = wire_sent s p @ t"
    using result by (auto simp: s' send_result_def same1)
qed


section \<open>Events\<close>

lemma echo_read:
  assumes k: "kernel_ok k" "sends_alive k" "patient k" "peer_open k" and ready: "echo_ready i c p s"
    and direct: "case recv_loop k (echo_server k) p c i s of None \<Rightarrow> True | Some (e, d, pc, s1) \<Rightarrow> whole_direct k c p s1"
    and most: "arrives_at_most k (fd_of s p) B" "B \<le> 2 ^ 60"
    and room: "length (unsent s c) \<le> length (wire_received s p) \<or> unsent s c = []"
  obtains xs s' where "onSocketRead k (echo_server k) p s = Some s'" and "echo_ready i c p s'"
    and "wire_received s' p = wire_received s p @ xs" and "out_stream s' c p = out_stream s c p @ xs" and "fd_of s' p = fd_of s p"
    and "\<exists>t. wire_sent s' p = wire_sent s p @ t"
proof -
  let ?app = "echo_server k"
  have of: "conn_of s i c p" and inv: "db_inv (tc_read_buffer (conn s c))" and max: "ts_read_max_size s = 0"
    and empty: "unread s c = []" using ready by (simp_all add: echo_ready_def)
  have bound: "0 < ts_read_max_size s \<and> ts_read_max_size s \<le> 2 ^ 60 \<or> (\<exists>B \<le> 2 ^ 60. arrives_at_most k (fd_of s p) B)"
    using most by blast
  obtain st where loop: "recv_loop k ?app p c i s = Some st" and rinv: "recv_inv ?app p c i s st"
    using recv_loop_moved [OF k(1) of inv _ bound, of ?app] empty by auto
  note alive = echo_loop [OF k(1,3,4) max loop]
  obtain e xs s1 where st: "st = (e, xs \<noteq> [], False, s1)" and e: "e \<noteq> Returned" and moved: "moved c p xs s s1"
    and of1: "conn_of s1 i c p" and small: "length (unread s1 c) \<le> 2 ^ 61 + 2 ^ 31"
    using rinv alive by (auto simp: recv_inv_def)
  note facts = moved_facts [OF moved]
  have "sending s1 = sending s" using alive by (simp add: st)
  then have view: "tc_write_buffer (conn s1 c) = tc_write_buffer (conn s c)" "tc_status (conn s1 c) = tc_status (conn s c)"
    "tc_send_complete_cb (conn s1 c) = tc_send_complete_cb (conn s c)" "ts_write_max_size s1 = ts_write_max_size s"
    "wire_sent s1 p = wire_sent s p"
    using facts(5) by (simp_all add: sending_def fun_eq_iff wire_sent_def)
  have cb: "ts_recv_message_cb s1 = ts_recv_message_cb s" using moved by (auto simp: moved_def)
  have out: "out_stream s1 c p = out_stream s c p" and unread1: "unread s1 c = xs"
    using view facts(2) empty by (simp_all add: out_stream_def unsent_def)
  have read: "onSocketRead k ?app p s = Some (recv_done ?app c i (xs \<noteq> []) False s1)"
    using conn_step_touch(2) [OF of] of loop e by (simp add: onSocketRead_def conn_of_def st)
  show thesis
  proof (cases "xs = []")
    case True
    have "echo_ready i c p s1"
      using ready of1 view cb facts unread1 True by (simp add: echo_ready_def)
    then show thesis
      using read facts out True view by (intro that [of s1 "[]"]) (simp_all add: recv_done_def)
  next
    case False
    have "length (wire_received s p) < B"
      using recv_loop_nothing [OF k(1) of inv _ most(1) _ loop] False empty by (fastforce simp: st)
    then have "length (unsent s1 c) + length (unread s1 c) < db_limit"
      using room small most(2) view(1) by (auto simp: unsent_def db_limit_def)
    have "whole_direct k c p s1" using direct loop by (simp add: st)
    note echoed = echo_message [OF k(1,2) this of1 facts(3) _ _ _ _ _ _ _ \<open>length (unsent s1 c) + length (unread s1 c) < db_limit\<close>]
    have "recv_done ?app c i (xs \<noteq> []) False s1 = es_onRecvMessage k i s1"
      using False cb ready by (auto simp: recv_done_def echo_ready_def call_app_def echo_server_def split: option.splits)
    then show thesis
      using read echoed ready view cb facts out unread1 False view(5)
      by (intro that [of "es_onRecvMessage k i s1" xs]) (simp_all add: echo_ready_def)
  qed
qed

lemma echo_write:
  assumes k: "kernel_ok k" "sends_alive k" and ready: "echo_ready i c p s" and some: "unsent s c \<noteq> []"
  defines "s' \<equiv> onSocketWrite k (echo_server k) p s"
  shows "echo_ready i c p s'" and "wire_received s' p = wire_received s p" and "out_stream s' c p = out_stream s c p"
    and "fd_of s' p = fd_of s p" and "\<exists>t. wire_sent s' p = wire_sent s p @ t"
proof -
  have of: "conn_of s i c p" and inv: "db_inv (tc_write_buffer (conn s c))" and cb: "tc_send_complete_cb (conn s c) = None"
    using ready by (simp_all add: echo_ready_def)
  let ?a = "k (w_history (ts_io s)) (K_send (fd_of s p) (unsent s c))"
  have kept: "echo_ready i c p s' \<and> wire_received s' p = wire_received s p \<and> fd_of s' p = fd_of s p"
    if "receiving s' = receiving s" "conn_of s' i c p" "db_inv (tc_write_buffer (conn s' c))"
      "tc_status (conn s' c) = CONNECTED" "tc_send_complete_cb (conn s' c) = None"
    using that ready by (simp add: echo_ready_def receiving_def fun_eq_iff unread_def wire_received_def fd_of_def)
  have "(echo_ready i c p s' \<and> wire_received s' p = wire_received s p \<and> fd_of s' p = fd_of s p) \<and>
    out_stream s' c p = out_stream s c p \<and> (\<exists>t. wire_sent s' p = wire_sent s p @ t)"
  proof (cases "a_ret ?a = -1")
    case True
    obtain n s1 where call: "call_io (sock_send k p (unsent s c)) s = (n, s1)" and of1: "conn_of s1 i c p"
      and wire: "wire_sent s1 p = wire_sent s p @ take (nat n) (unsent s c)" and s1: "s1 = s\<lparr>ts_io := ts_io s1\<rparr>"
      and n: "n = a_ret ?a" and errno: "n < 0 \<longrightarrow> w_errno (ts_io s1) = a_errno ?a"
      by (rule sock_send_stream [OF k(1) of, of "unsent s c"]) (rule that)
    have again: "a_errno ?a = EAGAIN"
    proof -
      have "1 \<le> a_ret ?a \<or> a_ret ?a = -1 \<and> a_errno ?a = EAGAIN" using k(2) some unfolding sends_alive_def by blast
      then show ?thesis using True by simp
    qed
    have s': "s' = s1"
      using of call n True errno again conn_step_touch [OF of]
      by (simp add: s'_def onSocketWrite_def conn_of_def unsent_def Let_def)
    have same: "conn s1 c = conn s c" by (subst s1) (simp add: conn_def)
    have "receiving s' = receiving s" using receiving_io(2) [of k p "unsent s c" s] by (simp add: s' call)
    then show ?thesis
      using kept of1 inv ready wire n True by (simp add: s' same echo_ready_def out_stream_def unsent_def)
  next
    case False
    then have "1 \<le> a_ret ?a" using k(2) some unfolding sends_alive_def by blast
    then obtain n s1 where 1: "n \<le> length (unsent s c)" "conn_of s1 i c p"
      "wire_sent s1 p = wire_sent s p @ take n (unsent s c)" "unsent s1 c = drop n (unsent s c)"
      "db_inv (tc_write_buffer (conn s1 c))"
      "unsent s1 c = [] \<Longrightarrow> onSocketWrite k (echo_server k) p s =
          run_send_complete_if k (echo_server k) (tc_send_complete_cb (conn s c)) p s1 \<and>
        dev_write_cb (dev (ts_io s1) p) = None \<and> tc_send_complete_cb (conn s1 c) = None"
      "unsent s1 c \<noteq> [] \<Longrightarrow> onSocketWrite k (echo_server k) p s = s1 \<and>
        tc_send_complete_cb (conn s1 c) = tc_send_complete_cb (conn s c)"
      "receiving s1 = receiving s" "tc_status (conn s1 c) = tc_status (conn s c)"
      using write_event_some [OF k(1) _ of inv some, of "echo_server k" thesis] by blast
    have s': "s' = s1" "tc_send_complete_cb (conn s1 c) = None"
      using 1(6,7) cb by (cases "unsent s1 c = []"; simp add: s'_def run_send_complete_if_def)+
    then show ?thesis
      using kept 1 ready by (simp add: echo_ready_def out_stream_def)
  qed
  then show "echo_ready i c p s'" "wire_received s' p = wire_received s p" "out_stream s' c p = out_stream s c p"
    "fd_of s' p = fd_of s p" "\<exists>t. wire_sent s' p = wire_sent s p @ t" by blast+
qed


text \<open>The events of the connection: it is readable, or it is writable, which the kernel reports only while the
  socket waits for that.\<close>

datatype echo_event = Readable | Writable

fun echo_events :: "kernel \<Rightarrow> nat \<Rightarrow> nat \<Rightarrow> echo_event list \<Rightarrow> tcp_service \<Rightarrow> tcp_service option" where
  "echo_events k c p [] s = Some s"
| "echo_events k c p (Readable # es) s =
     (case onSocketRead k (echo_server k) p s of None \<Rightarrow> None | Some s1 \<Rightarrow> echo_events k c p es s1)"
| "echo_events k c p (Writable # es) s =
     echo_events k c p es (if unsent s c = [] then s else onSocketWrite k (echo_server k) p s)"

text \<open>No message of the callback is taken in part during the events.\<close>

fun direct_sends_whole :: "kernel \<Rightarrow> nat \<Rightarrow> nat \<Rightarrow> int \<Rightarrow> echo_event list \<Rightarrow> tcp_service \<Rightarrow> bool" where
  "direct_sends_whole k c p i [] s = True"
| "direct_sends_whole k c p i (Readable # es) s =
     ((case recv_loop k (echo_server k) p c i s of None \<Rightarrow> True | Some (e, d, pc, s1) \<Rightarrow> whole_direct k c p s1) \<and>
      (case onSocketRead k (echo_server k) p s of None \<Rightarrow> True | Some s1 \<Rightarrow> direct_sends_whole k c p i es s1))"
| "direct_sends_whole k c p i (Writable # es) s =
     direct_sends_whole k c p i es (if unsent s c = [] then s else onSocketWrite k (echo_server k) p s)"

lemma echo_events_result:
  assumes k: "kernel_ok k" "sends_alive k" "patient k" "peer_open k" and most: "arrives_at_most k fd B" "B \<le> 2 ^ 60"
  shows "echo_ready i c p s \<Longrightarrow> fd_of s p = fd \<Longrightarrow> wire_received s p = r0 @ ys \<Longrightarrow> out_stream s c p = w0 @ ys \<Longrightarrow>
    \<exists>t. wire_sent s p = w0 @ t \<Longrightarrow> direct_sends_whole k c p i es s \<Longrightarrow>
    \<exists>zs s'. echo_events k c p es s = Some s' \<and> echo_ready i c p s' \<and> wire_received s' p = r0 @ ys @ zs \<and>
      out_stream s' c p = w0 @ ys @ zs"
proof (induction es arbitrary: s ys)
  case Nil
  then show ?case by (intro exI [of _ "[]"] exI [of _ s]) simp
next
  case (Cons e es)
  have go_on: "\<exists>zs s'. echo_events k c p es s1 = Some s' \<and> echo_ready i c p s' \<and> wire_received s' p = r0 @ ys @ zs \<and>
      out_stream s' c p = w0 @ ys @ zs"
    if "echo_ready i c p s1" "wire_received s1 p = wire_received s p @ xs" "out_stream s1 c p = out_stream s c p @ xs"
      "fd_of s1 p = fd_of s p" "\<exists>t. wire_sent s1 p = wire_sent s p @ t" "direct_sends_whole k c p i es s1" for s1 xs
  proof -
    have "fd_of s1 p = fd" "wire_received s1 p = r0 @ (ys @ xs)" "out_stream s1 c p = w0 @ (ys @ xs)"
      "\<exists>t. wire_sent s1 p = w0 @ t"
      using Cons.prems(1-5) that(1-5) by auto
    from Cons.IH [OF that(1) this that(6)] obtain zs s' where "echo_events k c p es s1 = Some s'" "echo_ready i c p s'"
      "wire_received s' p = r0 @ (ys @ xs) @ zs" "out_stream s' c p = w0 @ (ys @ xs) @ zs"
      by blast
    then show ?thesis by (intro exI [of _ "xs @ zs"] exI [of _ s']) simp
  qed
  obtain t where t: "wire_sent s p = w0 @ t" using Cons.prems(5) by blast
  then have "length (unsent s c) \<le> length ys"
    using arg_cong [OF Cons.prems(4), of length] by (simp add: out_stream_def)
  then have room: "length (unsent s c) \<le> length (wire_received s p) \<or> unsent s c = []" using Cons.prems(3) by simp
  show ?case
  proof (cases e)
    case Readable
    obtain xs s1 where "onSocketRead k (echo_server k) p s = Some s1" "echo_ready i c p s1"
      "wire_received s1 p = wire_received s p @ xs" "out_stream s1 c p = out_stream s c p @ xs" "fd_of s1 p = fd_of s p"
      "\<exists>t. wire_sent s1 p = wire_sent s p @ t"
      using echo_read [OF k Cons.prems(1) _ most(1) [folded Cons.prems(2)] most(2) room, of thesis] Cons.prems(6)
      by (simp add: Readable)
    then show ?thesis using go_on [of s1 xs] Cons.prems(6) by (simp add: Readable)
  next
    case Writable
    show ?thesis
    proof (cases "unsent s c = []")
      case True
      then show ?thesis using go_on [of s "[]"] Cons.prems(1,6) by (simp add: Writable)
    next
      case False
      then show ?thesis
        using go_on [of "onSocketWrite k (echo_server k) p s" "[]"] echo_write [OF k(1,2) Cons.prems(1) False] Cons.prems(6)
        by (simp add: Writable False)
    qed
  qed
qed

section \<open>Properties\<close>

text \<open>C6. The echo server echoes while the connection stays open. The hypotheses are: \<open>send\<close> takes some bytes or
  says \<open>EAGAIN\<close>, \<open>recv\<close> does not fail and the peer does not close, the peer sends boundedly many bytes, and no
  message that the callback gives to the kernel directly is taken in part (\<open>direct_sends_whole\<close>; after that bytes
  go out twice, see \<open>partial_send_repeats\<close>). Write events may send any part of what waits. Then any sequence of
  read and write events of a connection on which nothing waits returns, and what has been sent, with what
  waits in the write buffer, is what was received, byte for byte and in order.\<close>

theorem echo_server_echoes:
  assumes k: "kernel_ok k" "sends_alive k" "patient k" "peer_open k"
    and most: "arrives_at_most k (fd_of s p) B" "B \<le> 2 ^ 60"
    and ready: "echo_ready i c p s" and idle: "unsent s c = []"
    and direct: "direct_sends_whole k c p i es s"
  shows "\<exists>xs s'. echo_events k c p es s = Some s' \<and> echo_ready i c p s' \<and>
    wire_received s' p = wire_received s p @ xs \<and> wire_sent s' p @ unsent s' c = wire_sent s p @ xs"
  using echo_events_result [OF k most ready refl, of "wire_received s p" "[]" "wire_sent s p" es] idle direct
  by (fastforce simp: out_stream_def)

text \<open>A peer that sends 1, 2, 3, and a kernel that has no room at every second call.\<close>

lemma whole_sends_direct:
  assumes "\<And>h fd xs. a_ret (k h (K_send fd xs)) \<in> {-1, int (length xs)}"
  shows "direct_sends_whole k c p i es s"
proof (induction es arbitrary: s)
  case (Cons e es)
  then show ?case using assms by (cases e) (auto simp: whole_direct_def split: option.split)
qed simp

definition echo_sample_kernel :: kernel where
  "echo_sample_kernel h call =
     (case call of
        K_send fd xs \<Rightarrow> (if even (length h) \<and> int (length xs) \<le> io_max then ok_answer (int (length xs)) else (ok_answer (-1))\<lparr>a_errno := EAGAIN\<rparr>)
      | _ \<Rightarrow> byte_kernel [1, 2, 3] h call)"

definition echo_sample :: tcp_service where
  "echo_sample = (one_connection [])\<lparr>ts_recv_message_cb := Some 1\<rparr>"

theorem echo_server_echoes_witness:
  "\<exists>xs s'. echo_events echo_sample_kernel 0 0 [Readable, Writable, Readable, Writable] echo_sample = Some s' \<and>
    wire_received s' 0 = wire_received echo_sample 0 @ xs \<and> wire_sent s' 0 @ unsent s' 0 = wire_sent echo_sample 0 @ xs"
proof -
  have k: "kernel_ok echo_sample_kernel"
    using byte_kernel_ok(1) [of "[1, 2, 3]"]
    by (auto simp: kernel_ok_def echo_sample_kernel_def ok_answer_def io_max_def Let_def split: kcall.split)
  have alive: "sends_alive echo_sample_kernel"
    by (auto simp: sends_alive_def echo_sample_kernel_def ok_answer_def Suc_le_eq)
  have direct: "direct_sends_whole echo_sample_kernel c p i es s" for c p i es s
    by (rule whole_sends_direct) (simp add: echo_sample_kernel_def ok_answer_def)
  have recv: "patient echo_sample_kernel" "peer_open echo_sample_kernel" "arrives_at_most echo_sample_kernel fd 3" for fd
    by (auto simp: patient_def peer_open_def arrives_at_most_def echo_sample_kernel_def byte_kernel_def ok_answer_def Let_def)
  have "conn_of (one_connection []) 7 0 0" by (rule one_connection_ok(1)) (simp add: db_limit_def)
  then have "conn_of echo_sample 7 0 0" by (simp add: echo_sample_def conn_of_def tcp_inv_def conn_def)
  then have "echo_ready 7 0 0 echo_sample" "unsent echo_sample 0 = []"
    using DynamicBuffer_inv [of 8 8] one_connection_ok(2,3,4) [of "[]"] db_limit_def
    by (simp_all add: echo_ready_def echo_sample_def conn_def unread_def unsent_def)
       (simp_all add: one_connection_def TcpConnection_def TcpService_def)
  from echo_server_echoes [OF k alive recv(1,2,3) _ this direct, of "[Readable, Writable, Readable, Writable]"] show ?thesis
    by (auto simp del: echo_events.simps)
qed

end
