(* ===== verification/LoopTimers.thy ===== *)
theory LoopTimers
  imports IOService TimerDue "HOL-Library.Sublist"
begin

text \<open>
  The event loop and its timers together: how long \<open>epoll_wait\<close> may sleep, and that a round leaves
  no due timer behind.
\<close>

section \<open>What the callbacks must keep\<close>

text \<open>The callbacks of devices and timers use the kernel, which extends the history, and leave a
  consistent timer heap behind.\<close>

definition heap_kept :: "('h, 'cb, 'x) io_state \<Rightarrow> ('h, 'cb, 'x) io_state \<Rightarrow> bool" where
  "heap_kept s s' \<longleftrightarrow> prefix (w_history (fst s)) (w_history (fst s')) \<and>
     (heap_good (w_timers (fst s)) \<longrightarrow> heap_good (w_timers (fst s')))"

definition callbacks_ok :: "('h, 'cb, 'x) device_runner \<Rightarrow> ('h, 'cb, 'x) timer_runner \<Rightarrow> bool" where
  "callbacks_ok handle run \<longleftrightarrow>
     (\<forall>h p s s'. handle h p s = Some s' \<longrightarrow> heap_kept s s') \<and> (\<forall>cb i s. heap_kept s (run cb i s))"

lemma heap_kept_refl: "heap_kept s s"
  by (simp add: heap_kept_def)

lemma heap_kept_trans [trans]: "heap_kept s1 s2 \<Longrightarrow> heap_kept s2 s3 \<Longrightarrow> heap_kept s1 s3"
  by (auto simp: heap_kept_def intro: prefix_order.trans)

lemma heap_kept_fault: "heap_kept s (fault (fst s), snd s)"
  by (simp add: heap_kept_def fault_def)

lemma callbacks_okD:
  assumes "callbacks_ok handle run"
  shows "handle h p s = Some s' \<Longrightarrow> heap_kept s s'" and "heap_kept s (run cb i s)"
  using assms unfolding callbacks_ok_def by blast+

lemma on_flags_kept:
  assumes "callbacks_ok handle run" and "on_flags handle flags get_cb ev gs = Some gs'"
  shows "heap_kept (snd gs) (snd gs')"
proof -
  have "heap_kept s s1" if "call_device handle get_cb (fst ev) s = Some s1" for s s1
    using that callbacks_okD(1) [OF assms(1)] heap_kept_fault [of s]
    by (auto simp only: call_device_def split: option.splits)
  then show ?thesis
    using assms(2) heap_kept_refl [of "snd gs"]
    by (cases gs) (auto simp: on_flags_def split: if_splits)
qed

lemma do_event_kept:
  assumes ok: "callbacks_ok handle run" and ran: "do_event handle ev s = Some s'"
  shows "heap_kept s s'"
proof -
  obtain g1 where r1: "on_flags handle EPOLLOUT dev_write_cb ev (True, s) = Some g1"
    using ran by (cases "on_flags handle EPOLLOUT dev_write_cb ev (True, s)") (simp_all add: do_event_def)
  obtain g2 where r2: "on_flags handle (EPOLLIN OR EPOLLPRI OR EPOLLRDHUP) dev_read_cb ev g1 = Some g2"
    using ran r1 by (cases "on_flags handle (EPOLLIN OR EPOLLPRI OR EPOLLRDHUP) dev_read_cb ev g1")
      (simp_all add: do_event_def)
  obtain g3 where r3: "on_flags handle (EPOLLERR OR EPOLLHUP) dev_error_cb ev g2 = Some g3" and "s' = snd g3"
    using ran r1 r2 by (cases "on_flags handle (EPOLLERR OR EPOLLHUP) dev_error_cb ev g2")
      (simp_all add: do_event_def)
  then show ?thesis
    using heap_kept_trans [OF heap_kept_trans [OF on_flags_kept [OF ok r1] on_flags_kept [OF ok r2]]
        on_flags_kept [OF ok r3]] by simp
qed

lemma do_events_kept:
  assumes "callbacks_ok handle run"
  shows "do_events handle evs s = Some s' \<Longrightarrow> heap_kept s s'"
proof (induction evs arbitrary: s)
  case (Cons ev evs)
  obtain s1 where s1: "do_event handle ev s = Some s1" and rest: "do_events handle evs s1 = Some s'"
    using Cons.prems by (auto split: option.splits)
  show ?case by (rule heap_kept_trans [OF do_event_kept [OF assms s1] Cons.IH [OF rest]])
qed (simp add: heap_kept_refl)

lemma check_timers_kept:
  fixes run :: "('h, 'cb, 'x) timer_runner"
  assumes ok: "callbacks_ok handle run" and good: "heap_good (w_timers (fst s))" and now: "ts_wf now"
    and ret: "check_timers run now s = Some s'"
  shows "prefix (w_history (fst s)) (w_history (fst s'))" and "heap_good (w_timers (fst s'))"
    and "pending (w_timers (fst s')) p = Some ts \<Longrightarrow> ts_ms now < ts_ms ts"
proof -
  let ?run = "\<lambda>cb timer_id (h, w, x). let (w1, x1) = run cb timer_id (w\<lparr>w_timers := h\<rparr>, x)
    in (w_timers w1, w1, x1)"
  obtain r where r: "checkTimeout ?run now (w_timers (fst s), s) = Some r"
    and s': "s' = ((fst (snd r))\<lparr>w_timers := fst r\<rparr>, snd (snd r))"
    using ret by (auto simp: check_timers_def)
  let ?I = "\<lambda>st. heap_good (fst st) \<and> prefix (w_history (fst s)) (w_history (fst (snd st)))"
  have inv: "?I r \<and> check_due now (fst r) = None"
  proof (rule checkTimeout_rule [OF r, of ?I])
    fix i cb h and st :: "'cb timer_heap \<times> ('h, 'cb) io_world \<times> 'x"
    assume I: "?I st" and due: "check_due now (fst st) = Some (i, cb, h)"
    obtain h0 w x where st: "st = (h0, w, x)" by (cases st) auto
    have "heap_kept (w\<lparr>w_timers := h\<rparr>, x) (run cb i (w\<lparr>w_timers := h\<rparr>, x))"
      by (rule callbacks_okD(2) [OF ok])
    moreover have "heap_good h" using heap_good_check_due [OF conjunct1 [OF I] due] .
    ultimately show "?I (?run cb i (h, snd st))"
      using I by (auto simp: st heap_kept_def split: prod.split intro: prefix_order.trans)
  qed (use good in simp)
  then show "prefix (w_history (fst s)) (w_history (fst s'))" "heap_good (w_timers (fst s'))"
    by (simp_all add: s')
  show "ts_ms now < ts_ms ts" if ts: "pending (w_timers (fst s')) p = Some ts"
  proof -
    have ts': "pending (fst r) p = Some ts" using ts by (simp add: s')
    have "heap_good (fst r)" "check_due now (fst r) = None" using inv by simp_all
    then show ?thesis
      using check_due_None [OF _ now _ ts'] th.deadlines_wf [OF _ ts'] by (simp add: millisecondLess_ms [OF now])
  qed
qed

section \<open>How long the loop sleeps\<close>

text \<open>The timeout of \<open>epoll_wait\<close> in a round that starts at \<open>now\<close>.\<close>

definition sleep_ms :: "'cb timer_heap \<Rightarrow> timestamp \<Rightarrow> int" where
  "sleep_ms h now = min (to_int32 (getNextTimeoutMillisecond h now)) MAX_EPOLL_TIMEOUT_MSEC"

lemma sleep_ms_bounds:
  assumes good: "heap_good h" and now: "ts_wf now"
    and near: "pending h = Map.empty \<or> (\<exists>p ts. pending h p = Some ts \<and> ts_ms ts - ts_ms now < 2 ^ 31)"
  shows "sleep_ms h now < 0 \<longleftrightarrow> pending h = Map.empty" and "-1 \<le> sleep_ms h now"
    and "sleep_ms h now \<le> MAX_EPOLL_TIMEOUT_MSEC"
    and "pending h q = Some ts \<Longrightarrow> sleep_ms h now \<le> max 0 (ts_ms ts - ts_ms now)"
proof -
  note soonest = next_timeout_is_earliest [OF good now]
  have "sleep_ms h now = (if pending h = Map.empty then -1
      else min (getNextTimeoutMillisecond h now) MAX_EPOLL_TIMEOUT_MSEC) \<and>
    (pending h = Map.empty \<or> 0 \<le> getNextTimeoutMillisecond h now) \<and>
    (\<forall>q ts. pending h q = Some ts \<longrightarrow> getNextTimeoutMillisecond h now \<le> max 0 (ts_ms ts - ts_ms now))"
  proof (cases "pending h = Map.empty")
    case True
    then show ?thesis using soonest by (simp add: sleep_ms_def MAX_EPOLL_TIMEOUT_MSEC_def to_int32_def)
  next
    case False
    then obtain q0 ts0 where "pending h q0 = Some ts0" by (auto simp: fun_eq_iff)
    then obtain q ts where ts: "pending h q = Some ts" "getNextTimeoutMillisecond h now = max 0 (ts_ms ts - ts_ms now)"
      using soonest by blast
    obtain p tp where "pending h p = Some tp" "ts_ms tp - ts_ms now < 2 ^ 31" using near False by blast
    then have "max 0 (ts_ms ts - ts_ms now) < 2 ^ 31" using soonest ts(2) by fastforce
    then have "to_int32 (max 0 (ts_ms ts - ts_ms now)) = max 0 (ts_ms ts - ts_ms now)"
      by (simp add: to_int32_def signed_take_bit_int_eq_self)
    then show ?thesis using ts False soonest by (auto simp: sleep_ms_def)
  qed
  then show "sleep_ms h now < 0 \<longleftrightarrow> pending h = Map.empty" "-1 \<le> sleep_ms h now"
    "sleep_ms h now \<le> MAX_EPOLL_TIMEOUT_MSEC"
    "pending h q = Some ts \<Longrightarrow> sleep_ms h now \<le> max 0 (ts_ms ts - ts_ms now)"
    by (auto simp: MAX_EPOLL_TIMEOUT_MSEC_def intro: min.coboundedI1)
qed

text \<open>A deadline \<open>2^31\<close> milliseconds away, the only one, becomes a negative timeout: the loop waits without end.\<close>

lemma far_deadline_waits_without_end:
  "sleep_ms (snd (addTimer TimerHeap (Timestamp 0 0) (2 ^ 31) () 1)) (Timestamp 0 0) < 0"
  by code_simp

section \<open>A round of the loop\<close>

text \<open>The two calls a round starts with, and what follows them.\<close>

lemma loop_round_calls:
  fixes run :: "('h, 'cb, 'x) timer_runner"
  assumes ok: "callbacks_ok handle run" and good: "heap_good (w_timers (fst s))"
    and clock: "\<And>h. ts_wf (a_time (k h K_gettime))"
    and round: "loop_round k handle run s = Some (e, s')"
  defines "now \<equiv> k (w_history (fst s)) K_gettime"
  obtains a rest where "w_history (fst s') = w_history (fst s) @ (K_gettime, now) #
      (K_epoll_wait (w_epoll_fd (fst s)) (w_event_slots (fst s)) (sleep_ms (w_timers (fst s)) (a_time now)), a) # rest"
    and "a_ret a \<noteq> -1 \<longrightarrow> e = Again \<and> heap_good (w_timers (fst s')) \<and>
      (\<exists>later. (K_gettime, later) \<in> set rest \<and>
         (\<forall>p ts. pending (w_timers (fst s')) p = Some ts \<longrightarrow> ts_ms (a_time later) < ts_ms ts))"
proof -
  define w1 where "w1 = snd (sys k K_gettime (fst s))"
  define call where "call = K_epoll_wait (w_epoll_fd (fst s)) (w_event_slots (fst s)) (sleep_ms (w_timers (fst s)) (a_time now))"
  define a where "a = k (w_history w1) call"
  define w2 where "w2 = snd (sys k call w1)"
  have w1: "sys k K_gettime (fst s) = (now, w1)" "w_timers w1 = w_timers (fst s)" "w_epoll_fd w1 = w_epoll_fd (fst s)"
    "w_event_slots w1 = w_event_slots (fst s)" "w_history w1 = w_history (fst s) @ [(K_gettime, now)]"
    by (simp_all add: w1_def now_def sys_def Let_def)
  have w2: "sys k call w1 = (a, w2)" "w_timers w2 = w_timers (fst s)" "w_history w2 = w_history w1 @ [(call, a)]"
    using w1 by (simp_all add: w2_def a_def sys_def Let_def)
  have eq: "loop_round k handle run s =
      (if a_ret a = -1 then Some (if w_errno w2 = EINTR then Again else Leave, (w2, snd s))
       else case do_events handle (take (nat (a_ret a)) (a_events a)) (w2, snd s) of
              None \<Rightarrow> None
            | Some s3 \<Rightarrow>
                let (now, w4) = sys k K_gettime (fst s3)
                in (case check_timers run (a_time now) (w4, snd s3) of
                      None \<Rightarrow> None
                    | Some s5 \<Rightarrow>
                        let w6 = (fst s5)\<lparr>w_removed := {}\<rparr>;
                            w7 = (if a_ret a \<ge> int (w_event_slots w6)
                                  then w6\<lparr>w_event_slots := w_event_slots w6 * 2\<rparr> else w6)
                        in Some (Again, (w7, snd s5))))"
    using w2(1) unfolding loop_round_def w1(1) prod.case Let_def w1(2-4) sleep_ms_def [symmetric] call_def
    by simp
  show thesis
  proof (cases "a_ret a = -1")
    case True
    then show thesis using round eq w1 w2 by (intro that [of a "[]"]) (auto simp: call_def)
  next
    case False
    then obtain s3 where s3: "do_events handle (take (nat (a_ret a)) (a_events a)) (w2, snd s) = Some s3"
      using round eq by (auto split: option.splits)
    define later where "later = k (w_history (fst s3)) K_gettime"
    define w4 where "w4 = snd (sys k K_gettime (fst s3))"
    have w4: "sys k K_gettime (fst s3) = (later, w4)" "w_timers w4 = w_timers (fst s3)"
      "w_history w4 = w_history (fst s3) @ [(K_gettime, later)]"
      by (simp_all add: w4_def later_def sys_def Let_def)
    obtain s5 where s5: "check_timers run (a_time later) (w4, snd s3) = Some s5"
      using round False s3 w4(1) unfolding eq by (auto split: option.splits)
    have s': "e = Again" "w_history (fst s') = w_history (fst s5)" "w_timers (fst s') = w_timers (fst s5)"
      using round False s3 w4(1) s5 unfolding eq by (auto simp: Let_def split: if_splits)
    have kept: "heap_kept (w2, snd s) s3" by (rule do_events_kept [OF ok s3])
    then have good4: "heap_good (w_timers (fst (w4, snd s3)))" using good w2 w4 by (simp add: heap_kept_def)
    note timers = check_timers_kept [OF ok good4 clock [of "w_history (fst s3)", folded later_def] s5]
    have "prefix (w_history w2) (w_history (fst s3))" using kept by (simp add: heap_kept_def)
    then obtain xs where xs: "w_history (fst s3) = w_history w2 @ xs" by (auto elim: prefixE)
    obtain ys where ys: "w_history (fst s5) = w_history w4 @ ys" using timers(1) by (auto elim: prefixE)
    show thesis
      by (rule that [of a "xs @ (K_gettime, later) # ys"])
         (use s' timers(2,3) w1 w2 w4 xs ys in \<open>auto simp: call_def\<close>)
  qed
qed

section \<open>Properties\<close>

text \<open>C22. With callbacks that leave the timer heap consistent and in order, from such a heap and with the
  nearest deadline less than \<open>2^31\<close> milliseconds away, the event loop neither oversleeps nor leaves a timer
  waiting. A round reads the clock and waits for events: without end only if there is no timer, never longer
  than 35 minutes, and never beyond the deadline of a timer. When the wait has succeeded, the events have been
  handled and the timers run, no deadline is left that had passed when the clock was read for the timers. The
  conditions matter: \<open>removeTimer\<close> can break the order of the heap and a due timer then waits
  (C21), and a further deadline makes the wait endless
  (\<open>far_deadline_waits_without_end\<close>).\<close>

theorem loop_keeps_deadlines:
  assumes ok: "callbacks_ok handle run" and good: "heap_good (w_timers (fst s))"
    and clock: "\<And>h. ts_wf (a_time (k h K_gettime))"
    and near: "pending (w_timers (fst s)) = Map.empty \<or> (\<exists>p ts. pending (w_timers (fst s)) p = Some ts \<and>
      ts_ms ts - ts_ms (a_time (k (w_history (fst s)) K_gettime)) < 2 ^ 31)"
    and round: "loop_round k handle run s = Some (e, s')"
  shows "let now = k (w_history (fst s)) K_gettime in \<exists>ms a rest. w_history (fst s') = w_history (fst s) @
      [(K_gettime, now), (K_epoll_wait (w_epoll_fd (fst s)) (w_event_slots (fst s)) ms, a)] @ rest \<and>
    (ms < 0 \<longleftrightarrow> (\<forall>p. pending (w_timers (fst s)) p = None)) \<and> ms \<le> 35 * 60 * 1000 \<and>
    (\<forall>p ts. pending (w_timers (fst s)) p = Some ts \<longrightarrow> ms \<le> max 0 (ts_ms ts - ts_ms (a_time now))) \<and>
    (a_ret a \<noteq> -1 \<longrightarrow> e = Again \<and> heap_good (w_timers (fst s')) \<and>
       (\<exists>later. (K_gettime, later) \<in> set rest \<and>
          (\<forall>p ts. pending (w_timers (fst s')) p = Some ts \<longrightarrow> ts_ms (a_time later) < ts_ms ts)))"
proof -
  let ?now = "k (w_history (fst s)) K_gettime"
  let ?ms = "sleep_ms (w_timers (fst s)) (a_time ?now)"
  obtain a rest where history: "w_history (fst s') = w_history (fst s) @ (K_gettime, ?now) #
      (K_epoll_wait (w_epoll_fd (fst s)) (w_event_slots (fst s)) ?ms, a) # rest"
    and after: "a_ret a \<noteq> -1 \<longrightarrow> e = Again \<and> heap_good (w_timers (fst s')) \<and>
      (\<exists>later. (K_gettime, later) \<in> set rest \<and>
         (\<forall>p ts. pending (w_timers (fst s')) p = Some ts \<longrightarrow> ts_ms (a_time later) < ts_ms ts))"
    by (rule loop_round_calls [OF ok good clock round])
  note bounds = sleep_ms_bounds [OF good clock near]
  show ?thesis
    unfolding Let_def
    by (rule exI [of _ ?ms], rule exI [of _ a], rule exI [of _ rest])
       (use history after bounds(1,3,4) in \<open>simp add: MAX_EPOLL_TIMEOUT_MSEC_def fun_eq_iff\<close>)
qed

text \<open>A service with two timers and nothing else to wait for.\<close>

definition idle_kernel :: kernel where
  "idle_kernel h call = \<lparr>a_ret = 0, a_errno = 0, a_bytes = [], a_time = Timestamp 0 0, a_addr = Sockaddr_zero,
     a_value = 0, a_value2 = 0, a_events = []\<rparr>"

definition two_timers :: "(unit, unit, unit) io_state" where
  "two_timers = (\<lparr>w_history = [], w_errno = 0, w_quit = False, w_epoll_fd = 3, w_event_slots = 32, w_removed = {},
     w_timers = add_all TimerHeap [(30, 1), (20, 2)], w_devices = Map.empty, w_next = 0, w_fault = False\<rparr>, ())"

theorem loop_keeps_deadlines_witness:
  "\<exists>e s' ms a rest. loop_round idle_kernel (\<lambda>h p s. Some s) (\<lambda>cb i s. s) two_timers = Some (e, s') \<and>
    w_history (fst s') = [(K_gettime, idle_kernel [] K_gettime), (K_epoll_wait 3 32 ms, a)] @ rest \<and>
    0 \<le> ms \<and> ms \<le> 20"
proof -
  define h where "h = add_all TimerHeap [(30, 1), (20, 2)]"
  have s: "w_timers (fst two_timers) = h" "w_history (fst two_timers) = []" "w_epoll_fd (fst two_timers) = 3"
    "w_event_slots (fst two_timers) = 32"
    by (simp_all add: two_timers_def h_def del: add_all.simps)
  have good: "heap_good h" unfolding h_def by (rule add_all_good [OF heap_good_TimerHeap]) simp
  have "check_due (Timestamp 0 0) h = None" unfolding h_def by code_simp
  then have "checkTimeout run (Timestamp 0 0) (h, x) = Some (h, x)" for run and x :: "(unit, unit, unit) io_state"
    by (subst checkTimeout.simps) simp
  then obtain e s' where round: "loop_round idle_kernel (\<lambda>h p s. Some s) (\<lambda>cb i s. s) two_timers = Some (e, s')"
    by (simp add: loop_round_def two_timers_def idle_kernel_def sys_def check_timers_def Let_def
        del: add_all.simps flip: h_def)
  have two: "pending h 2 = Some (Timestamp 0 20000000)" unfolding h_def by code_simp
  have "\<exists>p ts. pending h p = Some ts \<and> ts_ms ts < 2 ^ 31" using two by (force simp: ts_ms_def)
  moreover have "callbacks_ok (\<lambda>h p s. Some s) (\<lambda>cb i s. s)" by (simp add: callbacks_ok_def heap_kept_refl)
  ultimately have "let now = idle_kernel [] K_gettime in \<exists>ms a rest. w_history (fst s') =
      [(K_gettime, now), (K_epoll_wait 3 32 ms, a)] @ rest \<and> (ms < 0 \<longleftrightarrow> (\<forall>p. pending h p = None)) \<and>
      (\<forall>p ts. pending h p = Some ts \<longrightarrow> ms \<le> max 0 (ts_ms ts - ts_ms (a_time now)))"
    using loop_keeps_deadlines [OF _ good [folded s(1)] _ _ round]
    by (simp add: s Let_def idle_kernel_def ts_wf_def ts_ms_def) blast
  then obtain ms a rest where ms: "w_history (fst s') = [(K_gettime, idle_kernel [] K_gettime), (K_epoll_wait 3 32 ms, a)] @ rest"
    "ms < 0 \<longleftrightarrow> (\<forall>p. pending h p = None)"
    "\<forall>p ts. pending h p = Some ts \<longrightarrow> ms \<le> max 0 (ts_ms ts - ts_ms (a_time (idle_kernel [] K_gettime)))"
    unfolding Let_def by blast
  moreover have "0 \<le> ms" using ms(2) two by (metis not_less option.distinct(1))
  moreover have "ms \<le> 20" using ms(3) [rule_format, OF two] by (simp add: idle_kernel_def ts_ms_def)
  ultimately show ?thesis using round by blast
qed

end
