(* ===== verification/QueueContract.thy ===== *)
theory QueueContract
  imports Prelude
begin

text \<open>
  The contract of the queue of \<^verbatim>\<open>src/src/brickred/concurrent_queue.h\<close>, and what follows from it for
  every system that has such a queue inside. A step of a system shows what it does to the queue; the
  locale \<open>queue_user\<close> asks that these are steps of a bounded queue, and gives that items come out
  in the order they went in, each once, and that the bound is kept over a whole run. It is
  interpreted on \<open>ConcurrentQueue\<close> itself, on \<open>MessageQueue\<close> and on \<open>LogAsyncSink\<close>.
\<close>

section \<open>The bounded queue\<close>

datatype test = Full | Empty

text \<open>What a caller can see: an item went in or out, the front item, the answer false of the
  operations that do not block, a size, the value of a test.\<close>

datatype 'a seen = Enq 'a | Deq 'a | Front 'a | Refused test | Sized nat | Tested test bool

text \<open>The bound is \<open>m\<close>; \<open>m = 0\<close>: not bounded.\<close>

fun spec_step :: "nat \<Rightarrow> 'a seen \<Rightarrow> 'a list \<Rightarrow> 'a list option" where
  "spec_step m (Enq x) xs = (if m = 0 \<or> length xs < m then Some (xs @ [x]) else None)"
| "spec_step m (Deq x) xs = (case xs of [] \<Rightarrow> None | y # ys \<Rightarrow> if y = x then Some ys else None)"
| "spec_step m (Front x) xs = (case xs of [] \<Rightarrow> None | y # ys \<Rightarrow> if y = x then Some xs else None)"
| "spec_step m (Refused Full) xs = (if m \<noteq> 0 \<and> m \<le> length xs then Some xs else None)"
| "spec_step m (Refused Empty) xs = (if xs = [] then Some xs else None)"
| "spec_step m (Sized n) xs = (if n = length xs then Some xs else None)"
| "spec_step m (Tested Full b) xs = (if b = (m \<noteq> 0 \<and> m \<le> length xs) then Some xs else None)"
| "spec_step m (Tested Empty b) xs = (if b = (xs = []) then Some xs else None)"

fun spec_run :: "nat \<Rightarrow> 'a seen list \<Rightarrow> 'a list \<Rightarrow> 'a list option" where
  "spec_run m [] xs = Some xs"
| "spec_run m (e # es) xs = (case spec_step m e xs of None \<Rightarrow> None | Some ys \<Rightarrow> spec_run m es ys)"

lemma spec_run_append:
  "spec_run m (es @ es') xs = (case spec_run m es xs of None \<Rightarrow> None | Some ys \<Rightarrow> spec_run m es' ys)"
  by (induction m es xs rule: spec_run.induct) (auto split: option.splits)

section \<open>What went in and what came out\<close>

fun pushed :: "'a seen list \<Rightarrow> 'a list" where
  "pushed [] = []"
| "pushed (Enq x # es) = x # pushed es"
| "pushed (_ # es) = pushed es"

fun delivered :: "'a seen list \<Rightarrow> 'a list" where
  "delivered [] = []"
| "delivered (Deq x # es) = x # delivered es"
| "delivered (_ # es) = delivered es"

lemma pushed_append [simp]: "pushed (es @ es') = pushed es @ pushed es'"
  by (induction es rule: pushed.induct) simp_all

lemma delivered_append [simp]: "delivered (es @ es') = delivered es @ delivered es'"
  by (induction es rule: delivered.induct) simp_all

lemma spec_step_fifo: "spec_step m e xs = Some ys \<Longrightarrow> xs @ pushed [e] = delivered [e] @ ys"
  by (induction m e xs rule: spec_step.induct) (auto split: if_splits list.splits)

lemma spec_step_bounded: "spec_step m e xs = Some ys \<Longrightarrow> length xs \<le> m \<Longrightarrow> m \<noteq> 0 \<Longrightarrow> length ys \<le> m"
  by (induction m e xs rule: spec_step.induct) (auto split: if_splits list.splits)

lemma spec_run_fifo: "spec_run m es xs = Some ys \<Longrightarrow> xs @ pushed es = delivered es @ ys"
proof (induction es arbitrary: xs)
  case (Cons e es)
  then obtain zs where 1: "spec_step m e xs = Some zs" and 2: "spec_run m es zs = Some ys"
    by (auto split: option.splits)
  have "(xs @ pushed [e]) @ pushed es = delivered [e] @ (zs @ pushed es)"
    using spec_step_fifo [OF 1] by simp
  then have "xs @ pushed ([e] @ es) = delivered ([e] @ es) @ ys"
    unfolding pushed_append delivered_append using Cons.IH [OF 2] by simp
  then show ?case by simp
qed simp

lemma spec_run_bounded: "spec_run m es xs = Some ys \<Longrightarrow> length xs \<le> m \<Longrightarrow> m \<noteq> 0 \<Longrightarrow> length ys \<le> m"
  by (induction es arbitrary: xs) (auto split: option.splits dest: spec_step_bounded)

section \<open>Systems with a queue inside\<close>

text \<open>\<open>step\<close> gives what is seen of the queue and the next state, \<open>run\<close> executes a list of events;
  \<open>inv\<close> is what the system keeps true while its events are \<open>ok\<close>.\<close>

locale queue_user =
  fixes step :: "'e \<Rightarrow> 's \<Rightarrow> ('a seen list \<times> 's) option"
    and run :: "'e list \<Rightarrow> 's \<Rightarrow> ('a seen list \<times> 's) option"
    and queue :: "'s \<Rightarrow> 'a list"
    and bound :: "'s \<Rightarrow> nat"
    and inv :: "'s \<Rightarrow> bool"
    and ok :: "'e \<Rightarrow> bool"
  assumes run_Nil: "run [] s = Some ([], s)"
    and run_Cons: "run (e # es) s =
      (case step e s of
         None \<Rightarrow> None
       | Some (seen1, s1) \<Rightarrow>
           (case run es s1 of None \<Rightarrow> None | Some (seen2, s2) \<Rightarrow> Some (seen1 @ seen2, s2)))"
    and step_inv: "inv s \<Longrightarrow> ok e \<Longrightarrow> step e s = Some (seen, s') \<Longrightarrow> inv s'"
    and step_bound: "inv s \<Longrightarrow> ok e \<Longrightarrow> step e s = Some (seen, s') \<Longrightarrow> bound s' = bound s"
    and step_spec: "inv s \<Longrightarrow> ok e \<Longrightarrow> step e s = Some (seen, s') \<Longrightarrow>
      spec_run (bound s) seen (queue s) = Some (queue s')"
begin

lemma run_spec:
  assumes "inv s" and "\<forall>e \<in> set es. ok e" and "run es s = Some (seen, s')"
  shows "inv s' \<and> bound s' = bound s \<and> spec_run (bound s) seen (queue s) = Some (queue s')"
  using assms
proof (induction es arbitrary: s seen)
  case Nil
  then show ?case by (simp add: run_Nil)
next
  case (Cons e es)
  obtain seen1 s1 seen2 where st: "step e s = Some (seen1, s1)" and r: "run es s1 = Some (seen2, s')"
    and seen: "seen = seen1 @ seen2"
    using Cons.prems(3) by (auto simp: run_Cons split: option.splits prod.splits)
  have e: "ok e" and es: "\<forall>e \<in> set es. ok e" using Cons.prems(2) by simp_all
  note first = step_inv [OF Cons.prems(1) e st] step_bound [OF Cons.prems(1) e st] step_spec [OF Cons.prems(1) e st]
  from Cons.IH [OF first(1) es r] first show ?case by (simp add: seen spec_run_append)
qed

text \<open>Items come out in the order they went in, each once.\<close>

lemma run_fifo:
  assumes "inv s" and "\<forall>e \<in> set es. ok e" and "run es s = Some (seen, s')"
  shows "queue s @ pushed seen = delivered seen @ queue s'"
  using run_spec [OF assms] spec_run_fifo by blast

lemma run_bounded:
  assumes "inv s" and "\<forall>e \<in> set es. ok e" and "run es s = Some (seen, s')"
    and "length (queue s) \<le> bound s" and "bound s \<noteq> 0"
  shows "length (queue s') \<le> bound s"
  using run_spec [OF assms(1-3)] spec_run_bounded assms(4,5) by blast

text \<open>Anything else that every step keeps holds after the run.\<close>

lemma run_keeps:
  assumes step: "\<And>e s seen s'. ok e \<Longrightarrow> inv s \<Longrightarrow> J s \<Longrightarrow> step e s = Some (seen, s') \<Longrightarrow> J s'"
    and "inv s" and "J s" and "\<forall>e \<in> set es. ok e" and "run es s = Some (seen, s')"
  shows "J s'"
  using assms(2-5)
proof (induction es arbitrary: s seen)
  case Nil
  then show ?case by (simp add: run_Nil)
next
  case (Cons e es)
  obtain seen1 s1 seen2 where st: "step e s = Some (seen1, s1)" and r: "run es s1 = Some (seen2, s')"
    using Cons.prems(4) by (auto simp: run_Cons split: option.splits prod.splits)
  have e: "ok e" and es: "\<forall>e \<in> set es. ok e" using Cons.prems(3) by simp_all
  show ?case
    by (rule Cons.IH [OF step_inv [OF Cons.prems(1) e st] step [OF e Cons.prems(1,2) st] es r])
qed

end

end
