(* ===== verification/ConcurrentQueue.thy ===== *)
theory ConcurrentQueue
  imports QueueContract
begin

text \<open>
  \<^verbatim>\<open>src/src/brickred/concurrent_queue.h\<close>: a queue shared by threads, with one mutex and two
  condition variables. A member function is the list of its instructions, in the order of the
  source; threads execute them one at a time in any order, so that every interleaving is a run.
  The mutex and the condition variables (\<^verbatim>\<open>mutex.cc\<close>, \<^verbatim>\<open>condition_variable.cc\<close>) behave as their
  POSIX functions are documented: \<open>wait\<close> releases the mutex and blocks in one step, \<open>notifyOne\<close>
  unblocks one of the blocked threads if there is any, and a blocked thread may also wake up for
  no reason. The contract of the class is the bounded queue \<open>spec_step\<close> of \<open>QueueContract\<close>.
\<close>

section \<open>Instructions and member functions\<close>

datatype cond_var = NotFull | NotEmpty

datatype returned = Nothing | ReturnTrue | ReturnSize | ReturnTest test

text \<open>\<open>LockGuard\<close> locks the mutex; its destructor unlocks it at every return. \<open>PopFront\<close> is
  \<open>front = queue_.front(); queue_.pop_front(); item = front\<close>.\<close>

datatype 'a instr =
  LockGuard
| WaitWhile test cond_var
| ReturnFalseIf test
| PushBack 'a
| PopFront
| ReadFront
| NotifyOne cond_var
| Return returned

definition cq_size :: "'a instr list" where
  "cq_size = [LockGuard, Return ReturnSize]"

definition cq_empty :: "'a instr list" where
  "cq_empty = [LockGuard, Return (ReturnTest Empty)]"

definition cq_full :: "'a instr list" where
  "cq_full = [LockGuard, Return (ReturnTest Full)]"

definition push :: "'a \<Rightarrow> 'a instr list" where
  "push item =
     [LockGuard, WaitWhile Full NotFull, PushBack item, NotifyOne NotEmpty, Return Nothing]"

definition pushIfNotFull :: "'a \<Rightarrow> 'a instr list" where
  "pushIfNotFull item =
     [LockGuard, ReturnFalseIf Full, PushBack item, NotifyOne NotEmpty, Return ReturnTrue]"

definition pop :: "'a instr list" where
  "pop = [LockGuard, WaitWhile Empty NotEmpty, PopFront, NotifyOne NotFull, Return Nothing]"

definition popIfNotEmpty :: "'a instr list" where
  "popIfNotEmpty =
     [LockGuard, ReturnFalseIf Empty, PopFront, NotifyOne NotFull, Return ReturnTrue]"

definition peek :: "'a instr list" where
  "peek = [LockGuard, ReturnFalseIf Empty, ReadFront, Return ReturnTrue]"

definition operations :: "'a instr list set" where
  "operations = {cq_size, cq_empty, cq_full, pop, popIfNotEmpty, peek} \<union> range push \<union> range pushIfNotFull"

section \<open>State and steps\<close>

text \<open>A thread is outside the class, at an instruction, blocked on a condition variable, or woken up
  and about to lock the mutex again; in the last two cases the instruction it is at is the loop
  around the \<open>wait\<close>.\<close>

datatype 'a thread =
  Outside
| Running "'a instr list"
| Waiting cond_var "'a instr list"
| Woken "'a instr list"

record 'a concurrent_queue =
  cq_queue :: "'a list"
  cq_max_size :: nat
  cq_is_bounded :: bool
  cq_data_mutex :: "nat option"
  cq_threads :: "'a thread list"

text \<open>The constructor, for \<open>n\<close> threads that will use the queue.\<close>

definition ConcurrentQueue :: "nat \<Rightarrow> nat \<Rightarrow> 'a concurrent_queue" where
  "ConcurrentQueue max_size n =
     \<lparr>cq_queue = [], cq_max_size = max_size, cq_is_bounded = (max_size \<noteq> 0),
      cq_data_mutex = None, cq_threads = replicate n Outside\<rparr>"

definition fullNoLock :: "'a concurrent_queue \<Rightarrow> bool" where
  "fullNoLock q =
     (if \<not> cq_is_bounded q then False else length (cq_queue q) \<ge> cq_max_size q)"

fun test_of :: "test \<Rightarrow> 'a concurrent_queue \<Rightarrow> bool" where
  "test_of Full q = fullNoLock q"
| "test_of Empty q = (cq_queue q = [])"

definition set_thread :: "nat \<Rightarrow> 'a thread \<Rightarrow> 'a concurrent_queue \<Rightarrow> 'a concurrent_queue" where
  "set_thread t th q = q\<lparr>cq_threads := (cq_threads q)[t := th]\<rparr>"

text \<open>What the caller is told at a return.\<close>

fun seen_return :: "returned \<Rightarrow> 'a concurrent_queue \<Rightarrow> 'a seen list" where
  "seen_return ReturnSize q = [Sized (length (cq_queue q))]"
| "seen_return (ReturnTest b) q = [Tested b (test_of b q)]"
| "seen_return _ q = []"

definition nobody_waits :: "cond_var \<Rightarrow> 'a concurrent_queue \<Rightarrow> bool" where
  "nobody_waits cv q \<longleftrightarrow>
     list_all (\<lambda>th. case th of Waiting cv' _ \<Rightarrow> cv' \<noteq> cv | _ \<Rightarrow> True) (cq_threads q)"

text \<open>Thread \<open>t\<close> executes an instruction; None: it cannot, because the mutex is taken, because a
  \<open>notifyOne\<close> has to choose a thread, or because there is no front item.\<close>

fun exec ::
    "nat \<Rightarrow> 'a instr \<Rightarrow> 'a instr list \<Rightarrow> 'a concurrent_queue \<Rightarrow>
     ('a seen list \<times> 'a concurrent_queue) option" where
  "exec t LockGuard rest q =
     (if cq_data_mutex q = None
      then Some ([], set_thread t (Running rest) (q\<lparr>cq_data_mutex := Some t\<rparr>)) else None)"
| "exec t (WaitWhile b cv) rest q =
     Some ([], if test_of b q
               then set_thread t (Waiting cv (WaitWhile b cv # rest)) (q\<lparr>cq_data_mutex := None\<rparr>)
               else set_thread t (Running rest) q)"
| "exec t (ReturnFalseIf b) rest q =
     Some (if test_of b q then ([Refused b], set_thread t Outside (q\<lparr>cq_data_mutex := None\<rparr>))
           else ([], set_thread t (Running rest) q))"
| "exec t (PushBack x) rest q =
     Some ([Enq x], set_thread t (Running rest) (q\<lparr>cq_queue := cq_queue q @ [x]\<rparr>))"
| "exec t PopFront rest q =
     (case cq_queue q of
        [] \<Rightarrow> None
      | x # xs \<Rightarrow> Some ([Deq x], set_thread t (Running rest) (q\<lparr>cq_queue := xs\<rparr>)))"
| "exec t ReadFront rest q =
     (case cq_queue q of
        [] \<Rightarrow> None
      | x # xs \<Rightarrow> Some ([Front x], set_thread t (Running rest) q))"
| "exec t (NotifyOne cv) rest q =
     (if nobody_waits cv q then Some ([], set_thread t (Running rest) q) else None)"
| "exec t (Return r) rest q =
     Some (seen_return r q, set_thread t Outside (q\<lparr>cq_data_mutex := None\<rparr>))"

text \<open>The events of a run: a thread calls a member function, executes an instruction or locks the
  mutex after it was woken, \<open>notifyOne\<close> of thread \<open>t\<close> unblocks thread \<open>u\<close>, a blocked thread wakes up.\<close>

datatype 'a event = Call nat "'a instr list" | Run nat | Notify nat nat | Spurious nat

fun cq_step ::
    "'a event \<Rightarrow> 'a concurrent_queue \<Rightarrow> ('a seen list \<times> 'a concurrent_queue) option" where
  "cq_step (Call t code) q =
     (if t < length (cq_threads q) \<and> cq_threads q ! t = Outside
      then Some ([], set_thread t (Running code) q) else None)"
| "cq_step (Run t) q =
     (if t < length (cq_threads q) then
        case cq_threads q ! t of
          Running (i # rest) \<Rightarrow> exec t i rest q
        | Woken code \<Rightarrow>
            if cq_data_mutex q = None
            then Some ([], set_thread t (Running code) (q\<lparr>cq_data_mutex := Some t\<rparr>)) else None
        | _ \<Rightarrow> None
      else None)"
| "cq_step (Notify t u) q =
     (if t < length (cq_threads q) \<and> u < length (cq_threads q) then
        case (cq_threads q ! t, cq_threads q ! u) of
          (Running (NotifyOne cv # rest), Waiting cv' code) \<Rightarrow>
            if cv' = cv then Some ([], set_thread u (Woken code) (set_thread t (Running rest) q)) else None
        | _ \<Rightarrow> None
      else None)"
| "cq_step (Spurious u) q =
     (if u < length (cq_threads q) then
        case cq_threads q ! u of
          Waiting cv code \<Rightarrow> Some ([], set_thread u (Woken code) q)
        | _ \<Rightarrow> None
      else None)"

fun cq_run ::
    "'a event list \<Rightarrow> 'a concurrent_queue \<Rightarrow> ('a seen list \<times> 'a concurrent_queue) option" where
  "cq_run [] q = Some ([], q)"
| "cq_run (e # es) q =
     (case cq_step e q of
        None \<Rightarrow> None
      | Some (seen1, q1) \<Rightarrow>
          (case cq_run es q1 of None \<Rightarrow> None | Some (seen2, q2) \<Rightarrow> Some (seen1 @ seen2, q2)))"

definition calls_ok :: "'a event list \<Rightarrow> bool" where
  "calls_ok es \<longleftrightarrow> (\<forall>t code. Call t code \<in> set es \<longrightarrow> code \<in> operations)"

section \<open>Inside the critical section\<close>

text \<open>What can be left of a member function after its \<open>LockGuard\<close>.\<close>

fun inside :: "'a instr list \<Rightarrow> bool" where
  "inside [] = False"
| "inside (LockGuard # rest) = False"
| "inside (WaitWhile b cv # rest) =
     (b = Full \<and> cv = NotFull \<and> (\<exists>x. rest = [PushBack x, NotifyOne NotEmpty, Return Nothing]) \<or>
      b = Empty \<and> cv = NotEmpty \<and> rest = [PopFront, NotifyOne NotFull, Return Nothing])"
| "inside (ReturnFalseIf b # rest) =
     (b = Full \<and> (\<exists>x. rest = [PushBack x, NotifyOne NotEmpty, Return ReturnTrue]) \<or>
      b = Empty \<and> rest = [PopFront, NotifyOne NotFull, Return ReturnTrue] \<or>
      b = Empty \<and> rest = [ReadFront, Return ReturnTrue])"
| "inside (PushBack x # rest) = (\<exists>r \<in> {Nothing, ReturnTrue}. rest = [NotifyOne NotEmpty, Return r])"
| "inside (PopFront # rest) = (\<exists>r \<in> {Nothing, ReturnTrue}. rest = [NotifyOne NotFull, Return r])"
| "inside (ReadFront # rest) = (rest = [Return ReturnTrue])"
| "inside (NotifyOne cv # rest) = (\<exists>r. rest = [Return r])"
| "inside (Return r # rest) = (rest = [])"

lemmas operation_defs = operations_def cq_size_def cq_empty_def cq_full_def push_def pushIfNotFull_def
  pop_def popIfNotEmpty_def peek_def

fun tests_first :: "'a instr list \<Rightarrow> bool" where
  "tests_first (WaitWhile b cv # rest) = True"
| "tests_first (ReturnFalseIf b # rest) = True"
| "tests_first (Return r # rest) = True"
| "tests_first _ = False"

lemma operation_start:
  "code \<in> operations \<Longrightarrow> \<exists>rest. code = LockGuard # rest \<and> inside rest \<and> tests_first rest"
  by (auto simp: operation_defs)

definition ready :: "'a instr list \<Rightarrow> 'a concurrent_queue \<Rightarrow> bool" where
  "ready code q =
     (case code of
        PushBack x # _ \<Rightarrow> \<not> fullNoLock q
      | PopFront # _ \<Rightarrow> cq_queue q \<noteq> []
      | ReadFront # _ \<Rightarrow> cq_queue q \<noteq> []
      | _ \<Rightarrow> True)"

fun waits_at :: "cond_var \<Rightarrow> 'a instr list \<Rightarrow> bool" where
  "waits_at cv (WaitWhile b cv' # rest) = (cv' = cv)"
| "waits_at cv _ = False"

text \<open>A thread that holds the mutex is inside a critical section, and only such a thread; before it
  changes the queue it has tested that it may.\<close>

fun thread_ok :: "'a concurrent_queue \<Rightarrow> nat \<Rightarrow> 'a thread \<Rightarrow> bool" where
  "thread_ok q t Outside = (cq_data_mutex q \<noteq> Some t)"
| "thread_ok q t (Running code) =
     (if code \<in> operations then cq_data_mutex q \<noteq> Some t
      else cq_data_mutex q = Some t \<and> inside code \<and> ready code q)"
| "thread_ok q t (Waiting cv code) =
     (cq_data_mutex q \<noteq> Some t \<and> inside code \<and> waits_at cv code \<and> (cv = NotFull \<longrightarrow> cq_is_bounded q))"
| "thread_ok q t (Woken code) = (cq_data_mutex q \<noteq> Some t \<and> inside code \<and> (\<exists>cv. waits_at cv code))"

definition cq_inv :: "nat \<Rightarrow> 'a concurrent_queue \<Rightarrow> bool" where
  "cq_inv m q \<longleftrightarrow>
     cq_max_size q = m \<and> cq_is_bounded q = (m \<noteq> 0) \<and> (m \<noteq> 0 \<longrightarrow> length (cq_queue q) \<le> m) \<and>
     (\<forall>t. cq_data_mutex q = Some t \<longrightarrow> t < length (cq_threads q)) \<and>
     (\<forall>t < length (cq_threads q). thread_ok q t (cq_threads q ! t))"

lemma inside_not_operation [simp]: "inside code \<Longrightarrow> code \<notin> operations"
  using operation_start by fastforce

text \<open>A step of thread \<open>t\<close> that touches the queue only if it holds the mutex, and locks or unlocks
  the mutex for itself only.\<close>

lemma thread_ok_other:
  assumes "thread_ok q u th" and "u \<noteq> t"
    and "cq_queue q' = cq_queue q \<or> cq_data_mutex q = Some t"
    and "cq_data_mutex q' = cq_data_mutex q \<or> (cq_data_mutex q = Some t \<and> cq_data_mutex q' = None) \<or>
      (cq_data_mutex q = None \<and> cq_data_mutex q' = Some t)"
    and "cq_max_size q' = cq_max_size q" and "cq_is_bounded q' = cq_is_bounded q"
  shows "thread_ok q' u th"
  using assms
  by (cases th) (auto simp: ready_def fullNoLock_def split: if_splits list.splits instr.splits)

lemma step_inv:
  assumes inv: "cq_inv m q" and t: "t < length (cq_threads q)"
    and same: "cq_max_size q' = cq_max_size q" "cq_is_bounded q' = cq_is_bounded q"
      "cq_threads q' = (cq_threads q)[t := cq_threads q' ! t]"
    and xs: "cq_queue q' = cq_queue q \<or> cq_data_mutex q = Some t" "m \<noteq> 0 \<longrightarrow> length (cq_queue q') \<le> m"
    and mx: "cq_data_mutex q' = cq_data_mutex q \<or> (cq_data_mutex q = Some t \<and> cq_data_mutex q' = None) \<or>
      (cq_data_mutex q = None \<and> cq_data_mutex q' = Some t)"
    and th: "thread_ok q' t (cq_threads q' ! t)"
  shows "cq_inv m q'"
proof -
  have len: "length (cq_threads q') = length (cq_threads q)" using same(3) length_list_update by metis
  have "thread_ok q' u (cq_threads q' ! u)" if u: "u < length (cq_threads q)" for u
  proof (cases "u = t")
    case False
    have "thread_ok q u (cq_threads q ! u)" using inv u by (simp add: cq_inv_def)
    then have "thread_ok q' u (cq_threads q ! u)"
      by (rule thread_ok_other [OF _ False xs(1) mx same(1,2)])
    then show ?thesis using False same(3) nth_list_update_neq by metis
  qed (use th in simp)
  moreover have "cq_data_mutex q' = Some u \<Longrightarrow> u < length (cq_threads q)" for u
    using inv t mx by (auto simp: cq_inv_def)
  ultimately show ?thesis using inv xs(2) same len by (auto simp: cq_inv_def)
qed

lemma tests_first_ready: "tests_first code \<Longrightarrow> ready code q"
  by (cases code rule: tests_first.cases) (simp_all add: ready_def)

lemma running_inside:
  assumes "thread_ok q t (Running (i # rest))" and "i \<noteq> LockGuard"
  shows "cq_data_mutex q = Some t" and "inside (i # rest)" and "ready (i # rest) q"
  using assms operation_start [of "i # rest"] by (auto split: if_splits)

lemma running_lock:
  assumes "thread_ok q t (Running (LockGuard # rest))"
  shows "cq_data_mutex q \<noteq> Some t" and "inside rest" and "tests_first rest"
  using assms operation_start [of "LockGuard # rest"] by (auto split: if_splits)

lemma set_thread_sel [simp]:
  "cq_queue (set_thread t th q) = cq_queue q" "cq_data_mutex (set_thread t th q) = cq_data_mutex q"
  "cq_max_size (set_thread t th q) = cq_max_size q" "cq_is_bounded (set_thread t th q) = cq_is_bounded q"
  "cq_threads (set_thread t th q) = (cq_threads q)[t := th]" "fullNoLock (set_thread t th q) = fullNoLock q"
  by (simp_all add: set_thread_def fullNoLock_def)

lemma fullNoLock_inv: "cq_inv m q \<Longrightarrow> fullNoLock q \<longleftrightarrow> m \<noteq> 0 \<and> m \<le> length (cq_queue q)"
  by (simp add: cq_inv_def fullNoLock_def)

lemma ready_set_thread [simp]: "ready code (set_thread t th q) = ready code q"
  by (simp add: ready_def split: list.split instr.split)

lemma seen_return_spec:
  assumes "cq_inv m q"
  shows "spec_run m (seen_return r q) (cq_queue q) = Some (cq_queue q)"
proof (cases r)
  case (ReturnTest b)
  then show ?thesis using fullNoLock_inv [OF assms] by (cases b) simp_all
qed simp_all

lemma exec_ok:
  assumes inv: "cq_inv m q" and t: "t < length (cq_threads q)"
    and th: "cq_threads q ! t = Running (i # rest)" and ex: "exec t i rest q = Some (obs, q')"
  shows "cq_inv m q' \<and> spec_run m obs (cq_queue q) = Some (cq_queue q')"
proof -
  have ok: "thread_ok q t (Running (i # rest))" using inv t th unfolding cq_inv_def by metis
  note step = step_inv [OF inv t, of q']
  have bound: "m \<noteq> 0 \<longrightarrow> length (cq_queue q) \<le> m" using inv by (simp add: cq_inv_def)
  note full = fullNoLock_inv [OF inv]
  show ?thesis
  proof (cases "i = LockGuard")
    case True
    note lk = running_lock [OF ok [unfolded True]]
    have "cq_inv m q'"
      by (rule step) (use ex True bound lk tests_first_ready t in \<open>auto simp: split: if_splits\<close>)
    then show ?thesis using ex True by (auto split: if_splits)
  next
    case False
    note in_cs = running_inside [OF ok False]
    show ?thesis
    proof (cases i)
      case (PushBack x)
      have "cq_inv m q'"
        by (rule step)
           (use ex PushBack in_cs full in \<open>auto simp: t ready_def\<close>)
      then show ?thesis using ex PushBack in_cs full by (auto simp: t ready_def)
    next
      case PopFront
      then obtain x xs where xs: "cq_queue q = x # xs" using in_cs by (cases "cq_queue q") (auto simp: t ready_def)
      have "cq_inv m q'"
        by (rule step)
           (use ex PopFront in_cs bound in \<open>auto simp: t xs ready_def\<close>)
      then show ?thesis using ex PopFront in_cs xs by (auto simp: t ready_def)
    next
      case (WaitWhile b cv)
      show ?thesis
      proof (cases "test_of b q")
        case True
        have "cq_inv m q'"
          by (rule step) (use ex WaitWhile True in_cs bound t inv in \<open>auto simp: fullNoLock_def cq_inv_def split: if_splits\<close>)
        then show ?thesis using ex WaitWhile True by auto
      next
        case False
        have "cq_inv m q'"
          by (rule step) (use ex WaitWhile False in_cs bound in \<open>auto simp: t ready_def\<close>)
        then show ?thesis using ex WaitWhile False by auto
      qed
    next
      case (ReturnFalseIf b)
      show ?thesis
      proof (cases "test_of b q")
        case True
        have "cq_inv m q'"
          by (rule step) (use ex ReturnFalseIf True in_cs bound t in auto)
        then show ?thesis using ex ReturnFalseIf True full by (cases b) auto
      next
        case False
        have "cq_inv m q'"
          by (rule step) (use ex ReturnFalseIf False in_cs bound in \<open>auto simp: t ready_def\<close>)
        then show ?thesis using ex ReturnFalseIf False by auto
      qed
    next
      case ReadFront
      then obtain x xs where xs: "cq_queue q = x # xs" using in_cs by (cases "cq_queue q") (auto simp: t ready_def)
      have "cq_inv m q'"
        by (rule step) (use ex ReadFront in_cs bound in \<open>auto simp: t xs ready_def\<close>)
      then show ?thesis using ex ReadFront by (auto simp: xs)
    next
      case (NotifyOne cv)
      have "cq_inv m q'"
        by (rule step) (use ex NotifyOne in_cs bound in \<open>auto simp: t ready_def split: if_splits\<close>)
      then show ?thesis using ex NotifyOne by (auto split: if_splits)
    next
      case (Return r)
      have "cq_inv m q'"
        by (rule step) (use ex Return in_cs bound t in auto)
      then show ?thesis using ex Return seen_return_spec [OF inv] by auto
    qed (use False in simp)
  qed
qed

lemma cq_step_ok:
  assumes inv: "cq_inv m q" and st: "cq_step e q = Some (obs, q')" and calls: "calls_ok [e]"
  shows "cq_inv m q' \<and> spec_run m obs (cq_queue q) = Some (cq_queue q')"
proof (cases e)
  case (Call t code)
  then have t: "t < length (cq_threads q)" and th: "cq_threads q ! t = Outside"
    and st': "obs = []" "q' = set_thread t (Running code) q"
    using st by (auto split: if_splits)
  have "thread_ok q t Outside" using inv t th unfolding cq_inv_def by metis
  then have "cq_inv m q'"
    by (intro step_inv [OF inv t])
       (use inv t st' calls Call in \<open>auto simp: cq_inv_def calls_ok_def\<close>)
  then show ?thesis using st' by simp
next
  case (Run t)
  then have t: "t < length (cq_threads q)" using st by (auto split: if_splits)
  have ok: "thread_ok q t (cq_threads q ! t)" using inv t by (simp add: cq_inv_def)
  show ?thesis
  proof (cases "cq_threads q ! t")
    case (Running code)
    then obtain i rest where "code = i # rest" "exec t i rest q = Some (obs, q')"
      using st Run t by (auto split: list.splits)
    then show ?thesis using exec_ok [OF inv t] Running by simp
  next
    case (Woken code)
    then have st': "obs = []" "q' = set_thread t (Running code) (q\<lparr>cq_data_mutex := Some t\<rparr>)"
      and free: "cq_data_mutex q = None"
      using st Run t by (auto split: if_splits)
    have "ready code q" if "waits_at cv code" for cv
      using that by (cases "(cv, code)" rule: waits_at.cases) (simp_all add: ready_def)
    then have "cq_inv m q'"
      by (intro step_inv [OF inv t])
         (use inv ok Woken t st' free in \<open>auto simp: cq_inv_def ready_def fullNoLock_def split: list.splits instr.splits\<close>)
    then show ?thesis using st' by simp
  qed (use st Run t in auto)
next
  case (Spurious u)
  then obtain cv code where u: "u < length (cq_threads q)" and th: "cq_threads q ! u = Waiting cv code"
    and st': "obs = []" "q' = set_thread u (Woken code) q"
    using st by (auto split: if_splits thread.splits)
  have "thread_ok q u (Waiting cv code)" using inv u th unfolding cq_inv_def by metis
  then have "cq_inv m q'"
    by (intro step_inv [OF inv u]) (use inv u st' in \<open>auto simp: cq_inv_def\<close>)
  then show ?thesis using st' by simp
next
  case (Notify t u)
  then have t: "t < length (cq_threads q)" and u: "u < length (cq_threads q)"
    using st by (auto split: if_splits)
  obtain cv rest code where th: "cq_threads q ! t = Running (NotifyOne cv # rest)"
    and uh: "cq_threads q ! u = Waiting cv code" and st': "obs = []"
      "q' = set_thread u (Woken code) (set_thread t (Running rest) q)"
    using st Notify t u by (auto split: thread.splits list.splits instr.splits if_splits)
  define q1 where "q1 = set_thread t (Running rest) q"
  have "thread_ok q t (Running (NotifyOne cv # rest))" using inv t th unfolding cq_inv_def by metis
  from running_inside [OF this]
  have inv1: "cq_inv m q1"
    by (intro step_inv [OF inv t]) (use inv t in \<open>auto simp: cq_inv_def q1_def ready_def\<close>)
  have ut: "u \<noteq> t" using th uh by auto
  have "thread_ok q1 u (Waiting cv code)"
    using inv1 u uh ut by (auto simp: cq_inv_def q1_def dest!: spec [of _ u])
  moreover have "u < length (cq_threads q1)" using u by (simp add: q1_def)
  ultimately have "cq_inv m q'"
    by (intro step_inv [OF inv1, of u]) (use inv1 st' in \<open>auto simp: cq_inv_def q1_def [symmetric]\<close>)
  then show ?thesis using st' by simp
qed

text \<open>The class keeps its contract over any run.\<close>

lemma cq_inv_max_size: "cq_inv m q \<Longrightarrow> cq_max_size q = m"
  by (simp add: cq_inv_def)

lemma calls_ok_each: "calls_ok es \<longleftrightarrow> (\<forall>e \<in> set es. calls_ok [e])"
  by (auto simp: calls_ok_def)

interpretation cq: queue_user cq_step cq_run cq_queue cq_max_size "\<lambda>q. cq_inv (cq_max_size q) q"
    "\<lambda>e. calls_ok [e]"
proof unfold_locales
  fix q q' :: "'a concurrent_queue" and e obs
  assume "cq_inv (cq_max_size q) q" and "calls_ok [e]" and "cq_step e q = Some (obs, q')"
  then have step: "cq_inv (cq_max_size q) q' \<and> spec_run (cq_max_size q) obs (cq_queue q) = Some (cq_queue q')"
    by (intro cq_step_ok)
  then show "cq_max_size q' = cq_max_size q" by (blast dest: cq_inv_max_size)
  then show "cq_inv (cq_max_size q') q'" using step by simp
  show "spec_run (cq_max_size q) obs (cq_queue q) = Some (cq_queue q')" using step by blast
qed simp_all

lemma cq_run_ok:
  assumes inv: "cq_inv m q" and run: "cq_run es q = Some (obs, q')" and calls: "calls_ok es"
  shows "cq_inv m q' \<and> spec_run m obs (cq_queue q) = Some (cq_queue q')"
  using cq.run_spec [OF _ _ run] inv calls calls_ok_each [of es] cq_inv_max_size [OF inv] by auto

lemma exec_length: "exec t i rest q = Some (obs, q') \<Longrightarrow> length (cq_threads q') = length (cq_threads q)"
  by (cases i) (auto split: if_splits list.splits)

lemma cq_step_length: "cq_step e q = Some (obs, q') \<Longrightarrow> length (cq_threads q') = length (cq_threads q)"
  by (cases e) (auto split: if_splits list.splits thread.splits instr.splits dest: exec_length)

lemma cq_run_length: "cq_run es q = Some (obs, q') \<Longrightarrow> length (cq_threads q') = length (cq_threads q)"
  by (induction es arbitrary: q obs) (auto split: option.splits prod.splits dest: cq_step_length)

lemma ConcurrentQueue_inv: "cq_inv m (ConcurrentQueue m n)"
  by (simp add: cq_inv_def ConcurrentQueue_def)

section \<open>No lost wake-up\<close>

text \<open>What the threads blocked on a condition variable wait for, and the threads that are on their way
  to use it or to pass it on.\<close>

fun available :: "cond_var \<Rightarrow> 'a concurrent_queue \<Rightarrow> nat" where
  "available NotEmpty q = length (cq_queue q)"
| "available NotFull q = (if cq_is_bounded q then cq_max_size q - length (cq_queue q) else 0)"

fun at_instr :: "cond_var \<Rightarrow> 'a instr list \<Rightarrow> bool" where
  "at_instr cv (WaitWhile b cv' # rest) = (cv' = cv)"
| "at_instr cv (NotifyOne cv' # rest) = (cv' = cv)"
| "at_instr cv (PopFront # rest) = (cv = NotEmpty)"
| "at_instr cv (PushBack x # rest) = (cv = NotFull)"
| "at_instr cv _ = False"

fun looks :: "cond_var \<Rightarrow> 'a thread \<Rightarrow> bool" where
  "looks cv (Running code) = at_instr cv code"
| "looks cv (Woken code) = waits_at cv code"
| "looks cv _ = False"

fun waits :: "cond_var \<Rightarrow> 'a thread \<Rightarrow> bool" where
  "waits cv (Waiting cv' code) = (cv' = cv)"
| "waits cv _ = False"

definition num :: "('b \<Rightarrow> bool) \<Rightarrow> 'b list \<Rightarrow> nat" where
  "num P xs = length (filter P xs)"

lemma num_update:
  "t < length xs \<Longrightarrow> num P (xs[t := x]) + of_bool (P (xs ! t)) = num P xs + of_bool (P x)"
proof (induction xs arbitrary: t)
  case (Cons y ys)
  then show ?case by (cases t) (auto simp: num_def)
qed simp

definition wake_inv :: "'a concurrent_queue \<Rightarrow> bool" where
  "wake_inv q \<longleftrightarrow>
     (\<forall>cv. (\<exists>th \<in> set (cq_threads q). waits cv th) \<longrightarrow> available cv q \<le> num (looks cv) (cq_threads q))"

lemma nobody_waits_iff: "nobody_waits cv q \<longleftrightarrow> (\<forall>th \<in> set (cq_threads q). \<not> waits cv th)"
proof -
  have "(case th of Waiting cv' _ \<Rightarrow> cv' \<noteq> cv | _ \<Rightarrow> True) = (\<not> waits cv th)" for th :: "'a thread"
    by (cases th) simp_all
  then show ?thesis by (simp add: nobody_waits_def list_all_iff)
qed

lemma wake_step:
  assumes wake: "wake_inv q" and t: "t < length (cq_threads q)"
    and ths: "cq_threads q' = (cq_threads q)[t := th]"
    and step: "\<And>cv. available cv q' = 0 \<or> \<not> waits cv th \<and> nobody_waits cv q \<or>
      \<not> waits cv th \<and> available cv q' + of_bool (looks cv (cq_threads q ! t)) \<le> available cv q + of_bool (looks cv th)"
  shows "wake_inv q'"
  unfolding wake_inv_def
proof (intro allI impI)
  fix cv
  assume ex: "\<exists>th \<in> set (cq_threads q'). waits cv th"
  have upd: "num (looks cv) (cq_threads q') + of_bool (looks cv (cq_threads q ! t)) =
      num (looks cv) (cq_threads q) + of_bool (looks cv th)"
    unfolding ths by (rule num_update [OF t])
  have sub: "set (cq_threads q') \<subseteq> insert th (set (cq_threads q))"
    unfolding ths by (rule set_update_subset_insert)
  consider "available cv q' = 0"
    | "\<not> waits cv th" "available cv q' + of_bool (looks cv (cq_threads q ! t)) \<le> available cv q + of_bool (looks cv th)"
    using step [of cv] ex sub by (auto simp: nobody_waits_iff)
  then show "available cv q' \<le> num (looks cv) (cq_threads q')"
  proof cases
    case 2
    then have "\<exists>th \<in> set (cq_threads q). waits cv th" using ex sub by auto
    then have "available cv q \<le> num (looks cv) (cq_threads q)" using wake by (simp add: wake_inv_def)
    then show ?thesis using 2(2) upd by linarith
  qed simp
qed

lemma available_other [simp]:
  "available cv (set_thread t th q) = available cv q"
  "available cv (q\<lparr>cq_data_mutex := mx\<rparr>) = available cv q"
  by (cases cv; simp)+

lemma exec_wake:
  assumes inv: "cq_inv m q" and wake: "wake_inv q" and t: "t < length (cq_threads q)"
    and th: "cq_threads q ! t = Running (i # rest)" and ex: "exec t i rest q = Some (obs, q')"
  shows "wake_inv q'"
proof -
  have ok: "thread_ok q t (Running (i # rest))" using inv t th unfolding cq_inv_def by metis
  note step = wake_step [OF wake t, of q', unfolded th]
  show ?thesis
  proof (cases i)
    case LockGuard
    then show ?thesis
      using ex by (intro step [of "Running rest"]) (auto split: if_splits)
  next
    case (WaitWhile b cv)
    then have in_cs: "inside (i # rest)" using running_inside [OF ok] by simp
    show ?thesis
    proof (cases "test_of b q")
      case True
      show ?thesis
      proof (rule step [of "Waiting cv (i # rest)"])
        fix cv'
        have "available cv q = 0" using in_cs True WaitWhile by (auto simp: fullNoLock_def split: if_splits)
        then show "available cv' q' = 0 \<or> \<not> waits cv' (Waiting cv (i # rest)) \<and> nobody_waits cv' q \<or>
            \<not> waits cv' (Waiting cv (i # rest)) \<and>
            available cv' q' + of_bool (looks cv' (Running (i # rest)))
              \<le> available cv' q + of_bool (looks cv' (Waiting cv (i # rest)))"
          using ex WaitWhile True by (cases "cv' = cv") auto
      qed (use ex WaitWhile True in auto)
    next
      case False
      then show ?thesis
        using ex WaitWhile in_cs by (intro step [of "Running rest"]) auto
    qed
  next
    case (ReturnFalseIf b)
    show ?thesis
    proof (cases "test_of b q")
      case True
      then show ?thesis using ex ReturnFalseIf by (intro step [of Outside]) auto
    next
      case False
      then show ?thesis using ex ReturnFalseIf by (intro step [of "Running rest"]) auto
    qed
  next
    case (PushBack x)
    have "ready (i # rest) q" "inside (i # rest)" using running_inside [OF ok] PushBack by simp_all
    then show ?thesis using ex PushBack
    proof (intro step [of "Running rest"])
      fix cv
      show "available cv q' = 0 \<or> \<not> waits cv (Running rest) \<and> nobody_waits cv q \<or>
          \<not> waits cv (Running rest) \<and>
          available cv q' + of_bool (looks cv (Running (i # rest))) \<le> available cv q + of_bool (looks cv (Running rest))"
        using \<open>ready (i # rest) q\<close> \<open>inside (i # rest)\<close> ex PushBack
        by (cases cv) (auto simp: ready_def fullNoLock_def)
    qed auto
  next
    case PopFront
    have "ready (i # rest) q" "inside (i # rest)" using running_inside [OF ok] PopFront by simp_all
    then obtain x xs where xs: "cq_queue q = x # xs" using PopFront by (cases "cq_queue q") (auto simp: ready_def)
    show ?thesis
    proof (rule step [of "Running rest"])
      fix cv
      show "available cv q' = 0 \<or> \<not> waits cv (Running rest) \<and> nobody_waits cv q \<or>
          \<not> waits cv (Running rest) \<and>
          available cv q' + of_bool (looks cv (Running (i # rest))) \<le> available cv q + of_bool (looks cv (Running rest))"
        using \<open>inside (i # rest)\<close> ex PopFront xs by (cases cv) auto
    qed (use ex PopFront xs in auto)
  next
    case ReadFront
    then show ?thesis
      using ex by (intro step [of "Running rest"]) (auto split: list.splits)
  next
    case (NotifyOne cv)
    have "inside (i # rest)" using running_inside [OF ok] NotifyOne by simp
    then show ?thesis
      using ex NotifyOne by (intro step [of "Running rest"]) (auto split: if_splits)
  next
    case (Return r)
    then show ?thesis
      using ex by (intro step [of Outside]) auto
  qed
qed

lemma cq_step_wake:
  assumes inv: "cq_inv m q" and wake: "wake_inv q" and st: "cq_step e q = Some (obs, q')"
    and calls: "calls_ok [e]"
  shows "wake_inv q'"
proof (cases e)
  case (Call t code)
  then have t: "t < length (cq_threads q)" and th: "cq_threads q ! t = Outside"
    and st': "q' = set_thread t (Running code) q"
    using st by (auto split: if_splits)
  show ?thesis
    by (rule wake_step [OF wake t, where th = "Running code"]) (auto simp: st' th)
next
  case (Run t)
  then have t: "t < length (cq_threads q)" using st by (auto split: if_splits)
  show ?thesis
  proof (cases "cq_threads q ! t")
    case (Running code)
    then obtain i rest where "code = i # rest" "exec t i rest q = Some (obs, q')"
      using st Run t by (auto split: list.splits)
    then show ?thesis using exec_wake [OF inv wake t] Running by simp
  next
    case (Woken code)
    then have st': "q' = set_thread t (Running code) (q\<lparr>cq_data_mutex := Some t\<rparr>)"
      using st Run t by (auto split: if_splits)
    have "waits_at cv code \<Longrightarrow> at_instr cv code" for cv
      by (cases "(cv, code)" rule: waits_at.cases) simp_all
    then show ?thesis
      by (intro wake_step [OF wake t, where th = "Running code"]) (auto simp: st' Woken)
  qed (use st Run t in auto)
next
  case (Spurious u)
  then obtain cv code where u: "u < length (cq_threads q)" and th: "cq_threads q ! u = Waiting cv code"
    and st': "q' = set_thread u (Woken code) q"
    using st by (auto split: if_splits thread.splits)
  show ?thesis
    by (rule wake_step [OF wake u, where th = "Woken code"]) (auto simp: st' th)
next
  case (Notify t u)
  then have t: "t < length (cq_threads q)" and u: "u < length (cq_threads q)"
    using st by (auto split: if_splits)
  obtain cv rest code where th: "cq_threads q ! t = Running (NotifyOne cv # rest)"
    and uh: "cq_threads q ! u = Waiting cv code" and q': "q' = set_thread u (Woken code) (set_thread t (Running rest) q)"
    using st Notify t u by (auto split: thread.splits list.splits instr.splits if_splits)
  have ut: "u \<noteq> t" using th uh by auto
  have "thread_ok q u (Waiting cv code)" using inv u uh unfolding cq_inv_def by metis
  then have at: "waits_at cv code" by simp
  have upd: "num (looks c) (cq_threads q') + of_bool (cv = c) + of_bool (looks c (Waiting cv code)) =
      num (looks c) (cq_threads q) + of_bool (looks c (Running rest)) + of_bool (waits_at c code)" for c
    using num_update [OF t, of "looks c" "Running rest"]
      num_update [of u "(cq_threads q)[t := Running rest]" "looks c" "Woken code"] t u ut th uh
    by (simp add: q')
  have more: "num (looks c) (cq_threads q) \<le> num (looks c) (cq_threads q')" for c
    using upd [of c] at by (cases "c = cv") auto
  have "set (cq_threads q') \<subseteq> insert (Woken code) (insert (Running rest) (set (cq_threads q)))"
    using set_update_subset_insert [of "(cq_threads q)[t := Running rest]" u "Woken code"]
      set_update_subset_insert [of "cq_threads q" t "Running rest"] unfolding q' by simp blast
  then have old: "th \<in> set (cq_threads q)" if "th \<in> set (cq_threads q')" "waits c th" for c th
    using that by (cases th) auto
  show ?thesis
    unfolding wake_inv_def
  proof (intro allI impI)
    fix c
    assume "\<exists>th \<in> set (cq_threads q'). waits c th"
    then have "\<exists>th \<in> set (cq_threads q). waits c th" using old by blast
    then have "available c q \<le> num (looks c) (cq_threads q)" using wake by (simp add: wake_inv_def)
    then show "available c q' \<le> num (looks c) (cq_threads q')" using more [of c] by (simp add: q')
  qed
qed

lemma cq_run_wake:
  assumes inv: "cq_inv m q" and wake: "wake_inv q" and run: "cq_run es q = Some (obs, q')" and calls: "calls_ok es"
  shows "wake_inv q'"
proof (rule cq.run_keeps [where J = wake_inv, OF _ _ wake _ run])
  show "cq_inv (cq_max_size q) q" using inv cq_inv_max_size [OF inv] by simp
  show "\<forall>e \<in> set es. calls_ok [e]" using calls calls_ok_each by blast
qed (rule cq_step_wake)

text \<open>No thread can go on by itself.\<close>

definition quiescent :: "'a concurrent_queue \<Rightarrow> bool" where
  "quiescent q \<longleftrightarrow> (\<forall>t. cq_step (Run t) q = None) \<and> (\<forall>t u. cq_step (Notify t u) q = None)"

lemma exec_some:
  assumes "ready (i # rest) q" and "i \<noteq> LockGuard" and "\<forall>cv. i = NotifyOne cv \<longrightarrow> nobody_waits cv q"
  shows "exec t i rest q \<noteq> None"
  using assms by (cases i) (auto simp: ready_def split: list.splits)

lemma quiescent_threads:
  assumes inv: "cq_inv m q" and quiet: "quiescent q" and t: "t < length (cq_threads q)"
  shows "cq_threads q ! t = Outside \<or> (\<exists>cv code. cq_threads q ! t = Waiting cv code)"
proof -
  have run: "cq_step (Run u) q = None" and notify: "cq_step (Notify u v) q = None" for u v
    using quiet by (simp_all add: quiescent_def)
  have ok: "thread_ok q u (cq_threads q ! u)" if "u < length (cq_threads q)" for u
    using inv that by (simp add: cq_inv_def)
  have free: "cq_data_mutex q = None"
  proof (rule ccontr)
    assume "cq_data_mutex q \<noteq> None"
    then obtain u where u: "cq_data_mutex q = Some u" "u < length (cq_threads q)"
      using inv by (auto simp: cq_inv_def)
    then obtain code where code: "cq_threads q ! u = Running code" "inside code" "ready code q"
      using ok [OF u(2)] by (cases "cq_threads q ! u") (auto split: if_splits)
    then obtain i rest where i: "code = i # rest" "i \<noteq> LockGuard" by (cases code rule: inside.cases) auto
    have "exec u i rest q = None" using run [of u] code i u by simp
    then obtain cv where cv: "i = NotifyOne cv" and "\<not> nobody_waits cv q"
      using exec_some code(3) i by blast
    then obtain v code' where "v < length (cq_threads q)" "cq_threads q ! v = Waiting cv code'"
      by (auto simp: nobody_waits_iff in_set_conv_nth elim!: waits.elims(2))
    then show False using notify [of u v] code i cv u by simp
  qed
  show ?thesis
  proof (cases "cq_threads q ! t")
    case (Running code)
    then have "code \<in> operations" using ok [OF t] free by (auto split: if_splits)
    then obtain rest where "code = LockGuard # rest" using operation_start by blast
    then show ?thesis using run [of t] Running t free by simp
  next
    case (Woken code)
    then show ?thesis using run [of t] t free by simp
  qed auto
qed

lemma quiescent_available:
  assumes inv: "cq_inv m q" and wake: "wake_inv q" and quiet: "quiescent q"
    and t: "t < length (cq_threads q)" and w: "cq_threads q ! t = Waiting cv code"
  shows "available cv q = 0"
proof -
  have "\<not> looks cv th" if "th \<in> set (cq_threads q)" for th
    using quiescent_threads [OF inv quiet] that by (auto simp: in_set_conv_nth) fastforce
  then have "num (looks cv) (cq_threads q) = 0" by (simp add: num_def filter_empty_conv)
  moreover have "\<exists>th \<in> set (cq_threads q). waits cv th"
    using t w nth_mem by (metis waits.simps(1))
  ultimately show ?thesis using wake by (auto simp: wake_inv_def)
qed

section \<open>Properties\<close>

text \<open>C7. However the threads are scheduled, what they see of the queue is what a bounded queue that
  is used by one thread at a time would show: items come out in the order they went in, each once,
  a bounded queue never holds more than its maximal size, the operations that do not block refuse
  exactly when the queue is full or empty, and the sizes reported are those of that moment.\<close>

theorem queue_refines_bounded_queue:
  assumes run: "cq_run es (ConcurrentQueue m n) = Some (seen, q)" and calls: "calls_ok es"
  shows "spec_run m seen [] = Some (cq_queue q) \<and> (m \<noteq> 0 \<longrightarrow> length (cq_queue q) \<le> m)"
  using cq_run_ok [OF ConcurrentQueue_inv run calls] by (simp add: cq_inv_def ConcurrentQueue_def)

text \<open>A run of three threads on a queue of one place: the first waits for an item, the second brings
  one and wakes it up, the third has to wait for the place until the first has taken the item.\<close>

definition sample_run :: "nat event list" where
  "sample_run =
     [Call 0 pop, Run 0, Run 0, Call 1 (push 5), Run 1, Call 2 (push 6), Run 1, Run 1, Notify 1 0,
      Run 1, Run 2, Run 2, Run 0, Run 0, Run 0]"

theorem queue_refines_bounded_queue_witness:
  "\<exists>seen q. cq_run sample_run (ConcurrentQueue 1 3) = Some (seen, q) \<and> seen = [Enq 5, Deq 5] \<and>
     spec_run 1 seen [] = Some (cq_queue q) \<and> (1 \<noteq> (0 :: nat) \<longrightarrow> length (cq_queue q) \<le> 1)"
proof -
  obtain seen q where run: "cq_run sample_run (ConcurrentQueue 1 3) = Some (seen, q)" and "seen = [Enq 5, Deq 5]"
    by (simp add: sample_run_def ConcurrentQueue_def operation_defs set_thread_def fullNoLock_def nobody_waits_def
        numeral_3_eq_3)
  moreover have "calls_ok sample_run" by (auto simp: calls_ok_def sample_run_def operations_def)
  ultimately show ?thesis using queue_refines_bounded_queue [OF run] by blast
qed

text \<open>C8. No wake-up is lost. When no thread can go on by itself, every thread is outside the class or
  blocked; and a thread is blocked in \<open>pop\<close> only if the queue is empty, in \<open>push\<close> only if it is full.\<close>

theorem no_lost_wakeup:
  assumes run: "cq_run es (ConcurrentQueue m n) = Some (seen, q)" and calls: "calls_ok es"
    and quiet: "quiescent q" and t: "t < n"
  shows "cq_threads q ! t = Outside \<or>
    (\<exists>code. cq_threads q ! t = Waiting NotEmpty code \<and> cq_queue q = []) \<or>
    (\<exists>code. cq_threads q ! t = Waiting NotFull code \<and> m \<noteq> 0 \<and> length (cq_queue q) = m)"
proof -
  have inv: "cq_inv m q" using cq_run_ok [OF ConcurrentQueue_inv run calls] by blast
  have "wake_inv (ConcurrentQueue m n)" by (simp add: wake_inv_def ConcurrentQueue_def)
  then have wake: "wake_inv q" by (rule cq_run_wake [OF ConcurrentQueue_inv _ run calls])
  have len: "t < length (cq_threads q)" using t cq_run_length [OF run] by (simp add: ConcurrentQueue_def)
  note inv' = inv [unfolded cq_inv_def]
  show ?thesis
  proof (cases "cq_threads q ! t = Outside")
    case False
    then obtain cv code where w: "cq_threads q ! t = Waiting cv code"
      using quiescent_threads [OF inv quiet len] by blast
    have 0: "available cv q = 0" by (rule quiescent_available [OF inv wake quiet len w])
    show ?thesis
    proof (cases cv)
      case NotEmpty
      then show ?thesis using w 0 by simp
    next
      case NotFull
      then show ?thesis using w 0 inv' len by (auto split: if_splits dest!: spec [of _ t])
    qed
  qed simp
qed

text \<open>A consumer waits on an empty queue; the other thread is elsewhere.\<close>

theorem no_lost_wakeup_witness:
  "\<exists>seen q. cq_run [Call 0 (pop :: nat instr list), Run 0, Run 0] (ConcurrentQueue 1 2) = Some (seen, q) \<and>
     quiescent q \<and> (cq_threads q ! 0 = Outside \<or>
    (\<exists>code. cq_threads q ! 0 = Waiting NotEmpty code \<and> cq_queue q = []) \<or>
    (\<exists>code. cq_threads q ! 0 = Waiting NotFull code \<and> (1 :: nat) \<noteq> 0 \<and> length (cq_queue q) = 1))"
proof -
  obtain seen q where run: "cq_run [Call 0 (pop :: nat instr list), Run 0, Run 0] (ConcurrentQueue 1 2) = Some (seen, q)"
    and ths: "cq_threads q = [Waiting NotEmpty (tl pop), Outside]"
    by (simp add: ConcurrentQueue_def operation_defs set_thread_def fullNoLock_def numeral_2_eq_2)
  have quiet: "quiescent q" by (simp add: quiescent_def ths nth_Cons split: nat.split)
  have "calls_ok [Call 0 (pop :: nat instr list), Run 0, Run 0]" by (auto simp: calls_ok_def operations_def)
  then show ?thesis using no_lost_wakeup [OF run _ quiet, of 0] run quiet by auto
qed

end
