(* ===== verification/MessageQueue.thy ===== *)
theory MessageQueue
  imports ConcurrentQueue
begin

text \<open>
  \<^verbatim>\<open>src/src/brickred/message_queue.h\<close>: threads push messages, one event loop receives them. The
  queue inside is used through its contract (\<open>QueueContract\<close>), so its operations are
  single steps here; the self pipe is the number of bytes in it, which a \<open>write\<close> raises unless the
  pipe is full and a \<open>read\<close> of 1024 bytes lowers. The receive callback is the one of the programs
  under \<^verbatim>\<open>src/src/test\<close>, which pops until \<open>pop\<close> returns false.
\<close>

section \<open>Member functions\<close>

datatype 'a mq_instr = QueuePush 'a | PipeWrite | WhilePipeRead | IfCallback | WhilePop

definition mq_push :: "'a \<Rightarrow> 'a mq_instr list" where
  "mq_push item = [QueuePush item, PipeWrite]"

definition mq_yield :: "'a mq_instr list" where
  "mq_yield = [PipeWrite]"

definition mq_pipeReadCallback :: "'a mq_instr list" where
  "mq_pipeReadCallback = [WhilePipeRead, IfCallback]"

section \<open>State and steps\<close>

record 'a message_queue =
  mq_queue :: "'a list"
  mq_max_size :: nat
  mq_pipe :: nat
  mq_pipe_size :: nat
  mq_recv_message_cb :: bool
  mq_loop :: "'a mq_instr list"
  mq_threads :: "'a mq_instr list list"

text \<open>The constructor, for a pipe of \<open>pipe_size\<close> bytes and \<open>n\<close> pushing threads.\<close>

definition MessageQueue :: "nat \<Rightarrow> nat \<Rightarrow> nat \<Rightarrow> 'a message_queue" where
  "MessageQueue max_size pipe_size n =
     \<lparr>mq_queue = [], mq_max_size = max_size, mq_pipe = 0, mq_pipe_size = pipe_size,
      mq_recv_message_cb = False, mq_loop = [], mq_threads = replicate n []\<rparr>"

definition mq_setRecvMessageCallback :: "bool \<Rightarrow> 'a message_queue \<Rightarrow> 'a message_queue" where
  "mq_setRecvMessageCallback cb q = q\<lparr>mq_recv_message_cb := cb\<rparr>"

text \<open>The calls that never block.\<close>

definition mq_size :: "'a message_queue \<Rightarrow> nat" where
  "mq_size q = length (mq_queue q)"

definition mq_pop :: "'a message_queue \<Rightarrow> 'a option \<times> 'a message_queue" where
  "mq_pop q = (case mq_queue q of [] \<Rightarrow> (None, q) | x # xs \<Rightarrow> (Some x, q\<lparr>mq_queue := xs\<rparr>))"

definition mq_peek :: "'a message_queue \<Rightarrow> 'a option" where
  "mq_peek q = (case mq_queue q of [] \<Rightarrow> None | x # xs \<Rightarrow> Some x)"

text \<open>An instruction gives what is seen of the queue, what is left to do, and the new state; None: the
  thread is blocked in \<open>queue_.push\<close>.\<close>

fun mq_exec ::
    "'a mq_instr \<Rightarrow> 'a mq_instr list \<Rightarrow> 'a message_queue \<Rightarrow>
     ('a seen list \<times> 'a mq_instr list \<times> 'a message_queue) option" where
  "mq_exec (QueuePush x) rest q =
     (case spec_step (mq_max_size q) (Enq x) (mq_queue q) of
        None \<Rightarrow> None
      | Some xs \<Rightarrow> Some ([Enq x], rest, q\<lparr>mq_queue := xs\<rparr>))"
| "mq_exec PipeWrite rest q = Some ([], rest, q\<lparr>mq_pipe := min (mq_pipe q + 1) (mq_pipe_size q)\<rparr>)"
| "mq_exec WhilePipeRead rest q =
     Some (if mq_pipe q = 0 then ([], rest, q)
           else ([], WhilePipeRead # rest, q\<lparr>mq_pipe := mq_pipe q - min 1024 (mq_pipe q)\<rparr>))"
| "mq_exec IfCallback rest q =
     Some ([], if mq_recv_message_cb q then WhilePop # rest else rest, q)"
| "mq_exec WhilePop rest q =
     (case mq_pop q of
        (None, q1) \<Rightarrow> Some ([Refused Empty], rest, q1)
      | (Some x, q1) \<Rightarrow> Some ([Deq x], WhilePop # rest, q1))"

text \<open>The events: a thread calls \<open>push\<close> or \<open>yield\<close> or takes a step, the loop sees the pipe readable or
  takes a step.\<close>

datatype 'a mq_event = MPush nat 'a | MYield nat | MRun nat | MReadable | MLoop

definition mq_start :: "nat \<Rightarrow> 'a mq_instr list \<Rightarrow> 'a message_queue \<Rightarrow> ('a seen list \<times> 'a message_queue) option" where
  "mq_start t code q =
     (if t < length (mq_threads q) \<and> mq_threads q ! t = []
      then Some ([], q\<lparr>mq_threads := (mq_threads q)[t := code]\<rparr>) else None)"

fun mq_step :: "'a mq_event \<Rightarrow> 'a message_queue \<Rightarrow> ('a seen list \<times> 'a message_queue) option" where
  "mq_step (MPush t x) q = mq_start t (mq_push x) q"
| "mq_step (MYield t) q = mq_start t mq_yield q"
| "mq_step (MRun t) q =
     (if t < length (mq_threads q) then
        case mq_threads q ! t of
          [] \<Rightarrow> None
        | i # rest \<Rightarrow>
            (case mq_exec i rest q of
               None \<Rightarrow> None
             | Some (seen, code, q1) \<Rightarrow> Some (seen, q1\<lparr>mq_threads := (mq_threads q1)[t := code]\<rparr>))
      else None)"
| "mq_step MReadable q =
     (if mq_loop q = [] \<and> 0 < mq_pipe q then Some ([], q\<lparr>mq_loop := mq_pipeReadCallback\<rparr>) else None)"
| "mq_step MLoop q =
     (case mq_loop q of
        [] \<Rightarrow> None
      | i # rest \<Rightarrow>
          (case mq_exec i rest q of
             None \<Rightarrow> None
           | Some (seen, code, q1) \<Rightarrow> Some (seen, q1\<lparr>mq_loop := code\<rparr>)))"

fun mq_run :: "'a mq_event list \<Rightarrow> 'a message_queue \<Rightarrow> ('a seen list \<times> 'a message_queue) option" where
  "mq_run [] q = Some ([], q)"
| "mq_run (e # es) q =
     (case mq_step e q of
        None \<Rightarrow> None
      | Some (seen1, q1) \<Rightarrow>
          (case mq_run es q1 of None \<Rightarrow> None | Some (seen2, q2) \<Rightarrow> Some (seen1 @ seen2, q2)))"

definition mq_quiescent :: "'a message_queue \<Rightarrow> bool" where
  "mq_quiescent q \<longleftrightarrow> mq_step MReadable q = None \<and> mq_step MLoop q = None \<and> (\<forall>t. mq_step (MRun t) q = None)"

section \<open>Nothing is forgotten\<close>

text \<open>Where a message waits, the loop will come back: the pipe is readable, or a thread is about to
  make it so, or the callback is still to look at the queue.\<close>

definition thread_code_ok :: "'a mq_instr list \<Rightarrow> bool" where
  "thread_code_ok code \<longleftrightarrow> code = [] \<or> code = [PipeWrite] \<or> (\<exists>x. code = [QueuePush x, PipeWrite])"

definition loop_code_ok :: "'a mq_instr list \<Rightarrow> bool" where
  "loop_code_ok code \<longleftrightarrow> code \<in> {[], [WhilePipeRead, IfCallback], [IfCallback], [WhilePop]}"

definition mq_inv :: "'a message_queue \<Rightarrow> bool" where
  "mq_inv q \<longleftrightarrow> 0 < mq_pipe_size q \<and> mq_recv_message_cb q \<and> loop_code_ok (mq_loop q) \<and>
     (\<forall>code \<in> set (mq_threads q). thread_code_ok code) \<and>
     (mq_queue q \<noteq> [] \<longrightarrow> 0 < mq_pipe q \<or> [PipeWrite] \<in> set (mq_threads q) \<or>
        mq_loop q \<in> {[WhilePipeRead, IfCallback], [IfCallback], [WhilePop]})"

lemma still_in: "xs ! t \<noteq> y \<Longrightarrow> y \<in> set xs \<Longrightarrow> y \<in> set (xs[t := z])"
  by (metis in_set_conv_nth length_list_update nth_list_update_neq)

lemma threads_ok_update:
  "\<forall>code \<in> set xs. thread_code_ok code \<Longrightarrow> thread_code_ok z \<Longrightarrow> \<forall>code \<in> set (xs[t := z]). thread_code_ok code"
  using set_update_subset_insert [of xs t z] by blast

lemma mq_start_inv:
  assumes inv: "mq_inv q" and st: "mq_start t code q = Some (seen, q')" and code: "thread_code_ok code"
  shows "mq_inv q'"
proof -
  have "mq_threads q ! t = []" and q': "q' = q\<lparr>mq_threads := (mq_threads q)[t := code]\<rparr>"
    using st by (auto simp: mq_start_def split: if_splits)
  then have "[PipeWrite] \<in> set (mq_threads q) \<Longrightarrow> [PipeWrite] \<in> set (mq_threads q')" by (simp add: still_in)
  moreover have "\<forall>code \<in> set (mq_threads q'). thread_code_ok code"
    using threads_ok_update [OF _ code, of "mq_threads q" t] inv by (simp add: mq_inv_def q')
  ultimately show ?thesis using inv by (auto simp: mq_inv_def q')
qed

lemma mq_run_thread_inv:
  assumes inv: "mq_inv q" and st: "mq_step (MRun t) q = Some (seen, q')"
  shows "mq_inv q'"
proof -
  obtain i rest code q1 where t: "t < length (mq_threads q)" and th: "mq_threads q ! t = i # rest"
    and ex: "mq_exec i rest q = Some (seen, code, q1)" and q': "q' = q1\<lparr>mq_threads := (mq_threads q1)[t := code]\<rparr>"
    using st by (auto split: if_splits list.splits option.splits)
  have "thread_code_ok (i # rest)" using inv t th unfolding mq_inv_def by (metis nth_mem)
  then consider "i = PipeWrite" "rest = []" | x where "i = QueuePush x" "rest = [PipeWrite]"
    by (auto simp: thread_code_ok_def)
  then show ?thesis
  proof cases
    case 1
    then have "q' = q\<lparr>mq_pipe := min (mq_pipe q + 1) (mq_pipe_size q), mq_threads := (mq_threads q)[t := []]\<rparr>"
      using ex q' by auto
    moreover have "\<forall>code \<in> set ((mq_threads q)[t := []]). thread_code_ok code"
      by (rule threads_ok_update) (use inv in \<open>simp_all add: mq_inv_def thread_code_ok_def\<close>)
    ultimately show ?thesis using inv by (auto simp: mq_inv_def)
  next
    case 2
    then obtain xs where "q' = q\<lparr>mq_queue := xs, mq_threads := (mq_threads q)[t := [PipeWrite]]\<rparr>"
      using ex q' by (auto split: if_splits)
    moreover have "\<forall>code \<in> set ((mq_threads q)[t := [PipeWrite]]). thread_code_ok code"
      by (rule threads_ok_update) (use inv in \<open>simp_all add: mq_inv_def thread_code_ok_def\<close>)
    moreover have "[PipeWrite] \<in> set ((mq_threads q)[t := [PipeWrite]])"
      using t by (simp add: set_update_memI)
    ultimately show ?thesis using inv by (simp add: mq_inv_def)
  qed
qed

lemma mq_step_inv:
  assumes inv: "mq_inv q" and st: "mq_step e q = Some (seen, q')"
  shows "mq_inv q'"
proof (cases e)
  case (MPush t x)
  then show ?thesis using mq_start_inv [OF inv, of t "mq_push x"] st by (simp add: mq_push_def thread_code_ok_def)
next
  case (MYield t)
  then show ?thesis using mq_start_inv [OF inv, of t mq_yield] st by (simp add: mq_yield_def thread_code_ok_def)
next
  case (MRun t)
  then show ?thesis using mq_run_thread_inv [OF inv] st by blast
next
  case MReadable
  then show ?thesis
    using st inv by (auto simp: mq_inv_def mq_pipeReadCallback_def loop_code_ok_def split: if_splits)
next
  case MLoop
  have "loop_code_ok (mq_loop q)" using inv by (simp add: mq_inv_def)
  then show ?thesis
    using st inv MLoop
    by (auto simp: mq_inv_def loop_code_ok_def mq_pop_def split: if_splits list.splits)
qed

text \<open>The queue inside is used by its contract.\<close>

lemma mq_exec_spec:
  "mq_exec i rest q = Some (seen, code, q') \<Longrightarrow>
     spec_run (mq_max_size q) seen (mq_queue q) = Some (mq_queue q') \<and> mq_max_size q' = mq_max_size q"
  by (cases i) (auto simp: mq_pop_def split: if_splits list.splits)

lemma mq_step_spec:
  "mq_step e q = Some (seen, q') \<Longrightarrow>
     spec_run (mq_max_size q) seen (mq_queue q) = Some (mq_queue q') \<and> mq_max_size q' = mq_max_size q"
  by (cases e) (auto simp: mq_start_def dest: mq_exec_spec split: if_splits list.splits option.splits)

interpretation mq: queue_user mq_step mq_run mq_queue mq_max_size mq_inv "\<lambda>e. True"
  by unfold_locales (simp_all add: mq_step_inv mq_step_spec)

section \<open>Properties\<close>

text \<open>C9. No message waits forever. However pushing threads, the pipe and the event loop interleave,
  and though a full pipe swallows the byte of a \<open>push\<close>: when nobody can go on any more and the pipe is
  not readable, the queue is empty, no thread is left inside \<open>push\<close>, and the callback has been given
  every message pushed, in the order they were pushed, once.\<close>

theorem messages_are_delivered:
  assumes run: "mq_run es (mq_setRecvMessageCallback True (MessageQueue m pipe_size n)) = Some (seen, q)"
    and pipe: "0 < pipe_size" and quiet: "mq_quiescent q"
  shows "delivered seen = pushed seen \<and> mq_queue q = [] \<and> (\<forall>code \<in> set (mq_threads q). code = [])"
proof -
  have "mq_inv (mq_setRecvMessageCallback True (MessageQueue m pipe_size n))"
    using pipe by (simp add: mq_inv_def mq_setRecvMessageCallback_def MessageQueue_def loop_code_ok_def thread_code_ok_def)
  note started = this
  have inv: "mq_inv q" using mq.run_spec [OF started _ run] by simp
  have readable: "mq_step MReadable q = None" and loop: "mq_step MLoop q = None"
    and threads: "mq_step (MRun t) q = None" for t
    using quiet by (simp_all add: mq_quiescent_def)
  have idle: "mq_loop q = []"
    using loop inv by (auto simp: mq_inv_def loop_code_ok_def mq_pop_def split: if_splits list.splits)
  then have dry: "mq_pipe q = 0" using readable by (auto split: if_splits)
  have code: "code = [] \<or> (\<exists>x. code = [QueuePush x, PipeWrite]) \<and> mq_queue q \<noteq> []"
    if "code \<in> set (mq_threads q)" for code
  proof -
    obtain t where t: "t < length (mq_threads q)" "code = mq_threads q ! t"
      using \<open>code \<in> set (mq_threads q)\<close> by (auto simp: in_set_conv_nth)
    have "thread_code_ok code" using inv that by (simp add: mq_inv_def)
    then show ?thesis using threads [of t] t by (auto simp: thread_code_ok_def split: if_splits)
  qed
  then have "[PipeWrite] \<notin> set (mq_threads q)" by fastforce
  then have empty: "mq_queue q = []" using inv idle dry by (auto simp: mq_inv_def)
  moreover have "pushed seen = delivered seen @ mq_queue q"
    using mq.run_fifo [OF started _ run] by (simp add: mq_setRecvMessageCallback_def MessageQueue_def)
  ultimately show ?thesis using code by auto
qed

definition mq_sample :: "nat mq_event list" where
  "mq_sample = [MPush 0 7, MRun 0, MPush 1 8, MRun 0, MRun 1, MReadable, MLoop, MLoop, MRun 1, MLoop,
     MLoop, MLoop, MLoop, MReadable, MLoop, MLoop, MLoop, MLoop]"

theorem messages_are_delivered_witness:
  "\<exists>seen q. mq_run mq_sample (mq_setRecvMessageCallback True (MessageQueue 0 1 2)) = Some (seen, q) \<and> mq_quiescent q \<and>
     pushed seen = [7, 8] \<and> delivered seen = pushed seen \<and> mq_queue q = [] \<and> (\<forall>code \<in> set (mq_threads q). code = [])"
proof -
  obtain seen q where run: "mq_run mq_sample (mq_setRecvMessageCallback True (MessageQueue 0 1 2)) = Some (seen, q)"
    and "pushed seen = [7, 8]" and end_state: "mq_threads q = [[], []]" "mq_loop q = []" "mq_pipe q = 0"
    by (simp add: mq_sample_def mq_setRecvMessageCallback_def MessageQueue_def mq_start_def mq_push_def
        mq_pipeReadCallback_def mq_pop_def numeral_2_eq_2)
  moreover have "mq_quiescent q" using end_state by (simp add: mq_quiescent_def nth_Cons split: nat.split)
  ultimately show ?thesis using messages_are_delivered [OF run] by auto
qed

end
