(* ===== verification/SelfPipe.thy ===== *)
theory SelfPipe
  imports TcpSocket "HOL-Library.While_Combinator"
begin

text \<open>
  \<^verbatim>\<open>src/src/brickred/self_pipe.{h,cc}\<close> and \<^verbatim>\<open>src/src/brickred/signal_queue.{h,cc}\<close>: a pipe whose read
  end is the descriptor of a device, and the queue of signal numbers an event loop reads from it.
\<close>

section \<open>Self pipe\<close>

text \<open>The object: its part as a device at an address, and the member \<open>fd1_\<close>, the write end.\<close>

record self_pipe =
  sp_device :: nat
  sp_fd1 :: int

definition SelfPipe :: "('h, 'cb) io_world \<Rightarrow> self_pipe \<times> ('h, 'cb) io_world" where
  "SelfPipe w = (let (p, w1) = new_device w in (\<lparr>sp_device = p, sp_fd1 = -1\<rparr>, w1))"

definition sp_fd :: "self_pipe \<Rightarrow> ('h, 'cb) io_world \<Rightarrow> int" where
  "sp_fd sp w = dev_fd (dev w (sp_device sp))"

definition sp_close :: "kernel \<Rightarrow> self_pipe \<Rightarrow> ('h, 'cb) io_world \<Rightarrow> self_pipe \<times> ('h, 'cb) io_world" where
  "sp_close k sp w =
     (let w1 = detachIOService k (sp_device sp) w;
          w2 = (if sp_fd sp w1 \<noteq> -1
                then setDescriptor (sp_device sp) (-1) (snd (sys k (K_close (sp_fd sp w1)) w1)) else w1);
          w3 = (if sp_fd1 sp \<noteq> -1
                then setDescriptor (sp_device sp) (-1) (snd (sys k (K_close (sp_fd1 sp)) w2)) else w2)
      in (sp, w3))"

text \<open>The destructor: closes, then the one of \<open>IODevice\<close> detaches.\<close>

definition delete_SelfPipe :: "kernel \<Rightarrow> self_pipe \<Rightarrow> ('h, 'cb) io_world \<Rightarrow> ('h, 'cb) io_world" where
  "delete_SelfPipe k sp w =
     (let w1 = detachIOService k (sp_device sp) (snd (sp_close k sp w))
      in w1\<lparr>w_devices := (w_devices w1)(sp_device sp := None)\<rparr>)"

definition sp_open :: "kernel \<Rightarrow> self_pipe \<Rightarrow> ('h, 'cb) io_world \<Rightarrow> bool \<times> self_pipe \<times> ('h, 'cb) io_world" where
  "sp_open k sp w =
     (let (sp1, w1) = (if sp_fd sp w \<noteq> -1 then sp_close k sp w else (sp, touch (sp_device sp) w));
          (a, w2) = sys k K_pipe w1
      in if a_ret a \<noteq> 0 then (False, sp1, w2)
         else (True, sp1\<lparr>sp_fd1 := a_value2 a\<rparr>, setDescriptor (sp_device sp1) (a_value a) w2))"

definition sp_read :: "kernel \<Rightarrow> self_pipe \<Rightarrow> nat \<Rightarrow> ('h, 'cb) io_world \<Rightarrow> (int \<times> bytes) \<times> ('h, 'cb) io_world" where
  "sp_read k sp sz w =
     (let (a, w1) = sys k (K_read (sp_fd sp w) sz) (touch (sp_device sp) w)
      in ((to_int32 (a_ret a), a_bytes a), w1))"

definition sp_write :: "kernel \<Rightarrow> self_pipe \<Rightarrow> bytes \<Rightarrow> ('h, 'cb) io_world \<Rightarrow> int \<times> ('h, 'cb) io_world" where
  "sp_write k sp buffer w =
     (let (a, w1) = sys k (K_write (sp_fd1 sp) buffer) w in (to_int32 (a_ret a), w1))"

text \<open>One of the descriptors, then the other.\<close>

definition set_flag ::
    "kernel \<Rightarrow> fcntl_command \<Rightarrow> fcntl_command \<Rightarrow> int \<Rightarrow> int \<Rightarrow> ('h, 'cb) io_world \<Rightarrow> bool \<times> ('h, 'cb) io_world" where
  "set_flag k get put flag fd w =
     (let (flags, w1) = sys k (K_fcntl fd get 0) w;
          (a, w2) = sys k (K_fcntl fd put (a_ret flags OR flag)) w1
      in (a_ret a = 0, w2))"

definition sp_setNonblock :: "kernel \<Rightarrow> self_pipe \<Rightarrow> ('h, 'cb) io_world \<Rightarrow> bool \<times> ('h, 'cb) io_world" where
  "sp_setNonblock k sp w =
     all_calls [set_flag k F_GETFL F_SETFL O_NONBLOCK (sp_fd sp w), set_flag k F_GETFL F_SETFL O_NONBLOCK (sp_fd1 sp)]
       (touch (sp_device sp) w)"

definition sp_setCloseOnExec :: "kernel \<Rightarrow> self_pipe \<Rightarrow> ('h, 'cb) io_world \<Rightarrow> bool \<times> ('h, 'cb) io_world" where
  "sp_setCloseOnExec k sp w =
     all_calls [set_flag k F_GETFD F_SETFD FD_CLOEXEC (sp_fd sp w), set_flag k F_GETFD F_SETFD FD_CLOEXEC (sp_fd1 sp)]
       (touch (sp_device sp) w)"

text \<open>\<open>close\<close> resets \<open>fd_\<close> twice and \<open>fd1_\<close> never: a second \<open>close\<close>, of the destructor for
  instance, closes the number of the write end again, which may be another file by then.\<close>

definition times_closed :: "int \<Rightarrow> history \<Rightarrow> nat" where
  "times_closed fd h = length (filter (\<lambda>ca. fst ca = K_close fd) h)"

lemma times_closed_detach: "times_closed fd (w_history (detachIOService k p w)) = times_closed fd (w_history w)"
  by (simp add: times_closed_def detachIOService_def removeIODevice_def set_device_def touch_def fault_def sys_def
      Let_def split: option.split)

lemma times_closed_sys:
  "times_closed fd (w_history (snd (sys k c w))) = times_closed fd (w_history w) + of_bool (c = K_close fd)"
  by (simp add: times_closed_def sys_def Let_def)

lemma times_closed_descriptor: "times_closed fd (w_history (setDescriptor p x w)) = times_closed fd (w_history w)"
  by (simp add: setDescriptor_def set_device_def fault_def split: option.split)

lemma sp_close_closes:
  assumes "sp_fd1 sp \<noteq> -1"
  shows "times_closed (sp_fd1 sp) (w_history w) < times_closed (sp_fd1 sp) (w_history (snd (sp_close k sp w)))"
    and "fst (sp_close k sp w) = sp"
  using assms
  by (simp_all add: sp_close_def Let_def times_closed_detach times_closed_sys times_closed_descriptor)

lemma write_end_closed_twice:
  assumes "sp_fd1 sp \<noteq> -1" and "sp_close k sp w = (sp1, w1)" and "sp_close k sp1 w1 = (sp2, w2)"
  shows "times_closed (sp_fd1 sp) (w_history w) + 2 \<le> times_closed (sp_fd1 sp) (w_history w2)"
  using sp_close_closes [OF assms(1), where w = w and k = k] sp_close_closes [OF assms(1), where w = w1 and k = k]
    assms(2,3) by simp

section \<open>Signal queue\<close>

record signal_queue =
  sq_pipe :: self_pipe
  sq_recv_signal_cb :: "nat option"

text \<open>What the constructors of \<open>SignalQueue\<close> and of \<open>MessageQueue\<close> do: they make a pipe and have its
  read events call the member function \<open>h\<close>; None is the exception they throw.\<close>

definition new_pipe ::
    "kernel \<Rightarrow> 'h \<Rightarrow> ('h, 'cb) io_world \<Rightarrow> self_pipe option \<times> ('h, 'cb) io_world" where
  "new_pipe k h w =
     (let (sp, w1) = SelfPipe w;
          (opened, sp1, w2) = sp_open k sp w1;
          (ok, w3) = (if opened then all_calls [sp_setNonblock k sp1, sp_setCloseOnExec k sp1] w2
                      else (False, w2))
      in if \<not> ok then (None, delete_SelfPipe k sp1 w3)
         else let w4 = setReadCallback k (sp_device sp1) (Some h) w3;
                  w5 = snd (attachIOService k (sp_device sp1) w4)
              in (Some sp1, w5))"

definition SignalQueue ::
    "kernel \<Rightarrow> 'h \<Rightarrow> ('h, 'cb) io_world \<Rightarrow> signal_queue option \<times> ('h, 'cb) io_world" where
  "SignalQueue k h w =
     (let (sp, w1) = new_pipe k h w
      in (map_option (\<lambda>sp. \<lparr>sq_pipe = sp, sq_recv_signal_cb = None\<rparr>) sp, w1))"

definition sq_setRecvSignalCallback :: "nat option \<Rightarrow> signal_queue \<Rightarrow> signal_queue" where
  "sq_setRecvSignalCallback cb sq = sq\<lparr>sq_recv_signal_cb := cb\<rparr>"

text \<open>An \<open>int\<close> in memory, on a little-endian machine.\<close>

definition int_bytes :: "u32 \<Rightarrow> bytes" where
  "int_bytes v = [ucast v, ucast (drop_bit 8 v), ucast (drop_bit 16 v), ucast (drop_bit 24 v)]"

definition bytes_int :: "bytes \<Rightarrow> u32" where
  "bytes_int xs = ucast (xs ! 0) OR push_bit 8 (ucast (xs ! 1)) OR push_bit 16 (ucast (xs ! 2)) OR
     push_bit 24 (ucast (xs ! 3))"

definition sq_push :: "kernel \<Rightarrow> signal_queue \<Rightarrow> u32 \<Rightarrow> ('h, 'cb) io_world \<Rightarrow> ('h, 'cb) io_world" where
  "sq_push k sq signum w = snd (sp_write k (sq_pipe sq) (int_bytes signum) w)"

text \<open>One pass of the loop; a read of fewer than four bytes overwrites the first bytes of \<open>signum\<close>
  only. \<open>cb\<close> is what the callback does.\<close>

definition sq_read_round ::
    "kernel \<Rightarrow> (nat \<Rightarrow> u32 \<Rightarrow> ('h, 'cb) io_world \<Rightarrow> ('h, 'cb) io_world) \<Rightarrow> signal_queue \<Rightarrow>
     bool \<times> bytes \<times> ('h, 'cb) io_world \<Rightarrow> bool \<times> bytes \<times> ('h, 'cb) io_world" where
  "sq_read_round k cb sq st =
     (case st of (_, signum, w) \<Rightarrow>
        let ((ret, xs), w1) = sp_read k (sq_pipe sq) 4 w;
            signum1 = xs @ drop (length xs) signum
        in if ret > 0 then
             (True, signum1,
              case sq_recv_signal_cb sq of None \<Rightarrow> w1 | Some f \<Rightarrow> cb f (bytes_int signum1) w1)
           else (False, signum1, w1))"

definition sq_pipeReadCallback ::
    "kernel \<Rightarrow> (nat \<Rightarrow> u32 \<Rightarrow> ('h, 'cb) io_world \<Rightarrow> ('h, 'cb) io_world) \<Rightarrow> signal_queue \<Rightarrow>
     ('h, 'cb) io_world \<Rightarrow> ('h, 'cb) io_world option" where
  "sq_pipeReadCallback k cb sq w =
     map_option (\<lambda>st. snd (snd st)) (while_option fst (sq_read_round k cb sq) (True, int_bytes 0, w))"

lemma bytes_int_bytes [simp]: "bytes_int (int_bytes v) = v"
proof (rule bit_word_eqI)
  fix n
  assume "n < LENGTH(32)"
  then consider "n < 8" | "8 \<le> n" "n < 16" | "16 \<le> n" "n < 24" | "24 \<le> n" "n < 32" by fastforce
  then show "bit (bytes_int (int_bytes v)) n = bit v n"
    by cases (auto simp: bytes_int_def int_bytes_def bit_simps)
qed

text \<open>One pass over a whole \<open>int\<close> hands the callback the number that was pushed.\<close>

lemma signal_arrives:
  assumes "sp_read k (sq_pipe sq) 4 w = ((4, int_bytes signum), w1)" and "sq_recv_signal_cb sq = Some f"
  shows "sq_read_round k cb sq (True, old, w) = (True, int_bytes signum @ drop 4 old, cb f signum w1)"
proof -
  have "bytes_int (int_bytes signum @ ys) = bytes_int (int_bytes signum)" for ys
    by (simp add: bytes_int_def int_bytes_def)
  then show ?thesis using assms by (simp add: sq_read_round_def) (simp add: int_bytes_def eval_nat_numeral)
qed

end
