(* ===== verification/UdpSocket.thy ===== *)
theory UdpSocket
  imports TcpSocket DeviceSafety
begin

text \<open>
  \<^verbatim>\<open>src/src/brickred/udp_socket.{h,cc}\<close>: a UDP socket is a device; each member function is the
  kernel calls it makes, in order, with its early returns. Addresses are passed as in \<open>TcpSocket\<close>.
\<close>

definition udp_close :: "kernel \<Rightarrow> nat \<Rightarrow> ('h, 'cb) io_world \<Rightarrow> ('h, 'cb) io_world" where
  "udp_close k p w =
     (let w1 = detachIOService k p w
      in if dev_fd (dev w1 p) \<noteq> -1
         then setDescriptor p (-1) (snd (sys k (K_close (dev_fd (dev w1 p))) w1))
         else w1)"

definition delete_UdpSocket :: "kernel \<Rightarrow> nat \<Rightarrow> ('h, 'cb) io_world \<Rightarrow> ('h, 'cb) io_world" where
  "delete_UdpSocket k p w =
     (let w1 = detachIOService k p (udp_close k p w)
      in w1\<lparr>w_devices := (w_devices w1)(p := None)\<rparr>)"

definition udp_open ::
    "kernel \<Rightarrow> nat \<Rightarrow> sa_protocol \<Rightarrow> ('h, 'cb) io_world \<Rightarrow> bool \<times> ('h, 'cb) io_world" where
  "udp_open k p protocol w =
     (let w1 = (if dev_fd (dev w p) \<noteq> -1 then udp_close k p w else touch p w)
      in if protocol = IP_V4 \<or> protocol = IP_V6 then
           let (a, w2) = sys k (K_socket_dgram protocol) w1;
               w3 = setDescriptor p (a_ret a) w2
           in if a_ret a = -1 then (False, w3)
              else let (ok, w4) = setCloseOnExec k p w3
                   in if \<not> ok then (False, udp_close k p w4) else (True, w4)
         else (False, w1\<lparr>w_errno := EAFNOSUPPORT\<rparr>))"

definition udp_connect ::
    "(bytes \<Rightarrow> bytes option) \<Rightarrow> kernel \<Rightarrow> nat \<Rightarrow> socket_address \<Rightarrow> ('h, 'cb) io_world \<Rightarrow>
     bool \<times> ('h, 'cb) io_world" where
  "udp_connect pton6 k p addr w =
     (case fst (getNativeAddress pton6 addr) of
        None \<Rightarrow> (False, w\<lparr>w_errno := EAFNOSUPPORT\<rparr>)
      | Some native \<Rightarrow>
          let (a, w1) = sys k (K_connect (dev_fd (dev w p)) native
                                 (fst (getNativeAddressSize pton6 addr))) (touch p w)
          in (a_ret a = 0, w1))"

definition udp_bind ::
    "(bytes \<Rightarrow> bytes option) \<Rightarrow> kernel \<Rightarrow> nat \<Rightarrow> socket_address \<Rightarrow> ('h, 'cb) io_world \<Rightarrow>
     bool \<times> ('h, 'cb) io_world" where
  "udp_bind pton6 k p addr w =
     (case fst (getNativeAddress pton6 addr) of
        None \<Rightarrow> (False, w\<lparr>w_errno := EAFNOSUPPORT\<rparr>)
      | Some native \<Rightarrow>
          let (a, w1) = sys k (K_bind (dev_fd (dev w p)) native
                                 (fst (getNativeAddressSize pton6 addr))) (touch p w)
          in (a_ret a = 0, w1))"

definition udp_recv ::
    "kernel \<Rightarrow> nat \<Rightarrow> nat \<Rightarrow> ('h, 'cb) io_world \<Rightarrow> (int \<times> bytes) \<times> ('h, 'cb) io_world" where
  "udp_recv k p sz w =
     (let (a, w1) = sys k (K_recv (dev_fd (dev w p)) sz) (touch p w)
      in ((to_int32 (a_ret a), a_bytes a), w1))"

definition udp_send :: "kernel \<Rightarrow> nat \<Rightarrow> bytes \<Rightarrow> ('h, 'cb) io_world \<Rightarrow> int \<times> ('h, 'cb) io_world" where
  "udp_send k p buffer w =
     (let (a, w1) = sys k (K_send (dev_fd (dev w p)) buffer) (touch p w)
      in (to_int32 (a_ret a), w1))"

text \<open>The sender's address is stored unless the call failed; what \<open>setNativeAddress\<close> returns is not
  looked at.\<close>

definition recvFrom ::
    "kernel \<Rightarrow> nat \<Rightarrow> nat \<Rightarrow> socket_address \<Rightarrow> ('h, 'cb) io_world \<Rightarrow>
     (int \<times> bytes \<times> socket_address) \<times> ('h, 'cb) io_world" where
  "recvFrom k p sz addr w =
     (let (a, w1) = sys k (K_recvfrom (dev_fd (dev w p)) sz) (touch p w)
      in ((to_int32 (a_ret a), a_bytes a,
           if a_ret a \<ge> 0 then snd (setNativeAddress (a_addr a) addr) else addr), w1))"

text \<open>Without a check: the native address may be null.\<close>

definition sendTo ::
    "(bytes \<Rightarrow> bytes option) \<Rightarrow> kernel \<Rightarrow> nat \<Rightarrow> bytes \<Rightarrow> socket_address \<Rightarrow> ('h, 'cb) io_world \<Rightarrow>
     int \<times> ('h, 'cb) io_world" where
  "sendTo pton6 k p buffer addr w =
     (let (a, w1) = sys k (K_sendto (dev_fd (dev w p)) buffer (fst (getNativeAddress pton6 addr))
                             (fst (getNativeAddressSize pton6 addr))) (touch p w)
      in (to_int32 (a_ret a), w1))"

definition udp_activeOpen ::
    "(bytes \<Rightarrow> bytes option) \<Rightarrow> kernel \<Rightarrow> nat \<Rightarrow> socket_address \<Rightarrow> ('h, 'cb) io_world \<Rightarrow>
     bool \<times> ('h, 'cb) io_world" where
  "udp_activeOpen pton6 k p remote_addr w =
     (let (opened, w1) = udp_open k p (fst (getProtocol pton6 remote_addr)) w
      in if \<not> opened then (False, w1)
         else let (ok, w2) = udp_connect pton6 k p remote_addr w1
              in if \<not> ok then (False, udp_close k p w2) else (True, w2))"

definition udp_activeOpenNonblock ::
    "(bytes \<Rightarrow> bytes option) \<Rightarrow> kernel \<Rightarrow> nat \<Rightarrow> socket_address \<Rightarrow> ('h, 'cb) io_world \<Rightarrow>
     bool \<times> ('h, 'cb) io_world" where
  "udp_activeOpenNonblock pton6 k p remote_addr w =
     (let (opened, w1) = udp_activeOpen pton6 k p remote_addr w
      in if \<not> opened then (False, w1)
         else let (ok, w2) = setNonblock k p w1
              in if \<not> ok then (False, udp_close k p w2) else (True, w2))"

definition udp_passiveOpen ::
    "(bytes \<Rightarrow> bytes option) \<Rightarrow> kernel \<Rightarrow> nat \<Rightarrow> socket_address \<Rightarrow> ('h, 'cb) io_world \<Rightarrow>
     bool \<times> ('h, 'cb) io_world" where
  "udp_passiveOpen pton6 k p local_addr w =
     (let (opened, w1) = udp_open k p (fst (getProtocol pton6 local_addr)) w
      in if \<not> opened then (False, w1)
         else let (ok, w2) = udp_bind pton6 k p local_addr w1
              in if \<not> ok then (False, udp_close k p w2) else (True, w2))"

definition udp_passiveOpenNonblock ::
    "(bytes \<Rightarrow> bytes option) \<Rightarrow> kernel \<Rightarrow> nat \<Rightarrow> socket_address \<Rightarrow> ('h, 'cb) io_world \<Rightarrow>
     bool \<times> ('h, 'cb) io_world" where
  "udp_passiveOpenNonblock pton6 k p local_addr w =
     (let (opened, w1) = udp_passiveOpen pton6 k p local_addr w
      in if \<not> opened then (False, w1)
         else let (ok, w2) = setNonblock k p w1
              in if \<not> ok then (False, udp_close k p w2) else (True, w2))"

section \<open>A failed open leaves no descriptor\<close>

lemma live_sys [simp]: "live (snd (sys k c w)) p = live w p"
  by (simp add: live_def)

lemma dev_sys [simp]: "dev (snd (sys k c w)) p = dev w p"
  by (simp add: dev_def)

lemma live_setDescriptor [simp]: "live w p \<Longrightarrow> live (setDescriptor p fd w) p"
  by (auto simp: setDescriptor_def set_device_def live_def)

lemma fd_setDescriptor [simp]: "live w p \<Longrightarrow> dev_fd (dev (setDescriptor p fd w) p) = fd"
  by (auto simp: setDescriptor_def set_device_def live_def dev_def)

lemma live_detach [simp]: "live w p \<Longrightarrow> live (detachIOService k p w) p"
  by (auto simp: detachIOService_def removeIODevice_def touch_def set_device_def live_def sys_def Let_def
      split: option.split)

lemma udp_close_fd [simp]:
  assumes "live w p"
  shows "live (udp_close k p w) p" and "dev_fd (dev (udp_close k p w) p) = -1"
  using live_detach [OF assms, of k] by (simp_all add: udp_close_def Let_def)

lemma live_flags [simp]:
  "live w p \<Longrightarrow> live (snd (setCloseOnExec k p w)) p" "live w p \<Longrightarrow> live (snd (setNonblock k p w)) p"
  by (simp_all add: setCloseOnExec_def setNonblock_def case_prod_beta Let_def)

lemma udp_connect_live [simp]:
  "live w p \<Longrightarrow> live (snd (udp_connect pton6 k p addr w)) p" "live w p \<Longrightarrow> live (snd (udp_bind pton6 k p addr w)) p"
  by (auto simp: udp_connect_def udp_bind_def case_prod_beta Let_def live_def split: option.split)

lemma live_errno: "live (w\<lparr>w_errno := e\<rparr>) p = live w p"
  by (simp add: live_def)

lemma dev_errno: "dev (w\<lparr>w_errno := e\<rparr>) p = dev w p"
  by (simp add: dev_def)

lemma udp_open_failed:
  assumes "live w p"
  shows "live (snd (udp_open k p protocol w)) p"
    and "\<not> fst (udp_open k p protocol w) \<Longrightarrow> dev_fd (dev (snd (udp_open k p protocol w)) p) = -1"
proof -
  define w1 where "w1 = (if dev_fd (dev w p) \<noteq> -1 then udp_close k p w else touch p w)"
  have w1: "live w1 p" "dev_fd (dev w1 p) = -1"
    using assms udp_close_fd [OF assms] by (auto simp: w1_def)
  show "live (snd (udp_open k p protocol w)) p"
    and "\<not> fst (udp_open k p protocol w) \<Longrightarrow> dev_fd (dev (snd (udp_open k p protocol w)) p) = -1"
    using w1 by (auto simp: udp_open_def w1_def [symmetric] Let_def case_prod_beta live_errno dev_errno split: if_splits)
qed

text \<open>Whichever call fails, the opening functions give the descriptor back.\<close>

lemma udp_open_fails_closed:
  assumes "live w p" and "f \<in> {udp_activeOpen pton6 k p addr, udp_activeOpenNonblock pton6 k p addr,
      udp_passiveOpen pton6 k p addr, udp_passiveOpenNonblock pton6 k p addr}" and "f w = (False, w')"
  shows "dev_fd (dev w' p) = -1"
proof -
  note opened = udp_open_failed [OF assms(1), of k "fst (getProtocol pton6 addr)"]
  have act: "live (snd (udp_activeOpen pton6 k p addr w)) p"
    "\<not> fst (udp_activeOpen pton6 k p addr w) \<Longrightarrow> dev_fd (dev (snd (udp_activeOpen pton6 k p addr w)) p) = -1"
    using opened by (auto simp: udp_activeOpen_def case_prod_beta)
  have pass: "live (snd (udp_passiveOpen pton6 k p addr w)) p"
    "\<not> fst (udp_passiveOpen pton6 k p addr w) \<Longrightarrow> dev_fd (dev (snd (udp_passiveOpen pton6 k p addr w)) p) = -1"
    using opened by (auto simp: udp_passiveOpen_def case_prod_beta)
  show ?thesis
    using assms(2,3) act pass
    by (auto simp: udp_activeOpenNonblock_def udp_passiveOpenNonblock_def case_prod_beta split: if_splits)
qed

end
