(* ===== verification/LogCore.thy ===== *)
theory LogCore
  imports Prelude "HOL-Library.Multiset"
begin

text \<open>
  \<^verbatim>\<open>src/src/brickred/log_core.{h,cc}\<close>: the loggers of the process, each with its sinks. Formatting
  (\<open>vsnprintf\<close> and the formatters given by the user) is a parameter: a formatter is a function from
  the size of the buffer and the arguments of the call to the bytes it stores and the count it
  returns. What the sinks are given is recorded in the order of the calls. A sink is the address of
  an object; the class owns it and deletes it with its logger.
\<close>

section \<open>Loggers\<close>

text \<open>The arguments of a call; \<open>lc_text\<close> is what the format gives for its arguments.\<close>

record log_call =
  lc_level :: int
  lc_filename :: bytes
  lc_line :: int
  lc_function :: bytes
  lc_text :: bytes

type_synonym log_formatter = "nat \<Rightarrow> log_call \<Rightarrow> bytes \<times> nat"

record logger =
  lg_formatter :: "log_formatter option"
  lg_level_filter :: int
  lg_max_log_size :: int
  lg_sinks :: "nat list"
  lg_sink_formatters :: "log_formatter option list"
  lg_sink_level_filters :: "int list"

definition Logger :: "log_formatter option \<Rightarrow> int \<Rightarrow> int \<Rightarrow> logger" where
  "Logger formatter level_filter max_log_size =
     \<lparr>lg_formatter = formatter, lg_level_filter = level_filter, lg_max_log_size = max_log_size,
      lg_sinks = [], lg_sink_formatters = [], lg_sink_level_filters = []\<rparr>"

definition lg_addSink :: "nat \<Rightarrow> log_formatter option \<Rightarrow> int \<Rightarrow> logger \<Rightarrow> bool \<times> logger" where
  "lg_addSink sink formatter level_filter g =
     (True, g\<lparr>lg_sinks := lg_sinks g @ [sink], lg_sink_formatters := lg_sink_formatters g @ [formatter],
              lg_sink_level_filters := lg_sink_level_filters g @ [level_filter]\<rparr>)"

text \<open>\<open>vsnprintf\<close>: at most \<open>sz - 1\<close> bytes and a NUL are stored, the full length is returned.\<close>

definition vsnprintf :: log_formatter where
  "vsnprintf sz c = (if sz = 0 then [] else take (sz - 1) (lc_text c) @ [0], length (lc_text c))"

text \<open>The lazy formatting: the bytes that every further sink is given. \<open>fresh\<close> is what the new buffer
  holds before.\<close>

definition lg_format :: "log_formatter \<Rightarrow> bytes \<Rightarrow> logger \<Rightarrow> log_call \<Rightarrow> bytes" where
  "lg_format f fresh g c =
     (let sz = nat (lg_max_log_size g);
          (stored, cnt) = f sz c;
          buffer = stored @ drop (length stored) fresh
      in take (min cnt sz) buffer)"

definition chosen_formatter :: "logger \<Rightarrow> nat \<Rightarrow> log_formatter" where
  "chosen_formatter g i =
     (case lg_sink_formatters g ! i of
        Some f \<Rightarrow> f
      | None \<Rightarrow> (case lg_formatter g of Some f \<Rightarrow> f | None \<Rightarrow> vsnprintf))"

text \<open>The loop over the sinks, with the formatter each pass would use; \<open>ready\<close> are the bytes once
  they have been formatted.\<close>

fun lg_loop ::
    "(nat \<Rightarrow> log_formatter) \<Rightarrow> bytes \<Rightarrow> logger \<Rightarrow> log_call \<Rightarrow> nat list \<Rightarrow> bytes option \<Rightarrow> (nat \<times> bytes) list" where
  "lg_loop fmt fresh g c [] ready = []"
| "lg_loop fmt fresh g c (i # is) ready =
     (if lc_level c < lg_sink_level_filters g ! i then lg_loop fmt fresh g c is ready
      else let out = (case ready of Some b \<Rightarrow> b | None \<Rightarrow> lg_format (fmt i) fresh g c)
           in (lg_sinks g ! i, out) # lg_loop fmt fresh g c is (Some out))"

definition lg_log :: "bytes \<Rightarrow> log_call \<Rightarrow> logger \<Rightarrow> (nat \<times> bytes) list" where
  "lg_log fresh c g =
     (if lc_level c < lg_level_filter g then []
      else lg_loop (chosen_formatter g) fresh g c [0..<length (lg_sinks g)] None)"

definition lg_plainLog :: "bytes \<Rightarrow> log_call \<Rightarrow> logger \<Rightarrow> (nat \<times> bytes) list" where
  "lg_plainLog fresh c g =
     (if lc_level c < lg_level_filter g then []
      else lg_loop (\<lambda>i. vsnprintf) fresh g c [0..<length (lg_sinks g)] None)"

definition lg_setLevelFilter :: "int \<Rightarrow> logger \<Rightarrow> logger" where
  "lg_setLevelFilter level_filter g = g\<lparr>lg_level_filter := level_filter\<rparr>"

section \<open>The core\<close>

text \<open>The members of the class, the sinks deleted so far and what the sinks were given.\<close>

record log_core =
  lc_loggers :: "logger option list"
  lc_max_log_size :: int
  lc_deleted :: "nat list"
  lc_output :: "(nat \<times> bytes) list"

definition delete_logger :: "logger option \<Rightarrow> log_core \<Rightarrow> log_core" where
  "delete_logger g s =
     (case g of None \<Rightarrow> s | Some g \<Rightarrow> s\<lparr>lc_deleted := lc_deleted s @ lg_sinks g\<rparr>)"

definition destroy_LogCore :: "log_core \<Rightarrow> log_core" where
  "destroy_LogCore s = fold delete_logger (lc_loggers s) s"

definition setMaxLoggerCount :: "int \<Rightarrow> log_core \<Rightarrow> log_core" where
  "setMaxLoggerCount cnt s =
     (if cnt < 0 then s
      else let n = nat cnt;
               s1 = (if cnt < int (length (lc_loggers s))
                     then fold delete_logger (drop n (lc_loggers s)) s else s)
           in s1\<lparr>lc_loggers := take n (lc_loggers s1) @ replicate (n - length (lc_loggers s1)) None\<rparr>)"

definition setMaxLogSize :: "int \<Rightarrow> log_core \<Rightarrow> log_core" where
  "setMaxLogSize sz s = (if sz \<le> 0 then s else s\<lparr>lc_max_log_size := sz\<rparr>)"

text \<open>The check at the beginning of the other functions: the logger of an id.\<close>

definition logger_of :: "int \<Rightarrow> log_core \<Rightarrow> logger option" where
  "logger_of logger_id s =
     (if logger_id < 0 \<or> logger_id \<ge> int (length (lc_loggers s)) then None
      else lc_loggers s ! nat logger_id)"

definition registerLogger :: "int \<Rightarrow> log_formatter option \<Rightarrow> int \<Rightarrow> log_core \<Rightarrow> bool \<times> log_core" where
  "registerLogger logger_id formatter level_filter s =
     (if logger_id < 0 \<or> logger_id \<ge> int (length (lc_loggers s)) then (False, s)
      else if lc_loggers s ! nat logger_id \<noteq> None then (False, s)
      else (True, s\<lparr>lc_loggers := (lc_loggers s)[nat logger_id :=
                     Some (Logger formatter level_filter (lc_max_log_size s))]\<rparr>))"

definition removeLogger :: "int \<Rightarrow> log_core \<Rightarrow> log_core" where
  "removeLogger logger_id s =
     (case logger_of logger_id s of
        None \<Rightarrow> s
      | Some g \<Rightarrow> let s1 = delete_logger (Some g) s
                  in s1\<lparr>lc_loggers := (lc_loggers s1)[nat logger_id := None]\<rparr>)"

definition lc_addSink :: "int \<Rightarrow> nat \<Rightarrow> log_formatter option \<Rightarrow> int \<Rightarrow> log_core \<Rightarrow> bool \<times> log_core" where
  "lc_addSink logger_id sink formatter level_filter s =
     (case logger_of logger_id s of
        None \<Rightarrow> (False, s)
      | Some g \<Rightarrow> let (ok, g1) = lg_addSink sink formatter level_filter g
                  in (ok, s\<lparr>lc_loggers := (lc_loggers s)[nat logger_id := Some g1]\<rparr>))"

definition lc_log :: "bytes \<Rightarrow> int \<Rightarrow> log_call \<Rightarrow> log_core \<Rightarrow> log_core" where
  "lc_log fresh logger_id c s =
     (case logger_of logger_id s of
        None \<Rightarrow> s
      | Some g \<Rightarrow> s\<lparr>lc_output := lc_output s @ lg_log fresh c g\<rparr>)"

definition lc_plainLog :: "bytes \<Rightarrow> int \<Rightarrow> log_call \<Rightarrow> log_core \<Rightarrow> log_core" where
  "lc_plainLog fresh logger_id c s =
     (case logger_of logger_id s of
        None \<Rightarrow> s
      | Some g \<Rightarrow> s\<lparr>lc_output := lc_output s @ lg_plainLog fresh c g\<rparr>)"

definition lc_setLevelFilter :: "int \<Rightarrow> int \<Rightarrow> log_core \<Rightarrow> log_core" where
  "lc_setLevelFilter logger_id level_filter s =
     (case logger_of logger_id s of
        None \<Rightarrow> s
      | Some g \<Rightarrow> s\<lparr>lc_loggers := (lc_loggers s)[nat logger_id := Some (lg_setLevelFilter level_filter g)]\<rparr>)"

text \<open>The constructor, with the default sizes of the header.\<close>

definition LogCore :: log_core where
  "LogCore = setMaxLogSize 4096 (setMaxLoggerCount 1
     \<lparr>lc_loggers = [], lc_max_log_size = 0, lc_deleted = [], lc_output = []\<rparr>)"

section \<open>What the sinks are given\<close>

text \<open>Every sink whose level admits the call is given it once, in the order in which the sinks were
  added; all are given the same bytes.\<close>

definition admits :: "logger \<Rightarrow> log_call \<Rightarrow> nat \<Rightarrow> bool" where
  "admits g c i \<longleftrightarrow> \<not> lc_level c < lg_sink_level_filters g ! i"

lemma lg_loop_ready: "lg_loop fmt fresh g c is (Some b) = map (\<lambda>i. (lg_sinks g ! i, b)) (filter (admits g c) is)"
  by (induction "is") (simp_all add: admits_def)

lemma lg_loop_first:
  "lg_loop fmt fresh g c is None =
     (case filter (admits g c) is of
        [] \<Rightarrow> []
      | i # js \<Rightarrow> map (\<lambda>j. (lg_sinks g ! j, lg_format (fmt i) fresh g c)) (i # js))"
  by (induction "is") (simp_all add: admits_def [abs_def] lg_loop_ready Let_def)

text \<open>The bytes are those of the formatter of the first sink that admits the call, also for the sinks
  with a formatter of their own.\<close>

lemma log_uses_first_formatter:
  assumes "filter (admits g c) [0..<length (lg_sinks g)] = i # js" and "\<not> lc_level c < lg_level_filter g"
  shows "lg_log fresh c g = map (\<lambda>j. (lg_sinks g ! j, lg_format (chosen_formatter g i) fresh g c)) (i # js)"
  using assms by (simp add: lg_log_def lg_loop_first)

text \<open>A text as long as the buffer or longer ends, for the sinks, in the NUL that \<open>vsnprintf\<close> stores.\<close>

lemma long_text_ends_in_NUL:
  assumes "nat (lg_max_log_size g) \<le> length (lc_text c)" and "0 < lg_max_log_size g"
  shows "lg_format vsnprintf fresh g c = take (nat (lg_max_log_size g) - 1) (lc_text c) @ [0]"
  using assms by (auto simp: lg_format_def vsnprintf_def Let_def min_def)

lemma short_text_is_whole:
  assumes "length (lc_text c) < nat (lg_max_log_size g)"
  shows "lg_format vsnprintf fresh g c = lc_text c"
  using assms by (auto simp: lg_format_def vsnprintf_def Let_def min_def)

section \<open>Ownership of the sinks\<close>

definition sinks_of :: "logger option list \<Rightarrow> nat list" where
  "sinks_of gs = concat (map (\<lambda>g. case g of None \<Rightarrow> [] | Some g \<Rightarrow> lg_sinks g) gs)"

text \<open>Every sink the core was given, deleted or not.\<close>

definition all_sinks :: "log_core \<Rightarrow> nat multiset" where
  "all_sinks s = mset (lc_deleted s @ sinks_of (lc_loggers s))"

lemma delete_loggers:
  "lc_deleted (fold delete_logger gs s) = lc_deleted s @ sinks_of gs"
  "lc_loggers (fold delete_logger gs s) = lc_loggers s"
  by (induction gs arbitrary: s) (simp_all add: delete_logger_def sinks_of_def split: option.split)

lemma sinks_of_simps [simp]:
  "sinks_of [] = []" "sinks_of (xs @ ys) = sinks_of xs @ sinks_of ys" "sinks_of (replicate n None) = []"
  by (simp_all add: sinks_of_def)

lemma mset_concat_update:
  "i < length xs \<Longrightarrow> mset (concat (map f (xs[i := x]))) + mset (f (xs ! i)) = mset (concat (map f xs)) + mset (f x)"
proof (induction xs arbitrary: i)
  case (Cons y ys)
  then show ?case by (cases i) (simp_all add: ac_simps)
qed simp

lemma sinks_of_update:
  "i < length gs \<Longrightarrow> mset (sinks_of (gs[i := g])) + mset (sinks_of [gs ! i]) = mset (sinks_of gs) + mset (sinks_of [g])"
  using mset_concat_update [of i gs _ g] by (simp add: sinks_of_def)

lemma setMaxLoggerCount_sinks: "all_sinks (setMaxLoggerCount n s) = all_sinks s"
proof -
  define m where "m = nat n"
  have "sinks_of (take m (lc_loggers s)) @ sinks_of (drop m (lc_loggers s)) = sinks_of (lc_loggers s)"
    by (simp flip: sinks_of_simps(2))
  then have split: "mset (sinks_of (take m (lc_loggers s))) + mset (sinks_of (drop m (lc_loggers s))) =
      mset (sinks_of (lc_loggers s))"
    by (metis mset_append)
  consider "n < 0" | "0 \<le> n" "n < int (length (lc_loggers s))" | "0 \<le> n" "int (length (lc_loggers s)) \<le> n"
    by linarith
  then show ?thesis
  proof cases
    case 2
    then show ?thesis
      using split
      by (simp add: all_sinks_def setMaxLoggerCount_def Let_def delete_loggers m_def [symmetric] ac_simps)
  qed (simp_all add: all_sinks_def setMaxLoggerCount_def Let_def)
qed

lemma logger_of_Some:
  "logger_of i s = Some g \<Longrightarrow> nat i < length (lc_loggers s) \<and> lc_loggers s ! nat i = Some g"
  by (auto simp: logger_of_def split: if_splits)

lemma registerLogger_sinks: "all_sinks (snd (registerLogger i f lv s)) = all_sinks s"
  using sinks_of_update [of "nat i" "lc_loggers s" "Some (Logger f lv (lc_max_log_size s))"]
  by (auto simp: all_sinks_def registerLogger_def sinks_of_def Logger_def)

lemma removeLogger_sinks: "all_sinks (removeLogger i s) = all_sinks s"
proof (cases "logger_of i s")
  case (Some g)
  note here = logger_of_Some [OF Some]
  have "mset (sinks_of ((lc_loggers s)[nat i := None])) + mset (lg_sinks g) = mset (sinks_of (lc_loggers s))"
    using sinks_of_update [of "nat i" "lc_loggers s" None] here by (simp add: sinks_of_def)
  then show ?thesis
    by (simp add: removeLogger_def Some delete_logger_def all_sinks_def add.commute add.left_commute)
qed (simp add: removeLogger_def)

lemma lc_addSink_sinks:
  assumes "lc_addSink i sink f lv s = (ok, s')"
  shows "all_sinks s' = all_sinks s + (if ok then {#sink#} else {#})"
proof (cases "logger_of i s")
  case (Some g)
  note here = logger_of_Some [OF Some]
  define g1 where "g1 = snd (lg_addSink sink f lv g)"
  have "mset (sinks_of ((lc_loggers s)[nat i := Some g1])) + mset (lg_sinks g) =
      mset (sinks_of (lc_loggers s)) + mset (lg_sinks g1)"
    using sinks_of_update [of "nat i" "lc_loggers s" "Some g1"] here by (simp add: sinks_of_def)
  moreover have "lg_sinks g1 = lg_sinks g @ [sink]" by (simp add: g1_def lg_addSink_def)
  ultimately have "mset (sinks_of ((lc_loggers s)[nat i := Some g1])) = mset (sinks_of (lc_loggers s)) + {#sink#}"
    by simp
  moreover have "ok \<and> s' = s\<lparr>lc_loggers := (lc_loggers s)[nat i := Some g1]\<rparr>"
    using assms by (auto simp: lc_addSink_def Some lg_addSink_def g1_def)
  ultimately show ?thesis by (simp add: all_sinks_def)
qed (use assms in \<open>simp add: lc_addSink_def\<close>)

lemma destroy_deletes_all: "mset (lc_deleted (destroy_LogCore s)) = all_sinks s"
  by (simp add: destroy_LogCore_def delete_loggers all_sinks_def)

end
