(* ===== verification/LogAsyncSink.thy ===== *)
theory LogAsyncSink
  imports QueueContract DynamicBuffer LogCore "HOL-Library.Sublist"
begin

text \<open>
  \<^verbatim>\<open>src/src/brickred/log_async_sink.{h,cc}\<close> and \<^verbatim>\<open>src/src/brickred/object_pool.h\<close>: threads that log put
  their text into a \<open>DynamicBuffer\<close> of a pool and push its address into a \<open>ConcurrentQueue\<close>; the
  log thread pops it, gives the bytes to the adapted sink and returns the buffer to the pool; a NULL
  in the queue, pushed by the destructor, ends the log thread. A member function is the list of its
  instructions and threads execute them one at a time in any order. The queue is used through its
  contract (\<open>QueueContract\<close>), the mutex of the pool by its POSIX behaviour, the buffers by the
  operations of \<open>DynamicBuffer\<close>.
\<close>

section \<open>The pool of objects\<close>

text \<open>The objects made so far, at their addresses, and the list \<open>reused_object_list_\<close>.\<close>

record 'a object_pool =
  op_objects :: "'a list"
  op_reused :: "nat list"

definition ObjectPool :: "'a object_pool" where
  "ObjectPool = \<lparr>op_objects = [], op_reused = []\<rparr>"

text \<open>\<open>fresh\<close> is what the default constructor of the class makes.\<close>

definition getObject :: "'a \<Rightarrow> 'a object_pool \<Rightarrow> nat \<times> 'a object_pool" where
  "getObject fresh p =
     (if op_reused p \<noteq> [] then (last (op_reused p), p\<lparr>op_reused := butlast (op_reused p)\<rparr>)
      else (length (op_objects p), p\<lparr>op_objects := op_objects p @ [fresh]\<rparr>))"

definition returnObject :: "nat \<Rightarrow> 'a object_pool \<Rightarrow> 'a object_pool" where
  "returnObject obj p = p\<lparr>op_reused := op_reused p @ [obj]\<rparr>"

definition op_update :: "nat \<Rightarrow> ('a \<Rightarrow> 'a) \<Rightarrow> 'a object_pool \<Rightarrow> 'a object_pool" where
  "op_update obj f p = p\<lparr>op_objects := (op_objects p)[obj := f (op_objects p ! obj)]\<rparr>"

section \<open>Member functions\<close>

text \<open>\<open>FillBuffer\<close> is reserve, copy and write; \<open>QueuePush\<close> is \<open>queue_.push(queue_buffer.get())\<close> and the
  release of the buffer; \<open>QueuePop\<close> fills \<open>queue_buffer_raw\<close>; the last two are what the destructor of
  the class does after its body, with the members in the order opposite to their declaration.\<close>

datatype as_instr =
  PoolLock | PoolUnlock | GetObject | FillBuffer | QueuePush
| QueuePop | BreakIfNull | AdaptedLog | ReadAll | ReturnObject | LoopEnd
| PushNull | Join | DeleteAdapted | DeletePool | CleanQueue

definition as_log :: "as_instr list" where
  "as_log = [PoolLock, GetObject, PoolUnlock, FillBuffer, QueuePush]"

definition logThreadFunc :: "as_instr list" where
  "logThreadFunc =
     [QueuePop, BreakIfNull, AdaptedLog, ReadAll, PoolLock, ReturnObject, PoolUnlock, LoopEnd]"

definition as_destructor :: "as_instr list" where
  "as_destructor = [PushNull, Join, DeleteAdapted, DeletePool, CleanQueue]"

section \<open>State and steps\<close>

text \<open>A thread: what is left of the function it is in, the buffer it owns, the text to be logged.\<close>

record as_thread =
  th_code :: "as_instr list"
  th_buffer :: "nat option"
  th_text :: bytes

text \<open>Thread 0 is the log thread. \<open>as_closer\<close> is the thread that runs the destructor. \<open>as_logged\<close>
  records the texts in the order in which they were pushed, \<open>as_written\<close> what the adapted sink was
  given, \<open>as_deleted\<close> the buffers deleted.\<close>

record async_sink =
  as_queue :: "nat option list"
  as_queue_size :: nat
  as_pool :: "dynamic_buffer object_pool"
  as_pool_mutex :: "nat option"
  as_threads :: "as_thread list"
  as_closer :: "nat option"
  as_logged :: "bytes list"
  as_written :: "bytes list"
  as_deleted :: "nat list"
  as_sink_deleted :: bool

text \<open>The constructor, which starts the log thread, for \<open>n\<close> threads that will log.\<close>

definition LogAsyncSink :: "nat \<Rightarrow> nat \<Rightarrow> async_sink" where
  "LogAsyncSink queue_size n =
     \<lparr>as_queue = [], as_queue_size = queue_size, as_pool = ObjectPool, as_pool_mutex = None,
      as_threads = \<lparr>th_code = logThreadFunc, th_buffer = None, th_text = []\<rparr> #
        replicate n \<lparr>th_code = [], th_buffer = None, th_text = []\<rparr>,
      as_closer = None, as_logged = [], as_written = [], as_deleted = [], as_sink_deleted = False\<rparr>"

text \<open>A thread goes on with \<open>code\<close> and owns \<open>b\<close>.\<close>

definition go :: "nat \<Rightarrow> as_instr list \<Rightarrow> nat option \<Rightarrow> async_sink \<Rightarrow> async_sink" where
  "go t code b s =
     s\<lparr>as_threads := (as_threads s)[t := (as_threads s ! t)\<lparr>th_code := code, th_buffer := b\<rparr>]\<rparr>"

definition push_item :: "nat option \<Rightarrow> async_sink \<Rightarrow> (nat option seen list \<times> async_sink) option" where
  "push_item x s =
     (case spec_step (as_queue_size s) (Enq x) (as_queue s) of
        None \<Rightarrow> None
      | Some xs \<Rightarrow> Some ([Enq x], s\<lparr>as_queue := xs\<rparr>))"

definition buffer_of :: "nat \<Rightarrow> async_sink \<Rightarrow> dynamic_buffer" where
  "buffer_of a s = op_objects (as_pool s) ! a"

definition on_buffer :: "nat \<Rightarrow> (dynamic_buffer \<Rightarrow> dynamic_buffer) \<Rightarrow> async_sink \<Rightarrow> async_sink" where
  "on_buffer a f s = s\<lparr>as_pool := op_update a f (as_pool s)\<rparr>"

text \<open>The elements of the queue that are not NULL.\<close>

definition ptrs :: "nat option list \<Rightarrow> nat list" where
  "ptrs xs = concat (map (\<lambda>x. case x of None \<Rightarrow> [] | Some a \<Rightarrow> [a]) xs)"

text \<open>Thread \<open>t\<close>, with buffer \<open>b\<close>, executes an instruction; None: it has to wait, or uses a buffer
  that it does not have.\<close>

fun as_exec ::
    "nat \<Rightarrow> nat option \<Rightarrow> as_instr \<Rightarrow> as_instr list \<Rightarrow> async_sink \<Rightarrow> (nat option seen list \<times> async_sink) option" where
  "as_exec t b PoolLock rest s =
     (if as_pool_mutex s = None then Some ([], go t rest b (s\<lparr>as_pool_mutex := Some t\<rparr>)) else None)"
| "as_exec t b PoolUnlock rest s = Some ([], go t rest b (s\<lparr>as_pool_mutex := None\<rparr>))"
| "as_exec t b GetObject rest s =
     (let (a, p) = getObject (DynamicBuffer 1024 1024) (as_pool s)
      in Some ([], go t rest (Some a) (s\<lparr>as_pool := p\<rparr>)))"
| "as_exec t (Some a) FillBuffer rest s =
     Some ([], go t rest (Some a) (on_buffer a (\<lambda>d. db_append d (th_text (as_threads s ! t))) s))"
| "as_exec t (Some a) QueuePush rest s =
     (case push_item (Some a) s of
        None \<Rightarrow> None
      | Some (seen, s1) \<Rightarrow>
          Some (seen, go t rest None (s1\<lparr>as_logged := as_logged s @ [th_text (as_threads s ! t)]\<rparr>)))"
| "as_exec t b QueuePop rest s =
     (case as_queue s of
        [] \<Rightarrow> None
      | x # xs \<Rightarrow> Some ([Deq x], go t rest x (s\<lparr>as_queue := xs\<rparr>)))"
| "as_exec t b BreakIfNull rest s = Some ([], go t (if b = None then [] else rest) b s)"
| "as_exec t (Some a) AdaptedLog rest s =
     Some ([], go t rest (Some a) (s\<lparr>as_written := as_written s @ [db_content (buffer_of a s)]\<rparr>))"
| "as_exec t (Some a) ReadAll rest s =
     Some ([], go t rest (Some a) (on_buffer a (\<lambda>d. db_read d (readableBytes d)) s))"
| "as_exec t (Some a) ReturnObject rest s =
     Some ([], go t rest None (s\<lparr>as_pool := returnObject a (as_pool s)\<rparr>))"
| "as_exec t b LoopEnd rest s = Some ([], go t logThreadFunc b s)"
| "as_exec t b PushNull rest s =
     (case push_item None s of None \<Rightarrow> None | Some (seen, s1) \<Rightarrow> Some (seen, go t rest b s1))"
| "as_exec t b Join rest s =
     (if th_code (as_threads s ! 0) = [] then Some ([], go t rest b s) else None)"
| "as_exec t b DeleteAdapted rest s = Some ([], go t rest b (s\<lparr>as_sink_deleted := True\<rparr>))"
| "as_exec t b DeletePool rest s =
     Some ([], go t rest b (s\<lparr>as_deleted := as_deleted s @ op_reused (as_pool s),
                              as_pool := (as_pool s)\<lparr>op_reused := []\<rparr>\<rparr>))"
| "as_exec t b CleanQueue rest s =
     Some ([], go t rest b (s\<lparr>as_deleted := as_deleted s @ ptrs (as_queue s)\<rparr>))"
| "as_exec t None _ rest s = None"

text \<open>The events: a thread calls \<open>log\<close>, a thread destroys the object, which must not be in use by
  another thread, a thread takes a step.\<close>

datatype as_event = ALog nat bytes | ADestroy nat | ARun nat

definition as_idle :: "nat \<Rightarrow> async_sink \<Rightarrow> bool" where
  "as_idle t s \<longleftrightarrow> 0 < t \<and> t < length (as_threads s) \<and> th_code (as_threads s ! t) = []"

fun as_step :: "as_event \<Rightarrow> async_sink \<Rightarrow> (nat option seen list \<times> async_sink) option" where
  "as_step (ALog t text) s =
     (if as_idle t s \<and> as_closer s = None
      then Some ([], s\<lparr>as_threads := (as_threads s)[t := \<lparr>th_code = as_log, th_buffer = None, th_text = text\<rparr>]\<rparr>)
      else None)"
| "as_step (ADestroy t) s =
     (if as_idle t s \<and> as_closer s = None \<and> list_all (\<lambda>th. th_code th = []) (tl (as_threads s))
      then Some ([], (go t as_destructor None s)\<lparr>as_closer := Some t\<rparr>) else None)"
| "as_step (ARun t) s =
     (if t < length (as_threads s) then
        case th_code (as_threads s ! t) of
          [] \<Rightarrow> None
        | i # rest \<Rightarrow> as_exec t (th_buffer (as_threads s ! t)) i rest s
      else None)"

fun as_run :: "as_event list \<Rightarrow> async_sink \<Rightarrow> (nat option seen list \<times> async_sink) option" where
  "as_run [] s = Some ([], s)"
| "as_run (e # es) s =
     (case as_step e s of
        None \<Rightarrow> None
      | Some (seen1, s1) \<Rightarrow>
          (case as_run es s1 of None \<Rightarrow> None | Some (seen2, s2) \<Rightarrow> Some (seen1 @ seen2, s2)))"

definition as_quiescent :: "async_sink \<Rightarrow> bool" where
  "as_quiescent s \<longleftrightarrow> (\<forall>t. as_step (ARun t) s = None)"

end
