(* ===== verification/LogAsyncSafety.thy ===== *)
theory LogAsyncSafety
  imports LogAsyncSink
begin

text \<open>
  The invariant of \<open>LogAsyncSink\<close>, kept by every call and every instruction of every thread: each
  buffer has one owner, the buffers of the pool are empty, the mutex is held exactly inside the
  critical sections, every text pushed has been written or is on its way in order, and the NULL of the
  destructor is the last element of the queue. The interpretation of \<open>queue_user\<close> is here.
\<close>

section \<open>The invariant\<close>

definition content :: "async_sink \<Rightarrow> nat \<Rightarrow> bytes" where
  "content s a = db_content (buffer_of a s)"

text \<open>Every buffer has one owner: a thread, the pool, the queue, or it has been deleted.\<close>

definition held :: "as_thread \<Rightarrow> nat list" where
  "held th = (case th_buffer th of None \<Rightarrow> [] | Some a \<Rightarrow> [a])"

definition all_owned :: "async_sink \<Rightarrow> nat list" where
  "all_owned s = concat (map held (as_threads s)) @ op_reused (as_pool s) @ ptrs (as_queue s) @ as_deleted s"

definition own_inv :: "async_sink \<Rightarrow> bool" where
  "own_inv s \<longleftrightarrow> mset (all_owned s) = mset [0..<length (op_objects (as_pool s))]"

definition pool_inv :: "async_sink \<Rightarrow> bool" where
  "pool_inv s \<longleftrightarrow> (\<forall>d \<in> set (op_objects (as_pool s)). db_inv d) \<and> (\<forall>a \<in> set (op_reused (as_pool s)). content s a = [])"

fun in_lock :: "as_instr list \<Rightarrow> bool" where
  "in_lock (i # rest) = (i = GetObject \<or> i = ReturnObject \<or> i = PoolUnlock)"
| "in_lock [] = False"

definition mutex_inv :: "async_sink \<Rightarrow> bool" where
  "mutex_inv s \<longleftrightarrow> (\<forall>u < length (as_threads s). in_lock (th_code (as_threads s ! u)) = (as_pool_mutex s = Some u)) \<and>
     (\<forall>u. as_pool_mutex s = Some u \<longrightarrow> u < length (as_threads s))"

text \<open>What the log thread and a thread that logs hold at each instruction, \<open>c\<close> being the contents of
  the buffers.\<close>

definition worker_ok :: "(nat \<Rightarrow> bytes) \<Rightarrow> as_thread \<Rightarrow> bool" where
  "worker_ok c th \<longleftrightarrow>
     (case th_buffer th of
        None \<Rightarrow> th_code th \<in> {[], logThreadFunc, drop 1 logThreadFunc, [PoolUnlock, LoopEnd], [LoopEnd]}
      | Some a \<Rightarrow> th_code th \<in> {drop 1 logThreadFunc, drop 2 logThreadFunc, drop 3 logThreadFunc} \<or>
                 th_code th \<in> {drop 4 logThreadFunc, drop 5 logThreadFunc} \<and> c a = [])"

definition caller_ok :: "(nat \<Rightarrow> bytes) \<Rightarrow> as_thread \<Rightarrow> bool" where
  "caller_ok c th \<longleftrightarrow> length (th_text th) < db_limit \<and>
     (case th_buffer th of
        None \<Rightarrow> th_code th \<in> {[], as_log, drop 1 as_log}
      | Some a \<Rightarrow> th_code th \<in> {drop 2 as_log, drop 3 as_log} \<and> c a = [] \<or>
                 th_code th = [QueuePush] \<and> c a = th_text th)"

definition threads_inv :: "async_sink \<Rightarrow> bool" where
  "threads_inv s \<longleftrightarrow> as_threads s \<noteq> [] \<and> worker_ok (content s) (as_threads s ! 0) \<and>
     (\<forall>u < length (as_threads s). 0 < u \<longrightarrow> as_closer s \<noteq> Some u \<longrightarrow> caller_ok (content s) (as_threads s ! u))"

text \<open>Every text pushed has been written, is in the hands of the log thread or is in the queue.\<close>

definition in_hand :: "as_thread \<Rightarrow> nat list" where
  "in_hand th = (if th_code th \<in> {drop 1 logThreadFunc, drop 2 logThreadFunc} then held th else [])"

definition log_inv :: "async_sink \<Rightarrow> bool" where
  "log_inv s \<longleftrightarrow>
     as_logged s = as_written s @ map (content s) (in_hand (as_threads s ! 0) @ ptrs (as_queue s))"

text \<open>The log thread has not seen the NULL; how far the destructor is.\<close>

definition log_live :: "as_thread \<Rightarrow> bool" where
  "log_live th \<longleftrightarrow> th_code th \<noteq> [] \<and> (th_code th = drop 1 logThreadFunc \<longrightarrow> th_buffer th \<noteq> None)"

definition phase :: "nat \<Rightarrow> async_sink \<Rightarrow> bool" where
  "phase k s \<longleftrightarrow>
     (if k = 0 then None \<notin> set (as_queue s) \<and> log_live (as_threads s ! 0)
      else if k = 1 then
        (if log_live (as_threads s ! 0) then \<exists>xs. as_queue s = map Some xs @ [None] else as_queue s = [])
      else as_queue s = [] \<and> th_code (as_threads s ! 0) = []) \<and>
     as_sink_deleted s = (3 \<le> k) \<and> (4 \<le> k \<longrightarrow> op_reused (as_pool s) = [])"

definition close_inv :: "async_sink \<Rightarrow> bool" where
  "close_inv s \<longleftrightarrow>
     (case as_closer s of
        None \<Rightarrow> phase 0 s
      | Some d \<Rightarrow> 0 < d \<and> d < length (as_threads s) \<and> th_buffer (as_threads s ! d) = None \<and>
          (\<exists>k \<le> 5. th_code (as_threads s ! d) = drop k as_destructor \<and> phase k s) \<and>
          (\<forall>u < length (as_threads s). 0 < u \<longrightarrow> u \<noteq> d \<longrightarrow> th_code (as_threads s ! u) = []))"

definition as_inv :: "async_sink \<Rightarrow> bool" where
  "as_inv s \<longleftrightarrow> own_inv s \<and> pool_inv s \<and> mutex_inv s \<and> threads_inv s \<and> log_inv s \<and> close_inv s"

lemmas code_defs = as_log_def logThreadFunc_def as_destructor_def

lemma ptrs_simps [simp]:
  "ptrs [] = []" "ptrs (None # xs) = ptrs xs" "ptrs (Some a # xs) = a # ptrs xs" "ptrs (xs @ ys) = ptrs xs @ ptrs ys"
  "ptrs (map Some as) = as"
  by (induction as) (simp_all add: ptrs_def)

lemma length_ptrs: "length (ptrs xs) \<le> length xs"
proof (induction xs)
  case (Cons x xs)
  then show ?case by (cases x) simp_all
qed simp

lemma map_Some_ptrs: "None \<notin> set xs \<Longrightarrow> map Some (ptrs xs) = xs"
proof (induction xs)
  case (Cons x xs)
  then show ?case by (cases x) simp_all
qed simp

lemma go_sel [simp]:
  "as_queue (go t code b s) = as_queue s" "as_queue_size (go t code b s) = as_queue_size s"
  "as_pool (go t code b s) = as_pool s" "as_pool_mutex (go t code b s) = as_pool_mutex s"
  "as_closer (go t code b s) = as_closer s" "as_logged (go t code b s) = as_logged s"
  "as_written (go t code b s) = as_written s" "as_deleted (go t code b s) = as_deleted s"
  "as_sink_deleted (go t code b s) = as_sink_deleted s"
  "as_threads (go t code b s) = (as_threads s)[t := (as_threads s ! t)\<lparr>th_code := code, th_buffer := b\<rparr>]"
  by (simp_all add: go_def)

lemma content_pool: "as_pool s' = as_pool s \<Longrightarrow> content s' = content s"
  by (simp add: content_def buffer_of_def fun_eq_iff)

lemma content_same [simp]:
  "content (go t code b s) = content s" "content (s\<lparr>as_pool_mutex := m\<rparr>) = content s"
  "content (s\<lparr>as_queue := q\<rparr>) = content s" "content (s\<lparr>as_logged := l\<rparr>) = content s"
  "content (s\<lparr>as_written := l\<rparr>) = content s" "content (s\<lparr>as_sink_deleted := y\<rparr>) = content s"
  "content (s\<lparr>as_deleted := del\<rparr>) = content s"
  by (simp_all add: content_def buffer_of_def fun_eq_iff)

lemma content_on_buffer:
  "a < length (op_objects (as_pool s)) \<Longrightarrow>
     content (on_buffer a f s) x = (if x = a then db_content (f (buffer_of a s)) else content s x)"
  by (simp add: content_def buffer_of_def on_buffer_def op_update_def)

lemma on_buffer_sel [simp]:
  "as_queue (on_buffer a f s) = as_queue s" "as_queue_size (on_buffer a f s) = as_queue_size s"
  "as_pool_mutex (on_buffer a f s) = as_pool_mutex s" "as_threads (on_buffer a f s) = as_threads s"
  "as_closer (on_buffer a f s) = as_closer s" "as_logged (on_buffer a f s) = as_logged s"
  "as_written (on_buffer a f s) = as_written s" "as_deleted (on_buffer a f s) = as_deleted s"
  "as_sink_deleted (on_buffer a f s) = as_sink_deleted s"
  "op_reused (as_pool (on_buffer a f s)) = op_reused (as_pool s)"
  "length (op_objects (as_pool (on_buffer a f s))) = length (op_objects (as_pool s))"
  by (simp_all add: on_buffer_def op_update_def)

lemma buffer_inv: "pool_inv s \<Longrightarrow> a < length (op_objects (as_pool s)) \<Longrightarrow> db_inv (buffer_of a s)"
  by (simp add: pool_inv_def buffer_of_def)

lemma pool_inv_on_buffer:
  assumes "pool_inv s" and "a < length (op_objects (as_pool s))" and "a \<notin> set (op_reused (as_pool s))"
    and "db_inv (f (buffer_of a s))"
  shows "pool_inv (on_buffer a f s)"
proof -
  have "\<forall>d \<in> set (op_objects (as_pool (on_buffer a f s))). db_inv d"
    using assms(1,4) set_update_subset_insert [of "op_objects (as_pool s)" a]
    by (fastforce simp: pool_inv_def on_buffer_def op_update_def buffer_of_def)
  then show ?thesis
    using assms(1-3) by (auto simp: pool_inv_def content_on_buffer)
qed

text \<open>What ownership gives.\<close>

lemma own_distinct: "own_inv s \<Longrightarrow> distinct (all_owned s) \<and> set (all_owned s) = {..<length (op_objects (as_pool s))}"
  unfolding own_inv_def by (metis atLeast_upt distinct_upt mset_eq_imp_distinct_iff set_mset_mset)

lemma own_update:
  assumes "own_inv s" and "t < length (as_threads s)" and "as_threads s' = (as_threads s)[t := th]"
    and "mset (held th @ op_reused (as_pool s') @ ptrs (as_queue s') @ as_deleted s') +
        mset [0..<length (op_objects (as_pool s))] =
      mset (held (as_threads s ! t) @ op_reused (as_pool s) @ ptrs (as_queue s) @ as_deleted s) +
        mset [0..<length (op_objects (as_pool s'))]"
  shows "own_inv s'"
proof -
  have "mset (concat (map held (as_threads s'))) + mset (held (as_threads s ! t)) =
      mset (concat (map held (as_threads s))) + mset (held th)"
    unfolding assms(3) by (rule mset_concat_update [OF assms(2)])
  then have "(mset (concat (map held (as_threads s'))) + mset (held (as_threads s ! t))) +
        (mset (held th @ op_reused (as_pool s') @ ptrs (as_queue s') @ as_deleted s') +
          mset [0..<length (op_objects (as_pool s))]) =
      (mset (concat (map held (as_threads s))) + mset (held th)) +
        (mset (held (as_threads s ! t) @ op_reused (as_pool s) @ ptrs (as_queue s) @ as_deleted s) +
          mset [0..<length (op_objects (as_pool s'))])"
    using assms(4) by simp
  then have "mset (all_owned s') + (mset [0..<length (op_objects (as_pool s))] + mset (held (as_threads s ! t) @ held th)) =
      mset (all_owned s) + (mset [0..<length (op_objects (as_pool s'))] + mset (held (as_threads s ! t) @ held th))"
    unfolding all_owned_def mset_append by (simp only: ac_simps)
  then show ?thesis using assms(1) unfolding own_inv_def by (simp add: ac_simps)
qed

lemma held_in: "th \<in> set ths \<Longrightarrow> th_buffer th = Some a \<Longrightarrow> a \<in> set (concat (map held ths))"
  by (auto simp: held_def intro!: bexI [of _ th])

lemma held_owned:
  "u < length (as_threads s) \<Longrightarrow> th_buffer (as_threads s ! u) = Some a \<Longrightarrow> a \<in> set (all_owned s)"
  using held_in [OF nth_mem] by (simp add: all_owned_def)

lemma held_alone:
  assumes own: "own_inv s" and t: "t < length (as_threads s)" and a: "th_buffer (as_threads s ! t) = Some a"
  shows "a < length (op_objects (as_pool s))" "a \<notin> set (op_reused (as_pool s))" "a \<notin> set (ptrs (as_queue s))"
    "u < length (as_threads s) \<Longrightarrow> u \<noteq> t \<Longrightarrow> th_buffer (as_threads s ! u) \<noteq> Some a"
proof -
  note distinct = own_distinct [OF own]
  show "a < length (op_objects (as_pool s))" using distinct held_owned [OF t a] by auto
  have "a \<in> set (concat (map held (as_threads s)))"
    by (rule held_in [OF nth_mem [OF t] a])
  then show "a \<notin> set (op_reused (as_pool s))" "a \<notin> set (ptrs (as_queue s))"
    using distinct unfolding all_owned_def by auto
  show "th_buffer (as_threads s ! u) \<noteq> Some a" if u: "u < length (as_threads s)" "u \<noteq> t"
  proof
    assume ua: "th_buffer (as_threads s ! u) = Some a"
    define th where "th = (as_threads s ! t)\<lparr>th_buffer := None\<rparr>"
    have "mset (concat (map held ((as_threads s)[t := th]))) + {#a#} = mset (concat (map held (as_threads s)))"
      using mset_concat_update [OF t, of held th] a by (simp add: held_def th_def)
    moreover
    have "as_threads s ! u \<in> set ((as_threads s)[t := th])"
      using u by (metis length_list_update nth_list_update_neq nth_mem)
    then have "a \<in> set (concat (map held ((as_threads s)[t := th])))"
      by (rule held_in [OF _ ua])
    then have "0 < Multiset.count (mset (concat (map held ((as_threads s)[t := th])))) a"
      by (simp only: count_greater_zero_iff set_mset_mset)
    ultimately have "1 < Multiset.count (mset (concat (map held (as_threads s)))) a"
      by (metis add_less_cancel_right add_0 count_single count_union)
    moreover have "distinct (concat (map held (as_threads s)))" using distinct by (simp add: all_owned_def)
    ultimately show False
      by (simp only: distinct_count_atmost_1) (auto split: if_splits)
  qed
qed

lemma in_use: "own_inv s \<Longrightarrow> x \<in> set (op_reused (as_pool s)) \<or> x \<in> set (ptrs (as_queue s)) \<Longrightarrow> x \<in> set (all_owned s)"
  by (auto simp: all_owned_def)

section \<open>Steps of one thread\<close>

lemma worker_ok_content:
  "worker_ok c th \<Longrightarrow> (\<And>a. th_buffer th = Some a \<Longrightarrow> c' a = c a) \<Longrightarrow> worker_ok c' th"
  by (auto simp: worker_ok_def split: option.splits)

lemma caller_ok_content:
  "caller_ok c th \<Longrightarrow> (\<And>a. th_buffer th = Some a \<Longrightarrow> c' a = c a) \<Longrightarrow> caller_ok c' th"
  by (auto simp: caller_ok_def split: option.splits)

text \<open>A step of thread \<open>t\<close> that leaves the buffers of others alone and takes the mutex only if it is
  free.\<close>

lemma thread_step:
  assumes inv: "as_inv s" and t: "t < length (as_threads s)" and ths: "as_threads s' = (as_threads s)[t := th]"
    and own: "mset (held th @ op_reused (as_pool s') @ ptrs (as_queue s') @ as_deleted s') +
        mset [0..<length (op_objects (as_pool s))] =
      mset (held (as_threads s ! t) @ op_reused (as_pool s) @ ptrs (as_queue s) @ as_deleted s) +
        mset [0..<length (op_objects (as_pool s'))]"
    and same: "\<And>x. x \<in> set (all_owned s) \<Longrightarrow> th_buffer (as_threads s ! t) \<noteq> Some x \<Longrightarrow> content s' x = content s x"
    and pool: "pool_inv s'"
    and mx: "as_pool_mutex s' = as_pool_mutex s \<and> in_lock (th_code th) = in_lock (th_code (as_threads s ! t)) \<or>
      as_pool_mutex s = None \<and> as_pool_mutex s' = Some t \<and> in_lock (th_code th) \<or>
      in_lock (th_code (as_threads s ! t)) \<and> as_pool_mutex s' = None \<and> \<not> in_lock (th_code th)"
    and th: "if t = 0 then worker_ok (content s') th else as_closer s \<noteq> Some t \<longrightarrow> caller_ok (content s') th"
    and closer: "as_closer s' = as_closer s" and log: "log_inv s'" and close: "close_inv s'"
  shows "as_inv s'"
proof -
  note inv' = inv [unfolded as_inv_def]
  have alone: "th_buffer (as_threads s ! u) = Some x \<Longrightarrow> content s' x = content s x"
    if "u < length (as_threads s)" "u \<noteq> t" for u x
    using same held_owned [OF that(1)] held_alone(4) [OF _ t, of x u] that inv' by blast
  have "own_inv s'" by (rule own_update [OF _ t ths own]) (use inv' in blast)
  moreover have "mutex_inv s'"
    using inv' mx t by (auto simp: mutex_inv_def ths nth_list_update)
  moreover have "worker_ok (content s') (as_threads s' ! 0)"
  proof (cases "t = 0")
    case False
    then have "worker_ok (content s') (as_threads s ! 0)"
      using worker_ok_content [of "content s" "as_threads s ! 0" "content s'"] alone [of 0] inv' t
      by (simp add: threads_inv_def)
    then show ?thesis using False by (simp add: ths)
  qed (use th t in \<open>simp add: ths\<close>)
  moreover have "caller_ok (content s') (as_threads s' ! u)"
    if "u < length (as_threads s')" "0 < u" "as_closer s' \<noteq> Some u" for u
    using th t that inv' alone [of u] closer
    by (cases "u = t") (auto simp: ths threads_inv_def intro: caller_ok_content)
  ultimately show ?thesis
    using pool log close t inv' by (auto simp: as_inv_def threads_inv_def ths)
qed

lemma inv_parts:
  "as_inv s \<Longrightarrow> own_inv s" "as_inv s \<Longrightarrow> pool_inv s" "as_inv s \<Longrightarrow> mutex_inv s" "as_inv s \<Longrightarrow> threads_inv s"
  "as_inv s \<Longrightarrow> log_inv s" "as_inv s \<Longrightarrow> close_inv s"
  by (simp_all add: as_inv_def)

lemma pool_inv_same [simp]:
  "pool_inv (go t code b s) = pool_inv s" "pool_inv (s\<lparr>as_pool_mutex := m\<rparr>) = pool_inv s"
  "pool_inv (s\<lparr>as_queue := q\<rparr>) = pool_inv s" "pool_inv (s\<lparr>as_logged := l\<rparr>) = pool_inv s"
  "pool_inv (s\<lparr>as_written := l\<rparr>) = pool_inv s" "pool_inv (s\<lparr>as_sink_deleted := y\<rparr>) = pool_inv s"
  by (simp_all add: pool_inv_def)

text \<open>A step of a thread that logs, while nobody destroys the object.\<close>

lemma caller_step:
  assumes inv: "as_inv s" and t: "t < length (as_threads s)" "0 < t" and opened: "as_closer s = None" "as_closer s' = None"
    and ths: "as_threads s' = (as_threads s)[t := th]"
    and own: "mset (held th @ op_reused (as_pool s') @ ptrs (as_queue s')) +
        mset [0..<length (op_objects (as_pool s))] =
      mset (held (as_threads s ! t) @ op_reused (as_pool s) @ ptrs (as_queue s)) +
        mset [0..<length (op_objects (as_pool s'))]"
    and same: "\<And>x. x \<in> set (all_owned s) \<Longrightarrow> th_buffer (as_threads s ! t) \<noteq> Some x \<Longrightarrow> content s' x = content s x"
    and pool: "pool_inv s'"
    and mx: "as_pool_mutex s' = as_pool_mutex s \<and> in_lock (th_code th) = in_lock (th_code (as_threads s ! t)) \<or>
      as_pool_mutex s = None \<and> as_pool_mutex s' = Some t \<and> in_lock (th_code th) \<or>
      in_lock (th_code (as_threads s ! t)) \<and> as_pool_mutex s' = None \<and> \<not> in_lock (th_code th)"
    and th: "caller_ok (content s') th"
    and log: "as_queue s' = as_queue s \<and> as_logged s' = as_logged s \<or>
      (\<exists>a. as_queue s' = as_queue s @ [Some a] \<and> as_logged s' = as_logged s @ [content s' a] )"
    and rest: "as_deleted s' = as_deleted s" "as_written s' = as_written s" "as_sink_deleted s' = as_sink_deleted s"
  shows "as_inv s'"
proof (rule thread_step [OF inv t(1) ths _ same pool mx])
  have ne: "as_threads s \<noteq> []" using t by auto
  have first: "as_threads s' ! 0 = as_threads s ! 0" using t by (simp add: ths)
  have others: "content s' x = content s x" if "x \<in> set (in_hand (as_threads s ! 0) @ ptrs (as_queue s))" for x
  proof (rule same)
    note alone = held_alone [OF inv_parts(1) [OF inv] t(1)]
    have "in_hand (as_threads s ! 0) = [] \<or> in_hand (as_threads s ! 0) = held (as_threads s ! 0)"
      by (simp add: in_hand_def)
    then have "x \<in> set (ptrs (as_queue s)) \<or> th_buffer (as_threads s ! 0) = Some x"
      using that by (auto simp: held_def split: option.splits)
    then show "x \<in> set (all_owned s)" "th_buffer (as_threads s ! t) \<noteq> Some x"
      using alone(3) [of x] alone(4) [of x 0] t held_owned [of 0 s x] in_use [OF inv_parts(1) [OF inv], of x] ne
      by auto
  qed
  have "map (content s') (in_hand (as_threads s ! 0) @ ptrs (as_queue s)) =
      map (content s) (in_hand (as_threads s ! 0) @ ptrs (as_queue s))"
    using others by (intro map_cong) auto
  then show "log_inv s'"
    using log inv_parts(5) [OF inv] by (auto simp: log_inv_def first rest)
  show "close_inv s'"
    using inv_parts(6) [OF inv] log by (auto simp: close_inv_def opened phase_def first rest)
qed (use th own t opened rest in \<open>simp_all add: ac_simps\<close>)

text \<open>The instructions of \<open>log\<close>.\<close>

lemma mset_upt_Suc [simp]: "mset_set {0..<Suc n} = add_mset n (mset_set {0..<n})"
  by (simp add: atLeast0_lessThan_Suc)

lemma getObject_cases:
  assumes "getObject fresh p = (a, p')"
  obtains "op_reused p = op_reused p' @ [a]" "op_objects p' = op_objects p"
    | "op_reused p = []" "op_reused p' = []" "a = length (op_objects p)" "op_objects p' = op_objects p @ [fresh]"
  using assms by (cases "op_reused p = []") (auto simp: getObject_def)

lemma threads_cases:
  assumes inv: "as_inv s" and t: "t < length (as_threads s)" and run: "th_code (as_threads s ! t) \<noteq> []"
  obtains "t = 0" "worker_ok (content s) (as_threads s ! 0)"
    | "0 < t" "as_closer s = None" "caller_ok (content s) (as_threads s ! t)"
    | k where "0 < t" "as_closer s = Some t" "th_buffer (as_threads s ! t) = None"
        "th_code (as_threads s ! t) = drop k as_destructor" "k < 5" "phase k s"
proof -
  note parts = inv_parts(4,6) [OF inv, unfolded threads_inv_def close_inv_def]
  consider "t = 0" | "0 < t" "as_closer s = None" | "0 < t" "as_closer s = Some t"
    | d where "0 < t" "as_closer s = Some d" "d \<noteq> t" by fastforce
  then show ?thesis
  proof cases
    case 3
    then obtain k where "k \<le> 5" "th_code (as_threads s ! t) = drop k as_destructor" "phase k s"
      "th_buffer (as_threads s ! t) = None"
      using parts by auto
    moreover have "k \<noteq> 5" using run calculation(2) by (auto simp: code_defs)
    ultimately show ?thesis using that(3) [of k] 3 by linarith
  qed (use parts t run that in auto)
qed

lemma exec_GetObject:
  assumes inv: "as_inv s" and t: "t < length (as_threads s)" "0 < t" and closer: "as_closer s = None"
    and ok: "caller_ok (content s) (as_threads s ! t)"
    and code: "th_code (as_threads s ! t) = GetObject # drop 2 as_log" and none: "th_buffer (as_threads s ! t) = None"
    and ex: "as_exec t None GetObject (drop 2 as_log) s = Some (seen, s')"
  shows "as_inv s'"
proof -
  note parts = inv_parts [OF inv]
  have small: "length (th_text (as_threads s ! t)) < db_limit" using ok by (simp add: caller_ok_def)
  obtain a p where get: "getObject (DynamicBuffer 1024 1024) (as_pool s) = (a, p)" by fastforce
  have s': "s' = go t (drop 2 as_log) (Some a) (s\<lparr>as_pool := p\<rparr>)"
    using ex get by simp
  have keep: "length (op_objects p) \<ge> length (op_objects (as_pool s)) \<and>
      (\<forall>x < length (op_objects (as_pool s)). op_objects p ! x = op_objects (as_pool s) ! x)"
    using get by (rule getObject_cases) (simp_all add: nth_append)
  have same: "content s' x = content s x" if "x < length (op_objects (as_pool s))" for x
    using keep that by (simp add: content_def buffer_of_def s')
  have used: "x < length (op_objects (as_pool s))" if "x \<in> set (op_reused (as_pool s))" for x
    using own_distinct [OF parts(1)] in_use [OF parts(1), of x] that by auto
  have here: "a < length (op_objects p) \<and> content s' a = []"
    using get
  proof (rule getObject_cases)
    assume "op_reused (as_pool s) = op_reused p @ [a]" and "op_objects p = op_objects (as_pool s)"
    then show ?thesis using same [of a] used [of a] parts(2) by (simp add: pool_inv_def)
  qed (simp add: content_def buffer_of_def s')
  show ?thesis
  proof (rule caller_step [OF inv t closer,
        where th = "(as_threads s ! t)\<lparr>th_code := drop 2 as_log, th_buffer := Some a\<rparr>"])
    have "\<forall>d \<in> set (op_objects p). db_inv d"
      using get by (rule getObject_cases) (use parts(2) in \<open>auto simp: pool_inv_def fresh_inv\<close>)
    moreover have "content s' x = []" if "x \<in> set (op_reused p)" for x
    proof -
      have "x \<in> set (op_reused (as_pool s))" using get by (rule getObject_cases) (use that in auto)
      then show ?thesis using same [of x] used [of x] parts(2) by (simp add: pool_inv_def)
    qed
    ultimately show "pool_inv s'" by (simp add: pool_inv_def s')
    show "content s' x = content s x" if "x \<in> set (all_owned s)" for x
      using same own_distinct [OF parts(1)] that by auto
  qed (use s' small closer code none here get in
     \<open>auto simp: held_def caller_ok_def code_defs elim!: getObject_cases\<close>)
qed

lemma exec_FillBuffer:
  assumes inv: "as_inv s" and t: "t < length (as_threads s)" "0 < t" and closer: "as_closer s = None"
    and ok: "caller_ok (content s) (as_threads s ! t)"
    and code: "th_code (as_threads s ! t) = FillBuffer # drop 4 as_log" and a: "th_buffer (as_threads s ! t) = Some a"
    and empty: "content s a = []"
    and ex: "as_exec t (Some a) FillBuffer (drop 4 as_log) s = Some (seen, s')"
  shows "as_inv s'"
proof -
  note parts = inv_parts [OF inv]
  have small: "length (th_text (as_threads s ! t)) < db_limit" using ok by (simp add: caller_ok_def)
  have s': "s' = go t (drop 4 as_log) (Some a) (on_buffer a (\<lambda>d. db_append d (th_text (as_threads s ! t))) s)"
    using ex by simp
  note alone = held_alone [OF parts(1) t(1) a]
  note fits = append_content [OF buffer_inv [OF parts(2) alone(1)]] append_inv [OF buffer_inv [OF parts(2) alone(1)]]
  have empty': "db_content (buffer_of a s) = []" using empty by (simp add: content_def)
  show ?thesis
  proof (rule caller_step [OF inv t closer,
        where th = "(as_threads s ! t)\<lparr>th_code := drop 4 as_log, th_buffer := Some a\<rparr>"])
    show "pool_inv s'" using pool_inv_on_buffer [OF parts(2) alone(1,2)] fits small by (simp add: s' empty')
  qed (use s' small closer code a alone fits empty' in
     \<open>simp_all add: held_def caller_ok_def code_defs content_on_buffer\<close>)
qed

lemma caller_exec:
  assumes inv: "as_inv s" and t: "t < length (as_threads s)" "0 < t" and closer: "as_closer s = None"
    and ok: "caller_ok (content s) (as_threads s ! t)" and code: "th_code (as_threads s ! t) = i # rest"
    and ex: "as_exec t (th_buffer (as_threads s ! t)) i rest s = Some (seen, s')"
  shows "as_inv s'"
proof -
  note parts = inv_parts [OF inv]
  define th where "th = as_threads s ! t"
  have small: "length (th_text th) < db_limit" using ok by (simp add: caller_ok_def th_def)
  have code': "th_code th = i # rest" and ex': "as_exec t (th_buffer th) i rest s = Some (seen, s')"
    using code ex by (simp_all add: th_def)
  have not_same: "th_buffer th \<noteq> Some x \<Longrightarrow> th_buffer (as_threads s ! t) \<noteq> Some x" for x by (simp add: th_def)
  consider "th_buffer th = None" "i = PoolLock" "rest = drop 1 as_log"
    | "th_buffer th = None" "i = GetObject" "rest = drop 2 as_log"
    | a where "th_buffer th = Some a" "i = PoolUnlock" "rest = drop 3 as_log" "content s a = []"
    | a where "th_buffer th = Some a" "i = FillBuffer" "rest = drop 4 as_log" "content s a = []"
    | a where "th_buffer th = Some a" "i = QueuePush" "rest = []" "content s a = th_text th"
    using ok code by (auto simp: caller_ok_def th_def code_defs split: option.splits)
  then show ?thesis
  proof cases
    case 1
    then have s': "s' = go t (drop 1 as_log) None (s\<lparr>as_pool_mutex := Some t\<rparr>)" "as_pool_mutex s = None"
      using ex' by (auto split: if_splits)
    show ?thesis
      by (rule caller_step [OF inv t closer, where th = "th\<lparr>th_code := drop 1 as_log, th_buffer := None\<rparr>"])
         (use 1 s' parts(2) small closer in \<open>simp_all add: th_def [symmetric] held_def caller_ok_def code_defs\<close>)
  next
    case 2
    then show ?thesis using exec_GetObject [OF inv t closer] ok code ex by (simp add: th_def)
  next
    case 3
    then have s': "s' = go t (drop 3 as_log) (Some a) (s\<lparr>as_pool_mutex := None\<rparr>)"
      using ex' by simp
    show ?thesis
      by (rule caller_step [OF inv t closer, where th = "th\<lparr>th_code := drop 3 as_log, th_buffer := Some a\<rparr>"])
         (use 3 s' parts(2) small closer code' in \<open>simp_all add: th_def [symmetric] held_def caller_ok_def code_defs\<close>)
  next
    case 4
    then show ?thesis using exec_FillBuffer [OF inv t closer ok, of a seen s'] code ex by (simp add: th_def)
  next
    case 5
    then have s': "s' = go t [] None (s\<lparr>as_queue := as_queue s @ [Some a], as_logged := as_logged s @ [th_text th]\<rparr>)"
      using ex' by (auto simp: push_item_def th_def split: if_splits)
    show ?thesis
      by (rule caller_step [OF inv t closer, where th = "th\<lparr>th_code := [], th_buffer := None\<rparr>"])
         (use 5 s' parts(2) small closer code' in \<open>simp_all add: th_def [symmetric] held_def caller_ok_def code_defs\<close>)
  qed
qed

text \<open>The log thread. As long as it runs, the destructor cannot be beyond \<open>Join\<close>.\<close>

lemma close_worker:
  assumes close: "close_inv s" and some: "as_threads s \<noteq> []" and ths: "as_threads s' = (as_threads s)[0 := th]"
    and run: "th_code (as_threads s ! 0) \<noteq> []"
    and same: "as_closer s' = as_closer s" "as_sink_deleted s' = as_sink_deleted s"
    and ph: "\<And>k. k \<le> 1 \<Longrightarrow> phase k s \<Longrightarrow> phase k s'"
  shows "close_inv s'"
proof -
  have early: "k \<le> 1" if "phase k s" for k
    using that run by (auto simp: phase_def split: if_splits)
  show ?thesis
  proof (cases "as_closer s")
    case None
    then show ?thesis using close ph [of 0] by (simp add: close_inv_def same)
  next
    case (Some d)
    then obtain k where "k \<le> 5" "th_code (as_threads s ! d) = drop k as_destructor" "phase k s"
      using close by (auto simp: close_inv_def)
    moreover have "phase k s'" using ph [of k] early [of k] calculation(3) by blast
    ultimately show ?thesis
      using close Some by (auto simp: close_inv_def same ths)
  qed
qed

lemma phase_worker:
  assumes "as_threads s \<noteq> []" and "as_threads s' = (as_threads s)[0 := th]"
    and "as_queue s' = as_queue s" and "log_live th = log_live (as_threads s ! 0)" and "as_sink_deleted s' = as_sink_deleted s"
  shows "k \<le> 1 \<Longrightarrow> phase k s \<Longrightarrow> phase k s'"
  using assms by (auto simp: phase_def split: if_splits)

lemma phase_pop:
  assumes "as_threads s \<noteq> []" and "as_threads s' = (as_threads s)[0 := th]"
    and "as_queue s = x # as_queue s'" and "log_live (as_threads s ! 0)" and "log_live th = (x \<noteq> None)"
    and "as_sink_deleted s' = as_sink_deleted s"
  shows "k \<le> 1 \<Longrightarrow> phase k s \<Longrightarrow> phase k s'"
proof -
  assume k: "k \<le> 1" and ph: "phase k s"
  have first: "as_threads s' ! 0 = th" using assms by simp
  consider "k = 0" | "k = 1" using k by linarith
  then show "phase k s'"
  proof cases
    case 1
    then show ?thesis using ph assms first by (auto simp: phase_def)
  next
    case 2
    then obtain as where "x # as_queue s' = map Some as @ [None]"
      using ph assms(3,4) by (auto simp: phase_def)
    then have "if x = None then as_queue s' = [] else \<exists>as. as_queue s' = map Some as @ [None]"
      by (cases as) auto
    then show ?thesis using 2 ph assms first by (auto simp: phase_def)
  qed
qed

lemma worker_step:
  assumes inv: "as_inv s" and run: "th_code (as_threads s ! 0) \<noteq> []"
    and ths: "as_threads s' = (as_threads s)[0 := th]"
    and own: "mset (held th @ op_reused (as_pool s') @ ptrs (as_queue s')) +
        mset [0..<length (op_objects (as_pool s))] =
      mset (held (as_threads s ! 0) @ op_reused (as_pool s) @ ptrs (as_queue s)) +
        mset [0..<length (op_objects (as_pool s'))]"
    and same: "\<And>x. x \<in> set (all_owned s) \<Longrightarrow> th_buffer (as_threads s ! 0) \<noteq> Some x \<Longrightarrow> content s' x = content s x"
    and pool: "pool_inv s'"
    and mx: "as_pool_mutex s' = as_pool_mutex s \<and> in_lock (th_code th) = in_lock (th_code (as_threads s ! 0)) \<or>
      as_pool_mutex s = None \<and> as_pool_mutex s' = Some 0 \<and> in_lock (th_code th) \<or>
      in_lock (th_code (as_threads s ! 0)) \<and> as_pool_mutex s' = None \<and> \<not> in_lock (th_code th)"
    and th: "worker_ok (content s') th"
    and log: "as_logged s' = as_logged s"
      "as_written s' @ map (content s') (in_hand th @ ptrs (as_queue s')) =
       as_written s @ map (content s) (in_hand (as_threads s ! 0) @ ptrs (as_queue s))"
    and ph: "as_queue s' = as_queue s \<and> log_live th = log_live (as_threads s ! 0) \<or>
      (\<exists>x. as_queue s = x # as_queue s' \<and> log_live (as_threads s ! 0) \<and> log_live th = (x \<noteq> None))"
    and rest: "as_deleted s' = as_deleted s" "as_sink_deleted s' = as_sink_deleted s" "as_closer s' = as_closer s"
  shows "as_inv s'"
proof -
  have ne: "as_threads s \<noteq> []" using inv by (simp add: as_inv_def threads_inv_def)
  show ?thesis
  proof (rule thread_step [OF inv _ ths _ same pool mx])
    show "log_inv s'" using log inv_parts(5) [OF inv] ne by (simp add: log_inv_def ths)
    show "close_inv s'"
      by (rule close_worker [OF inv_parts(6) [OF inv] ne ths run])
         (use ph phase_worker [OF ne ths] phase_pop [OF ne ths] rest in auto)
  qed (use th own ne rest in \<open>simp_all add: ac_simps\<close>)
qed

lemma worker_cases:
  assumes "worker_ok c th" and "th_code th = i # rest"
  obtains "th_buffer th = None" "i = QueuePop" "rest = drop 1 logThreadFunc"
    | "i = BreakIfNull" "rest = drop 2 logThreadFunc"
    | a where "th_buffer th = Some a" "i = AdaptedLog" "rest = drop 3 logThreadFunc"
    | a where "th_buffer th = Some a" "i = ReadAll" "rest = drop 4 logThreadFunc"
    | a where "th_buffer th = Some a" "i = PoolLock" "rest = drop 5 logThreadFunc" "c a = []"
    | a where "th_buffer th = Some a" "i = ReturnObject" "rest = drop 6 logThreadFunc" "c a = []"
    | "th_buffer th = None" "i = PoolUnlock" "rest = [LoopEnd]"
    | "th_buffer th = None" "i = LoopEnd" "rest = []"
  using assms by (auto simp: worker_ok_def code_defs split: option.splits)

lemmas worker_simps = held_def worker_ok_def in_hand_def log_live_def logThreadFunc_def

lemma exec_ReadAll:
  assumes inv: "as_inv s" and ne: "as_threads s \<noteq> []"
    and code: "th_code (as_threads s ! 0) = ReadAll # drop 4 logThreadFunc" and a: "th_buffer (as_threads s ! 0) = Some a"
    and ex: "as_exec 0 (Some a) ReadAll (drop 4 logThreadFunc) s = Some (seen, s')"
  shows "as_inv s'"
proof -
  note parts = inv_parts [OF inv]
  define th where "th = (as_threads s ! 0)\<lparr>th_code := drop 4 logThreadFunc, th_buffer := Some a\<rparr>"
  have run: "th_code (as_threads s ! 0) \<noteq> []" using code by simp
  have s': "s' = go 0 (drop 4 logThreadFunc) (Some a) (on_buffer a (\<lambda>d. db_read d (readableBytes d)) s)"
    using ex by simp
  have here: "a < length (op_objects (as_pool s))" "a \<notin> set (op_reused (as_pool s))" "a \<notin> set (ptrs (as_queue s))"
    using held_alone(1-3) [OF parts(1) _ a] ne by simp_all
  note inv_a = buffer_inv [OF parts(2) here(1)]
  have empty: "db_content (db_read (buffer_of a s) (readableBytes (buffer_of a s))) = []"
    by (simp add: read_content [OF inv_a] flip: length_db_content [OF inv_a])
  show ?thesis
  proof (rule worker_step [OF inv run, where th = th])
    show "pool_inv s'" using pool_inv_on_buffer [OF parts(2) here(1,2)] read_inv [OF inv_a] by (simp add: s')
    have "map (content s') (ptrs (as_queue s)) = map (content s) (ptrs (as_queue s))"
      using here by (auto simp: s' content_on_buffer)
    then show "as_written s' @ map (content s') (in_hand th @ ptrs (as_queue s')) =
        as_written s @ map (content s) (in_hand (as_threads s ! 0) @ ptrs (as_queue s))"
      using code by (simp add: s' th_def in_hand_def logThreadFunc_def)
  qed (use a s' code here empty in \<open>auto simp: th_def worker_simps content_on_buffer\<close>)
qed

lemma worker_exec:
  assumes inv: "as_inv s" and code: "th_code (as_threads s ! 0) = i # rest"
    and ex: "as_exec 0 (th_buffer (as_threads s ! 0)) i rest s = Some (seen, s')"
  shows "as_inv s'"
proof -
  note parts = inv_parts [OF inv]
  define th where "th = as_threads s ! 0"
  have code': "th_code th = i # rest" and ex': "as_exec 0 (th_buffer th) i rest s = Some (seen, s')"
    and ok: "worker_ok (content s) th" and ne: "as_threads s \<noteq> []"
    using code ex parts(4) by (simp_all add: th_def threads_inv_def)
  have run: "th_code (as_threads s ! 0) \<noteq> []" using code by simp
  note step = worker_step [OF inv run] and fold = th_def [symmetric]
  show ?thesis
    using ok code'
  proof (cases rule: worker_cases)
    case 1
    then obtain x xs where q: "as_queue s = x # xs" and s': "s' = go 0 (drop 1 logThreadFunc) x (s\<lparr>as_queue := xs\<rparr>)"
      using ex' by (auto split: list.splits)
    show ?thesis
      by (rule step [where th = "th\<lparr>th_code := drop 1 logThreadFunc, th_buffer := x\<rparr>"])
         (use 1 s' q parts(2) code' in \<open>cases x; auto simp: fold worker_simps\<close>)+
  next
    case 2
    then have s': "s' = go 0 (if th_buffer th = None then [] else drop 2 logThreadFunc) (th_buffer th) s"
      using ex' by simp
    show ?thesis
      by (rule step [where th = "th\<lparr>th_code := if th_buffer th = None then [] else drop 2 logThreadFunc, th_buffer := th_buffer th\<rparr>"])
         (use 2 s' parts(2) code' in \<open>auto simp: fold worker_simps split: option.splits\<close>)
  next
    case (3 a)
    then have s': "s' = go 0 (drop 3 logThreadFunc) (Some a) (s\<lparr>as_written := as_written s @ [content s a]\<rparr>)"
      using ex' by (simp add: content_def)
    show ?thesis
      by (rule step [where th = "th\<lparr>th_code := drop 3 logThreadFunc, th_buffer := Some a\<rparr>"])
         (use 3 s' parts(2) code' in \<open>auto simp: fold worker_simps split: option.splits\<close>)
  next
    case (4 a)
    then show ?thesis using exec_ReadAll [OF inv ne, of a seen s'] code ex by (simp add: th_def)
  next
    case (5 a)
    then have s': "s' = go 0 (drop 5 logThreadFunc) (Some a) (s\<lparr>as_pool_mutex := Some 0\<rparr>)" "as_pool_mutex s = None"
      using ex' by (auto split: if_splits)
    show ?thesis
      by (rule step [where th = "th\<lparr>th_code := drop 5 logThreadFunc, th_buffer := Some a\<rparr>"])
         (use 5 s' parts(2) code' in \<open>auto simp: fold worker_simps\<close>)
  next
    case (6 a)
    then have s': "s' = go 0 (drop 6 logThreadFunc) None (s\<lparr>as_pool := returnObject a (as_pool s)\<rparr>)"
      using ex' by simp
    have same: "content s' = content s" by (simp add: s' content_def buffer_of_def returnObject_def fun_eq_iff)
    have sel: "op_objects (as_pool s') = op_objects (as_pool s)" "op_reused (as_pool s') = op_reused (as_pool s) @ [a]"
      by (simp_all add: s' returnObject_def)
    show ?thesis
    proof (rule step [where th = "th\<lparr>th_code := drop 6 logThreadFunc, th_buffer := None\<rparr>"])
      show "pool_inv s'" using parts(2) 6 sel by (auto simp: pool_inv_def same)
    qed (use 6 s' same code' in \<open>auto simp: fold worker_simps returnObject_def\<close>)
  next
    case 7
    then have s': "s' = go 0 [LoopEnd] None (s\<lparr>as_pool_mutex := None\<rparr>)"
      using ex' by simp
    show ?thesis
      by (rule step [where th = "th\<lparr>th_code := [LoopEnd], th_buffer := None\<rparr>"])
         (use 7 s' parts(2) code' in \<open>auto simp: fold worker_simps\<close>)
  next
    case 8
    then have s': "s' = go 0 logThreadFunc None s" using ex' by simp
    show ?thesis
      by (rule step [where th = "th\<lparr>th_code := logThreadFunc, th_buffer := None\<rparr>"])
         (use 8 s' parts(2) code' in \<open>auto simp: fold worker_simps\<close>)
  qed
qed

text \<open>The destructor.\<close>

lemma closer_step:
  assumes inv: "as_inv s" and t: "t < length (as_threads s)" "0 < t" "as_closer s = Some t"
    and buf: "th_buffer (as_threads s ! t) = None" and s': "s' = go t (drop (Suc k) as_destructor) None s1"
    and k: "k < 5" "th_code (as_threads s ! t) = drop k as_destructor"
    and same: "as_threads s1 = as_threads s" "as_pool_mutex s1 = as_pool_mutex s" "as_closer s1 = as_closer s"
      "as_logged s1 = as_logged s" "as_written s1 = as_written s" "op_objects (as_pool s1) = op_objects (as_pool s)"
      "ptrs (as_queue s1) = ptrs (as_queue s)"
    and own: "mset (op_reused (as_pool s1) @ as_deleted s1) = mset (op_reused (as_pool s) @ as_deleted s)"
      "set (op_reused (as_pool s1)) \<subseteq> set (op_reused (as_pool s))"
    and ph: "phase (Suc k) s'"
  shows "as_inv s'"
proof -
  note parts = inv_parts [OF inv]
  define th where "th = (as_threads s ! t)\<lparr>th_code := drop (Suc k) as_destructor, th_buffer := None\<rparr>"
  have ths: "as_threads s' = (as_threads s)[t := th]" using same by (simp add: s' th_def)
  have first: "as_threads s' ! 0 = as_threads s ! 0" using t by (simp add: ths)
  have c: "content s' = content s" by (simp add: content_def buffer_of_def s' same fun_eq_iff)
  have lock: "\<not> in_lock (drop j as_destructor)" for j
    by (cases "j < 5") (auto simp: as_destructor_def less_Suc_eq numeral_eq_Suc)
  show ?thesis
  proof (rule thread_step [OF inv t(1) ths])
    show "pool_inv s'" using parts(2) own(2) by (auto simp: pool_inv_def c) (simp_all add: s' same subset_iff)
    show "log_inv s'" using parts(5) by (simp add: log_inv_def first c) (simp add: s' same)
    show "close_inv s'"
      using parts(6) t k ph by (auto simp: close_inv_def s' same nth_list_update intro!: exI [of _ "Suc k"])
  qed (use own t buf k lock in \<open>auto simp: s' same th_def held_def content_def buffer_of_def ac_simps\<close>)
qed

lemma closer_exec:
  assumes inv: "as_inv s" and t: "t < length (as_threads s)" "0 < t" "as_closer s = Some t"
    and buf: "th_buffer (as_threads s ! t) = None"
    and k: "k < 5" "th_code (as_threads s ! t) = drop k as_destructor" and ph: "phase k s"
    and ex: "as_step (ARun t) s = Some (seen, s')"
  shows "as_inv s'"
proof -
  note step = closer_step [OF inv t buf _ k]
  have first: "(as_threads s)[t := th] ! 0 = as_threads s ! 0" for th using t by simp
  consider "k = 0" | "k = 1" | "k = 2" | "k = 3" | "k = 4" using k by linarith
  then show ?thesis
  proof cases
    case 1
    then have s': "s' = go t (drop (Suc k) as_destructor) None (s\<lparr>as_queue := as_queue s @ [None]\<rparr>)"
      using ex t buf k by (auto simp: code_defs push_item_def split: if_splits)
    have q: "\<exists>xs. as_queue s @ [None] = map Some xs @ [None]"
      using ph 1 by (intro exI [of _ "ptrs (as_queue s)"]) (simp add: phase_def map_Some_ptrs)
    show ?thesis
      by (rule step [OF s'(1)]) (use ph t 1 s' q in \<open>auto simp: phase_def first\<close>)
  next
    case 2
    then have s': "s' = go t (drop (Suc k) as_destructor) None s" "th_code (as_threads s ! 0) = []"
      using ex t buf k by (auto simp: code_defs split: if_splits)
    show ?thesis
      by (rule step [OF s'(1)]) (use ph t 2 s' in \<open>auto simp: phase_def first log_live_def\<close>)
  next
    case 3
    then have s': "s' = go t (drop (Suc k) as_destructor) None (s\<lparr>as_sink_deleted := True\<rparr>)"
      using ex t buf k by (auto simp: code_defs split: if_splits)
    show ?thesis
      by (rule step [OF s'(1)]) (use ph t 3 s' in \<open>auto simp: phase_def first\<close>)
  next
    case 4
    then have s': "s' = go t (drop (Suc k) as_destructor) None
        (s\<lparr>as_deleted := as_deleted s @ op_reused (as_pool s), as_pool := (as_pool s)\<lparr>op_reused := []\<rparr>\<rparr>)"
      using ex t buf k by (auto simp: code_defs split: if_splits)
    show ?thesis
      by (rule step [OF s'(1)]) (use ph t 4 s' in \<open>auto simp: phase_def first\<close>)
  next
    case 5
    then have s': "s' = go t (drop (Suc k) as_destructor) None (s\<lparr>as_deleted := as_deleted s @ ptrs (as_queue s)\<rparr>)"
      using ex t buf k by (auto simp: code_defs split: if_splits)
    show ?thesis
      by (rule step [OF s'(1)]) (use ph t 5 s' in \<open>auto simp: phase_def first\<close>)
  qed
qed

section \<open>Runs\<close>

definition text_ok :: "as_event \<Rightarrow> bool" where
  "text_ok e \<longleftrightarrow> (case e of ALog t text \<Rightarrow> length text < db_limit | _ \<Rightarrow> True)"

lemma log_call_inv:
  assumes inv: "as_inv s" and st: "as_step (ALog t text) s = Some (seen, s')" and small: "length text < db_limit"
  shows "as_inv s'"
proof -
  note parts = inv_parts [OF inv]
  have t: "t < length (as_threads s)" "0 < t" and closer: "as_closer s = None" and idle: "th_code (as_threads s ! t) = []"
    and s': "s' = s\<lparr>as_threads := (as_threads s)[t := \<lparr>th_code = as_log, th_buffer = None, th_text = text\<rparr>]\<rparr>"
    using st by (auto simp: as_idle_def split: if_splits)
  have "th_buffer (as_threads s ! t) = None"
    using parts(4) t closer idle by (auto simp: threads_inv_def caller_ok_def as_log_def split: option.splits)
  moreover have "content s' = content s" by (rule content_pool) (simp add: s')
  ultimately show ?thesis
    by (intro caller_step [OF inv t closer, where th = "\<lparr>th_code = as_log, th_buffer = None, th_text = text\<rparr>"])
       (use s' parts(2) small closer idle in \<open>simp_all add: held_def caller_ok_def as_log_def pool_inv_def\<close>)
qed

lemma destroy_call_inv:
  assumes inv: "as_inv s" and st: "as_step (ADestroy t) s = Some (seen, s')"
  shows "as_inv s'"
proof -
  note parts = inv_parts [OF inv]
  have t: "t < length (as_threads s)" "0 < t" and closer: "as_closer s = None" and idle: "th_code (as_threads s ! t) = []"
    and s': "s' = (go t as_destructor None s)\<lparr>as_closer := Some t\<rparr>"
    and quiet: "list_all (\<lambda>th. th_code th = []) (tl (as_threads s))"
    using st by (auto simp: as_idle_def split: if_splits)
  have others: "th_code (as_threads s ! u) = []" if "0 < u" "u < length (as_threads s)" for u
  proof -
    obtain v where v: "u = Suc v" using \<open>0 < u\<close> by (cases u) auto
    then have "tl (as_threads s) ! v \<in> set (tl (as_threads s))" using that by (intro nth_mem) simp
    then show ?thesis using quiet that v by (simp add: list_all_iff nth_tl)
  qed
  define th where "th = (as_threads s ! t)\<lparr>th_code := as_destructor, th_buffer := None\<rparr>"
  have buf: "th_buffer (as_threads s ! t) = None"
    using parts(4) t closer idle by (auto simp: threads_inv_def caller_ok_def as_log_def split: option.splits)
  have ths: "as_threads s' = (as_threads s)[t := th]" by (simp add: s' th_def)
  have c: "content s' = content s" by (rule content_pool) (simp add: s')
  have own: "own_inv s'"
    by (rule own_update [OF parts(1) t(1) ths]) (use buf in \<open>simp add: s' th_def held_def\<close>)
  have pool: "pool_inv s'" using parts(2) by (simp add: pool_inv_def c) (simp add: s')
  have mutex: "mutex_inv s'"
    using parts(3) idle t by (auto simp: mutex_inv_def ths nth_list_update th_def as_destructor_def) (auto simp: s')
  have threads: "threads_inv s'"
    using parts(4) t closer by (auto simp: threads_inv_def ths c nth_list_update) (auto simp: s')
  have log: "log_inv s'" using parts(5) t by (simp add: log_inv_def ths c) (simp add: s')
  have "phase 0 s'" using parts(6) t closer by (simp add: close_inv_def phase_def ths) (simp add: s')
  then have "close_inv s'"
    using t others by (auto simp: close_inv_def ths nth_list_update th_def s' intro!: exI [of _ 0])
  then show ?thesis using own pool mutex threads log by (simp add: as_inv_def)
qed

lemma as_step_inv:
  assumes inv: "as_inv s" and ok: "text_ok e" and st: "as_step e s = Some (seen, s')"
  shows "as_inv s'"
proof (cases e)
  case (ALog t xs)
  then show ?thesis using log_call_inv [OF inv] st ok by (simp add: text_ok_def)
next
  case (ADestroy t)
  then show ?thesis using destroy_call_inv [OF inv] st by simp
next
  case (ARun t)
  then have t: "t < length (as_threads s)" using st by (auto split: if_splits)
  obtain i rest where code: "th_code (as_threads s ! t) = i # rest"
    and ex: "as_exec t (th_buffer (as_threads s ! t)) i rest s = Some (seen, s')"
    using st ARun by (auto split: if_splits list.splits)
  have "th_code (as_threads s ! t) \<noteq> []" using code by simp
  with inv t show ?thesis
  proof (cases rule: threads_cases)
    case 1
    then show ?thesis using worker_exec [OF inv] code ex by simp
  next
    case 2
    then show ?thesis using caller_exec [OF inv t] code ex by blast
  next
    case (3 k)
    then show ?thesis using closer_exec [OF inv t, of k] st ARun by blast
  qed
qed

lemma as_step_spec:
  assumes "as_step e s = Some (seen, s')"
  shows "spec_run (as_queue_size s) seen (as_queue s) = Some (as_queue s') \<and> as_queue_size s' = as_queue_size s"
proof -
  have exec: "spec_run (as_queue_size s) seen (as_queue s) = Some (as_queue s') \<and> as_queue_size s' = as_queue_size s"
    if "as_exec t b i rest s = Some (seen, s')" for t b i rest
    using that by (cases i; cases b) (auto simp: push_item_def split: if_splits list.splits prod.splits)
  show ?thesis
    using assms by (cases e) (auto dest: exec split: if_splits list.splits)
qed

interpretation las: queue_user as_step as_run as_queue as_queue_size as_inv text_ok
  by unfold_locales (simp_all add: as_step_spec as_step_inv)

lemma LogAsyncSink_inv: "as_inv (LogAsyncSink m n)"
proof -
  define s where "s = LogAsyncSink m n"
  have worker: "as_threads s ! 0 = \<lparr>th_code = logThreadFunc, th_buffer = None, th_text = []\<rparr>"
    by (simp add: s_def LogAsyncSink_def)
  have others: "as_threads s ! u = \<lparr>th_code = [], th_buffer = None, th_text = []\<rparr>"
    if "0 < u" "u < length (as_threads s)" for u
    using that by (cases u) (simp_all add: s_def LogAsyncSink_def)
  have "concat (map held (as_threads s)) = []"
    by (simp add: s_def LogAsyncSink_def held_def)
  then have "own_inv s" "pool_inv s"
    by (simp_all add: own_inv_def all_owned_def pool_inv_def) (simp_all add: s_def LogAsyncSink_def ObjectPool_def)
  moreover have "\<not> in_lock (th_code (as_threads s ! u))" if "u < length (as_threads s)" for u
    using worker others [of u] that by (cases "u = 0") (simp_all add: logThreadFunc_def)
  then have "mutex_inv s" by (simp add: mutex_inv_def) (simp add: s_def LogAsyncSink_def)
  moreover have "threads_inv s"
    using worker others
    by (simp add: threads_inv_def worker_ok_def caller_ok_def db_limit_def) (simp add: s_def LogAsyncSink_def)
  moreover have "as_closer s = None" "as_queue s = []" "\<not> as_sink_deleted s" "as_logged s = []" "as_written s = []"
    by (simp_all add: s_def LogAsyncSink_def)
  then have "log_inv s" "close_inv s"
    by (simp_all add: log_inv_def close_inv_def phase_def worker in_hand_def log_live_def logThreadFunc_def)
  ultimately show ?thesis by (simp add: as_inv_def s_def)
qed

end
