(* ===== verification/LogAsyncRun.thy ===== *)
theory LogAsyncRun
  imports LogAsyncSafety
begin

text \<open>
  Runs of \<open>LogAsyncSink\<close>: every call is accounted for, a state in which no thread can go on is one in
  which everything has been written, and the property of the class.
\<close>

section \<open>Every call is written\<close>

text \<open>The texts of the calls of a run; the text of a call that has not been pushed yet.\<close>

fun call_text :: "as_event \<Rightarrow> bytes list" where
  "call_text (ALog t xs) = [xs]"
| "call_text _ = []"

definition not_pushed :: "as_thread \<Rightarrow> bytes list" where
  "not_pushed th = (if QueuePush \<in> set (th_code th) then [th_text th] else [])"

definition accounted :: "async_sink \<Rightarrow> bytes multiset" where
  "accounted s = mset (as_logged s) + mset (concat (map not_pushed (as_threads s)))"

lemma accounted_update:
  assumes "t < length (as_threads s)" and "as_threads s' = (as_threads s)[t := th]"
    and "mset (as_logged s') + mset (not_pushed th) = mset (as_logged s) + mset (not_pushed (as_threads s ! t)) + new"
  shows "accounted s' = accounted s + new"
proof -
  have "mset (concat (map not_pushed (as_threads s'))) + mset (not_pushed (as_threads s ! t)) =
      mset (concat (map not_pushed (as_threads s))) + mset (not_pushed th)"
    unfolding assms(2) by (rule mset_concat_update [OF assms(1)])
  then have "(mset (as_logged s') + mset (not_pushed th)) +
        (mset (concat (map not_pushed (as_threads s'))) + mset (not_pushed (as_threads s ! t))) =
      (mset (as_logged s) + mset (not_pushed (as_threads s ! t)) + new) +
        (mset (concat (map not_pushed (as_threads s))) + mset (not_pushed th))"
    using assms(3) by simp
  then have "accounted s' + (mset (not_pushed (as_threads s ! t)) + mset (not_pushed th)) =
      accounted s + new + (mset (not_pushed (as_threads s ! t)) + mset (not_pushed th))"
    unfolding accounted_def by (simp only: ac_simps)
  then show ?thesis by simp
qed

lemma code_shape:
  assumes "as_inv s" and "t < length (as_threads s)" and code: "th_code (as_threads s ! t) = i # rest"
  shows "if i = QueuePush \<or> i = BreakIfNull \<or> i = LoopEnd then QueuePush \<notin> set rest else True"
proof -
  have "th_code (as_threads s ! t) \<noteq> []" using code by simp
  with assms(1,2) show ?thesis
  proof (cases rule: threads_cases)
    case 1
    then show ?thesis using code by (auto simp: worker_ok_def code_defs split: option.splits)
  next
    case 2
    then show ?thesis using code by (auto simp: caller_ok_def code_defs split: option.splits)
  next
    case (3 k)
    then show ?thesis using code by (auto simp: as_destructor_def less_Suc_eq numeral_eq_Suc)
  qed
qed

lemma exec_accounted:
  assumes "as_exec t (th_buffer (as_threads s ! t)) i rest s = Some (seen, s')"
    and "th_code (as_threads s ! t) = i # rest"
    and "if i = QueuePush \<or> i = BreakIfNull \<or> i = LoopEnd then QueuePush \<notin> set rest else True"
  shows "\<exists>th. as_threads s' = (as_threads s)[t := th] \<and>
    mset (as_logged s') + mset (not_pushed th) = mset (as_logged s) + mset (not_pushed (as_threads s ! t))"
  using assms
  by (cases i; cases "th_buffer (as_threads s ! t)")
     (auto simp: not_pushed_def push_item_def logThreadFunc_def split: if_splits list.splits prod.splits)

lemma step_accounted:
  assumes inv: "as_inv s" and st: "as_step e s = Some (seen, s')"
  shows "accounted s' = accounted s + mset (call_text e)"
proof (cases e)
  case (ALog t xs)
  then have t: "t < length (as_threads s)" "th_code (as_threads s ! t) = []"
    and s': "s' = s\<lparr>as_threads := (as_threads s)[t := \<lparr>th_code = as_log, th_buffer = None, th_text = xs\<rparr>]\<rparr>"
    using st by (auto simp: as_idle_def split: if_splits)
  show ?thesis
    by (rule accounted_update [OF t(1), where th = "\<lparr>th_code = as_log, th_buffer = None, th_text = xs\<rparr>"])
       (use t s' ALog in \<open>simp_all add: not_pushed_def as_log_def\<close>)
next
  case (ADestroy t)
  then have t: "t < length (as_threads s)" "th_code (as_threads s ! t) = []"
    and s': "s' = (go t as_destructor None s)\<lparr>as_closer := Some t\<rparr>"
    using st by (auto simp: as_idle_def split: if_splits)
  show ?thesis
    by (rule accounted_update [OF t(1), where th = "(as_threads s ! t)\<lparr>th_code := as_destructor, th_buffer := None\<rparr>"])
       (use t s' ADestroy in \<open>simp_all add: not_pushed_def as_destructor_def\<close>)
next
  case (ARun t)
  then obtain i rest where t: "t < length (as_threads s)" and code: "th_code (as_threads s ! t) = i # rest"
    and ex: "as_exec t (th_buffer (as_threads s ! t)) i rest s = Some (seen, s')"
    using st by (auto split: if_splits list.splits)
  obtain th where "as_threads s' = (as_threads s)[t := th]"
    and "mset (as_logged s') + mset (not_pushed th) = mset (as_logged s) + mset (not_pushed (as_threads s ! t))"
    using exec_accounted [OF ex code code_shape [OF inv t code]] by blast
  then show ?thesis using accounted_update [OF t] ARun by simp
qed

lemma run_accounted:
  assumes "as_inv s" and "\<forall>e \<in> set es. text_ok e" and "as_run es s = Some (seen, s')"
  shows "accounted s' = accounted s + mset (concat (map call_text es))"
  using assms
proof (induction es arbitrary: s seen)
  case (Cons e es)
  obtain seen1 s1 seen2 where st: "as_step e s = Some (seen1, s1)" and run: "as_run es s1 = Some (seen2, s')"
    using Cons.prems(3) by (auto split: option.splits prod.splits)
  have "as_inv s1" by (rule as_step_inv [OF Cons.prems(1) _ st]) (use Cons.prems(2) in simp)
  from Cons.IH [OF this _ run] step_accounted [OF Cons.prems(1) st] Cons.prems(2)
  show ?case by (simp add: ac_simps)
qed simp

section \<open>When no thread can go on\<close>

lemma quiet_thread:
  assumes "as_quiescent s" and "t < length (as_threads s)" and "th_code (as_threads s ! t) = i # rest"
  shows "as_exec t (th_buffer (as_threads s ! t)) i rest s = None"
  using assms unfolding as_quiescent_def by (auto dest: spec [of _ t])

lemma quiet_mutex:
  assumes inv: "as_inv s" and quiet: "as_quiescent s"
  shows "as_pool_mutex s = None"
proof (rule ccontr)
  assume "as_pool_mutex s \<noteq> None"
  then obtain u where u: "u < length (as_threads s)" "in_lock (th_code (as_threads s ! u))"
    using inv_parts(3) [OF inv] by (auto simp: mutex_inv_def)
  then obtain i rest where code: "th_code (as_threads s ! u) = i # rest" by (cases "th_code (as_threads s ! u)") auto
  have "th_code (as_threads s ! u) \<noteq> []" using code by simp
  with inv u(1) have "i = ReturnObject \<Longrightarrow> th_buffer (as_threads s ! u) \<noteq> None"
  proof (cases rule: threads_cases)
    case 1
    then show "i = ReturnObject \<Longrightarrow> th_buffer (as_threads s ! u) \<noteq> None"
      using code by (auto simp: worker_ok_def code_defs split: option.splits)
  next
    case 2
    then show "i = ReturnObject \<Longrightarrow> th_buffer (as_threads s ! u) \<noteq> None"
      using code by (auto simp: caller_ok_def code_defs split: option.splits)
  next
    case (3 k)
    then show "i = ReturnObject \<Longrightarrow> th_buffer (as_threads s ! u) \<noteq> None"
      using code by (auto simp: as_destructor_def less_Suc_eq numeral_eq_Suc)
  qed
  then show False
    using quiet_thread [OF quiet u(1) code] u(2) code by (auto split: prod.splits)
qed

lemma quiet_worker:
  assumes inv: "as_inv s" and quiet: "as_quiescent s"
  shows "th_buffer (as_threads s ! 0) = None \<and> in_hand (as_threads s ! 0) = [] \<and>
    (th_code (as_threads s ! 0) = [] \<or> log_live (as_threads s ! 0) \<and> as_queue s = [])"
proof -
  have ok: "worker_ok (content s) (as_threads s ! 0)" and ne: "as_threads s \<noteq> []"
    using inv_parts(4) [OF inv] by (simp_all add: threads_inv_def)
  show ?thesis
  proof (cases "th_code (as_threads s ! 0)")
    case Nil
    then show ?thesis using ok by (auto simp: worker_ok_def in_hand_def logThreadFunc_def split: option.splits)
  next
    case (Cons i rest)
    have "as_exec 0 (th_buffer (as_threads s ! 0)) i rest s = None"
      by (rule quiet_thread [OF quiet _ Cons]) (use ne in simp)
    with ok Cons show ?thesis
    proof (cases rule: worker_cases)
      case 1
      then show ?thesis using \<open>as_exec 0 _ _ _ s = None\<close> Cons
        by (auto simp: in_hand_def log_live_def logThreadFunc_def split: list.splits)
    qed (auto simp: quiet_mutex [OF inv quiet])
  qed
qed

lemma quiet_push:
  assumes inv: "as_inv s" and quiet: "as_quiescent s" and live: "log_live (as_threads s ! 0)"
  shows "push_item x s = Some ([Enq x], s\<lparr>as_queue := [x]\<rparr>)"
proof -
  have "as_queue s = []" using quiet_worker [OF inv quiet] live by (auto simp: log_live_def)
  then show ?thesis by (cases "as_queue_size s") (simp_all add: push_item_def)
qed

lemma quiet_caller:
  assumes inv: "as_inv s" and quiet: "as_quiescent s" and t: "t < length (as_threads s)" "0 < t"
  shows "th_code (as_threads s ! t) = [] \<and> th_buffer (as_threads s ! t) = None"
proof (cases "th_code (as_threads s ! t)")
  case Nil
  have "caller_ok (content s) (as_threads s ! t) \<or> th_buffer (as_threads s ! t) = None"
    using inv_parts(4,6) [OF inv] t by (auto simp: threads_inv_def close_inv_def)
  then show ?thesis using Nil by (auto simp: caller_ok_def as_log_def split: option.splits)
next
  case (Cons i rest)
  note blocked = quiet_thread [OF quiet t(1) Cons] and mx = quiet_mutex [OF inv quiet]
  have "th_code (as_threads s ! t) \<noteq> []" using Cons by simp
  with inv t(1) show ?thesis
  proof (cases rule: threads_cases)
    case 1
    then show ?thesis using t by simp
  next
    case 2
    then have "log_live (as_threads s ! 0)" using inv_parts(6) [OF inv] by (auto simp: close_inv_def phase_def)
    then show ?thesis
      using blocked mx quiet_push [OF inv quiet] 2(3) Cons
      by (auto simp: caller_ok_def code_defs split: option.splits prod.splits)
  next
    case (3 k)
    have "k = 0 \<Longrightarrow> log_live (as_threads s ! 0)" "k = 1 \<Longrightarrow> log_live (as_threads s ! 0) \<Longrightarrow> as_queue s \<noteq> []"
      using 3 by (auto simp: phase_def)
    then show ?thesis
      using blocked quiet_push [OF inv quiet] quiet_worker [OF inv quiet] 3(4,5) Cons
      by (auto simp: as_destructor_def less_Suc_eq numeral_eq_Suc split: option.splits)
  qed
qed

lemma deleted_late:
  assumes inv: "as_inv s" and "as_sink_deleted s"
  shows "in_hand (as_threads s ! 0) = [] \<and> as_queue s = []"
proof -
  have "phase k s \<Longrightarrow> th_code (as_threads s ! 0) = [] \<and> as_queue s = []" for k
    using assms(2) by (auto simp: phase_def split: if_splits)
  then have "th_code (as_threads s ! 0) = [] \<and> as_queue s = []"
    using inv_parts(6) [OF inv] by (auto simp: close_inv_def split: option.splits)
  then show ?thesis by (simp add: in_hand_def logThreadFunc_def)
qed

text \<open>The end of a run: everything is written; if the object was destroyed, so are its buffers.\<close>

lemma quiet_end:
  assumes inv: "as_inv s" and quiet: "as_quiescent s"
  shows "as_written s = as_logged s" "accounted s = mset (as_logged s)"
    "as_closer s \<noteq> None \<Longrightarrow> as_sink_deleted s \<and> mset (as_deleted s) = mset [0..<length (op_objects (as_pool s))]"
proof -
  note parts = inv_parts [OF inv] and w = quiet_worker [OF inv quiet] and idle = quiet_caller [OF inv quiet]
  have ne: "as_threads s \<noteq> []" using parts(4) by (simp add: threads_inv_def)
  have ended: "phase 5 s" if closing: "as_closer s \<noteq> None"
  proof -
    obtain d k where d: "0 < d" "d < length (as_threads s)" "k \<le> 5"
      "th_code (as_threads s ! d) = drop k as_destructor" "phase k s"
      using parts(6) closing by (auto simp: close_inv_def)
    then have "k = 5" using idle [OF d(2,1)] by (auto simp: as_destructor_def)
    then show ?thesis using d by simp
  qed
  have queue: "as_queue s = []"
  proof (cases "as_closer s")
    case None
    then show ?thesis using w parts(6) by (auto simp: close_inv_def phase_def log_live_def)
  qed (use ended in \<open>simp add: phase_def\<close>)
  then show "as_written s = as_logged s" using parts(5) w by (simp add: log_inv_def)
  have none: "held th = [] \<and> not_pushed th = []" if member: "th \<in> set (as_threads s)" for th
  proof -
    obtain u where u: "u < length (as_threads s)" "th = as_threads s ! u"
      using member by (auto simp: in_set_conv_nth)
    have "QueuePush \<notin> set (th_code (as_threads s ! 0))"
      using parts(4) by (auto simp: threads_inv_def worker_ok_def logThreadFunc_def split: option.splits)
    then show ?thesis using u w idle [OF u(1)] by (cases "u = 0") (auto simp: held_def not_pushed_def)
  qed
  then show "accounted s = mset (as_logged s)" by (simp add: accounted_def)
  show "as_sink_deleted s \<and> mset (as_deleted s) = mset [0..<length (op_objects (as_pool s))]"
    if "as_closer s \<noteq> None"
  proof -
    have "all_owned s = as_deleted s" using none ended [OF that] queue by (simp add: all_owned_def phase_def)
    then show ?thesis using ended [OF that] parts(1) by (simp add: phase_def own_inv_def)
  qed
qed

section \<open>Properties\<close>

text \<open>C10. What the adapted sink is given is what was logged, in the order in which the texts were pushed,
  however the threads are scheduled and although the buffers are used again and again; with a bounded
  queue the sink is never more than one text behind the bound. The adapted sink is deleted only after
  it was given everything. When no thread can go on, every text of every call has been written, once;
  and if the object was destroyed the destructor has ended and every buffer ever made has been deleted,
  once.\<close>

theorem log_reaches_sink:
  assumes run: "as_run es (LogAsyncSink m n) = Some (seen, s)" and small: "\<forall>e \<in> set es. text_ok e"
  shows "prefix (as_written s) (as_logged s) \<and>
    (m \<noteq> 0 \<longrightarrow> length (as_logged s) \<le> length (as_written s) + m + 1) \<and>
    (as_sink_deleted s \<longrightarrow> as_written s = as_logged s) \<and>
    (as_quiescent s \<longrightarrow> as_written s = as_logged s \<and> mset (as_written s) = mset (concat (map call_text es)) \<and>
      (as_closer s \<noteq> None \<longrightarrow>
        as_sink_deleted s \<and> mset (as_deleted s) = mset [0..<length (op_objects (as_pool s))]))"
proof -
  note start = LogAsyncSink_inv [of m n]
  have inv: "as_inv s" using las.run_spec [OF start small run] by blast
  note parts = inv_parts [OF inv]
  have log: "as_logged s = as_written s @ map (content s) (in_hand (as_threads s ! 0) @ ptrs (as_queue s))"
    using parts(5) by (simp add: log_inv_def)
  have "length (ptrs (as_queue s)) \<le> m" if "m \<noteq> 0"
    using las.run_bounded [OF start small run] length_ptrs [of "as_queue s"] that
    by (simp add: LogAsyncSink_def)
  moreover have "length (in_hand (as_threads s ! 0)) \<le> 1"
    by (simp add: in_hand_def held_def split: option.split)
  ultimately have "m \<noteq> 0 \<longrightarrow> length (as_logged s) \<le> length (as_written s) + m + 1"
    unfolding log by fastforce
  moreover have "as_written s = as_logged s" if "as_sink_deleted s"
    using log deleted_late [OF inv that] by simp
  moreover have "accounted s = mset (concat (map call_text es))"
    using run_accounted [OF start small run] by (simp add: accounted_def LogAsyncSink_def logThreadFunc_def not_pushed_def)
  ultimately show ?thesis
    using quiet_end [OF inv] by (auto simp: log intro: prefixI)
qed

text \<open>One text through a queue of one place, then the destructor.\<close>

definition as_sample :: "as_event list" where
  "as_sample = ALog 1 [7] # replicate 5 (ARun 1) @ ADestroy 1 # replicate 8 (ARun 0) @ ARun 1 # ARun 0 # ARun 0 #
     replicate 4 (ARun 1)"

theorem log_reaches_sink_witness:
  "\<exists>seen s. as_run as_sample (LogAsyncSink 1 1) = Some (seen, s) \<and>
     as_quiescent s \<and> as_closer s = Some 1 \<and> as_written s = [[7]] \<and> as_sink_deleted s \<and> as_deleted s = [0]"
proof -
  define s0 where "s0 = LogAsyncSink 1 1"
  obtain seen s where run: "as_run as_sample s0 = Some (seen, s)"
    and ends: "as_threads s = [\<lparr>th_code = [], th_buffer = None, th_text = []\<rparr>, \<lparr>th_code = [], th_buffer = None, th_text = [7]\<rparr>]"
      "as_closer s = Some 1" "as_logged s = [[7]]" "as_deleted s = [0]"
    by (simp add: as_sample_def s0_def LogAsyncSink_def ObjectPool_def as_idle_def code_defs go_def push_item_def
        getObject_def returnObject_def on_buffer_def op_update_def ptrs_def numeral_eq_Suc)
  have quiet: "as_quiescent s" by (simp add: as_quiescent_def ends nth_Cons split: nat.split)
  have "\<forall>e \<in> set as_sample. text_ok e" by (simp add: as_sample_def text_ok_def db_limit_def)
  from log_reaches_sink [OF run [unfolded s0_def] this] show ?thesis
    using run quiet ends by (auto simp: s0_def)
qed

end
