(* ===== verification/LogFileSink.thy ===== *)
theory LogFileSink
  imports TimeStamp
begin

text \<open>
  \<^verbatim>\<open>src/src/brickred/log_file_sink.{h,cc}\<close>: a sink that writes to a file whose name is made from the
  time, and that changes to another file when the name changes. The files are the handles open at
  the moment and the bytes in each file; whether \<open>fopen\<close> succeeds, the time and its formatting
  (\<open>Timestamp::format\<close>) are arguments. \<open>fwrite\<close> and \<open>fclose\<close> of an open handle succeed.
\<close>

section \<open>The sink\<close>

text \<open>\<open>fs_fault\<close>: a null pointer was written to.\<close>

record files =
  fs_open :: "nat \<Rightarrow> bytes option"
  fs_next :: nat
  fs_data :: "bytes \<Rightarrow> bytes"
  fs_fault :: bool

definition fopen_a :: "bool \<Rightarrow> bytes \<Rightarrow> files \<Rightarrow> nat option \<times> files" where
  "fopen_a succeeds path w =
     (if succeeds then (Some (fs_next w), w\<lparr>fs_open := (fs_open w)(fs_next w := Some path), fs_next := fs_next w + 1\<rparr>)
      else (None, w))"

definition fclose :: "nat \<Rightarrow> files \<Rightarrow> files" where
  "fclose fp w = w\<lparr>fs_open := (fs_open w)(fp := None)\<rparr>"

definition fwrite :: "bytes \<Rightarrow> nat option \<Rightarrow> files \<Rightarrow> files" where
  "fwrite buffer fp w =
     (case fp of
        None \<Rightarrow> w\<lparr>fs_fault := True\<rparr>
      | Some h \<Rightarrow>
          (case fs_open w h of
             None \<Rightarrow> w\<lparr>fs_fault := True\<rparr>
           | Some path \<Rightarrow> w\<lparr>fs_data := (fs_data w)(path := fs_data w path @ buffer)\<rparr>))"

record file_sink =
  lf_file_path :: bytes
  lf_actual_file_path :: bytes
  lf_fp :: "nat option"

definition LogFileSink :: "bytes \<Rightarrow> file_sink" where
  "LogFileSink file_path = \<lparr>lf_file_path = file_path, lf_actual_file_path = [], lf_fp = None\<rparr>"

definition delete_LogFileSink :: "file_sink \<Rightarrow> files \<Rightarrow> files" where
  "delete_LogFileSink g w = (case lf_fp g of None \<Rightarrow> w | Some fp \<Rightarrow> fclose fp w)"

text \<open>\<open>path_at\<close> gives the path for a time in seconds, by \<open>Timestamp::format\<close>.\<close>

definition openFile ::
    "(bytes \<Rightarrow> int \<Rightarrow> bytes) \<Rightarrow> timestamp \<Rightarrow> bool \<Rightarrow> file_sink \<times> files \<Rightarrow> bool \<times> file_sink \<times> files" where
  "openFile path_at now succeeds st =
     (let (g, w) = st;
          actual_file_path = path_at (lf_file_path g) (ts_second now)
      in if lf_actual_file_path g = actual_file_path then (True, g, w)
         else
           let g1 = g\<lparr>lf_actual_file_path := actual_file_path\<rparr>;
               (fp, w1) = fopen_a succeeds actual_file_path w
           in (case fp of
                 None \<Rightarrow> (False, g1, w1)
               | Some h \<Rightarrow> (True, g1\<lparr>lf_fp := Some h\<rparr>, case lf_fp g of None \<Rightarrow> w1 | Some old \<Rightarrow> fclose old w1)))"

definition lf_log ::
    "(bytes \<Rightarrow> int \<Rightarrow> bytes) \<Rightarrow> timestamp \<times> bool \<times> bytes \<Rightarrow> file_sink \<times> files \<Rightarrow> file_sink \<times> files" where
  "lf_log path_at call st =
     (case call of (now, succeeds, buffer) \<Rightarrow>
        let (ok, g, w) = openFile path_at now succeeds st
        in if \<not> ok then (g, w) else (g, fwrite buffer (lf_fp g) w))"

section \<open>Every text in the file of its time\<close>

text \<open>The handle of the sink, and no other, is open, on the current path.\<close>

definition lf_inv :: "file_sink \<times> files \<Rightarrow> bool" where
  "lf_inv st \<longleftrightarrow>
     (case st of (g, w) \<Rightarrow>
        \<not> fs_fault w \<and> (\<forall>h \<ge> fs_next w. fs_open w h = None) \<and>
        (case lf_fp g of
           None \<Rightarrow> fs_open w = (\<lambda>_. None) \<and> lf_actual_file_path g = []
         | Some fp \<Rightarrow> fs_open w = (\<lambda>h. if h = fp then Some (lf_actual_file_path g) else None)))"

lemma lf_log_file:
  assumes "lf_inv (g, w)" and "path_at (lf_file_path g) (ts_second now) = path" and "path \<noteq> []"
  shows "case lf_log path_at (now, True, buffer) (g, w) of (g', w') \<Rightarrow>
    lf_inv (g', w') \<and> lf_file_path g' = lf_file_path g \<and>
    fs_data w' = (fs_data w)(path := fs_data w path @ buffer)"
  using assms
  by (cases "lf_fp g"; cases "lf_actual_file_path g = path")
     (auto simp: lf_inv_def lf_log_def openFile_def fopen_a_def fclose_def fwrite_def fun_eq_iff)

text \<open>The texts of the calls whose time has the given path.\<close>

fun texts_at :: "(int \<Rightarrow> bytes) \<Rightarrow> bytes \<Rightarrow> (timestamp \<times> bool \<times> bytes) list \<Rightarrow> bytes" where
  "texts_at path_of path [] = []"
| "texts_at path_of path ((now, ok, buffer) # calls) =
     (if path_of (ts_second now) = path then buffer else []) @ texts_at path_of path calls"

text \<open>If every \<open>fopen\<close> succeeds, each file has got the texts logged at its times, in order, and only
  one file is open at any time.\<close>

lemma logs_go_to_their_files:
  assumes "lf_inv st" and "\<forall>call \<in> set calls. fst (snd call) \<and> path_at (lf_file_path (fst st)) (ts_second (fst call)) \<noteq> []"
  shows "lf_inv (fold (lf_log path_at) calls st) \<and>
    fs_data (snd (fold (lf_log path_at) calls st)) path =
      fs_data (snd st) path @ texts_at (path_at (lf_file_path (fst st))) path calls"
  using assms
proof (induction calls arbitrary: st)
  case (Cons call calls)
  obtain now buffer where call: "call = (now, True, buffer)" using Cons.prems(2) by (cases call) auto
  define p where "p = path_at (lf_file_path (fst st)) (ts_second now)"
  define st1 where "st1 = lf_log path_at call st"
  have one: "lf_inv st1" "lf_file_path (fst st1) = lf_file_path (fst st)"
    "fs_data (snd st1) = (fs_data (snd st))(p := fs_data (snd st) p @ buffer)"
    using lf_log_file [of "fst st" "snd st" path_at now p buffer] Cons.prems
    by (auto simp: st1_def call p_def split: prod.splits)
  have "\<forall>call \<in> set calls. fst (snd call) \<and> path_at (lf_file_path (fst st1)) (ts_second (fst call)) \<noteq> []"
    using Cons.prems(2) one(2) by simp
  from Cons.IH [OF one(1) this] show ?case
    using one(2,3) by (simp add: call p_def flip: st1_def [unfolded call])
qed simp

text \<open>Whether \<open>fopen\<close> succeeds or not: no file is open but that of the sink, and nothing that was written is lost.\<close>

definition one_handle :: "file_sink \<times> files \<Rightarrow> bool" where
  "one_handle st \<longleftrightarrow>
     (case st of (g, w) \<Rightarrow> (\<forall>h \<ge> fs_next w. fs_open w h = None) \<and> dom (fs_open w) = set_option (lf_fp g))"

lemma openFile_one_handle:
  assumes one: "one_handle (g, w)" and run: "openFile path_at now ok (g, w) = (r, g', w')"
  shows "one_handle (g', w')" and "fs_data w' = fs_data w"
proof -
  have fresh: "\<forall>h \<ge> fs_next w. fs_open w h = None" and dom: "dom (fs_open w) = set_option (lf_fp g)"
    using one by (simp_all add: one_handle_def)
  then have old: "fs_next w \<notin> set_option (lf_fp g)" by (metis domIff order_refl)
  have none: "fs_open w h = None \<longleftrightarrow> h \<notin> set_option (lf_fp g)" for h by (metis dom domIff)
  show "one_handle (g', w')"
  proof (cases "lf_actual_file_path g = path_at (lf_file_path g) (ts_second now)")
    case False
    show ?thesis
    proof (cases ok)
      case True
      have "\<forall>h \<ge> fs_next w'. fs_open w' h = None" "lf_fp g' = Some (fs_next w)"
        "fs_open w' = (\<lambda>h. if h = fs_next w then Some (path_at (lf_file_path g) (ts_second now)) else None)"
        using run False True fresh old none
        by (cases "lf_fp g"; auto simp: openFile_def fopen_a_def fclose_def Let_def fun_eq_iff)+
      then show ?thesis by (auto simp: one_handle_def split: if_splits)
    qed (use run False fresh dom in \<open>auto simp: openFile_def fopen_a_def one_handle_def Let_def\<close>)
  qed (use run fresh dom in \<open>auto simp: openFile_def one_handle_def Let_def\<close>)
  show "fs_data w' = fs_data w"
    using run by (auto simp: openFile_def fopen_a_def fclose_def Let_def split: if_splits option.splits)
qed

lemma lf_log_one_handle:
  assumes "one_handle st"
  shows "one_handle (lf_log path_at call st)"
    and "\<exists>zs. fs_data (snd (lf_log path_at call st)) path = fs_data (snd st) path @ zs"
proof -
  obtain g w where st: "st = (g, w)" by (cases st) blast
  obtain now ok buffer where call: "call = (now, ok, buffer)" by (cases call) blast
  obtain r g' w' where opened: "openFile path_at now ok (g, w) = (r, g', w')"
    by (cases "openFile path_at now ok (g, w)") blast
  note kept = openFile_one_handle [OF assms [unfolded st] opened]
  have "fs_open (fwrite buffer fp w') = fs_open w'" "fs_next (fwrite buffer fp w') = fs_next w'"
    "\<exists>zs. fs_data (fwrite buffer fp w') path = fs_data w' path @ zs" for fp
    by (auto simp: fwrite_def split: option.splits)
  then show "one_handle (lf_log path_at call st)"
    "\<exists>zs. fs_data (snd (lf_log path_at call st)) path = fs_data (snd st) path @ zs"
    using kept by (simp_all add: st call lf_log_def opened one_handle_def)
qed

lemma logs_one_handle:
  "one_handle st \<Longrightarrow> one_handle (fold (lf_log path_at) calls st) \<and>
    (\<exists>zs. fs_data (snd (fold (lf_log path_at) calls st)) path = fs_data (snd st) path @ zs)"
proof (induction calls arbitrary: st)
  case (Cons call calls)
  obtain zs where "fs_data (snd (lf_log path_at call st)) path = fs_data (snd st) path @ zs"
    using lf_log_one_handle(2) [OF Cons.prems] by blast
  moreover from Cons.IH [OF lf_log_one_handle(1) [OF Cons.prems]] obtain zs' where
    "fs_data (snd (fold (lf_log path_at) calls (lf_log path_at call st))) path = fs_data (snd (lf_log path_at call st)) path @ zs'"
    and "one_handle (fold (lf_log path_at) calls (lf_log path_at call st))" by blast
  ultimately show ?case by simp
qed simp

text \<open>A failed \<open>fopen\<close> leaves the new path in \<open>actual_file_path_\<close>: the next call takes it for open and
  writes to the null pointer, or to the file of the time before.\<close>

lemma failed_open_is_forgotten:
  assumes "path_at file_path (ts_second now) \<noteq> []"
  shows "fs_fault (snd (fold (lf_log path_at) [(now, False, xs), (now, True, ys)] (LogFileSink file_path, w)))"
  using assms by (simp add: lf_log_def openFile_def fopen_a_def fwrite_def LogFileSink_def)

end
