(* ===== verification/LogToFile.thy ===== *)
theory LogToFile
  imports LogAsyncRun LogFileSink
begin

text \<open>
  A \<open>LogAsyncSink\<close> whose adapted sink is a \<open>LogFileSink\<close>: the log thread gives its texts to the file
  sink one after the other, so the files hold what the other threads logged, as far as they can be opened.
\<close>

text \<open>The file sink behind the log thread: at each call the clock shows the next of \<open>clock\<close>, and the next of
  \<open>opens\<close> says whether an \<open>fopen\<close> in this call succeeds.\<close>

definition files_after ::
    "(bytes \<Rightarrow> int \<Rightarrow> bytes) \<Rightarrow> bytes \<Rightarrow> timestamp list \<Rightarrow> bool list \<Rightarrow> bytes list \<Rightarrow> files \<Rightarrow> file_sink \<times> files" where
  "files_after path_at file_path clock opens texts w =
     fold (lf_log path_at) (zip clock (zip opens texts)) (LogFileSink file_path, w)"

text \<open>The texts written at the times with the given path.\<close>

definition texts_of :: "(int \<Rightarrow> bytes) \<Rightarrow> bytes \<Rightarrow> timestamp list \<Rightarrow> bytes list \<Rightarrow> bytes list" where
  "texts_of path_of path clock texts = map snd (filter (\<lambda>(now, x). path_of (ts_second now) = path) (zip clock texts))"

lemma texts_at_calls:
  "length opens = length texts \<Longrightarrow>
    texts_at path_of path (zip clock (zip opens texts)) = concat (texts_of path_of path clock texts)"
  by (induction opens texts arbitrary: clock rule: list_induct2) (auto simp: texts_of_def zip_Cons split: list.split)

text \<open>No file is open, none has been written to by mistake.\<close>

definition no_files_open :: "files \<Rightarrow> bool" where
  "no_files_open w \<longleftrightarrow> \<not> fs_fault w \<and> fs_open w = (\<lambda>_. None)"

lemma files_after_data:
  assumes "no_files_open w" and "\<forall>now \<in> set clock. path_at file_path (ts_second now) \<noteq> []"
    and "length opens = length texts" and "False \<notin> set opens"
  shows "lf_inv (files_after path_at file_path clock opens texts w)"
    and "fs_data (snd (files_after path_at file_path clock opens texts w)) path =
      fs_data w path @ concat (texts_of (path_at file_path) path clock texts)"
proof -
  have start: "lf_inv (LogFileSink file_path, w)"
    using assms(1) by (simp add: lf_inv_def LogFileSink_def no_files_open_def)
  have calls: "\<forall>call \<in> set (zip clock (zip opens texts)).
      fst (snd call) \<and> path_at (lf_file_path (fst (LogFileSink file_path, w))) (ts_second (fst call)) \<noteq> []"
  proof
    fix call assume in_zip: "call \<in> set (zip clock (zip opens texts))"
    obtain now ok x where call: "call = (now, ok, x)" by (cases call) blast
    have "now \<in> set clock" "(ok, x) \<in> set (zip opens texts)"
      using in_zip by (auto simp: call dest: set_zip_leftD set_zip_rightD)
    then have "now \<in> set clock" "ok \<in> set opens" using set_zip_leftD by fast+
    then show "fst (snd call) \<and> path_at (lf_file_path (fst (LogFileSink file_path, w))) (ts_second (fst call)) \<noteq> []"
      using assms(2,4) by (cases ok) (simp_all add: call LogFileSink_def)
  qed
  show "lf_inv (files_after path_at file_path clock opens texts w)"
    "fs_data (snd (files_after path_at file_path clock opens texts w)) path =
      fs_data w path @ concat (texts_of (path_at file_path) path clock texts)"
    using logs_go_to_their_files [OF start, where path_at = path_at and path = path, OF calls]
    by (simp_all add: files_after_def texts_at_calls [OF assms(3)] LogFileSink_def)
qed

text \<open>The calls before the first \<open>fopen\<close> that fails.\<close>

definition opened :: "bool list \<Rightarrow> nat" where
  "opened opens = length (takeWhile (\<lambda>ok. ok) opens)"

lemma files_after_parts:
  assumes "length opens = length texts"
  shows "files_after path_at file_path clock opens texts w =
    fold (lf_log path_at) (drop n (zip clock (zip opens texts)))
      (files_after path_at file_path (take n clock) (take n opens) (take n texts) w)"
proof -
  have "fold (lf_log path_at) (zip clock (zip opens texts)) st =
      fold (lf_log path_at) (drop n (zip clock (zip opens texts))) (fold (lf_log path_at) (take n (zip clock (zip opens texts))) st)" for st
    by (metis append_take_drop_id fold_append o_apply)
  then show ?thesis by (simp add: files_after_def take_zip)
qed

lemma files_after_kept:
  assumes files: "no_files_open w" and named: "\<forall>now \<in> set clock. path_at file_path (ts_second now) \<noteq> []"
    and len: "length opens = length texts"
  shows "one_handle (files_after path_at file_path clock opens texts w)"
    and "\<exists>zs. fs_data (snd (files_after path_at file_path clock opens texts w)) path =
      fs_data w path @ concat (texts_of (path_at file_path) path (take (opened opens) clock) (take (opened opens) texts)) @ zs"
proof -
  let ?n = "opened opens"
  define st where "st = files_after path_at file_path (take ?n clock) (take ?n opens) (take ?n texts) w"
  have ok: "False \<notin> set (take ?n opens)"
    by (simp add: opened_def flip: takeWhile_eq_take) (auto dest: set_takeWhileD)
  have names: "\<forall>now \<in> set (take ?n clock). path_at file_path (ts_second now) \<noteq> []"
    using named by (auto dest: in_set_takeD)
  have data: "fs_data (snd st) path = fs_data w path @ concat (texts_of (path_at file_path) path (take ?n clock) (take ?n texts))"
    unfolding st_def using files_after_data(2) [where path_at = path_at and file_path = file_path and clock = "take ?n clock" and opens = "take ?n opens" and texts = "take ?n texts", OF files names _ ok] len
    by simp
  have "one_handle (LogFileSink file_path, w)"
    using files by (auto simp: one_handle_def LogFileSink_def no_files_open_def)
  then have "one_handle st" unfolding st_def files_after_def by (rule logs_one_handle [THEN conjunct1])
  from logs_one_handle [OF this, of path_at "drop ?n (zip clock (zip opens texts))" path]
  show "one_handle (files_after path_at file_path clock opens texts w)"
    "\<exists>zs. fs_data (snd (files_after path_at file_path clock opens texts w)) path =
      fs_data w path @ concat (texts_of (path_at file_path) path (take ?n clock) (take ?n texts)) @ zs"
    unfolding files_after_parts [OF len, of path_at file_path clock w ?n] st_def [symmetric] data by auto
qed

lemma texts_of_one_file:
  "length clock = length texts \<Longrightarrow> \<forall>now \<in> set clock. path_of (ts_second now) = path \<Longrightarrow>
    texts_of path_of path clock texts = texts"
  by (induction clock texts rule: list_induct2) (simp_all add: texts_of_def)

lemma closed_at_end: "one_handle (g, w) \<Longrightarrow> fs_open (delete_LogFileSink g w) = (\<lambda>_. None) \<and> card (dom (fs_open w)) \<le> 1"
proof -
  assume "one_handle (g, w)"
  then have dom: "dom (fs_open w) = set_option (lf_fp g)" by (simp add: one_handle_def)
  then have "\<forall>h. h \<notin> set_option (lf_fp g) \<longrightarrow> fs_open w h = None" by auto
  then show ?thesis
    unfolding dom by (cases "lf_fp g") (auto simp: delete_LogFileSink_def fclose_def fun_eq_iff)
qed

lemma quiet_written:
  assumes run: "as_run es (LogAsyncSink m n) = Some (seen, s)" and small: "\<forall>e \<in> set es. text_ok e"
    and quiet: "as_quiescent s"
  shows "as_written s = as_logged s" and "mset (as_written s) = mset (concat (map call_text es))"
proof -
  note start = LogAsyncSink_inv [of m n]
  have inv: "as_inv s" using las.run_spec [OF start small run] by blast
  have "accounted s = mset (concat (map call_text es))"
    using run_accounted [OF start small run] by (simp add: accounted_def LogAsyncSink_def logThreadFunc_def not_pushed_def)
  then show "as_written s = as_logged s" "mset (as_written s) = mset (concat (map call_text es))"
    using quiet_end(1,2) [OF inv quiet] by simp_all
qed

section \<open>Properties\<close>

text \<open>C11. What any threads log ends in the files, as far as they can be opened. When no thread can go on, the
  text of every call of \<open>log\<close> has been given to the file sink, once. If every \<open>fopen\<close> succeeds, each file has got,
  behind what it held before, the texts written while its path was the current one, in the order in which they
  were pushed, and so all of them if the path stays the same, and no null pointer was written to. If an \<open>fopen\<close>
  fails, the files hold at least the texts of the calls before it; its own text is lost, and what comes after
  may be (\<open>failed_open_is_forgotten\<close>). In any case one file is open at most, and none when the sink has
  been deleted.\<close>

theorem log_reaches_file:
  assumes run: "as_run es (LogAsyncSink m n) = Some (seen, s)" and small: "\<forall>e \<in> set es. text_ok e"
    and quiet: "as_quiescent s" and files: "no_files_open w"
    and len: "length clock = length (as_written s)" "length opens = length (as_written s)"
    and named: "\<forall>now \<in> set clock. path_at file_path (ts_second now) \<noteq> []"
    and after: "files_after path_at file_path clock opens (as_written s) w = (g, w')"
  shows "mset (as_logged s) = mset (concat (map call_text es)) \<and>
    (False \<notin> set opens \<longrightarrow> \<not> fs_fault w' \<and>
      (\<forall>path. fs_data w' path = fs_data w path @ concat (texts_of (path_at file_path) path clock (as_logged s)) \<and>
         ((\<forall>now \<in> set clock. path_at file_path (ts_second now) = path) \<longrightarrow>
            fs_data w' path = fs_data w path @ concat (as_logged s)))) \<and>
    (\<forall>path. \<exists>zs. fs_data w' path = fs_data w path @
       concat (texts_of (path_at file_path) path (take (opened opens) clock) (take (opened opens) (as_logged s))) @ zs) \<and>
    card (dom (fs_open w')) \<le> 1 \<and> fs_open (delete_LogFileSink g w') = (\<lambda>_. None)"
proof -
  note sent = quiet_written [OF run small quiet]
  note all = files_after_data [OF files, where clock = clock and path_at = path_at and file_path = file_path
      and texts = "as_written s" and opens = opens, OF named len(2), unfolded after]
  note kept = files_after_kept [OF files, where clock = clock and path_at = path_at and file_path = file_path
      and texts = "as_written s" and opens = opens, OF named len(2), unfolded after]
  have "\<not> fs_fault w' \<and> (\<forall>path. fs_data w' path = fs_data w path @ concat (texts_of (path_at file_path) path clock (as_logged s)) \<and>
         ((\<forall>now \<in> set clock. path_at file_path (ts_second now) = path) \<longrightarrow>
            fs_data w' path = fs_data w path @ concat (as_logged s)))" if "False \<notin> set opens"
    using all [OF that] texts_of_one_file [OF len(1)] sent(1) by (simp add: lf_inv_def)
  moreover have "\<exists>zs. fs_data w' path = fs_data w path @
       concat (texts_of (path_at file_path) path (take (opened opens) clock) (take (opened opens) (as_logged s))) @ zs" for path
    using kept(2) [of path] sent(1) by simp
  moreover have "mset (as_logged s) = mset (concat (map call_text es))" using sent by simp
  ultimately show ?thesis using closed_at_end [OF kept(1)] by (intro conjI impI allI) blast+
qed

text \<open>The sample run, in an hour whose file is called 1 and can be opened.\<close>

theorem log_reaches_file_witness:
  "\<exists>seen s g w'. as_run as_sample (LogAsyncSink 1 1) = Some (seen, s) \<and>
     files_after (\<lambda>_ _. [1]) [] [Timestamp 5 0] [True] (as_written s)
       \<lparr>fs_open = \<lambda>_. None, fs_next = 0, fs_data = \<lambda>_. [3], fs_fault = False\<rparr> = (g, w') \<and>
     fs_data w' [1] = [3, 7] \<and> card (dom (fs_open w')) \<le> 1"
proof -
  define s0 where "s0 = LogAsyncSink 1 1"
  define w :: files where "w = \<lparr>fs_open = \<lambda>_. None, fs_next = 0, fs_data = \<lambda>_. [3], fs_fault = False\<rparr>"
  obtain seen s where run: "as_run as_sample s0 = Some (seen, s)"
    and ends: "as_threads s = [\<lparr>th_code = [], th_buffer = None, th_text = []\<rparr>, \<lparr>th_code = [], th_buffer = None, th_text = [7]\<rparr>]"
      "as_logged s = [[7]]"
    by (simp add: as_sample_def s0_def LogAsyncSink_def ObjectPool_def as_idle_def code_defs go_def push_item_def
        getObject_def returnObject_def on_buffer_def op_update_def ptrs_def numeral_eq_Suc)
  have quiet: "as_quiescent s" by (simp add: as_quiescent_def ends nth_Cons split: nat.split)
  have small: "\<forall>e \<in> set as_sample. text_ok e" by (simp add: as_sample_def text_ok_def db_limit_def)
  have written: "as_written s = [[7]]" using quiet_written(1) [OF run [unfolded s0_def] small quiet] ends by simp
  obtain g w' where after: "files_after (\<lambda>_ _. [1]) [] [Timestamp 5 0] [True] (as_written s) w = (g, w')"
    by (cases "files_after (\<lambda>_ _. [1]) [] [Timestamp 5 0] [True] (as_written s) w") blast
  from log_reaches_file [OF run [unfolded s0_def] small quiet _ _ _ _ after] show ?thesis
    using run after by (auto simp: s0_def w_def no_files_open_def ends written)
qed

end
