(* ===== verification/Thread.thy ===== *)
theory Thread
  imports TimeStamp
begin

text \<open>
  \<^verbatim>\<open>src/src/brickred/thread.{h,cc}\<close>: a thread that can be started once, joined by any number of threads
  and detached. All members are guarded by one mutex, so that what a thread does from taking the
  mutex to releasing it, at the end of a block or by \<open>wait\<close>, is one step here; the steps of the
  callers, of the new thread and of the kernel come in any order. \<open>notifyAll\<close> wakes every thread
  blocked in \<open>done_cond_.wait\<close>, and a blocked thread may also wake up for no reason.
\<close>

section \<open>State\<close>

text \<open>The thread that was created: in \<open>thread_func_\<close>, in \<open>threadProxy\<close> after it, ended. A caller of
  \<open>join\<close>: blocked in the first or in the second loop (True: woken up, about to test again), at
  \<open>pthread_join\<close>, behind it.\<close>

datatype worker = NotCreated | InFunc | InProxy | Ended

datatype caller = NotInside | WaitDone bool | WaitJoined bool | AtJoin | Reaped

text \<open>\<open>td_reaped\<close> and \<open>td_detached\<close> count the calls of \<open>pthread_join\<close> that returned and of
  \<open>pthread_detach\<close>. \<open>td_fault\<close>: a member was used after the object was freed, or \<open>pthread_detach\<close> was
  called without a thread.\<close>

record thread_impl =
  td_started :: bool
  td_done :: bool
  td_join_started :: bool
  td_joined :: bool
  td_worker :: worker
  td_callers :: "caller list"
  td_reaped :: nat
  td_detached :: nat
  td_freed :: bool
  td_fault :: bool

definition Thread :: "nat \<Rightarrow> thread_impl" where
  "Thread n =
     \<lparr>td_started = False, td_done = False, td_join_started = False, td_joined = False,
      td_worker = NotCreated, td_callers = replicate n NotInside, td_reaped = 0, td_detached = 0,
      td_freed = False, td_fault = False\<rparr>"

section \<open>Operations\<close>

definition set_caller :: "nat \<Rightarrow> caller \<Rightarrow> thread_impl \<Rightarrow> thread_impl" where
  "set_caller c st s = s\<lparr>td_callers := (td_callers s)[c := st]\<rparr>"

fun wake :: "caller \<Rightarrow> caller" where
  "wake (WaitDone b) = WaitDone True"
| "wake (WaitJoined b) = WaitJoined True"
| "wake st = st"

definition notifyAll :: "thread_impl \<Rightarrow> thread_impl" where
  "notifyAll s = s\<lparr>td_callers := map wake (td_callers s)\<rparr>"

text \<open>What can be seen from outside: an exception, a return of \<open>join\<close>, the answer of \<open>joinable\<close>.\<close>

datatype td_out = Threw | JoinReturned nat | IsJoinable bool

text \<open>\<open>created\<close> is the answer of \<open>pthread_create\<close>.\<close>

definition td_start :: "bool \<Rightarrow> thread_impl \<Rightarrow> td_out list \<times> thread_impl" where
  "td_start created s =
     (if td_started s then ([Threw], s)
      else if \<not> created then ([Threw], s)
      else ([], s\<lparr>td_started := True, td_worker := InFunc\<rparr>))"

definition joinable :: "thread_impl \<Rightarrow> bool" where
  "joinable s \<longleftrightarrow> td_started s \<and> \<not> td_joined s"

text \<open>The loops of \<open>join\<close>, entered and tested again after \<open>wait\<close>.\<close>

definition loop_joined :: "nat \<Rightarrow> thread_impl \<Rightarrow> td_out list \<times> thread_impl" where
  "loop_joined c s =
     (if \<not> td_joined s then ([], set_caller c (WaitJoined False) s)
      else ([JoinReturned c], set_caller c NotInside s))"

definition loop_done :: "nat \<Rightarrow> thread_impl \<Rightarrow> td_out list \<times> thread_impl" where
  "loop_done c s =
     (if \<not> td_done s then ([], set_caller c (WaitDone False) s)
      else if \<not> td_join_started s then ([], set_caller c AtJoin (s\<lparr>td_join_started := True\<rparr>))
      else loop_joined c s)"

text \<open>\<open>self\<close>: the caller is the thread itself.\<close>

definition td_join :: "nat \<Rightarrow> bool \<Rightarrow> thread_impl \<Rightarrow> td_out list \<times> thread_impl" where
  "td_join c self s = (if self then ([Threw], s) else loop_done c s)"

text \<open>The second block of \<open>join\<close>, after \<open>pthread_join\<close> has returned.\<close>

definition join_end :: "nat \<Rightarrow> thread_impl \<Rightarrow> td_out list \<times> thread_impl" where
  "join_end c s = ([JoinReturned c], notifyAll (set_caller c NotInside (s\<lparr>td_joined := True\<rparr>)))"

definition td_detach :: "thread_impl \<Rightarrow> thread_impl" where
  "td_detach s =
     (if \<not> td_join_started s
      then s\<lparr>td_detached := td_detached s + 1, td_fault := td_fault s \<or> td_worker s = NotCreated,
             td_join_started := True, td_joined := True\<rparr>
      else s)"

text \<open>The block of \<open>threadProxy\<close>.\<close>

definition proxy_end :: "thread_impl \<Rightarrow> thread_impl" where
  "proxy_end s =
     notifyAll (s\<lparr>td_fault := td_fault s \<or> td_freed s, td_done := True, td_worker := Ended\<rparr>)"

definition destroy_Thread :: "thread_impl \<Rightarrow> thread_impl" where
  "destroy_Thread s = (if joinable s then td_detach s else s)\<lparr>td_freed := True\<rparr>"

section \<open>Steps\<close>

text \<open>Calls, spurious wake-ups, and the steps that threads take by themselves: a woken caller tests
  again, \<open>pthread_join\<close> returns when the thread has ended, the joining caller goes on, the function
  ends, \<open>threadProxy\<close> ends. After the destructor only the created thread is left.\<close>

datatype td_event =
  Start bool | Joinable | JoinCall nat bool | Detach | Destroy | WakeUp nat
| Retest nat | PthreadJoin nat | JoinEnd nat | FuncEnd | ProxyEnd

definition at_caller :: "nat \<Rightarrow> caller \<Rightarrow> thread_impl \<Rightarrow> bool" where
  "at_caller c st s \<longleftrightarrow> \<not> td_freed s \<and> c < length (td_callers s) \<and> td_callers s ! c = st"

fun td_step :: "td_event \<Rightarrow> thread_impl \<Rightarrow> (td_out list \<times> thread_impl) option" where
  "td_step (Start created) s = (if td_freed s then None else Some (td_start created s))"
| "td_step Joinable s = (if td_freed s then None else Some ([IsJoinable (joinable s)], s))"
| "td_step (JoinCall c self) s = (if at_caller c NotInside s then Some (td_join c self s) else None)"
| "td_step Detach s = (if td_freed s then None else Some ([], td_detach s))"
| "td_step Destroy s =
     (if td_freed s \<or> \<not> list_all (\<lambda>st. st = NotInside) (td_callers s) then None
      else Some ([], destroy_Thread s))"
| "td_step (WakeUp c) s =
     (if at_caller c (WaitDone False) s then Some ([], set_caller c (WaitDone True) s)
      else if at_caller c (WaitJoined False) s then Some ([], set_caller c (WaitJoined True) s)
      else None)"
| "td_step (Retest c) s =
     (if at_caller c (WaitDone True) s then Some (loop_done c s)
      else if at_caller c (WaitJoined True) s then Some (loop_joined c s)
      else None)"
| "td_step (PthreadJoin c) s =
     (if at_caller c AtJoin s \<and> td_worker s = Ended
      then Some ([], set_caller c Reaped (s\<lparr>td_reaped := td_reaped s + 1\<rparr>)) else None)"
| "td_step (JoinEnd c) s = (if at_caller c Reaped s then Some (join_end c s) else None)"
| "td_step FuncEnd s = (if td_worker s = InFunc then Some ([], s\<lparr>td_worker := InProxy\<rparr>) else None)"
| "td_step ProxyEnd s = (if td_worker s = InProxy then Some ([], proxy_end s) else None)"

fun td_run :: "td_event list \<Rightarrow> thread_impl \<Rightarrow> (td_out list \<times> thread_impl) option" where
  "td_run [] s = Some ([], s)"
| "td_run (e # es) s =
     (case td_step e s of
        None \<Rightarrow> None
      | Some (out1, s1) \<Rightarrow>
          (case td_run es s1 of None \<Rightarrow> None | Some (out2, s2) \<Rightarrow> Some (out1 @ out2, s2)))"

text \<open>No thread can go on by itself.\<close>

definition td_quiescent :: "thread_impl \<Rightarrow> bool" where
  "td_quiescent s \<longleftrightarrow> td_step FuncEnd s = None \<and> td_step ProxyEnd s = None \<and>
     (\<forall>c. td_step (Retest c) s = None \<and> td_step (PthreadJoin c) s = None \<and> td_step (JoinEnd c) s = None)"

section \<open>The invariant\<close>

abbreviation joining :: "thread_impl \<Rightarrow> nat" where
  "joining s \<equiv> count_list (td_callers s) AtJoin"

abbreviation behind :: "thread_impl \<Rightarrow> nat" where
  "behind s \<equiv> count_list (td_callers s) Reaped"

text \<open>The thread is reaped by one caller of \<open>join\<close> or detached by one call, never both; a caller waits
  only for what has not happened yet.\<close>

definition td_inv :: "thread_impl \<Rightarrow> bool" where
  "td_inv s \<longleftrightarrow>
     td_started s = (td_worker s \<noteq> NotCreated) \<and> td_done s = (td_worker s = Ended) \<and>
     joining s + td_reaped s + td_detached s = of_bool (td_join_started s) \<and> behind s \<le> td_reaped s \<and>
     td_joined s = (td_join_started s \<and> joining s + behind s = 0) \<and>
     (\<forall>st \<in> set (td_callers s).
        (st = WaitDone False \<longrightarrow> \<not> td_done s) \<and> (st = WaitJoined False \<longrightarrow> \<not> td_joined s) \<and>
        (st = AtJoin \<or> st = Reaped \<longrightarrow> td_done s) \<and> (\<forall>b. st = WaitJoined b \<longrightarrow> td_join_started s \<and> td_done s))"

lemma count_list_update:
  "i < length xs \<Longrightarrow> count_list (xs[i := y]) x + of_bool (xs ! i = x) = count_list xs x + of_bool (y = x)"
proof (induction xs arbitrary: i)
  case (Cons a xs)
  then show ?case by (cases i) auto
qed simp

lemma count_wake: "st \<in> {AtJoin, Reaped} \<Longrightarrow> count_list (map wake xs) st = count_list xs st"
  by (induction xs) (auto elim: wake.elims)

text \<open>What has to hold of the one caller that moves.\<close>

definition caller_fits :: "caller \<Rightarrow> thread_impl \<Rightarrow> bool" where
  "caller_fits st s \<longleftrightarrow>
     (st = WaitDone False \<longrightarrow> \<not> td_done s) \<and> (st = WaitJoined False \<longrightarrow> \<not> td_joined s) \<and>
     (st = AtJoin \<or> st = Reaped \<longrightarrow> td_done s) \<and> (\<forall>b. st = WaitJoined b \<longrightarrow> td_join_started s \<and> td_done s)"

lemma td_inv_callers:
  "td_inv s \<longleftrightarrow>
     td_started s = (td_worker s \<noteq> NotCreated) \<and> td_done s = (td_worker s = Ended) \<and>
     joining s + td_reaped s + td_detached s = of_bool (td_join_started s) \<and> behind s \<le> td_reaped s \<and>
     td_joined s = (td_join_started s \<and> joining s + behind s = 0) \<and> (\<forall>st \<in> set (td_callers s). caller_fits st s)"
  by (simp add: td_inv_def caller_fits_def)

lemma callers_fit_update:
  "\<forall>st \<in> set (td_callers s). caller_fits st s' \<Longrightarrow> caller_fits st s' \<Longrightarrow>
     \<forall>x \<in> set ((td_callers s)[c := st]). caller_fits x s'"
  using set_update_subset_insert [of "td_callers s" c st] by blast

lemma caller_fits_set_caller [simp]: "caller_fits st (set_caller c st' s) = caller_fits st s"
  by (simp add: caller_fits_def set_caller_def)

lemma set_caller_inv:
  assumes inv: "td_inv s" and c: "c < length (td_callers s)" "td_callers s ! c \<notin> {AtJoin, Reaped}"
    and st: "st \<notin> {AtJoin, Reaped}" "caller_fits st s"
  shows "td_inv (set_caller c st s)"
proof -
  have "count_list ((td_callers s)[c := st]) AtJoin = joining s" "count_list ((td_callers s)[c := st]) Reaped = behind s"
    using count_list_update [OF c(1), of st AtJoin] count_list_update [OF c(1), of st Reaped] c(2) st(1) by auto
  moreover have "\<forall>x \<in> set ((td_callers s)[c := st]). caller_fits x s"
    by (rule callers_fit_update) (use inv st in \<open>simp_all add: td_inv_callers\<close>)
  ultimately show ?thesis using inv
    by (cases "td_join_started s") (simp_all add: td_inv_callers, simp_all add: set_caller_def)
qed

lemma loop_joined_inv:
  assumes "td_inv s" and "c < length (td_callers s)" and "td_callers s ! c \<notin> {AtJoin, Reaped}"
    and "td_join_started s" and "td_done s"
  shows "td_inv (snd (loop_joined c s))"
  using set_caller_inv [OF assms(1-3), of "WaitJoined False"] set_caller_inv [OF assms(1-3), of NotInside] assms(4,5)
  by (simp add: loop_joined_def caller_fits_def)

lemma take_join_inv:
  assumes inv: "td_inv s" and c: "c < length (td_callers s)" "td_callers s ! c \<notin> {AtJoin, Reaped}"
    and "td_done s" and "\<not> td_join_started s"
  shows "td_inv (set_caller c AtJoin (s\<lparr>td_join_started := True\<rparr>))"
proof -
  define s1 where "s1 = s\<lparr>td_join_started := True\<rparr>"
  have "count_list ((td_callers s)[c := AtJoin]) AtJoin = joining s + 1"
    "count_list ((td_callers s)[c := AtJoin]) Reaped = behind s"
    using count_list_update [OF c(1), of AtJoin AtJoin] count_list_update [OF c(1), of AtJoin Reaped] c(2) by auto
  moreover have "\<forall>x \<in> set ((td_callers s)[c := AtJoin]). caller_fits x s1"
    by (rule callers_fit_update) (use inv assms(4) in \<open>auto simp: td_inv_callers caller_fits_def s1_def\<close>)
  ultimately show ?thesis
    using inv assms(4,5) by (simp add: td_inv_callers flip: s1_def) (simp add: set_caller_def s1_def)
qed

lemma loop_done_inv:
  assumes "td_inv s" and "c < length (td_callers s)" and "td_callers s ! c \<notin> {AtJoin, Reaped}"
  shows "td_inv (snd (loop_done c s))"
  using set_caller_inv [OF assms, of "WaitDone False"] take_join_inv [OF assms] loop_joined_inv [OF assms]
  by (auto simp: loop_done_def caller_fits_def)

lemma pthread_join_inv:
  assumes inv: "td_inv s" and c: "c < length (td_callers s)" "td_callers s ! c = AtJoin"
  shows "td_inv (set_caller c Reaped (s\<lparr>td_reaped := td_reaped s + 1\<rparr>))"
proof -
  define s1 where "s1 = s\<lparr>td_reaped := td_reaped s + 1\<rparr>"
  have "count_list ((td_callers s)[c := Reaped]) AtJoin + 1 = joining s"
    "count_list ((td_callers s)[c := Reaped]) Reaped = behind s + 1"
    using count_list_update [OF c(1), of Reaped AtJoin] count_list_update [OF c(1), of Reaped Reaped] c(2) by auto
  moreover have "caller_fits AtJoin s" using inv c nth_mem unfolding td_inv_callers by metis
  then have "\<forall>x \<in> set ((td_callers s)[c := Reaped]). caller_fits x s1"
    by (intro callers_fit_update) (use inv in \<open>auto simp: td_inv_callers caller_fits_def s1_def\<close>)
  ultimately show ?thesis
    using inv
    by (cases "td_join_started s") (simp_all add: td_inv_callers flip: s1_def, auto simp: set_caller_def s1_def)
qed

lemma notifyAll_inv:
  assumes "td_started s = (td_worker s \<noteq> NotCreated)" "td_done s = (td_worker s = Ended)"
    "joining s + td_reaped s + td_detached s = of_bool (td_join_started s)" "behind s \<le> td_reaped s"
    "td_joined s = (td_join_started s \<and> joining s + behind s = 0)" "\<forall>st \<in> set (td_callers s). caller_fits (wake st) s"
  shows "td_inv (notifyAll s)"
  using assms by (auto simp: td_inv_callers notifyAll_def count_wake caller_fits_def)

lemma join_end_inv:
  assumes inv: "td_inv s" and c: "c < length (td_callers s)" "td_callers s ! c = Reaped"
  shows "td_inv (snd (join_end c s))"
proof -
  define s1 where "s1 = set_caller c NotInside (s\<lparr>td_joined := True\<rparr>)"
  have counts: "count_list ((td_callers s)[c := NotInside]) AtJoin = joining s"
    "count_list ((td_callers s)[c := NotInside]) Reaped + 1 = behind s"
    using count_list_update [OF c(1), of NotInside AtJoin] count_list_update [OF c(1), of NotInside Reaped] c(2) by auto
  have old: "\<forall>st \<in> set (td_callers s). caller_fits (wake st) s1"
  proof
    fix st
    assume "st \<in> set (td_callers s)"
    then have "caller_fits st s" using inv by (simp add: td_inv_callers)
    then show "caller_fits (wake st) s1" by (cases st) (auto simp: caller_fits_def s1_def set_caller_def)
  qed
  have started: "td_join_started s" "joining s = 0" "behind s = 1" "td_reaped s = 1" "td_detached s = 0"
    using inv counts by (cases "td_join_started s"; simp add: td_inv_callers)+
  have "td_inv (notifyAll s1)"
  proof (rule notifyAll_inv)
    have "caller_fits (wake st) s1" if "st \<in> set ((td_callers s)[c := NotInside])" for st
      using that set_update_subset_insert [of "td_callers s" c NotInside] old by (auto simp: caller_fits_def)
    then show "\<forall>st \<in> set (td_callers s1). caller_fits (wake st) s1"
      by (simp add: s1_def set_caller_def)
  qed (use inv started counts in \<open>auto simp: s1_def set_caller_def td_inv_callers\<close>)
  then show ?thesis by (simp add: join_end_def s1_def)
qed

lemma proxy_end_inv:
  assumes inv: "td_inv s" and "td_worker s = InProxy"
  shows "td_inv (proxy_end s)"
proof -
  define s1 where "s1 = s\<lparr>td_fault := td_fault s \<or> td_freed s, td_done := True, td_worker := Ended\<rparr>"
  have "\<forall>st \<in> set (td_callers s1). caller_fits (wake st) s1"
  proof
    fix st
    assume "st \<in> set (td_callers s1)"
    then have "caller_fits st s" using inv by (simp add: td_inv_callers s1_def)
    then show "caller_fits (wake st) s1" by (cases st) (auto simp: caller_fits_def s1_def)
  qed
  then have "td_inv (notifyAll s1)"
    by (intro notifyAll_inv) (use inv assms(2) in \<open>simp_all add: td_inv_callers s1_def\<close>)
  then show ?thesis by (simp add: proxy_end_def s1_def)
qed

lemma caller_fits_other [simp]:
  "caller_fits st (s\<lparr>td_started := b\<rparr>) = caller_fits st s"
  "caller_fits st (s\<lparr>td_worker := w\<rparr>) = caller_fits st s"
  by (simp_all add: caller_fits_def)

lemma td_detach_inv:
  assumes inv: "td_inv s"
  shows "td_inv (td_detach s)"
proof (cases "td_join_started s")
  case False
  then have zero: "joining s = 0" "behind s = 0" "td_reaped s = 0" "td_detached s = 0"
    using inv by (simp_all add: td_inv_def)
  have "caller_fits st (td_detach s)" if "caller_fits st s" for st
    using that False by (auto simp: caller_fits_def td_detach_def)
  then show ?thesis using inv False zero by (simp add: td_inv_callers) (simp add: td_detach_def)
qed (use inv in \<open>simp add: td_detach_def\<close>)

lemma td_step_inv:
  assumes inv: "td_inv s" and st: "td_step e s = Some (outs, s')"
  shows "td_inv s'"
proof -
  have waiting: "td_join_started s \<and> td_done s" if "c < length (td_callers s)" "td_callers s ! c = WaitJoined b" for c b
    using inv nth_mem [OF that(1)] that(2) by (auto simp: td_inv_def)
  show ?thesis
  proof (cases e)
    case (Start created)
    then have "s' = s \<or> \<not> td_started s \<and> s' = s\<lparr>td_started := True, td_worker := InFunc\<rparr>"
      using st by (auto simp: td_start_def split: if_splits)
    then show ?thesis using inv by (elim disjE) (simp_all add: td_inv_callers)
  next
    case (JoinCall c self)
    then show ?thesis
      using st loop_done_inv [OF inv, of c] inv by (auto simp: at_caller_def td_join_def split: if_splits)
  next
    case Detach
    then show ?thesis using st td_detach_inv [OF inv] by (auto split: if_splits)
  next
    case Destroy
    have free: "td_inv (s1\<lparr>td_freed := True\<rparr>) = td_inv s1" for s1 by (simp add: td_inv_def)
    show ?thesis using Destroy st td_detach_inv [OF inv] inv by (auto simp: destroy_Thread_def free split: if_splits)
  next
    case (WakeUp c)
    then show ?thesis
      using st set_caller_inv [OF inv, of c "WaitDone True"] set_caller_inv [OF inv, of c "WaitJoined True"]
        waiting [of c]
      by (auto simp: at_caller_def caller_fits_def split: if_splits)
  next
    case (Retest c)
    then show ?thesis
      using st loop_done_inv [OF inv, of c] loop_joined_inv [OF inv, of c] waiting [of c]
      by (auto simp: at_caller_def split: if_splits)
  next
    case (PthreadJoin c)
    then show ?thesis using st pthread_join_inv [OF inv, of c] by (auto simp: at_caller_def split: if_splits)
  next
    case (JoinEnd c)
    then show ?thesis using st join_end_inv [OF inv, of c] by (auto simp: at_caller_def split: if_splits)
  next
    case FuncEnd
    then have "td_worker s = InFunc" "s' = s\<lparr>td_worker := InProxy\<rparr>" using st by (auto split: if_splits)
    then show ?thesis using inv by (simp add: td_inv_callers)
  next
    case ProxyEnd
    then show ?thesis using proxy_end_inv [OF inv] st by (auto split: if_splits)
  qed (use inv st in \<open>auto split: if_splits\<close>)
qed

text \<open>\<open>join\<close> returns only after the function has ended.\<close>

lemma td_step_out:
  assumes inv: "td_inv s" and st: "td_step e s = Some (outs, s')"
  shows "(td_done s \<longrightarrow> td_done s') \<and> (\<forall>c. JoinReturned c \<in> set outs \<longrightarrow> td_done s')"
proof -
  have loops: "loop_done d s = (outs, s') \<Longrightarrow> td_done s' = td_done s \<and> (\<forall>c. JoinReturned c \<in> set outs \<longrightarrow> td_done s)"
    "loop_joined d s = (outs, s') \<Longrightarrow> td_done s' = td_done s" for d
    by (auto simp: loop_done_def loop_joined_def set_caller_def split: if_splits)
  have moving: "td_done s" if "d < length (td_callers s)" "td_callers s ! d = Reaped \<or> (\<exists>b. td_callers s ! d = WaitJoined b)" for d
    using inv nth_mem [OF that(1)] that(2) by (auto simp: td_inv_def)
  show ?thesis
    using st moving
    by (cases e)
       (auto simp: td_start_def td_join_def join_end_def notifyAll_def proxy_end_def td_detach_def destroy_Thread_def
         set_caller_def at_caller_def split: if_splits dest: loops)
qed

lemma td_run_ok:
  assumes "td_inv s" and "td_run es s = Some (outs, s')"
  shows "td_inv s' \<and> (td_done s \<longrightarrow> td_done s') \<and> (\<forall>c. JoinReturned c \<in> set outs \<longrightarrow> td_done s')"
  using assms
proof (induction es arbitrary: s outs)
  case (Cons e es)
  obtain out1 s1 out2 where st: "td_step e s = Some (out1, s1)" and run: "td_run es s1 = Some (out2, s')"
    and outs: "outs = out1 @ out2"
    using Cons.prems(2) by (auto split: option.splits prod.splits)
  from Cons.IH [OF td_step_inv [OF Cons.prems(1) st] run] td_step_out [OF Cons.prems(1) st]
  show ?case by (auto simp: outs)
qed simp

lemma Thread_inv: "td_inv (Thread n)"
  by (simp add: td_inv_def Thread_def count_list_0_iff)

lemma quiet_worker_ended:
  assumes "td_inv s" and "td_quiescent s" and "td_started s"
  shows "td_worker s = Ended" "td_done s"
  using assms by (cases "td_worker s"; simp add: td_quiescent_def td_inv_def)+

section \<open>Waiting for a time\<close>

text \<open>\<open>ConditionVariable::waitFor\<close> and with it \<open>this_thread::sleepFor\<close>: the time at which
  \<open>pthread_cond_timedwait\<close> gives up, from the time now; division rounds towards zero.\<close>

definition wait_deadline :: "int \<Rightarrow> int \<times> int \<Rightarrow> int \<times> int" where
  "wait_deadline ms tv =
     (let tv_sec = fst tv + ms sdiv 1000;
          tv_nsec = snd tv + ms smod 1000 * 1000000
      in (tv_sec + tv_nsec sdiv 1000000000, tv_nsec smod 1000000000))"

lemma wait_deadline_later:
  assumes "0 \<le> ms" and "0 \<le> nsec"
  shows "let (sec', nsec') = wait_deadline ms (sec, nsec) in
    sec' * 1000000000 + nsec' = sec * 1000000000 + nsec + ms * 1000000 \<and> 0 \<le> nsec' \<and> nsec' < 1000000000"
proof -
  define n where "n = nsec + ms mod 1000 * 1000000"
  have "0 \<le> n" using assms by (simp add: n_def)
  then have "wait_deadline ms (sec, nsec) = (sec + ms div 1000 + n div 1000000000, n mod 1000000000)"
    using assms by (simp add: wait_deadline_def Let_def sdiv_smod_nonneg n_def)
  moreover have "ms * 1000000 = ms div 1000 * 1000000000 + ms mod 1000 * 1000000"
    using div_mult_mod_eq [of ms 1000] by linarith
  moreover have "n = n div 1000000000 * 1000000000 + n mod 1000000000" by simp
  ultimately show ?thesis using n_def by simp
qed

text \<open>A negative time can give a negative number of nanoseconds, which \<open>pthread_cond_timedwait\<close> refuses.\<close>

lemma negative_wait_is_invalid: "snd (wait_deadline (-1) (sec, 0)) < 0"
  by (simp add: wait_deadline_def Let_def signed_divide_int_def signed_modulo_int_def)

section \<open>Properties\<close>

text \<open>C12. However the calls of \<open>join\<close>, \<open>detach\<close> and \<open>joinable\<close> of several threads and the new thread
  interleave, the new thread is reaped by one \<open>pthread_join\<close> or given up by one \<open>pthread_detach\<close> and
  never both, \<open>join\<close> returns only after the function has ended, and nobody is left inside \<open>join\<close>: when
  a thread was started and no thread can go on, every caller has returned.\<close>

theorem thread_is_joined_once:
  assumes run: "td_run es (Thread n) = Some (outs, s)"
  shows "td_reaped s + td_detached s \<le> 1 \<and> (\<forall>c. JoinReturned c \<in> set outs \<longrightarrow> td_done s) \<and>
    (td_quiescent s \<and> td_started s \<and> \<not> td_freed s \<longrightarrow> (\<forall>st \<in> set (td_callers s). st = NotInside))"
proof -
  have inv: "td_inv s" and out: "\<forall>c. JoinReturned c \<in> set outs \<longrightarrow> td_done s"
    using td_run_ok [OF Thread_inv run] by blast+
  have "td_reaped s + td_detached s \<le> 1" using inv by (cases "td_join_started s") (auto simp: td_inv_def)
  moreover have "st = NotInside" if quiet: "td_quiescent s" "td_started s" "\<not> td_freed s" and st: "st \<in> set (td_callers s)" for st
  proof -
    note ended = quiet_worker_ended [OF inv quiet(1,2)]
    have moves: "td_callers s ! c \<notin> {WaitDone True, WaitJoined True, AtJoin, Reaped}" if "c < length (td_callers s)" for c
    proof -
      have "td_step (Retest c) s = None" "td_step (PthreadJoin c) s = None" "td_step (JoinEnd c) s = None"
        using quiet(1) by (simp_all only: td_quiescent_def)
      then show ?thesis using that ended quiet(3) by (auto simp: at_caller_def split: if_splits)
    qed
    then have nobody: "x \<notin> {WaitDone True, WaitJoined True, AtJoin, Reaped}" if "x \<in> set (td_callers s)" for x
      using that by (auto simp: in_set_conv_nth)
    then have "joining s = 0" "behind s = 0" by (auto simp: count_list_0_iff)
    then have "st \<noteq> WaitJoined False" using inv st by (auto simp: td_inv_def)
    moreover have "st \<noteq> WaitDone False" using inv st ended by (auto simp: td_inv_def)
    ultimately show ?thesis using nobody [OF st] by (cases st) auto
  qed
  ultimately show ?thesis using out by blast
qed

text \<open>Two threads join; the first that wakes up reaps the thread, the second waits for it.\<close>

theorem thread_is_joined_once_witness:
  "\<exists>outs s. td_run [JoinCall 0 False, Start True, JoinCall 1 False, FuncEnd, ProxyEnd, Retest 1, Retest 0, PthreadJoin 1,
       JoinEnd 1, Retest 0] (Thread 2) = Some (outs, s) \<and>
     outs = [JoinReturned 1, JoinReturned 0] \<and> td_reaped s = 1 \<and> td_reaped s + td_detached s \<le> 1 \<and> td_done s \<and>
     td_callers s = [NotInside, NotInside]"
proof -
  obtain outs s where run: "td_run [JoinCall 0 False, Start True, JoinCall 1 False, FuncEnd, ProxyEnd, Retest 1, Retest 0,
      PthreadJoin 1, JoinEnd 1, Retest 0] (Thread 2) = Some (outs, s)"
    and "outs = [JoinReturned 1, JoinReturned 0]" "td_callers s = [NotInside, NotInside]" "td_reaped s = 1"
    by (simp add: Thread_def td_start_def td_join_def loop_done_def loop_joined_def join_end_def proxy_end_def
        notifyAll_def set_caller_def at_caller_def numeral_2_eq_2)
  then show ?thesis using thread_is_joined_once [OF run] by auto
qed

text \<open>\<open>join\<close> of a thread that was never started waits for ever.\<close>

lemma join_unstarted_waits:
  "\<exists>s. td_run [JoinCall 0 False] (Thread 1) = Some ([], s) \<and> td_quiescent s \<and> td_callers s = [WaitDone False]"
  by (auto simp: Thread_def td_join_def loop_done_def set_caller_def at_caller_def td_quiescent_def)

text \<open>The destructor detaches a thread that is still running and frees the members that the thread
  uses when its function has ended.\<close>

lemma destroyed_while_running:
  "\<exists>s. td_run [Start True, Destroy, FuncEnd, ProxyEnd] (Thread 0) = Some ([], s) \<and> td_fault s"
  by (simp add: Thread_def td_start_def destroy_Thread_def joinable_def td_detach_def proxy_end_def notifyAll_def)

lemma detach_unstarted_faults: "td_run [Detach] (Thread n) = Some ([], s) \<Longrightarrow> td_fault s"
  by (auto simp: Thread_def td_detach_def)

end
