(* ===== verification/Synchronization.thy ===== *)
theory Synchronization
  imports Thread IODevice
begin

text \<open>
  \<^verbatim>\<open>src/src/brickred/mutex.{h,cc}\<close> and \<^verbatim>\<open>src/src/brickred/condition_variable.{h,cc}\<close>: the wrappers of the pthread
  functions, whose failures become exceptions, and \<open>LockGuard\<close>. The pthread functions are a parameter: a
  function from the calls made so far, with their results, and the next call to its result. What the wrappers
  mean for threads that interleave is in ConcurrentQueue and Thread.
\<close>

section \<open>The functions of pthread\<close>

datatype pthread_call =
  Mutex_init nat | Mutex_destroy nat | Mutex_lock nat | Mutex_unlock nat
| Cond_init nat | Cond_destroy nat | Cond_wait nat nat | Cond_timedwait nat nat "int \<times> int"
| Cond_signal nat | Cond_broadcast nat

type_synonym pthread_trace = "(pthread_call \<times> int) list"

type_synonym pthread = "pthread_trace \<Rightarrow> pthread_call \<Rightarrow> int"

definition pt_do :: "pthread \<Rightarrow> pthread_call \<Rightarrow> pthread_trace \<Rightarrow> int \<times> pthread_trace" where
  "pt_do k call h = (let r = k h call in (r, h @ [(call, r)]))"

text \<open>\<open>if (f() != 0) throw SystemErrorException(msg)\<close>: the message, or nothing.\<close>

definition or_throw :: "pthread \<Rightarrow> pthread_call \<Rightarrow> string \<Rightarrow> pthread_trace \<Rightarrow> (string + unit) \<times> pthread_trace" where
  "or_throw k call msg h = (let (r, h1) = pt_do k call h in (if r \<noteq> 0 then Inl msg else Inr (), h1))"

section \<open>Mutex\<close>

definition Mutex :: "pthread \<Rightarrow> nat \<Rightarrow> pthread_trace \<Rightarrow> (string + unit) \<times> pthread_trace" where
  "Mutex k m = or_throw k (Mutex_init m) ''Mutex constructor failed in pthread_mutex_init''"

definition destroy_Mutex :: "pthread \<Rightarrow> nat \<Rightarrow> pthread_trace \<Rightarrow> pthread_trace" where
  "destroy_Mutex k m h = snd (pt_do k (Mutex_destroy m) h)"

definition mutex_lock :: "pthread \<Rightarrow> nat \<Rightarrow> pthread_trace \<Rightarrow> (string + unit) \<times> pthread_trace" where
  "mutex_lock k m = or_throw k (Mutex_lock m) ''Mutex lock failed in pthread_mutex_lock''"

definition mutex_unlock :: "pthread \<Rightarrow> nat \<Rightarrow> pthread_trace \<Rightarrow> (string + unit) \<times> pthread_trace" where
  "mutex_unlock k m = or_throw k (Mutex_unlock m) ''Mutex unlock failed in pthread_mutex_unlock''"

text \<open>A block \<open>{ LockGuard lock(m); body }\<close>: the destructor runs however the body is left, unless the
  constructor threw. An exception of the destructor leaves the block, and ends the program when it meets the
  exception of the body (the library is written for C++03, where a destructor may throw).\<close>

datatype 'a outcome = Value 'a | Throws string | Terminates

definition with_LockGuard ::
    "pthread \<Rightarrow> nat \<Rightarrow> (pthread_trace \<Rightarrow> 'a outcome \<times> pthread_trace) \<Rightarrow> pthread_trace \<Rightarrow> 'a outcome \<times> pthread_trace" where
  "with_LockGuard k m body h =
     (case mutex_lock k m h of
        (Inl e, h1) \<Rightarrow> (Throws e, h1)
      | (Inr _, h1) \<Rightarrow>
          (case body h1 of
             (Terminates, h2) \<Rightarrow> (Terminates, h2)
           | (Throws e, h2) \<Rightarrow>
               (case mutex_unlock k m h2 of (Inl _, h3) \<Rightarrow> (Terminates, h3) | (Inr _, h3) \<Rightarrow> (Throws e, h3))
           | (Value v, h2) \<Rightarrow>
               (case mutex_unlock k m h2 of (Inl e, h3) \<Rightarrow> (Throws e, h3) | (Inr _, h3) \<Rightarrow> (Value v, h3))))"

section \<open>ConditionVariable\<close>

definition ConditionVariable :: "pthread \<Rightarrow> nat \<Rightarrow> pthread_trace \<Rightarrow> (string + unit) \<times> pthread_trace" where
  "ConditionVariable k c = or_throw k (Cond_init c) ''ConditionVariable constructor failed in pthread_cond_init''"

definition destroy_ConditionVariable :: "pthread \<Rightarrow> nat \<Rightarrow> pthread_trace \<Rightarrow> pthread_trace" where
  "destroy_ConditionVariable k c h = snd (pt_do k (Cond_destroy c) h)"

definition cond_wait :: "pthread \<Rightarrow> nat \<Rightarrow> nat \<Rightarrow> pthread_trace \<Rightarrow> (string + unit) \<times> pthread_trace" where
  "cond_wait k c m = or_throw k (Cond_wait c m) ''ConditionVariable wait failed in pthread_cond_wait''"

text \<open>\<open>now\<close> is what \<open>clock_gettime\<close> gives.\<close>

definition cond_waitFor ::
    "pthread \<Rightarrow> int \<times> int \<Rightarrow> nat \<Rightarrow> nat \<Rightarrow> int \<Rightarrow> pthread_trace \<Rightarrow> (string + bool) \<times> pthread_trace" where
  "cond_waitFor k now c m ms h =
     (let (ret, h1) = pt_do k (Cond_timedwait c m (wait_deadline ms now)) h
      in (if ret = ETIMEDOUT then Inr False
          else if ret \<noteq> 0 then Inl ''ConditionVariable wait failed in pthread_cond_timedwait''
          else Inr True, h1))"

definition cond_notifyOne :: "pthread \<Rightarrow> nat \<Rightarrow> pthread_trace \<Rightarrow> pthread_trace" where
  "cond_notifyOne k c h = snd (pt_do k (Cond_signal c) h)"

definition cond_notifyAll :: "pthread \<Rightarrow> nat \<Rightarrow> pthread_trace \<Rightarrow> pthread_trace" where
  "cond_notifyAll k c h = snd (pt_do k (Cond_broadcast c) h)"

section \<open>What they give\<close>

text \<open>How often the mutex is held according to the trace. A block with a guard leaves it as it was, however the
  body ends, as long as unlocking succeeds.\<close>

fun lock_depth :: "nat \<Rightarrow> pthread_trace \<Rightarrow> int" where
  "lock_depth m [] = 0"
| "lock_depth m ((Mutex_lock m', r) # h) = (if m' = m \<and> r = 0 then 1 else 0) + lock_depth m h"
| "lock_depth m ((Mutex_unlock m', r) # h) = (if m' = m \<and> r = 0 then -1 else 0) + lock_depth m h"
| "lock_depth m (_ # h) = lock_depth m h"

lemma lock_depth_append [simp]: "lock_depth m (h @ h') = lock_depth m h + lock_depth m h'"
  by (induction m h rule: lock_depth.induct) simp_all

theorem guard_releases:
  assumes unlocks: "\<And>h m. k h (Mutex_unlock m) = 0"
    and body: "\<And>h out h'. body h = (out, h') \<Longrightarrow> lock_depth m h' = lock_depth m h"
    and run: "with_LockGuard k m body h = (out, h')" and out: "out \<noteq> Terminates"
  shows "lock_depth m h' = lock_depth m h"
proof (cases "k h (Mutex_lock m) = 0")
  case False
  then show ?thesis
    using run by (auto simp: with_LockGuard_def mutex_lock_def or_throw_def pt_do_def Let_def)
next
  case True
  obtain o2 h2 where b: "body (h @ [(Mutex_lock m, 0)]) = (o2, h2)" by (metis surj_pair)
  then have "lock_depth m h2 = lock_depth m h + 1" using body [OF b] by simp
  moreover have "h' = h2 @ [(Mutex_unlock m, 0)]"
    using run out True b unlocks
    by (cases o2) (auto simp: with_LockGuard_def mutex_lock_def mutex_unlock_def or_throw_def pt_do_def Let_def)
  ultimately show ?thesis by simp
qed

text \<open>\<open>pthread_cond_timedwait\<close> refuses a time whose nanoseconds are out of range and nothing else: \<open>waitFor\<close>
  does not throw for a time that is not negative, and throws for some that are.\<close>

definition timedwait_ok :: "pthread \<Rightarrow> bool" where
  "timedwait_ok k \<longleftrightarrow> (\<forall>h c m t. if 0 \<le> snd t \<and> snd t < 1000000000
     then k h (Cond_timedwait c m t) \<in> {0, ETIMEDOUT} else k h (Cond_timedwait c m t) = 22)"

lemma waitFor_returns:
  assumes k: "timedwait_ok k" and "0 \<le> ms" and "0 \<le> snd now"
  shows "fst (cond_waitFor k now c m ms h) \<in> {Inr True, Inr False}"
proof -
  have "0 \<le> snd (wait_deadline ms now) \<and> snd (wait_deadline ms now) < 1000000000"
    using wait_deadline_later [of ms "snd now" "fst now"] assms by (simp add: case_prod_unfold Let_def)
  then have "k h (Cond_timedwait c m (wait_deadline ms now)) \<in> {0, ETIMEDOUT}"
    using k unfolding timedwait_ok_def by presburger
  then show ?thesis
    by (auto simp: cond_waitFor_def pt_do_def Let_def)
qed

lemma negative_waitFor_throws:
  assumes "timedwait_ok k"
  shows "\<exists>msg. fst (cond_waitFor k (sec, 0) c m (-1) h) = Inl msg"
proof -
  have "k h (Cond_timedwait c m (wait_deadline (-1) (sec, 0))) = 22"
    using assms negative_wait_is_invalid [of sec] unfolding timedwait_ok_def by (metis not_less)
  then show ?thesis by (simp add: cond_waitFor_def pt_do_def ETIMEDOUT_def)
qed

end
