(* ===== verification/UniquePtr.thy ===== *)
theory UniquePtr
  imports Main
begin

text \<open>
  \<^verbatim>\<open>src/src/brickred/unique_ptr.h\<close>: the owning pointer. The pointers of a program are variables; an object is
  an address, 0 is the null pointer. The store says which objects exist and what was deleted, in order; a
  second \<open>delete\<close> of an object is a fault. The specialisation for arrays has the same operations with
  \<open>delete[]\<close>.
\<close>

section \<open>The operations\<close>

record store =
  up_px :: "nat \<Rightarrow> nat option"
  up_deleted :: "nat list"
  up_fault :: bool

text \<open>\<open>delete p\<close>: nothing for a null pointer.\<close>

definition delete_ptr :: "nat \<Rightarrow> store \<Rightarrow> store" where
  "delete_ptr p s =
     (if p = 0 then s
      else s\<lparr>up_deleted := up_deleted s @ [p], up_fault := (up_fault s \<or> p \<in> set (up_deleted s))\<rparr>)"

definition UniquePtr :: "nat \<Rightarrow> nat \<Rightarrow> store \<Rightarrow> store" where
  "UniquePtr v p s = s\<lparr>up_px := (up_px s)(v \<mapsto> p)\<rparr>"

definition px :: "nat \<Rightarrow> store \<Rightarrow> nat" where
  "px v s = (case up_px s v of None \<Rightarrow> 0 | Some p \<Rightarrow> p)"

definition destroy_UniquePtr :: "nat \<Rightarrow> store \<Rightarrow> store" where
  "destroy_UniquePtr v s =
     (let s1 = delete_ptr (px v s) s in s1\<lparr>up_px := (up_px s1)(v := None)\<rparr>)"

definition up_get :: "nat \<Rightarrow> store \<Rightarrow> nat" where
  "up_get v s = px v s"

definition up_swap :: "nat \<Rightarrow> nat \<Rightarrow> store \<Rightarrow> store" where
  "up_swap v b s =
     (let tmp = px b s;
          s1 = s\<lparr>up_px := (up_px s)(b \<mapsto> px v s)\<rparr>
      in s1\<lparr>up_px := (up_px s1)(v \<mapsto> tmp)\<rparr>)"

text \<open>\<open>UniquePtr<T>(p).swap(*this)\<close>: the temporary takes the old object and deletes it. Its name is one that
  no variable has.\<close>

definition up_reset :: "nat \<Rightarrow> nat \<Rightarrow> nat \<Rightarrow> store \<Rightarrow> store" where
  "up_reset temporary v p s =
     destroy_UniquePtr temporary (up_swap temporary v (UniquePtr temporary p s))"

definition up_release :: "nat \<Rightarrow> store \<Rightarrow> nat \<times> store" where
  "up_release v s = (let p = px v s in (p, s\<lparr>up_px := (up_px s)(v \<mapsto> 0)\<rparr>))"

section \<open>Ownership\<close>

text \<open>No object has two owners, and none that has an owner was deleted.\<close>

definition owns :: "store \<Rightarrow> nat \<Rightarrow> nat \<Rightarrow> bool" where
  "owns s v p \<longleftrightarrow> up_px s v = Some p \<and> p \<noteq> 0"

definition owned_once :: "store \<Rightarrow> bool" where
  "owned_once s \<longleftrightarrow> \<not> up_fault s \<and> distinct (up_deleted s) \<and>
     (\<forall>v w p. owns s v p \<longrightarrow> owns s w p \<longrightarrow> v = w) \<and> (\<forall>v p. owns s v p \<longrightarrow> p \<notin> set (up_deleted s))"

definition fresh_object :: "store \<Rightarrow> nat \<Rightarrow> bool" where
  "fresh_object s p \<longleftrightarrow> p = 0 \<or> p \<notin> set (up_deleted s) \<and> (\<forall>v. \<not> owns s v p)"

lemma px_owns: "px v s \<noteq> 0 \<Longrightarrow> owns s v (px v s)"
  by (auto simp: px_def owns_def split: option.splits)

lemma owned_onceD:
  assumes "owned_once s"
  shows "owns s v p \<Longrightarrow> owns s w p \<Longrightarrow> v = w" and "owns s v p \<Longrightarrow> p \<notin> set (up_deleted s)"
    and "\<not> up_fault s" and "distinct (up_deleted s)"
  using assms by (auto simp: owned_once_def)

lemma UniquePtr_owned:
  "owned_once s \<Longrightarrow> up_px s v = None \<Longrightarrow> fresh_object s p \<Longrightarrow> owned_once (UniquePtr v p s)"
  by (auto simp: owned_once_def UniquePtr_def fresh_object_def owns_def)

text \<open>The end of a pointer deletes its object, once, and no other pointer owned it.\<close>

lemma destroy_owned:
  assumes inv: "owned_once s"
  shows "owned_once (destroy_UniquePtr v s)"
    and "up_deleted (destroy_UniquePtr v s) = up_deleted s @ (if px v s = 0 then [] else [px v s])"
    and "up_px (destroy_UniquePtr v s) = (up_px s)(v := None)"
proof -
  show del: "up_deleted (destroy_UniquePtr v s) = up_deleted s @ (if px v s = 0 then [] else [px v s])"
    and px: "up_px (destroy_UniquePtr v s) = (up_px s)(v := None)"
    by (simp_all add: destroy_UniquePtr_def delete_ptr_def)
  have owns: "owns (destroy_UniquePtr v s) w p \<longleftrightarrow> w \<noteq> v \<and> owns s w p" for w p
    by (simp add: owns_def px)
  have "px v s \<noteq> 0 \<Longrightarrow> px v s \<notin> set (up_deleted s) \<and> (\<forall>w. w \<noteq> v \<longrightarrow> \<not> owns s w (px v s))"
    using owned_onceD(1,2) [OF inv] px_owns by blast
  then show "owned_once (destroy_UniquePtr v s)"
    using inv unfolding owned_once_def owns del
    by (auto simp: destroy_UniquePtr_def delete_ptr_def)
qed

lemma swap_owned:
  assumes inv: "owned_once s" and "up_px s v = Some p" and "up_px s b = Some q"
  shows "owned_once (up_swap v b s)" and "up_px (up_swap v b s) = (up_px s)(b \<mapsto> p, v \<mapsto> q)"
    and "up_deleted (up_swap v b s) = up_deleted s"
proof -
  show px: "up_px (up_swap v b s) = (up_px s)(b \<mapsto> p, v \<mapsto> q)" and del: "up_deleted (up_swap v b s) = up_deleted s"
    using assms(2,3) by (auto simp: up_swap_def px_def Let_def)
  define swapped where "swapped w = (if w = v then b else if w = b then v else w)" for w
  have "owns (up_swap v b s) w r \<longleftrightarrow> owns s (swapped w) r" for w r
    using assms(2,3) by (auto simp: owns_def px swapped_def)
  moreover have "swapped w = swapped w' \<longleftrightarrow> w = w'" for w w' by (auto simp: swapped_def)
  ultimately show "owned_once (up_swap v b s)"
    using inv unfolding owned_once_def del by (metis up_swap_def store.simps(3,6) store.surjective store.update_convs(1))
qed

lemma reset_owned:
  assumes inv: "owned_once s" and v: "up_px s v = Some q" and t: "up_px s temporary = None" and p: "fresh_object s p"
  shows "owned_once (up_reset temporary v p s)"
    and "up_deleted (up_reset temporary v p s) = up_deleted s @ (if q = 0 then [] else [q])"
    and "up_px (up_reset temporary v p s) = (up_px s)(v \<mapsto> p)"
proof -
  define s1 where "s1 = UniquePtr temporary p s"
  define s2 where "s2 = up_swap temporary v s1"
  have 1: "owned_once s1" "up_px s1 = (up_px s)(temporary \<mapsto> p)" "up_deleted s1 = up_deleted s"
    using UniquePtr_owned [OF inv t p] by (simp_all add: s1_def UniquePtr_def)
  have "v \<noteq> temporary" using v t by auto
  then have "up_px s1 temporary = Some p" "up_px s1 v = Some q" using 1 v by simp_all
  from swap_owned [OF 1(1) this] have 2: "owned_once s2" "up_px s2 = (up_px s1)(v \<mapsto> p, temporary \<mapsto> q)" "up_deleted s2 = up_deleted s"
    using 1(3) by (simp_all add: s2_def)
  then have "px temporary s2 = q" by (simp add: px_def)
  note 3 = destroy_owned [OF 2(1), of temporary, unfolded this]
  have r: "up_reset temporary v p s = destroy_UniquePtr temporary s2" by (simp add: up_reset_def s1_def s2_def)
  show "owned_once (up_reset temporary v p s)" unfolding r by (rule 3(1))
  show "up_deleted (up_reset temporary v p s) = up_deleted s @ (if q = 0 then [] else [q])" unfolding r 3(2) 2(3) ..
  show "up_px (up_reset temporary v p s) = (up_px s)(v \<mapsto> p)"
    unfolding r 3(3) 2(2) 1(2) using t \<open>v \<noteq> temporary\<close> by (auto simp: fun_eq_iff)
qed

lemma release_owned:
  assumes "owned_once s" and "up_px s v = Some p"
  shows "fst (up_release v s) = p" and "owned_once (snd (up_release v s))"
    and "up_px (snd (up_release v s)) = (up_px s)(v \<mapsto> 0)" and "up_deleted (snd (up_release v s)) = up_deleted s"
  using assms by (auto simp: up_release_def px_def Let_def owned_once_def owns_def)

text \<open>Given its own object, \<open>reset\<close> deletes it and keeps the dangling pointer, which is then deleted again.\<close>

lemma reset_to_itself:
  assumes "up_px s v = Some p" and "p \<noteq> 0" and "temporary \<noteq> v"
  shows "up_fault (destroy_UniquePtr v (up_reset temporary v p s))"
  using assms
  by (simp add: up_reset_def destroy_UniquePtr_def up_swap_def UniquePtr_def delete_ptr_def px_def Let_def)

section \<open>Programs\<close>

text \<open>Any sequence of operations on the pointers of a program, each on pointers that exist and with objects that
  are new to the pointers. The result collects what \<open>release\<close> gave back. The variable 0 is the temporary of
  \<open>reset\<close>.\<close>

datatype up_op = Construct nat nat | Destroy nat | Swap nat nat | Reset nat nat | Release nat

fun up_step :: "up_op \<Rightarrow> store \<Rightarrow> (nat list \<times> store) option" where
  "up_step (Construct v p) s =
     (if v \<noteq> 0 \<and> up_px s v = None then Some ([], UniquePtr v p s) else None)"
| "up_step (Destroy v) s = (if up_px s v = None then None else Some ([], destroy_UniquePtr v s))"
| "up_step (Swap v b) s = (if up_px s v = None \<or> up_px s b = None then None else Some ([], up_swap v b s))"
| "up_step (Reset v p) s = (if up_px s v = None then None else Some ([], up_reset 0 v p s))"
| "up_step (Release v) s =
     (if up_px s v = None then None else (let (p, s1) = up_release v s in Some ([p], s1)))"

fun adopted :: "up_op \<Rightarrow> nat" where
  "adopted (Construct v p) = p"
| "adopted (Reset v p) = p"
| "adopted _ = 0"

fun up_run :: "up_op list \<Rightarrow> store \<Rightarrow> (nat list \<times> store) option" where
  "up_run [] s = Some ([], s)"
| "up_run (x # xs) s =
     (case up_step x s of
        None \<Rightarrow> None
      | Some (released, s1) \<Rightarrow> map_option (\<lambda>(r, s2). (released @ r, s2)) (up_run xs s1))"

text \<open>The objects handed to a pointer are new to it.\<close>

fun fresh_run :: "up_op list \<Rightarrow> store \<Rightarrow> bool" where
  "fresh_run [] s = True"
| "fresh_run (x # xs) s =
     (fresh_object s (adopted x) \<and> (case up_step x s of None \<Rightarrow> True | Some (_, s1) \<Rightarrow> fresh_run xs s1))"

definition accounted_for :: "store \<Rightarrow> nat set" where
  "accounted_for s = set (up_deleted s) \<union> {p. \<exists>v. owns s v p}"

lemma accounted_moves:
  assumes "up_deleted s' = up_deleted s @ d" and "\<And>v p. owns s v p \<Longrightarrow> p \<in> set d \<union> set r \<or> (\<exists>w. owns s' w p)"
    and "q = 0 \<or> (\<exists>w. owns s' w q)"
  shows "accounted_for s \<union> {q} \<subseteq> accounted_for s' \<union> set r \<union> {0}"
  using assms by (auto simp: accounted_for_def)

lemma up_step_owned:
  assumes inv: "owned_once s" and t: "up_px s 0 = None" and fresh: "fresh_object s (adopted x)"
    and step: "up_step x s = Some (r, s')"
  shows "owned_once s' \<and> up_px s' 0 = None"
proof (cases x)
  case (Construct v p)
  then show ?thesis
    using step UniquePtr_owned [OF inv, of v p] fresh t by (auto simp: UniquePtr_def split: if_splits)
next
  case (Destroy v)
  then show ?thesis using step destroy_owned [OF inv, of v] t by (auto split: if_splits)
next
  case (Swap v b)
  then obtain p q where pq: "up_px s v = Some p" "up_px s b = Some q" and s': "s' = up_swap v b s"
    using step by (auto split: if_splits)
  then have "v \<noteq> 0" "b \<noteq> 0" using t by (metis option.distinct(1))+
  then show ?thesis using swap_owned [OF inv pq] t by (simp add: s')
next
  case (Reset v p)
  then obtain q where q: "up_px s v = Some q" and s': "s' = up_reset 0 v p s"
    using step by (auto split: if_splits)
  then have "v \<noteq> 0" using t by (metis option.distinct(1))
  then show ?thesis using reset_owned [OF inv q t, of p] fresh t Reset by (simp add: s')
next
  case (Release v)
  then obtain p where p: "up_px s v = Some p" and s': "s' = snd (up_release v s)"
    using step by (auto simp: Let_def split: if_splits prod.splits)
  then have "v \<noteq> 0" using t by (metis option.distinct(1))
  then show ?thesis using release_owned [OF inv p] t by (simp add: s')
qed

text \<open>What a step does to the owner of an object: it stays one, passes the object on, deletes it or gives it back.\<close>

lemma up_step_owner:
  assumes inv: "owned_once s" and t: "up_px s 0 = None" and fresh: "fresh_object s (adopted x)"
    and step: "up_step x s = Some (r, s')"
  obtains d where "up_deleted s' = up_deleted s @ d"
    and "\<And>v p. owns s v p \<Longrightarrow> p \<in> set d \<union> set r \<or> (\<exists>w. owns s' w p)"
    and "adopted x = 0 \<or> (\<exists>w. owns s' w (adopted x))"
proof (cases x)
  case (Construct v p)
  then have v: "up_px s v = None" and s': "s' = UniquePtr v p s" using step by (auto split: if_splits)
  then have d: "up_deleted s' = up_deleted s @ []" "up_px s' = (up_px s)(v \<mapsto> p)" by (simp_all add: UniquePtr_def)
  show thesis
    by (rule that [OF d(1)]; use Construct v in \<open>simp add: owns_def d(2)\<close>) (metis option.distinct(1) not_gr0)+
next
  case (Destroy v)
  then have s': "s' = destroy_UniquePtr v s" using step by (auto split: if_splits)
  note d = destroy_owned [OF inv, of v, folded s']
  have "p \<in> set (if px v s = 0 then [] else [px v s]) \<union> set r \<or> (\<exists>w. owns s' w p)" if "owns s w p" for w p
    using that by (cases "w = v") (auto simp: owns_def px_def d(3) intro!: exI [of _ w])
  then show thesis
    by (rule that [OF d(2)]) (simp_all add: Destroy)
next
  case (Swap v b)
  then obtain p q where pq: "up_px s v = Some p" "up_px s b = Some q" and s': "s' = up_swap v b s"
    using step by (auto split: if_splits)
  note d = swap_owned [OF inv pq, folded s']
  show thesis
  proof (rule that [of "[]"])
    show "p' \<in> set [] \<union> set r \<or> (\<exists>w. owns s' w p')" if "owns s w p'" for w p'
      using that pq by (intro disjI2 exI [of _ "if w = v then b else if w = b then v else w"]) (auto simp: owns_def d(2))
  qed (simp_all add: d Swap)
next
  case (Reset v p)
  then obtain q where q: "up_px s v = Some q" and s': "s' = up_reset 0 v p s"
    using step by (auto split: if_splits)
  have "fresh_object s p" using fresh Reset by simp
  note d = reset_owned [OF inv q t this, folded s']
  have "p' \<in> set (if q = 0 then [] else [q]) \<union> set r \<or> (\<exists>w. owns s' w p')" if "owns s w p'" for w p'
    using that q by (cases "w = v") (auto simp: owns_def d(3) intro!: exI [of _ w])
  then show thesis
    by (rule that [OF d(2)]) (auto simp: Reset owns_def d(3))
next
  case (Release v)
  then obtain p where p: "up_px s v = Some p" and s': "s' = snd (up_release v s)" and "r = [fst (up_release v s)]"
    using step by (auto simp: Let_def split: if_splits prod.splits)
  then have r: "r = [p]" using release_owned(1) [OF inv p] by simp
  note d = release_owned [OF inv p, folded s']
  have "p' \<in> set [] \<union> set r \<or> (\<exists>w. owns s' w p')" if "owns s w p'" for w p'
    using that p by (cases "w = v") (auto simp: owns_def d(3) r intro!: exI [of _ w])
  then show thesis
    by (rule that [rotated]) (simp_all add: d(4) Release)
qed

lemma up_run_owned:
  "up_run xs s = Some (r, s') \<Longrightarrow> owned_once s \<Longrightarrow> up_px s 0 = None \<Longrightarrow> fresh_run xs s \<Longrightarrow>
    owned_once s' \<and> accounted_for s \<union> adopted ` set xs \<subseteq> accounted_for s' \<union> set r \<union> {0}"
proof (induction xs arbitrary: s r)
  case Nil
  then show ?case by auto
next
  case (Cons x xs)
  obtain r1 s1 r2 where x: "up_step x s = Some (r1, s1)" and xs: "up_run xs s1 = Some (r2, s')" and r: "r = r1 @ r2"
    using Cons.prems(1) by (auto split: option.splits prod.splits)
  have fresh: "fresh_object s (adopted x)" "fresh_run xs s1" using Cons.prems(4) by (simp_all add: x)
  note step = up_step_owned [OF Cons.prems(2,3) fresh(1) x]
  obtain d where d: "up_deleted s1 = up_deleted s @ d" "\<And>v p. owns s v p \<Longrightarrow> p \<in> set d \<union> set r1 \<or> (\<exists>w. owns s1 w p)"
    "adopted x = 0 \<or> (\<exists>w. owns s1 w (adopted x))"
    by (rule up_step_owner [OF Cons.prems(2,3) fresh(1) x]) (rule that)
  have "accounted_for s \<union> {adopted x} \<subseteq> accounted_for s1 \<union> set r1 \<union> {0}" by (rule accounted_moves [OF d])
  then show ?case
    using Cons.IH [OF xs _ _ fresh(2)] step by (auto simp: r)
qed

definition no_pointers :: store where
  "no_pointers = \<lparr>up_px = Map.empty, up_deleted = [], up_fault = False\<rparr>"

text \<open>No object is deleted twice and, once all pointers are gone, every object a pointer was given has been
  deleted or released.\<close>

theorem unique_ptr_deletes_once:
  assumes run: "up_run xs no_pointers = Some (r, s)" and fresh: "fresh_run xs no_pointers"
  shows "\<not> up_fault s \<and> distinct (up_deleted s) \<and>
    ((\<forall>v. up_px s v = None) \<longrightarrow> adopted ` set xs - {0} \<subseteq> set (up_deleted s) \<union> set r)"
proof -
  have "owned_once no_pointers" by (simp add: no_pointers_def owned_once_def owns_def)
  then have "owned_once s" "accounted_for no_pointers \<union> adopted ` set xs \<subseteq> accounted_for s \<union> set r \<union> {0}"
    using up_run_owned [OF run _ _ fresh] by (simp_all add: no_pointers_def)
  moreover have "accounted_for s = set (up_deleted s)" if "\<forall>v. up_px s v = None"
    using that by (simp add: accounted_for_def owns_def)
  ultimately show ?thesis using owned_onceD(3,4) [of s] by blast
qed

lemma unique_ptr_example:
  "map_option (\<lambda>(r, s). (r, up_deleted s)) (up_run [Construct 1 5, Construct 2 6, Swap 1 2, Reset 1 7, Release 2, Destroy 1, Destroy 2] no_pointers)
    = Some ([5], [6, 7])"
  by (simp add: no_pointers_def UniquePtr_def up_swap_def up_reset_def up_release_def destroy_UniquePtr_def
      delete_ptr_def px_def Let_def)

end
