(* ===== verification/FunctionObject.thy ===== *)
theory FunctionObject
  imports Main
begin

text \<open>
  \<^verbatim>\<open>src/src/brickred/function.h\<close>: callable values. The header writes the same three classes out for every number
  of arguments; here the arguments are one value of type \<open>'a\<close>. A function of the program maps the state and its
  arguments to a result and a new state; a member function gets the address of its object first.
  \<open>FunctionType\<close> is a plain function pointer, so what is called is one of the wrappers the factories make.
\<close>

section \<open>Function\<close>

text \<open>The instances of \<open>wrapper\<close>: for a free function the object pointer is ignored; the one for a member function
  calls it on the object, and the one for a const member function, which leaves the object as it is.\<close>

type_synonym ('a, 's, 'r) free_func = "'a \<Rightarrow> 's \<Rightarrow> 'r \<times> 's"

type_synonym ('a, 's, 'r) mem_func = "nat \<Rightarrow> 'a \<Rightarrow> 's \<Rightarrow> 'r \<times> 's"

type_synonym ('a, 's, 'r) const_mem_func = "nat \<Rightarrow> 'a \<Rightarrow> 's \<Rightarrow> 'r"

datatype ('a, 's, 'r) wrapper =
  FreeWrapper "('a, 's, 'r) free_func"
| MemberWrapper "('a, 's, 'r) mem_func"
| ConstMemberWrapper "('a, 's, 'r) const_mem_func"

record ('a, 's, 'r) function_object =
  func :: "('a, 's, 'r) wrapper option"
  obj :: nat

definition Function :: "('a, 's, 'r) function_object" where
  "Function = \<lparr>func = None, obj = 0\<rparr>"

definition copy_Function :: "('a, 's, 'r) function_object \<Rightarrow> ('a, 's, 'r) function_object" where
  "copy_Function rhs = \<lparr>func = func rhs, obj = obj rhs\<rparr>"

definition assign_NullFunction :: "('a, 's, 'r) function_object \<Rightarrow> ('a, 's, 'r) function_object" where
  "assign_NullFunction f = f\<lparr>func := None, obj := 0\<rparr>"

definition assign_Function ::
    "('a, 's, 'r) function_object \<Rightarrow> ('a, 's, 'r) function_object \<Rightarrow> ('a, 's, 'r) function_object" where
  "assign_Function f rhs = f\<lparr>func := func rhs, obj := obj rhs\<rparr>"

fun call_wrapper :: "('a, 's, 'r) wrapper \<Rightarrow> nat \<Rightarrow> 'a \<Rightarrow> 's \<Rightarrow> 'r \<times> 's" where
  "call_wrapper (FreeWrapper f) ob a s = f a s"
| "call_wrapper (MemberWrapper f) ob a s = f ob a s"
| "call_wrapper (ConstMemberWrapper f) ob a s = (f ob a s, s)"

text \<open>\<open>operator()\<close>: None for a call through a null pointer.\<close>

definition call_function :: "('a, 's, 'r) function_object \<Rightarrow> 'a \<Rightarrow> 's \<Rightarrow> ('r \<times> 's) option" where
  "call_function f a s = map_option (\<lambda>w. call_wrapper w (obj f) a s) (func f)"

definition function_bool :: "('a, 's, 'r) function_object \<Rightarrow> bool" where
  "function_bool f \<longleftrightarrow> func f \<noteq> None"

definition bind_free :: "('a, 's, 'r) free_func \<Rightarrow> ('a, 's, 'r) function_object" where
  "bind_free f = \<lparr>func = Some (FreeWrapper f), obj = 0\<rparr>"

definition bind_member :: "('a, 's, 'r) mem_func \<Rightarrow> nat \<Rightarrow> ('a, 's, 'r) function_object" where
  "bind_member f ob = \<lparr>func = Some (MemberWrapper f), obj = ob\<rparr>"

definition bind_const_member :: "('a, 's, 'r) const_mem_func \<Rightarrow> nat \<Rightarrow> ('a, 's, 'r) function_object" where
  "bind_const_member f ob = \<lparr>func = Some (ConstMemberWrapper f), obj = ob\<rparr>"

section \<open>What it gives\<close>

text \<open>A bound function is called as itself; a value is true exactly when it can be called; copies and assigned
  values are equal to what they were made from, so they call the same function on the same object.\<close>

named_theorems function_defs

lemmas [function_defs] = Function_def copy_Function_def assign_NullFunction_def assign_Function_def call_function_def
  function_bool_def bind_free_def bind_member_def bind_const_member_def

lemma bound_calls:
  "call_function (bind_free g) a s = Some (g a s)"
  "call_function (bind_member m ob) a s = Some (m ob a s)"
  "call_function (bind_const_member c ob) a s = Some (c ob a s, s)"
  by (simp_all add: function_defs)

lemma callable_iff_true: "function_bool f \<longleftrightarrow> (\<forall>a s. call_function f a s \<noteq> None)"
  by (simp add: function_defs)

lemma copies_are_equal: "copy_Function (f :: ('a, 's, 'r) function_object) = f" "assign_Function g f = f"
  "assign_NullFunction f = Function" "\<not> function_bool Function"
  by (simp_all add: function_defs)

text \<open>A chain of calls of one value, as of a callback that is stored once: it behaves as the member function called
  on its object each time, with the state handed on.\<close>

fun calls :: "('a, 's, 'r) function_object \<Rightarrow> 'a list \<Rightarrow> 's \<Rightarrow> ('r list \<times> 's) option" where
  "calls f [] s = Some ([], s)"
| "calls f (a # as) s =
     (case call_function f a s of
        None \<Rightarrow> None
      | Some (r, s1) \<Rightarrow> map_option (\<lambda>(rs, s2). (r # rs, s2)) (calls f as s1))"

lemma const_member_keeps_state: "calls (bind_const_member c ob) as s = Some (map (\<lambda>a. c ob a s) as, s)"
  by (induction as) (simp_all add: bound_calls)

end
