(* ===== verification/SystemCalls.thy ===== *)
theory SystemCalls
  imports StringUtil
begin

text \<open>
  The components that only call the operating system: \<^verbatim>\<open>src/src/brickred/system.cc\<close>,
  \<^verbatim>\<open>src/src/brickred/base_logger.{h,cc}\<close> and \<^verbatim>\<open>src/src/brickred/log_stderr_sink.cc\<close>. The system is a parameter:
  a function from the calls made so far and the next call to its answer. The calls made are returned in a
  list, so "what the program did" is a statement about this list.
\<close>

section \<open>The system\<close>

datatype std_stream = Stdin | Stdout | Stderr

datatype os_call =
  Os_fork
| Os_exit int
| Os_setsid
| Os_chdir bytes
| Os_freopen bytes bytes std_stream
| Os_fopen bytes bytes
| Os_getpid
| Os_fprintf int bytes
| Os_fclose int
| Os_sigaction int nat
| Os_fwrite bytes std_stream

text \<open>The answer is the return value; for \<open>fopen\<close> and \<open>freopen\<close> a null pointer is 0, for \<open>sigaction\<close> the
  second component is the handler that was installed before.\<close>

type_synonym os = "os_call list \<Rightarrow> os_call \<Rightarrow> int \<times> nat"

definition os_do :: "os \<Rightarrow> os_call \<Rightarrow> os_call list \<Rightarrow> int \<times> os_call list" where
  "os_do k call h = (fst (k h call), h @ [call])"

text \<open>A chain of calls, each with the result on which the function gives up.\<close>

fun os_chain :: "os \<Rightarrow> (os_call \<times> (int \<Rightarrow> bool)) list \<Rightarrow> os_call list \<Rightarrow> bool \<times> os_call list" where
  "os_chain k [] h = (True, h)"
| "os_chain k ((call, failed) # cs) h =
     (let (r, h1) = os_do k call h in if failed r then (False, h1) else os_chain k cs h1)"

section \<open>system\<close>

text \<open>\<open>daemon\<close>: None for the parent, which leaves the program inside the call.\<close>

definition daemon_setup :: "bool \<Rightarrow> bool \<Rightarrow> (os_call \<times> (int \<Rightarrow> bool)) list" where
  "daemon_setup change_dir close_stdio =
     [(Os_setsid, \<lambda>r. r = -1)] @
     (if change_dir then [(Os_chdir (str ''/''), \<lambda>r. r \<noteq> 0)] else []) @
     (if close_stdio
      then [(Os_freopen (str ''/dev/null'') (str ''r'') Stdin, \<lambda>r. r = 0),
            (Os_freopen (str ''/dev/null'') (str ''w'') Stdout, \<lambda>r. r = 0),
            (Os_freopen (str ''/dev/null'') (str ''w'') Stderr, \<lambda>r. r = 0)]
      else [])"

definition daemon :: "os \<Rightarrow> bool \<Rightarrow> bool \<Rightarrow> os_call list \<Rightarrow> bool option \<times> os_call list" where
  "daemon k change_dir close_stdio h =
     (let (pid, h1) = os_do k Os_fork h
      in if pid = -1 then (Some False, h1)
         else if pid \<noteq> 0 then (None, snd (os_do k (Os_exit 0) h1))
         else let (ok, h2) = os_chain k (daemon_setup change_dir close_stdio) h1 in (Some ok, h2))"

text \<open>\<open>toString\<close> is \<open>%d\<close> of an \<open>int\<close>.\<close>

definition createPidFile :: "os \<Rightarrow> bytes \<Rightarrow> os_call list \<Rightarrow> bool \<times> os_call list" where
  "createPidFile k file h =
     (let (fp, h1) = os_do k (Os_fopen file (str ''w'')) h
      in if fp = 0 then (False, h1)
         else let (pid, h2) = os_do k Os_getpid h1;
                  (_, h3) = os_do k (Os_fprintf fp (toString pid @ [10])) h2;
                  (_, h4) = os_do k (Os_fclose fp) h3
              in (True, h4))"

text \<open>\<open>signal\<close>: None is \<open>SIG_ERR\<close>.\<close>

definition system_signal :: "os \<Rightarrow> int \<Rightarrow> nat \<Rightarrow> os_call list \<Rightarrow> nat option \<times> os_call list" where
  "system_signal k signum sighandler h =
     (let (r, old) = k h (Os_sigaction signum sighandler);
          h1 = h @ [Os_sigaction signum sighandler]
      in if r \<noteq> 0 then (None, h1) else (Some old, h1))"

text \<open>What \<open>daemon\<close> reports is what happened: it returns true in the child only, when no call failed.\<close>

lemma os_chain_true:
  "os_chain k cs h = (True, h') \<Longrightarrow> h' = h @ map fst cs \<and>
    (\<forall>i < length cs. \<not> snd (cs ! i) (fst (k (h @ map fst (take i cs)) (fst (cs ! i)))))"
proof (induction cs arbitrary: h)
  case Nil
  then show ?case by simp
next
  case (Cons c cs)
  obtain call failed where c: "c = (call, failed)" by (cases c) blast
  have ok: "\<not> failed (fst (k h call))" and rest: "os_chain k cs (h @ [call]) = (True, h')"
    using Cons.prems by (auto simp: c os_do_def Let_def split: if_splits)
  show ?case
    using Cons.IH [OF rest] ok by (auto simp: c less_Suc_eq_0_disj)
qed

lemma os_chain_false:
  "os_chain k cs h = (False, h') \<Longrightarrow> \<exists>i < length cs. h' = h @ map fst (take (Suc i) cs) \<and>
    snd (cs ! i) (fst (k (h @ map fst (take i cs)) (fst (cs ! i))))"
proof (induction cs arbitrary: h)
  case Nil
  then show ?case by simp
next
  case (Cons c cs)
  obtain call failed where c: "c = (call, failed)" by (cases c) blast
  show ?case
  proof (cases "failed (fst (k h call))")
    case True
    then show ?thesis using Cons.prems by (intro exI [of _ 0]) (simp add: c os_do_def)
  next
    case False
    then have "os_chain k cs (h @ [call]) = (False, h')" using Cons.prems by (simp add: c os_do_def)
    from Cons.IH [OF this] obtain i where "i < length cs" "h' = h @ [call] @ map fst (take (Suc i) cs)"
      "snd (cs ! i) (fst (k ((h @ [call]) @ map fst (take i cs)) (fst (cs ! i))))" by auto
    then show ?thesis by (intro exI [of _ "Suc i"]) (simp add: c)
  qed
qed

theorem daemon_reports:
  assumes "daemon k change_dir close_stdio h = (r, h')"
  shows "case r of
      None \<Rightarrow> h' = h @ [Os_fork, Os_exit 0] \<and> fst (k h Os_fork) \<notin> {-1, 0}
    | Some True \<Rightarrow> h' = h @ Os_fork # map fst (daemon_setup change_dir close_stdio) \<and> fst (k h Os_fork) = 0
    | Some False \<Rightarrow> h' = h @ [Os_fork] \<and> fst (k h Os_fork) = -1 \<or>
        (\<exists>i < length (daemon_setup change_dir close_stdio).
           h' = h @ Os_fork # map fst (take (Suc i) (daemon_setup change_dir close_stdio)))"
proof -
  let ?cs = "daemon_setup change_dir close_stdio"
  obtain ok h2 where chain: "os_chain k ?cs (h @ [Os_fork]) = (ok, h2)" by (metis surj_pair)
  show ?thesis
    using assms chain os_chain_true [of k ?cs "h @ [Os_fork]" h2] os_chain_false [of k ?cs "h @ [Os_fork]" h2]
    by (cases ok) (fastforce simp: daemon_def os_do_def split: if_splits)+
qed

lemma createPidFile_writes:
  assumes "createPidFile k file h = (ok, h')" and "fst (k h (Os_fopen file (str ''w''))) = fp" and "fp \<noteq> 0"
    and "fst (k (h @ [Os_fopen file (str ''w'')]) Os_getpid) = pid"
  shows "ok \<and> h' = h @ [Os_fopen file (str ''w''), Os_getpid, Os_fprintf fp (toString pid @ [10]), Os_fclose fp]"
  using assms by (auto simp: createPidFile_def os_do_def Let_def)

text \<open>\<open>createPidFile\<close> looks at \<open>fopen\<close> only: it reports success although nothing was written.\<close>

lemma createPidFile_ignores_write:
  assumes "\<And>h m. fst (k h (Os_fopen file m)) \<noteq> 0" and "\<And>h fp t. fst (k h (Os_fprintf fp t)) < 0"
  shows "fst (createPidFile k file h)"
  using assms(1) by (simp add: createPidFile_def os_do_def Let_def)

section \<open>BaseLogger\<close>

text \<open>The levels and the function that writes a message of a level; \<open>text\<close> is what \<open>vfprintf\<close> makes of
  the format and the arguments. The macro \<open>BRICKRED_BUILD_ENABLE_BASE_LOG\<close> is defined or not.\<close>

datatype base_level = DEBUG | WARNING | ERROR

fun base_level_value :: "base_level \<Rightarrow> int" where
  "base_level_value DEBUG = 0"
| "base_level_value WARNING = 1"
| "base_level_value ERROR = 2"

definition log_level_string :: "string list" where
  "log_level_string = [''DEBUG'', ''INFO'', ''WARNING'', ''ERROR'']"

definition defaultLogFunc :: "int \<Rightarrow> bytes \<Rightarrow> bytes" where
  "defaultLogFunc level msg =
     (if level < 0 \<or> level \<ge> 3 then []
      else str ''['' @ str (log_level_string ! nat level) @ str ''] '' @ msg @ [10])"

type_synonym base_logger = "int \<Rightarrow> bytes \<Rightarrow> bytes"

definition BaseLogger :: base_logger where
  "BaseLogger = defaultLogFunc"

definition base_setLogFunc :: "(int \<Rightarrow> bytes \<Rightarrow> bytes) \<Rightarrow> base_logger \<Rightarrow> base_logger" where
  "base_setLogFunc log_func g = log_func"

definition base_log :: "bool \<Rightarrow> base_logger \<Rightarrow> int \<Rightarrow> bytes \<Rightarrow> bytes" where
  "base_log enabled g level msg = (if enabled then g level msg else [])"

text \<open>The table has four names and the enumeration three levels: only \<open>DEBUG\<close> is written under its name.\<close>

lemma base_logger_names:
  "base_log True BaseLogger (base_level_value DEBUG) msg = str ''[DEBUG] '' @ msg @ [10]"
  "base_log True BaseLogger (base_level_value WARNING) msg = str ''[INFO] '' @ msg @ [10]"
  "base_log True BaseLogger (base_level_value ERROR) msg = str ''[WARNING] '' @ msg @ [10]"
proof -
  have "defaultLogFunc n msg = str (''['' @ (log_level_string ! nat n) @ ''] '') @ msg @ [10]" if "0 \<le> n" "n < 3" for n
    using that by (simp add: defaultLogFunc_def str_def)
  from this [of 0] this [of 1] this [of 2] show
    "base_log True BaseLogger (base_level_value DEBUG) msg = str ''[DEBUG] '' @ msg @ [10]"
    "base_log True BaseLogger (base_level_value WARNING) msg = str ''[INFO] '' @ msg @ [10]"
    "base_log True BaseLogger (base_level_value ERROR) msg = str ''[WARNING] '' @ msg @ [10]"
    by (simp_all add: base_log_def BaseLogger_def log_level_string_def del: str_simps)
qed

lemma base_logger_ranges:
  "base_log True BaseLogger level msg \<noteq> [] \<longleftrightarrow> (\<exists>l. level = base_level_value l)"
proof -
  have "0 \<le> level \<and> level < 3" if "level = base_level_value l" for l using that by (cases l) simp_all
  moreover have "\<exists>l. level = base_level_value l" if "0 \<le> level \<and> level < 3"
  proof -
    have "level = base_level_value DEBUG \<or> level = base_level_value WARNING \<or> level = base_level_value ERROR"
      using that by auto
    then show ?thesis by blast
  qed
  ultimately have "(\<exists>l. level = base_level_value l) \<longleftrightarrow> 0 \<le> level \<and> level < 3" by blast
  then show ?thesis by (simp add: base_log_def BaseLogger_def defaultLogFunc_def not_le)
qed

section \<open>LogStderrSink\<close>

text \<open>\<open>log\<close> writes what it is given in one call and does not look at the result.\<close>

definition stderr_sink_log :: "os \<Rightarrow> bytes \<Rightarrow> os_call list \<Rightarrow> os_call list" where
  "stderr_sink_log k buffer h = snd (os_do k (Os_fwrite buffer Stderr) h)"

end
