(* ===== verification/Spec2Isabelle.thy ===== *)
theory Spec2Isabelle
  imports TimerDue Url Base64 Sha CommandLineOption HttpRoundtrip WebSocketHandshake WebSocketFrames RandomMT
    SocketAddress TcpReceive HttpConnection EchoServer LoopTimers MessageQueue SelfPipe UdpSocket LogAsyncRun
    LogToFile Synchronization UniquePtr FunctionObject SystemCalls
begin

text \<open>
  Verification development for brickred-server, the core library of a C++ game server
  (\<^verbatim>\<open>src/src/brickred\<close>).

  \<^bold>\<open>The program.\<close> A server runs one or more event loops. An \<open>IOService\<close> (\<^verbatim>\<open>io_service.cc\<close>) waits with
  \<open>epoll\<close> for events of the \<open>IODevice\<close>s attached to it (\<^verbatim>\<open>io_device.cc\<close>), calls their callbacks and fires
  the timers of its \<open>TimerHeap\<close> (\<^verbatim>\<open>timer_heap.cc\<close>), whose deadlines are \<open>Timestamp\<close>s. A \<open>TcpService\<close>
  (\<^verbatim>\<open>tcp_service.cc\<close>) keeps the listening, connecting and connected \<open>TcpSocket\<close>s of a loop, with a read and a
  write \<open>DynamicBuffer\<close> for each connection, and tells the application by callbacks. The protocols under
  \<^verbatim>\<open>protocol\<close> (HTTP, WebSocket) parse the bytes of a read buffer and write messages to a connection. Threads
  talk to a loop through \<open>MessageQueue\<close> and \<open>SignalQueue\<close>, a \<open>ConcurrentQueue\<close> and a \<open>SelfPipe\<close>. The log
  functions, the codecs, the random numbers, the addresses and the options of the command line are used by
  everything.

  \<^bold>\<open>The theories\<close>, in the order of their imports, with the code they model.

  \<^item> \<open>Prelude\<close>: bytes, words, \<open>size_t\<close> arithmetic, big-endian integers; \<open>DecimalText\<close>, \<open>OrderedMap\<close>,
    \<open>ArrayHeap\<close>: decimal numbers, \<open>std::map\<close> with a comparison object, heap order in an array.
  \<^item> \<open>DynamicBuffer\<close>, \<open>FreshBuffer\<close> (\<^verbatim>\<open>dynamic_buffer.cc\<close>). The record has the four members. \<open>db_content\<close> is
    the abstract value; the locale \<open>byte_fifo\<close> is the contract of a byte queue and is interpreted on the
    buffer.
  \<^item> \<open>TimeStamp\<close>, \<open>TimerHeap\<close>, \<open>TimerDue\<close> (\<^verbatim>\<open>timestamp.cc\<close>, \<^verbatim>\<open>timer_heap.cc\<close>). Timers are objects in a store, the
    heap is the vector of their addresses, each timer knows its position. The callbacks are an argument: a
    function on the heap and a state of the application. The locale \<open>due_queue\<close> is what the firing loop
    relies on.
  \<^item> \<open>Codec\<close>, \<open>Base64\<close>, \<open>Url\<close>, \<open>HashBlock\<close>, \<open>Sha\<close> (\<^verbatim>\<open>codec\<close>), \<open>StringUtil\<close>, \<open>CommandLineOption\<close>, \<open>RandomMT\<close>,
    \<open>SocketAddress\<close>: one theory for each source file. The locale \<open>buffered_codec\<close> is a loop that writes
    into a buffer of limited size, \<open>block_hasher\<close> a hash over blocks, \<open>strict_weak_order\<close> what \<open>std::map\<close>
    asks of its comparison.
  \<^item> \<open>StatusMachine\<close>, \<open>HttpMessage\<close>, \<open>HttpProtocol\<close>, \<open>HttpRoundtrip\<close>, \<open>WebSocket\<close>, \<open>WebSocketFrames\<close>,
    \<open>WebSocketHandshake\<close> (\<^verbatim>\<open>protocol\<close>). The parsers work on the readable bytes of their buffer; what a
    protocol sends is the list of what its output callback was given. The locale \<open>status_machine\<close> is the
    receiving loop: its law is that a handler given less of the input waits or does the same, as long as it
    does not read behind what it was given (\<open>safe\<close>, which depends on the status).
  \<^item> \<open>IODevice\<close>, \<open>IOService\<close>, \<open>TcpSocket\<close>, \<open>UdpSocket\<close>, \<open>SelfPipe\<close> (with \<open>SignalQueue\<close>). The state is a store of
    device objects and the history of kernel calls. The kernel is an argument: a function from the history
    and the call to the answer. \<open>kernel_ok\<close> says what POSIX promises of it: results in range, \<open>send\<close> and
    \<open>recv\<close> not more than asked for. A use of a freed device sets a flag, \<open>w_fault\<close>.
  \<^item> \<open>TcpService\<close>: the maps and objects of the service and every handler; the application is an argument, a
    function from the callback and the state to the state. \<open>DeviceSafety\<close>, \<open>TcpSafety\<close>, \<open>TcpHandlers\<close>: the
    invariant that sockets and connections in the maps are live objects with the right ids, kept by every
    step whatever the callbacks do through the interface. \<open>TcpLoop\<close>: the rounds of the event loop.
    \<open>TcpStream\<close>, \<open>TcpReceive\<close>: the bytes of a connection.
  \<^item> \<open>QueueContract\<close>, \<open>ConcurrentQueue\<close>, \<open>MessageQueue\<close>, \<open>LogAsyncSink\<close>, \<open>LogAsyncSafety\<close>, \<open>LogAsyncRun\<close> (with
    \<open>ObjectPool\<close>), \<open>Thread\<close>. A member function is the list of its instructions, and a run is any interleaving
    of the instructions of the threads. \<open>ConcurrentQueue\<close> is modelled down to the mutex and the condition
    variables; the locale \<open>queue_user\<close> is its contract, interpreted on the class and on the two classes that
    use it, in which the operations of the queue are single steps.
  \<^item> \<open>LogCore\<close>, \<open>LogFileSink\<close>: the loggers and their sinks, the file of a time.
  \<^item> \<open>HttpConnection\<close>, \<open>LoopTimers\<close>, \<open>LogToFile\<close>: components together. A message written by the HTTP writer
    goes through the kernel and the read buffer of a connection into the HTTP parser; the event loop waits no
    longer than to the next deadline of its timer heap; the texts of many threads go through an asynchronous
    sink into a file sink. \<open>EchoServer\<close> (\<^verbatim>\<open>src/src/test/echo_server.cc\<close>): an application of \<open>TcpService\<close>.
  \<^item> \<open>Synchronization\<close> (\<^verbatim>\<open>mutex.cc\<close>, \<^verbatim>\<open>condition_variable.cc\<close>), \<open>UniquePtr\<close>, \<open>FunctionObject\<close> (\<^verbatim>\<open>function.h\<close>),
    \<open>SystemCalls\<close> (\<^verbatim>\<open>system.cc\<close>, \<^verbatim>\<open>base_logger.cc\<close>, \<^verbatim>\<open>log_stderr_sink.cc\<close>): the wrappers of the language and
    the system, over arguments for pthread and the operating system, with the failures as values.

  \<^bold>\<open>What is shown.\<close>

  \<^item> The network: for applications that keep two conditions, no deleted socket or connection is used in any
    run and the maps stay consistent (C1); the bytes of a connection: what \<open>sendMessage\<close> does with a message,
    that write events drain the write buffer in order, that a read event ends and appends what arrived (C2 to
    C4); a message sent over a connection is parsed at the other end however it arrives (C5); the echo server
    sends what it received while the connection stays open and no direct send is taken in part (C6), and keeps
    the conditions of C1 (\<open>echo_server_polite\<close>). The code sends bytes twice after a partial
    direct send; C2 states the behaviour it has, the lemma \<open>partial_send_repeats\<close> shows the defect.
  \<^item> Threads: the queue refines a bounded queue and loses no wake-up, all messages and log texts arrive, in
    the files too as far as \<open>fopen\<close> succeeds, a thread is joined once (C7 to C12).
  \<^item> Buffers and timers: the byte queue, its bounds, the integers (C13 to C15); the heap and its firing
    loop, its termination, how \<open>removeTimer\<close> can break the heap order, and how long the event loop sleeps,
    on a heap in order with a deadline near enough for an \<open>int\<close> (C16 to C22).
  \<^item> Codecs and text: equality with RFC 4648 and the padded block hash, round trips, splitting and
    replacing, options (from \<open>Base64\<close> to \<open>CommandLineOption\<close>).
  \<^item> Protocols: the HTTP parser does not depend on how its input is cut, except behind the line of the last
    chunk, where it compares bytes that may not have arrived, and reads back what the writer writes; a
    WebSocket handshake completes at both ends, messages (of a client: up to 1016 bytes) arrive complete and in
    order, nothing is sent after a close.
  \<^item> Random numbers and addresses: the recurrence of MT19937, ranges, no access outside the array of the
    state or the key; native and text form of an address.
  \<^item> Not numbered: a \<open>UniquePtr\<close> deletes each object once and none is lost (\<open>unique_ptr_deletes_once\<close>), a
    \<open>LockGuard\<close> releases its mutex however its block ends (\<open>guard_releases\<close>), \<open>daemon\<close> reports what
    happened (\<open>daemon_reports\<close>), and the lemmas that show the defects found.

  \<^bold>\<open>Bounds and fuel.\<close> No definition runs on fuel. A loop that may not end (the firing loop, the loops of
  read events, the event loop) is \<open>while_option\<close> or a relation, where None is a call that does not
  return; that it returns is proved (C4, C19) or the exact exception is shown (\<open>zero_timeout_diverges\<close>).
  \<open>db_limit\<close> is \<open>2^62\<close> bytes, below which no size of a buffer wraps; the read events assume buffers below
  \<open>2^60\<close>. Heap indices and the number of ids are taken not to overflow.

  \<^bold>\<open>Not modelled.\<close> Memory exhaustion (\<open>std::bad_alloc\<close>), except where the code tests for it.
  Callbacks are identified by a number or are arguments of the handlers, not function objects; ownership is
  explicit in the states. The queues and threads use the documented behaviour of the mutex and condition
  variables, not the exceptions of \<open>Synchronization\<close>. The classes that only forward to their \<open>Impl\<close> class, the
  messages to \<open>BaseLogger\<close>, the macros of \<^verbatim>\<open>class_util.h\<close> and \<^verbatim>\<open>exception.h\<close> have no logic of their own. The
  programs under \<^verbatim>\<open>src/src/test\<close> other than the echo server print what the library computes.
\<close>

end
